(* ===== verification/Prelude.thy ===== *)
theory Prelude
  imports Main "HOL-Library.Multiset" "HOL-Library.Product_Lexorder"
    "HOL-Library.List_Lexorder" "HOL-Library.Char_ord"
begin

text \<open>
  Shared ground of the development: Go's machine integers, decimal rendering, the sorting
  routines of the Go library as the program uses them, and the generic lemmas on lists and
  multisets that the component theories rest on.

  The locale \<open>keyed_less\<close> is the contract between a comparison function handed to
  \<open>sort.Slice\<close> or \<open>sort.SliceStable\<close> and the order it is meant to describe; every
  comparison of the program interprets it once.
\<close>

named_theorems op_simps "unfolding rules for the small operations of the model"
named_theorems inv_intros "introduction rules for the invariants of the components"

section \<open>Machine integers\<close>

text \<open>
  A Go \<open>int64\<close> is an integer of the model; the places where the code adds to one write the
  wrap-around out with \<open>wrap64\<close>.
\<close>

type_synonym int64 = int

definition max_int64 :: int64 where
  "max_int64 = 9223372036854775807"

definition min_int64 :: int64 where
  "min_int64 = - 9223372036854775808"

definition wrap64 :: "int \<Rightarrow> int64" where
  "wrap64 x = (x + 9223372036854775808) mod 18446744073709551616 - 9223372036854775808"

lemma wrap64_id: "min_int64 \<le> x \<Longrightarrow> x \<le> max_int64 \<Longrightarrow> wrap64 x = x"
  by (simp add: wrap64_def min_int64_def max_int64_def)

lemma wrap64_bounds: "min_int64 \<le> wrap64 x" "wrap64 x \<le> max_int64"
proof -
  have "0 \<le> (x + 9223372036854775808) mod 18446744073709551616"
    and "(x + 9223372036854775808) mod 18446744073709551616 < 18446744073709551616"
    by simp_all
  then show "min_int64 \<le> wrap64 x" "wrap64 x \<le> max_int64"
    by (simp_all add: wrap64_def min_int64_def max_int64_def)
qed

section \<open>Decimal rendering\<close>

text \<open>The \<open>%d\<close> verb of \<open>fmt\<close>.\<close>

definition digit :: "nat \<Rightarrow> char" where
  "digit n = (char_of (48 + n) :: char)"

fun show_nat :: "nat \<Rightarrow> string" where
  "show_nat n = (if n < 10 then [digit n] else show_nat (n div 10) @ [digit (n mod 10)])"

declare show_nat.simps [simp del]

definition show_int :: "int \<Rightarrow> string" where
  "show_int i = (if i < 0 then CHR ''-'' # show_nat (nat (- i)) else show_nat (nat i))"

lemma digit_inj: "a < 10 \<Longrightarrow> b < 10 \<Longrightarrow> digit a = digit b \<Longrightarrow> a = b"
proof -
  assume "a < 10" "b < 10" "digit a = digit b"
  then have "(of_char (digit a) :: nat) = of_char (digit b)" by simp
  then show "a = b" using \<open>a < 10\<close> \<open>b < 10\<close> by (simp add: digit_def)
qed

lemma show_nat_neq_Nil [simp]: "show_nat n \<noteq> []"
  by (subst show_nat.simps) simp

lemma show_nat_last: "last (show_nat n) = digit (n mod 10)"
  by (subst show_nat.simps) simp

lemma show_nat_butlast: "butlast (show_nat n) = (if n < 10 then [] else show_nat (n div 10))"
  by (subst show_nat.simps) simp

lemma show_nat_inj: "show_nat a = show_nat b \<Longrightarrow> a = b"
proof (induction a arbitrary: b rule: less_induct)
  case (less a)
  from less.prems have "digit (a mod 10) = digit (b mod 10)"
    by (metis show_nat_last)
  then have m: "a mod 10 = b mod 10" by (intro digit_inj) auto
  from less.prems have bl: "butlast (show_nat a) = butlast (show_nat b)" by simp
  show ?case
  proof (cases "a < 10")
    case True
    with bl have "b < 10" by (auto simp: show_nat_butlast split: if_splits dest: sym)
    with True m show ?thesis by simp
  next
    case False
    with bl have b: "\<not> b < 10" and "show_nat (a div 10) = show_nat (b div 10)"
      by (auto simp: show_nat_butlast split: if_splits)
    moreover from False have "a div 10 < a" by simp
    ultimately have "a div 10 = b div 10" using less.IH by blast
    with m show ?thesis by (metis div_mult_mod_eq)
  qed
qed

lemma digit_set: "c \<in> set (show_nat n) \<Longrightarrow> \<exists>d < 10. c = digit d"
proof (induction n rule: show_nat.induct)
  case (1 n)
  then show ?case
    by (subst (asm) show_nat.simps) (auto split: if_splits intro: exI [of _ n] exI [of _ "n mod 10"])
qed

section \<open>Sorting\<close>

text \<open>
  \<open>sort.SliceStable\<close> with a comparison that is a strict weak order has one possible result,
  which insertion into a sorted tail computes. \<open>sort.Slice\<close> is not stable; the program calls it
  only on elements that its comparison tells apart, or where equal elements are
  indistinguishable, and then the result is the same.
\<close>

fun insert_by :: "('a \<Rightarrow> 'a \<Rightarrow> bool) \<Rightarrow> 'a \<Rightarrow> 'a list \<Rightarrow> 'a list" where
  "insert_by lt x [] = [x]"
| "insert_by lt x (y # ys) = (if lt y x then y # insert_by lt x ys else x # y # ys)"

definition stable_sort :: "('a \<Rightarrow> 'a \<Rightarrow> bool) \<Rightarrow> 'a list \<Rightarrow> 'a list" where
  "stable_sort lt xs = foldr (insert_by lt) xs []"

locale keyed_less =
  fixes lt :: "'a \<Rightarrow> 'a \<Rightarrow> bool" and key :: "'a \<Rightarrow> 'k::linorder"
  assumes less_key: "lt a b \<longleftrightarrow> key a < key b"
begin

lemma insert_by_key: "insert_by lt x ys = insort_key key x ys"
  by (induction ys) (auto simp: less_key not_less)

lemma sort_eq: "stable_sort lt xs = sort_key key xs"
proof -
  have "insert_by lt = insort_key key" by (rule ext)+ (rule insert_by_key)
  then show ?thesis by (simp add: stable_sort_def sort_key_def)
qed

lemma mset_sort_by [simp]: "mset (stable_sort lt xs) = mset xs"
  by (simp add: sort_eq)

lemma set_sort_by [simp]: "set (stable_sort lt xs) = set xs"
  by (simp add: sort_eq)

lemma length_sort_by [simp]: "length (stable_sort lt xs) = length xs"
  by (simp add: sort_eq)

lemma distinct_sort_by [simp]: "distinct (stable_sort lt xs) = distinct xs"
  by (simp add: sort_eq)

lemma sorted_sort_by: "sorted (map key (stable_sort lt xs))"
  by (simp add: sort_eq)

lemma sorted_wrt_sort_by: "sorted_wrt (\<lambda>a b. \<not> lt b a) (stable_sort lt xs)"
  using sorted_sort_by [of xs] by (simp add: sorted_map less_key not_less)

lemma sort_by_id: "sorted (map key xs) \<Longrightarrow> stable_sort lt xs = xs"
  by (simp add: sort_eq sort_key_id_if_sorted)

end

text \<open>\<open>sort.Strings\<close>: byte-wise lexicographic order.\<close>

definition string_less :: "string \<Rightarrow> string \<Rightarrow> bool" where
  "string_less a b \<longleftrightarrow> a < b"

definition sort_strings :: "string list \<Rightarrow> string list" where
  "sort_strings = stable_sort string_less"

interpretation string_order: keyed_less string_less "\<lambda>s. s"
  by unfold_locales (simp add: string_less_def)

lemma sort_strings_simps [simp]:
  "mset (sort_strings xs) = mset xs" "set (sort_strings xs) = set xs"
  "distinct (sort_strings xs) = distinct xs" "length (sort_strings xs) = length xs"
  by (simp_all add: sort_strings_def)

lemma sorted_sort_strings: "sorted (sort_strings xs)"
  using string_order.sorted_sort_by [of xs] by (simp add: sort_strings_def)

section \<open>Lists and multisets\<close>

text \<open>The order in which values first occur, as a Go loop with a \<open>seen\<close> map collects them.\<close>

fun first_seen :: "'a list \<Rightarrow> 'a list \<Rightarrow> 'a list" where
  "first_seen seen [] = []"
| "first_seen seen (x # xs) =
     (if x \<in> set seen then first_seen seen xs else x # first_seen (x # seen) xs)"

lemma set_first_seen [simp]: "set (first_seen seen xs) = set xs - set seen"
  by (induction seen xs rule: first_seen.induct) auto

lemma distinct_first_seen [simp]: "distinct (first_seen seen xs)"
  by (induction seen xs rule: first_seen.induct) auto

lemma mset_map_ex:
  assumes "mset ys = mset (map f xs)"
  shows "\<exists>zs. mset zs = mset xs \<and> map f zs = ys"
  using assms
proof (induction ys arbitrary: xs)
  case Nil
  then show ?case by simp
next
  case (Cons y ys)
  then have "y \<in># mset (map f xs)" by (metis list.set_intros(1) set_mset_mset)
  then obtain x where x: "x \<in> set xs" "y = f x" by auto
  from x(1) have m: "mset xs = add_mset x (mset (remove1 x xs))"
    by (simp only: mset_remove1 insert_DiffM set_mset_mset)
  then have "mset (map f xs) = add_mset (f x) (mset (map f (remove1 x xs)))"
    by (simp only: mset_map image_mset_add_mset)
  with Cons.prems have "add_mset y (mset ys) = add_mset y (mset (map f (remove1 x xs)))"
    unfolding mset.simps x(2) by (rule trans)
  then have "mset ys = mset (map f (remove1 x xs))"
    by (rule add_mset_add_mset_same_iff [THEN iffD1])
  from Cons.IH [OF this] obtain zs where zs: "mset zs = mset (remove1 x xs)" "map f zs = ys"
    by blast
  from zs(1) m have "mset (x # zs) = mset xs" by (simp only: mset.simps)
  moreover from zs(2) x(2) have "map f (x # zs) = y # ys" by (simp only: list.map)
  ultimately show ?case by (intro exI [of _ "x # zs"] conjI)
qed

lemma mset_eq_set_distinct:
  "mset xs = mset ys \<Longrightarrow> distinct ys \<Longrightarrow> distinct xs \<and> set xs = set ys"
  by (metis mset_eq_setD mset_eq_imp_distinct_iff)

lemma sorted_wrt_symp_mset:
  assumes "symp R"
  shows "sorted_wrt R xs \<longleftrightarrow> (\<forall>x \<in># mset xs. \<forall>y \<in># mset xs - {#x#}. R x y)"
proof (induction xs)
  case Nil
  then show ?case by simp
next
  case (Cons a xs)
  have "(\<forall>x \<in># mset (a # xs). \<forall>y \<in># mset (a # xs) - {#x#}. R x y) \<longleftrightarrow>
      (\<forall>y \<in> set xs. R a y) \<and> (\<forall>x \<in># mset xs. \<forall>y \<in># mset xs - {#x#}. R x y)"
    (is "?L \<longleftrightarrow> ?A \<and> ?B")
  proof (intro iffI conjI ballI)
    fix y assume L: ?L and "y \<in> set xs"
    then show "R a y" by simp
  next
    fix x y assume L: ?L and x: "x \<in># mset xs" and y: "y \<in># mset xs - {#x#}"
    from x y have "y \<in># mset (a # xs) - {#x#}" by (auto simp: multi_member_split)
    moreover from x have "x \<in># mset (a # xs)" by simp
    ultimately show "R x y" using L by blast
  next
    fix x y assume AB: "?A \<and> ?B" and x: "x \<in># mset (a # xs)" and y: "y \<in># mset (a # xs) - {#x#}"
    show "R x y"
    proof (cases "x = a")
      case True
      with y AB show ?thesis by simp
    next
      case False
      with x have x': "x \<in># mset xs" by simp
      have "mset (a # xs) - {#x#} = add_mset a (mset xs - {#x#})"
        unfolding mset.simps using False by (intro diff_union_swap [symmetric])
      with y have "y = a \<or> y \<in># mset xs - {#x#}" by simp
      then show ?thesis
      proof
        assume "y = a"
        with AB x' have "R y x" by simp
        with assms show ?thesis by (rule sympD)
      next
        assume "y \<in># mset xs - {#x#}"
        with AB x' show ?thesis by blast
      qed
    qed
  qed
  with Cons show ?case by simp
qed

lemma sorted_wrt_symp_perm:
  "symp R \<Longrightarrow> mset xs = mset ys \<Longrightarrow> sorted_wrt R xs \<longleftrightarrow> sorted_wrt R ys"
  by (simp add: sorted_wrt_symp_mset)

lemma sorted_wrt_symp_nth:
  "symp R \<Longrightarrow> sorted_wrt R xs \<Longrightarrow> i < length xs \<Longrightarrow> j < length xs \<Longrightarrow> i \<noteq> j \<Longrightarrow> R (xs ! i) (xs ! j)"
  by (metis linorder_neqE_nat sorted_wrt_nth_less sympD)

lemma sorted_wrt_map_mono:
  "sorted_wrt R xs \<Longrightarrow> (\<And>x y. x \<in> set xs \<Longrightarrow> y \<in> set xs \<Longrightarrow> R x y \<Longrightarrow> Q (f x) (f y)) \<Longrightarrow> sorted_wrt Q (map f xs)"
  by (simp add: sorted_wrt_map) (rule sorted_wrt_mono_rel)

end
