(* ===== verification/History.thy ===== *)
theory History
  imports Prelude
begin

text \<open>
  Package \<open>history\<close> (\<open>internal/history/history.go\<close>): what one recorded client operation is, the
  structural check \<open>Validate\<close> a history has to pass, and the operations that sort, split and
  filter it. The wire form of an operation is in the theory \<open>Wire\<close>.
\<close>

section \<open>Operations\<close>

text \<open>
  \<open>Kind\<close> and \<open>Outcome\<close> are \<open>uint8\<close> enumerations: three named values each, and a last constructor
  for every other byte, which the \<open>default\<close> branches of the code handle.
\<close>

datatype Kind = Read | Write | CAS | Kind_other nat

fun Kind_String :: "Kind \<Rightarrow> string" where
  "Kind_String Read = ''read''"
| "Kind_String Write = ''write''"
| "Kind_String CAS = ''cas''"
| "Kind_String (Kind_other n) = ''kind('' @ show_nat n @ '')''"

datatype history_error =
    UnknownKind string
  | UnknownOutcome string
  | NoProcess
  | NoInvoke
  | WriteNeedsValue
  | CasNeedsBoth
  | ReadNeedsObserved
  | CasNeedsSwapped
  | NeedsComplete string

definition ParseKind :: "string \<Rightarrow> history_error + Kind" where
  "ParseKind s =
     (if s = ''read'' then Inr Read
      else if s = ''write'' then Inr Write
      else if s = ''cas'' then Inr CAS
      else Inl (UnknownKind s))"

datatype Outcome = OK | Fail | Info | Outcome_other nat

fun Outcome_String :: "Outcome \<Rightarrow> string" where
  "Outcome_String OK = ''ok''"
| "Outcome_String Fail = ''fail''"
| "Outcome_String Info = ''info''"
| "Outcome_String (Outcome_other n) = ''outcome('' @ show_nat n @ '')''"

definition ParseOutcome :: "string \<Rightarrow> history_error + Outcome" where
  "ParseOutcome s =
     (if s = ''ok'' then Inr OK
      else if s = ''fail'' then Inr Fail
      else if s = ''info'' then Inr Info
      else Inl (UnknownOutcome s))"

definition Pending :: int64 where
  "Pending = max_int64"

record Op =
  Process :: int
  Key :: string
  OpKind :: Kind
  Value :: int
  From :: int
  To :: int
  Observed :: int
  Swapped :: bool
  Outcome :: Outcome
  Invoke :: int64
  Complete :: int64
  Err :: string

type_synonym History = "Op list"

text \<open>
  The model's timestamps are unbounded integers; \<open>int64_op\<close> states what their Go type says of
  them, that they are \<open>int64\<close> values.
\<close>

definition int64_op :: "Op \<Rightarrow> bool" where
  "int64_op op \<longleftrightarrow>
     min_int64 \<le> Invoke op \<and> Invoke op \<le> max_int64 \<and>
     min_int64 \<le> Complete op \<and> Complete op \<le> max_int64"

lemma int64_op_Pending: "int64_op op \<Longrightarrow> Invoke op \<le> Pending \<and> Complete op \<le> Pending"
  by (simp add: int64_op_def Pending_def)

definition Concurrent :: "Op \<Rightarrow> Op \<Rightarrow> bool" where
  "Concurrent p q \<longleftrightarrow> Invoke p < Complete q \<and> Invoke q < Complete p"

section \<open>Sorting, splitting, filtering\<close>

text \<open>The comparison of \<open>SortByInvoke\<close>: by invocation, ties by process.\<close>

definition invoke_less :: "Op \<Rightarrow> Op \<Rightarrow> bool" where
  "invoke_less a b \<longleftrightarrow>
     (if Invoke a \<noteq> Invoke b then Invoke a < Invoke b else Process a < Process b)"

definition SortByInvoke :: "History \<Rightarrow> History" where
  "SortByInvoke h = stable_sort invoke_less h"

definition Keys :: "History \<Rightarrow> string list" where
  "Keys h = sort_strings (first_seen [] (map Key h))"

text \<open>
  \<open>ByKey\<close> appends each operation to the slice of its key; what the map holds for a key is the
  operations of that key in their order. A key not in the map reads as the nil slice.
\<close>

fun byKey_loop :: "(string \<Rightarrow> History) \<Rightarrow> History \<Rightarrow> (string \<Rightarrow> History)" where
  "byKey_loop out [] = out"
| "byKey_loop out (op # ops) = byKey_loop (out(Key op := out (Key op) @ [op])) ops"

definition ByKey :: "History \<Rightarrow> string \<Rightarrow> History" where
  "ByKey h = byKey_loop (\<lambda>_. []) h"

fun DropFailed :: "History \<Rightarrow> History" where
  "DropFailed [] = []"
| "DropFailed (op # ops) = (if Outcome op \<noteq> Fail then op # DropFailed ops else DropFailed ops)"

fun counts_loop :: "nat \<times> nat \<times> nat \<Rightarrow> History \<Rightarrow> nat \<times> nat \<times> nat" where
  "counts_loop c [] = c"
| "counts_loop (ok, failed, info) (op # ops) =
     counts_loop
       (case Outcome op of
          OK \<Rightarrow> (ok + 1, failed, info)
        | Fail \<Rightarrow> (ok, failed + 1, info)
        | Info \<Rightarrow> (ok, failed, info + 1)
        | Outcome_other _ \<Rightarrow> (ok, failed, info)) ops"

definition Counts :: "History \<Rightarrow> nat \<times> nat \<times> nat" where
  "Counts h = counts_loop (0, 0, 0) h"

interpretation invoke_order: keyed_less invoke_less "\<lambda>x. (Invoke x, Process x)"
  by unfold_locales (auto simp: invoke_less_def)

lemma SortByInvoke_simps [simp]:
  "mset (SortByInvoke h) = mset h" "set (SortByInvoke h) = set h"
  "length (SortByInvoke h) = length h"
  by (simp_all add: SortByInvoke_def)

lemma SortByInvoke_Nil_iff [simp]: "SortByInvoke h = [] \<longleftrightarrow> h = []"
  by (metis SortByInvoke_simps(3) length_0_conv)

lemma SortByInvoke_sorted: "sorted (map Invoke (SortByInvoke h))"
proof -
  have "sorted (map (\<lambda>x. (Invoke x, Process x)) (SortByInvoke h))"
    unfolding SortByInvoke_def by (rule invoke_order.sorted_sort_by)
  then show ?thesis
    unfolding sorted_map by (rule sorted_wrt_mono_rel [rotated]) auto
qed

lemma SortByInvoke_idem: "SortByInvoke (SortByInvoke h) = SortByInvoke h"
  unfolding SortByInvoke_def
  by (rule invoke_order.sort_by_id) (rule invoke_order.sorted_sort_by)

lemma SortByInvoke_stable:
  "filter (\<lambda>x. Invoke x = t \<and> Process x = p) (SortByInvoke h) =
   filter (\<lambda>x. Invoke x = t \<and> Process x = p) h"
  using sort_key_stable [of "\<lambda>x. (Invoke x, Process x)" "(t, p)" h]
  by (simp add: SortByInvoke_def invoke_order.sort_eq)

lemma set_Keys [simp]: "set (Keys h) = Key ` set h"
  by (simp add: Keys_def)

lemma distinct_Keys [simp]: "distinct (Keys h)"
  by (simp add: Keys_def)

lemma sorted_Keys: "sorted (Keys h)"
  by (simp add: Keys_def sorted_sort_strings)

lemma byKey_loop_eq: "byKey_loop out h k = out k @ filter (\<lambda>x. Key x = k) h"
  by (induction h arbitrary: out) simp_all

lemma ByKey_eq: "ByKey h k = filter (\<lambda>x. Key x = k) h"
  by (simp add: ByKey_def byKey_loop_eq)

lemma DropFailed_eq: "DropFailed h = filter (\<lambda>x. Outcome x \<noteq> Fail) h"
  by (induction h) auto

lemma counts_loop_eq:
  "counts_loop (a, b, c) h =
     (a + length (filter (\<lambda>x. Outcome x = OK) h),
      b + length (filter (\<lambda>x. Outcome x = Fail) h),
      c + length (filter (\<lambda>x. Outcome x = Info) h))"
  by (induction h arbitrary: a b c) (auto split: Outcome.split)

lemma Counts_eq:
  "Counts h =
     (length (filter (\<lambda>x. Outcome x = OK) h), length (filter (\<lambda>x. Outcome x = Fail) h),
      length (filter (\<lambda>x. Outcome x = Info) h))"
  by (simp add: Counts_def counts_loop_eq)

end
