(* ===== verification/Seq_Model.thy ===== *)
theory Seq_Model
  imports History
begin

text \<open>
  Package \<open>model\<close> (\<open>internal/model/model.go\<close>): the sequential specifications a history is checked
  against. A \<open>Model\<close> is a record of its methods; the checker's theories take one as an argument,
  over any state type. The locale \<open>sequential_model\<close> states what the checker relies on of a model
  beyond its type: that an indeterminate operation, which carries no answer, is accepted or
  refused whatever the state, and that forgetting an operation's answer keeps its effect.
\<close>

record 's model =
  m_Name :: string
  m_Init :: 's
  m_Step :: "'s \<Rightarrow> Op \<Rightarrow> 's \<times> bool"
  m_Describe :: "'s \<Rightarrow> string"
  m_Explain :: "'s \<Rightarrow> Op \<Rightarrow> string"

text \<open>
  A \<open>State\<close> is an opaque interface value. The register models hold an \<open>int\<close> in it and refuse
  anything else, which is what the second constructor stands for.
\<close>

datatype State = IntState int | OtherState string

fun show_State :: "State \<Rightarrow> string" where
  "show_State (IntState v) = show_int v"
| "show_State (OtherState v) = v"

definition InitialValue :: int where
  "InitialValue = 0"

section \<open>The compare-and-swap register\<close>

definition CASRegister_Step :: "State \<Rightarrow> Op \<Rightarrow> State \<times> bool" where
  "CASRegister_Step s op =
     (case s of
        OtherState _ \<Rightarrow> (s, False)
      | IntState v \<Rightarrow>
          let known = (Outcome op = OK) in
          (case OpKind op of
             Read \<Rightarrow>
               if known \<and> Observed op \<noteq> v then (s, False) else (IntState v, True)
           | Write \<Rightarrow> (IntState (Value op), True)
           | CAS \<Rightarrow>
               let swapped = (v = From op) in
               if known \<and> Swapped op \<noteq> swapped then (s, False)
               else if swapped then (IntState (To op), True)
               else (IntState v, True)
           | Kind_other _ \<Rightarrow> (s, False)))"

definition CASRegister_Explain :: "State \<Rightarrow> Op \<Rightarrow> string" where
  "CASRegister_Explain s op =
     (case OpKind op of
        Read \<Rightarrow> ''read returned '' @ show_int (Observed op) @ '', but the register held '' @
                show_State s @ '' at that point''
      | CAS \<Rightarrow>
          if Swapped op
          then ''cas reported it swapped '' @ show_int (From op) @ '' to '' @ show_int (To op) @
               '', but the register held '' @ show_State s
          else ''cas reported it did not swap because the register was not '' @
               show_int (From op) @ '', but it held '' @ show_State s
      | k \<Rightarrow> Kind_String k @ '' does not fit a register holding '' @ show_State s)"

definition CASRegister :: "State model" where
  "CASRegister =
     \<lparr>m_Name = ''cas-register'', m_Init = IntState InitialValue, m_Step = CASRegister_Step,
      m_Describe = show_State, m_Explain = CASRegister_Explain\<rparr>"

section \<open>The plain register\<close>

definition Register_Step :: "State \<Rightarrow> Op \<Rightarrow> State \<times> bool" where
  "Register_Step s op = (if OpKind op = CAS then (s, False) else CASRegister_Step s op)"

definition Register_Explain :: "State \<Rightarrow> Op \<Rightarrow> string" where
  "Register_Explain s op =
     (if OpKind op = CAS
      then ''this history contains compare-and-swap, which the plain register model does not describe; use -model cas-register''
      else CASRegister_Explain s op)"

definition Register :: "State model" where
  "Register =
     \<lparr>m_Name = ''register'', m_Init = IntState InitialValue, m_Step = Register_Step,
      m_Describe = show_State, m_Explain = Register_Explain\<rparr>"

definition All_models :: "State model list" where
  "All_models = [CASRegister, Register]"

datatype model_error = UnknownModel string

definition ByName :: "string \<Rightarrow> model_error + State model" where
  "ByName name =
     (case find (\<lambda>m. m_Name m = name) All_models of
        Some m \<Rightarrow> Inr m
      | None \<Rightarrow> Inl (UnknownModel name))"

lemmas model_defs = CASRegister_def Register_def

lemma model_fields [simp]:
  "m_Init CASRegister = IntState 0" "m_Step CASRegister = CASRegister_Step"
  "m_Init Register = IntState 0" "m_Step Register = Register_Step"
  by (simp_all add: model_defs InitialValue_def)

lemma CASRegister_Step_int:
  "CASRegister_Step (IntState v) op =
     (case OpKind op of
        Read \<Rightarrow> if Outcome op = OK \<and> Observed op \<noteq> v then (IntState v, False) else (IntState v, True)
      | Write \<Rightarrow> (IntState (Value op), True)
      | CAS \<Rightarrow> if Outcome op = OK \<and> Swapped op \<noteq> (v = From op) then (IntState v, False)
               else (IntState (if v = From op then To op else v), True)
      | Kind_other _ \<Rightarrow> (IntState v, False))"
  by (simp add: CASRegister_Step_def Let_def split: Kind.split)

section \<open>The contract of a model\<close>

definition downgrade :: "Op \<Rightarrow> Op" where
  "downgrade op = op\<lparr>Outcome := Info, Complete := Pending\<rparr>"

lemma downgrade_simps [simp]:
  "Outcome (downgrade op) = Info" "Complete (downgrade op) = Pending"
  "Invoke (downgrade op) = Invoke op" "Process (downgrade op) = Process op"
  "Key (downgrade op) = Key op" "OpKind (downgrade op) = OpKind op"
  "From (downgrade op) = From op" "To (downgrade op) = To op" "Value (downgrade op) = Value op"
  "downgrade (downgrade op) = downgrade op"
  by (simp_all add: downgrade_def)

locale sequential_model =
  fixes m :: "'s model" and good :: "'s \<Rightarrow> bool"
  assumes good_init: "good (m_Init m)"
    and good_step: "good s \<Longrightarrow> m_Step m s op = (s', True) \<Longrightarrow> good s'"
    and info_step: "good s \<Longrightarrow> good t \<Longrightarrow> Outcome op = Info \<Longrightarrow> snd (m_Step m s op) = snd (m_Step m t op)"
    and forget_step: "m_Step m s op = (s', True) \<Longrightarrow> m_Step m s (downgrade op) = (s', True)"

definition is_IntState :: "State \<Rightarrow> bool" where
  "is_IntState s \<longleftrightarrow> (\<exists>v. s = IntState v)"

lemma Step_is_IntState: "CASRegister_Step s op = (s', True) \<Longrightarrow> is_IntState s'"
  by (cases s)
    (auto simp: CASRegister_Step_def Let_def is_IntState_def split: Kind.splits if_splits)

lemma Step_info: "Outcome op = Info \<Longrightarrow>
    CASRegister_Step (IntState v) op =
      (case OpKind op of
         Read \<Rightarrow> (IntState v, True)
       | Write \<Rightarrow> (IntState (Value op), True)
       | CAS \<Rightarrow> (IntState (if v = From op then To op else v), True)
       | Kind_other _ \<Rightarrow> (IntState v, False))"
  by (simp add: CASRegister_Step_int split: Kind.split)

lemma Step_forget: "CASRegister_Step s op = (s', True) \<Longrightarrow> CASRegister_Step s (downgrade op) = (s', True)"
  by (cases s) (auto simp: CASRegister_Step_def Let_def split: Kind.splits if_splits)

interpretation cas_model: sequential_model CASRegister is_IntState
proof unfold_locales
  show "is_IntState (m_Init CASRegister)" by (simp add: is_IntState_def)
  fix s t s' op
  show "m_Step CASRegister s op = (s', True) \<Longrightarrow> is_IntState s'" by (simp add: Step_is_IntState)
  show "is_IntState s \<Longrightarrow> is_IntState t \<Longrightarrow> Outcome op = Info \<Longrightarrow>
      snd (m_Step CASRegister s op) = snd (m_Step CASRegister t op)"
    by (auto simp: is_IntState_def Step_info split: Kind.split)
  show "m_Step CASRegister s op = (s', True) \<Longrightarrow> m_Step CASRegister s (downgrade op) = (s', True)"
    by (simp add: Step_forget)
qed

interpretation reg_model: sequential_model Register is_IntState
proof unfold_locales
  show "is_IntState (m_Init Register)" by (simp add: is_IntState_def)
  fix s t s' op
  show "m_Step Register s op = (s', True) \<Longrightarrow> is_IntState s'"
    by (auto simp: Register_Step_def Step_is_IntState split: if_splits)
  show "is_IntState s \<Longrightarrow> is_IntState t \<Longrightarrow> Outcome op = Info \<Longrightarrow>
      snd (m_Step Register s op) = snd (m_Step Register t op)"
    by (auto simp: is_IntState_def Register_Step_def Step_info split: Kind.split)
  show "m_Step Register s op = (s', True) \<Longrightarrow> m_Step Register s (downgrade op) = (s', True)"
    by (auto simp: Register_Step_def Step_forget split: if_splits)
qed

end
