(* ===== verification/Linearizability.thy ===== *)
theory Linearizability
  imports Seq_Model
begin

text \<open>
  The abstract specification of the checker: what it means for a set of operations to be
  linearizable against a sequential model. The definition names no algorithm; it is the sentence
  at the top of \<open>internal/checker/checker.go\<close>: some total order of the operations obeys the model
  and respects real time, so that an operation which completed before another was invoked comes
  first.
\<close>

section \<open>The specification\<close>

definition precedes :: "Op \<Rightarrow> Op \<Rightarrow> bool" where
  "precedes a b \<longleftrightarrow> Complete a \<le> Invoke b"

definition real_time :: "Op list \<Rightarrow> bool" where
  "real_time ops \<longleftrightarrow> sorted_wrt (\<lambda>a b. \<not> precedes b a) ops"

fun replay :: "'s model \<Rightarrow> 's \<Rightarrow> Op list \<Rightarrow> 's option" where
  "replay m s [] = Some s"
| "replay m s (op # ops) =
     (case m_Step m s op of (s', ok) \<Rightarrow> if ok then replay m s' ops else None)"

definition linearization :: "'s model \<Rightarrow> History \<Rightarrow> Op list \<Rightarrow> 's \<Rightarrow> bool" where
  "linearization m ops seq s \<longleftrightarrow>
     mset seq = mset ops \<and> real_time seq \<and> replay m (m_Init m) seq = Some s"

definition linearizable :: "'s model \<Rightarrow> History \<Rightarrow> bool" where
  "linearizable m ops \<longleftrightarrow> (\<exists>seq s. linearization m ops seq s)"

lemma linearizable_perm: "mset h = mset h' \<Longrightarrow> linearizable m h \<longleftrightarrow> linearizable m h'"
  by (simp add: linearizable_def linearization_def)

lemma replay_append:
  "replay m s (xs @ ys) = (case replay m s xs of None \<Rightarrow> None | Some t \<Rightarrow> replay m t ys)"
  by (induction xs arbitrary: s) (auto split: prod.split)

lemma real_time_append:
  "real_time (xs @ ys) \<longleftrightarrow> real_time xs \<and> real_time ys \<and> (\<forall>a \<in> set xs. \<forall>b \<in> set ys. \<not> precedes b a)"
  by (auto simp: real_time_def sorted_wrt_append)

lemma real_time_Cons:
  "real_time (a # xs) \<longleftrightarrow> (\<forall>b \<in> set xs. \<not> precedes b a) \<and> real_time xs"
  by (simp add: real_time_def)

lemma real_time_filter: "real_time xs \<Longrightarrow> real_time (filter P xs)"
  by (simp add: real_time_def sorted_wrt_filter)

lemma mset_pair:
  assumes "mset \<sigma> = mset [a, b]"
  shows "\<sigma> = [a, b] \<or> \<sigma> = [b, a]"
proof -
  have "length \<sigma> = 2" using assms by (metis length_Cons list.size(3) numeral_2_eq_2 size_mset)
  then obtain x y where xy: "\<sigma> = [x, y]" by (auto simp: length_Suc_conv numeral_2_eq_2)
  then have "x = a \<and> y = b \<or> x = b \<and> y = a" using assms by (auto simp: add_eq_conv_ex)
  with xy show ?thesis by auto
qed

text \<open>Two operations of which one is over before the other begins leave no choice.\<close>

lemma linearizable_pair:
  assumes "linearizable m [a, b]" "precedes a b"
  shows "replay m (m_Init m) [a, b] \<noteq> None"
proof -
  obtain \<sigma> s where \<sigma>: "mset \<sigma> = mset [a, b]" "real_time \<sigma>" "replay m (m_Init m) \<sigma> = Some s"
    using assms(1) by (auto simp: linearizable_def linearization_def)
  from mset_pair [OF \<sigma>(1)] have "\<sigma> = [a, b]" using \<sigma>(2) assms(2) by (auto simp: real_time_def)
  with \<sigma>(3) show ?thesis by auto
qed

section \<open>The same over indices\<close>

text \<open>
  The search works on indices into the slice of operations. \<open>completes m ops R s t\<close>: the
  operations numbered by \<open>R\<close>, from model state \<open>s\<close>, can be placed in an order that respects real
  time and ends in \<open>t\<close>. Its one-step unfolding is what a search explores.
\<close>

definition completes :: "'s model \<Rightarrow> History \<Rightarrow> nat set \<Rightarrow> 's \<Rightarrow> 's \<Rightarrow> bool" where
  "completes m ops R s t \<longleftrightarrow>
     (\<exists>\<sigma>. distinct \<sigma> \<and> set \<sigma> = R \<and> real_time (map ((!) ops) \<sigma>) \<and>
          replay m s (map ((!) ops) \<sigma>) = Some t)"

definition minimal :: "History \<Rightarrow> nat set \<Rightarrow> nat \<Rightarrow> bool" where
  "minimal ops R i \<longleftrightarrow> (\<forall>j \<in> R - {i}. \<not> precedes (ops ! j) (ops ! i))"

lemma completes_empty: "completes m ops {} s t \<longleftrightarrow> s = t"
  by (auto simp: completes_def real_time_def)

lemma completes_step:
  assumes "i \<in> R" "minimal ops R i" "m_Step m s (ops ! i) = (s', True)" "completes m ops (R - {i}) s' t"
  shows "completes m ops R s t"
proof -
  from assms(4) obtain \<sigma> where
    \<sigma>: "distinct \<sigma>" "set \<sigma> = R - {i}" "real_time (map ((!) ops) \<sigma>)"
       "replay m s' (map ((!) ops) \<sigma>) = Some t"
    by (auto simp: completes_def)
  have "distinct (i # \<sigma>)" "set (i # \<sigma>) = R" using \<sigma> assms(1) by auto
  moreover have "real_time (map ((!) ops) (i # \<sigma>))"
    using \<sigma> assms(2) by (auto simp: real_time_Cons minimal_def)
  moreover have "replay m s (map ((!) ops) (i # \<sigma>)) = Some t" using \<sigma> assms(3) by simp
  ultimately show ?thesis unfolding completes_def by blast
qed

lemma completes_cases:
  assumes "completes m ops R s t"
  obtains (finished) "R = {}" "s = t"
    | (placed) i s' where "i \<in> R" "minimal ops R i" "m_Step m s (ops ! i) = (s', True)"
        "completes m ops (R - {i}) s' t"
proof -
  from assms obtain \<sigma> where
    \<sigma>: "distinct \<sigma>" "set \<sigma> = R" "real_time (map ((!) ops) \<sigma>)" "replay m s (map ((!) ops) \<sigma>) = Some t"
    by (auto simp: completes_def)
  show thesis
  proof (cases \<sigma>)
    case Nil
    with \<sigma> finished show thesis by simp
  next
    case (Cons i \<tau>)
    obtain s' ok where st: "m_Step m s (ops ! i) = (s', ok)" by fastforce
    with \<sigma> Cons have ok: "ok" and r: "replay m s' (map ((!) ops) \<tau>) = Some t"
      by (auto split: if_splits)
    have "set \<tau> = R - {i}" "distinct \<tau>" using \<sigma> Cons by auto
    with \<sigma> Cons r have "completes m ops (R - {i}) s' t"
      unfolding completes_def by (auto simp: real_time_Cons)
    moreover have "minimal ops R i"
      using \<sigma> Cons \<open>set \<tau> = R - {i}\<close> by (auto simp: minimal_def real_time_Cons)
    moreover have "i \<in> R" using \<sigma> Cons by auto
    moreover have "m_Step m s (ops ! i) = (s', True)" using st ok by simp
    ultimately show thesis by (intro placed)
  qed
qed

lemma linearization_completes:
  "(\<exists>seq. linearization m ops seq t) \<longleftrightarrow> completes m ops {..<length ops} (m_Init m) t"
proof
  assume "\<exists>seq. linearization m ops seq t"
  then obtain seq where seq: "mset seq = mset ops" "real_time seq" "replay m (m_Init m) seq = Some t"
    by (auto simp: linearization_def)
  have "mset seq = mset (map ((!) ops) [0..<length ops])" by (simp only: seq(1) map_nth)
  from mset_map_ex [OF this] obtain \<sigma> where
    \<sigma>: "mset \<sigma> = mset [0..<length ops]" "map ((!) ops) \<sigma> = seq" by blast
  from mset_eq_set_distinct [OF \<sigma>(1)] have "distinct \<sigma>" "set \<sigma> = {..<length ops}"
    by (auto simp: atLeast_upt)
  with \<sigma>(2) seq show "completes m ops {..<length ops} (m_Init m) t"
    unfolding completes_def by blast
next
  assume "completes m ops {..<length ops} (m_Init m) t"
  then obtain \<sigma> where \<sigma>: "distinct \<sigma>" "set \<sigma> = {..<length ops}" "real_time (map ((!) ops) \<sigma>)"
      "replay m (m_Init m) (map ((!) ops) \<sigma>) = Some t"
    by (auto simp: completes_def)
  have "mset \<sigma> = mset [0..<length ops]"
    using \<sigma>(1,2) by (metis atLeast_upt distinct_upt set_eq_iff_mset_eq_distinct)
  then have "mset (map ((!) ops) \<sigma>) = mset (map ((!) ops) [0..<length ops])"
    by (simp only: mset_map)
  then have "mset (map ((!) ops) \<sigma>) = mset ops" by (simp only: map_nth)
  with \<sigma> show "\<exists>seq. linearization m ops seq t" unfolding linearization_def by blast
qed

lemma linearizable_completes:
  "linearizable m ops \<longleftrightarrow> (\<exists>t. completes m ops {..<length ops} (m_Init m) t)"
  unfolding linearizable_def linearization_completes [symmetric] by blast

end
