(* ===== verification/Entry_List.thy ===== *)
theory Entry_List
  imports Linearizability "HOL-Library.Monad_Syntax"
begin

text \<open>
  The doubly-linked list of call and return entries (\<open>internal/checker/checker.go\<close>): the order of
  the entries, the list \<open>buildEntries\<close> lays out behind its sentinel, and \<open>lift\<close> and \<open>unlift\<close>,
  which take an operation's two entries out and put them back.

  Entries are mutable and shared, so they live in a store from addresses to entries. A pointer is
  an address or nil, and following nil is a panic, \<open>None\<close> here. The entries of operation \<open>i\<close> are
  at \<open>2 * i\<close> (call) and \<open>2 * i + 1\<close> (return), as in the \<open>nodes\<close> slice; the sentinel is at \<open>2 * n\<close>.
\<close>

section \<open>Entries and their order\<close>

type_synonym ptr = nat

record entry =
  e_op :: "Op option"
  e_id :: int
  e_isReturn :: bool
  e_match :: "ptr option"
  e_prev :: "ptr option"
  e_next :: "ptr option"

type_synonym heap = "ptr \<Rightarrow> entry"

text \<open>Called on call and return entries only, whose operation is set.\<close>

definition position :: "entry \<Rightarrow> int64 \<times> int" where
  "position e =
     (let op = the (e_op e); instant = (Complete op = Invoke op) in
      if e_isReturn e then
        (if instant then (Complete op, 1) else (Complete op, 0))
      else if instant then (Invoke op, 1)
      else (Invoke op, 2))"

definition entryLess :: "entry \<Rightarrow> entry \<Rightarrow> bool" where
  "entryLess a b =
     (case position a of (at, ap) \<Rightarrow> case position b of (bt, bp) \<Rightarrow>
        if at \<noteq> bt then at < bt
        else if ap \<noteq> bp then ap < bp
        else if e_id a \<noteq> e_id b then e_id a < e_id b
        else \<not> e_isReturn a \<and> e_isReturn b)"

definition set_next :: "heap \<Rightarrow> ptr \<Rightarrow> ptr option \<Rightarrow> heap" where
  "set_next h p q = h(p := (h p)\<lparr>e_next := q\<rparr>)"

definition set_prev :: "heap \<Rightarrow> ptr \<Rightarrow> ptr option \<Rightarrow> heap" where
  "set_prev h p q = h(p := (h p)\<lparr>e_prev := q\<rparr>)"

text \<open>The entries before they are linked: two for each operation, and the sentinel.\<close>

definition nodes :: "History \<Rightarrow> heap" where
  "nodes ops p =
     (if p < 2 * length ops then
        \<lparr>e_op = Some (ops ! (p div 2)), e_id = int (p div 2), e_isReturn = odd p,
         e_match = Some (if even p then p + 1 else p - 1), e_prev = None, e_next = None\<rparr>
      else \<lparr>e_op = None, e_id = -1, e_isReturn = False, e_match = None, e_prev = None, e_next = None\<rparr>)"

definition entry_order :: "History \<Rightarrow> ptr list" where
  "entry_order ops = stable_sort (\<lambda>a b. entryLess (nodes ops a) (nodes ops b)) [0..<2 * length ops]"

fun link :: "heap \<Rightarrow> ptr \<Rightarrow> ptr list \<Rightarrow> heap" where
  "link h prev [] = h"
| "link h prev (e # es) = link (set_prev (set_next h prev (Some e)) e (Some prev)) e es"

definition head_ptr :: "History \<Rightarrow> ptr" where
  "head_ptr ops = 2 * length ops"

definition buildEntries :: "History \<Rightarrow> heap" where
  "buildEntries ops = link (nodes ops) (head_ptr ops) (entry_order ops)"

section \<open>Taking an operation out and putting it back\<close>

definition lift :: "heap \<Rightarrow> ptr \<Rightarrow> heap option" where
  "lift h e = do {
     p \<leftarrow> e_prev (h e);
     let h = set_next h p (e_next (h e));
     q \<leftarrow> e_next (h e);
     let h = set_prev h q (e_prev (h e));
     m \<leftarrow> e_match (h e);
     mp \<leftarrow> e_prev (h m);
     let h = set_next h mp (e_next (h m));
     (case e_next (h m) of
        None \<Rightarrow> Some h
      | Some mq \<Rightarrow> Some (set_prev h mq (e_prev (h m))))
   }"

definition unlift :: "heap \<Rightarrow> ptr \<Rightarrow> heap option" where
  "unlift h e = do {
     m \<leftarrow> e_match (h e);
     mp \<leftarrow> e_prev (h m);
     let h = set_next h mp (Some m);
     let h = (case e_next (h m) of None \<Rightarrow> h | Some mq \<Rightarrow> set_prev h mq (Some m));
     p \<leftarrow> e_prev (h e);
     let h = set_next h p (Some e);
     q \<leftarrow> e_next (h e);
     Some (set_prev h q (Some e))
   }"

section \<open>The list a store holds\<close>

text \<open>\<open>chain h p xs\<close>: following \<open>next\<close> from \<open>p\<close> visits \<open>xs\<close> and ends, and \<open>prev\<close> leads back.\<close>

fun chain :: "heap \<Rightarrow> ptr \<Rightarrow> ptr list \<Rightarrow> bool" where
  "chain h p [] \<longleftrightarrow> e_next (h p) = None"
| "chain h p (x # xs) \<longleftrightarrow> e_next (h p) = Some x \<and> e_prev (h x) = Some p \<and> chain h x xs"

text \<open>What linking never changes.\<close>

definition same_static :: "heap \<Rightarrow> heap \<Rightarrow> bool" where
  "same_static h h' \<longleftrightarrow>
     (\<forall>p. e_op (h p) = e_op (h' p) \<and> e_id (h p) = e_id (h' p) \<and>
          e_isReturn (h p) = e_isReturn (h' p) \<and> e_match (h p) = e_match (h' p))"

lemma same_static_refl [simp]: "same_static h h"
  by (simp add: same_static_def)

lemma same_static_trans: "same_static a b \<Longrightarrow> same_static b c \<Longrightarrow> same_static a c"
  by (simp add: same_static_def)

lemma set_next_fields [simp]:
  "e_next (set_next h p q x) = (if x = p then q else e_next (h x))"
  "e_prev (set_next h p q x) = e_prev (h x)"
  "e_match (set_next h p q x) = e_match (h x)"
  "same_static h' (set_next h p q) = same_static h' h"
  by (auto simp: set_next_def same_static_def)

lemma set_prev_fields [simp]:
  "e_next (set_prev h p q x) = e_next (h x)"
  "e_prev (set_prev h p q x) = (if x = p then q else e_prev (h x))"
  "e_match (set_prev h p q x) = e_match (h x)"
  "same_static h' (set_prev h p q) = same_static h' h"
  by (auto simp: set_prev_def same_static_def)

lemma chain_frame:
  "(\<And>x. x \<in> set (p # xs) \<Longrightarrow> e_next (h' x) = e_next (h x)) \<Longrightarrow>
   (\<And>x. x \<in> set xs \<Longrightarrow> e_prev (h' x) = e_prev (h x)) \<Longrightarrow> chain h' p xs = chain h p xs"
  by (induction xs arbitrary: p) auto

lemma chain_prev: "chain h p (pre @ x # post) \<Longrightarrow> e_prev (h x) = Some (last (p # pre))"
  by (induction pre arbitrary: p) auto

lemma chain_pred_next: "chain h p (pre @ x # post) \<Longrightarrow> e_next (h (last (p # pre))) = Some x"
  by (induction pre arbitrary: p) auto

lemma chain_next:
  "chain h p (pre @ x # post) \<Longrightarrow> e_next (h x) = (case post of [] \<Rightarrow> None | q # _ \<Rightarrow> Some q)"
  by (induction pre arbitrary: p) (auto split: list.split)

lemma chain_succ_prev: "chain h p (pre @ x # q # post) \<Longrightarrow> e_prev (h q) = Some x"
  by (induction pre arbitrary: p) auto

lemma chain_head: "chain h p xs \<Longrightarrow> e_next (h p) = (case xs of [] \<Rightarrow> None | q # _ \<Rightarrow> Some q)"
  by (cases xs) auto

lemma link_static: "same_static h' (link h p es) = same_static h' h"
  by (induction es arbitrary: h p) auto

lemma link_frame:
  "x \<notin> set (p # es) \<Longrightarrow> e_next (link h p es x) = e_next (h x)"
  "x \<notin> set es \<Longrightarrow> e_prev (link h p es x) = e_prev (h x)"
  by (induction es arbitrary: h p) auto

lemma chain_link:
  "distinct (p # es) \<Longrightarrow> (\<And>x. x \<in> set (p # es) \<Longrightarrow> e_next (h x) = None) \<Longrightarrow> chain (link h p es) p es"
proof (induction es arbitrary: h p)
  case Nil
  then show ?case by simp
next
  case (Cons e es)
  let ?h = "set_prev (set_next h p (Some e)) e (Some p)"
  have "chain (link ?h e es) e es"
    using Cons.prems by (intro Cons.IH) auto
  moreover have "e_next (link ?h e es p) = Some e" "e_prev (link ?h e es e) = Some p"
    using Cons.prems(1) by (simp_all add: link_frame)
  ultimately show ?case by simp
qed

section \<open>One entry out, one entry in\<close>

definition unlink :: "heap \<Rightarrow> ptr \<Rightarrow> heap" where
  "unlink h x =
     (let h1 = set_next h (the (e_prev (h x))) (e_next (h x)) in
      case e_next (h x) of None \<Rightarrow> h1 | Some q \<Rightarrow> set_prev h1 q (e_prev (h x)))"

definition relink :: "heap \<Rightarrow> ptr \<Rightarrow> heap" where
  "relink h x =
     (let h1 = set_next h (the (e_prev (h x))) (Some x) in
      case e_next (h x) of None \<Rightarrow> h1 | Some q \<Rightarrow> set_prev h1 q (Some x))"

lemma unlink_static: "same_static h' (unlink h x) = same_static h' h"
  by (auto simp: unlink_def Let_def split: option.split)

lemma unlink_next: "e_next (unlink h x y) = (if y = the (e_prev (h x)) then e_next (h x) else e_next (h y))"
  by (auto simp: unlink_def Let_def split: option.split)

lemma unlink_prev: "e_prev (unlink h x y) = (if Some y = e_next (h x) then e_prev (h x) else e_prev (h y))"
  by (auto simp: unlink_def Let_def split: option.split)

lemma chain_unlink:
  "chain h p (pre @ x # post) \<Longrightarrow> distinct (p # pre @ x # post) \<Longrightarrow> chain (unlink h x) p (pre @ post)"
proof (induction pre arbitrary: p)
  case Nil
  show ?case
  proof (cases post)
    case Nil
    with Nil.prems show ?thesis by (simp add: unlink_next)
  next
    case (Cons q qs)
    with Nil.prems have "chain (unlink h x) q qs = chain h q qs"
      by (intro chain_frame) (auto simp: unlink_next unlink_prev)
    with Nil.prems Cons show ?thesis by (simp add: unlink_next unlink_prev)
  qed
next
  case (Cons y ys)
  from Cons.prems have c: "chain h y (ys @ x # post)" by simp
  have "chain (unlink h x) y (ys @ post)" using Cons by simp
  moreover have "the (e_prev (h x)) = last (y # ys)" using chain_prev [OF c] by simp
  moreover have "last (y # ys) \<noteq> p" using Cons.prems(2) by (metis (no_types) append_Cons distinct.simps(2) last_in_set list.discI set_append UnCI)
  moreover have "e_next (h x) \<noteq> Some y"
    using chain_next [OF c] Cons.prems(2) by (auto split: list.splits)
  ultimately show ?case using Cons.prems by (auto simp: unlink_next unlink_prev)
qed

lemma entry_eqI:
  "e_op a = e_op b \<Longrightarrow> e_id a = e_id b \<Longrightarrow> e_isReturn a = e_isReturn b \<Longrightarrow> e_match a = e_match b \<Longrightarrow>
   e_prev a = e_prev b \<Longrightarrow> e_next a = e_next b \<Longrightarrow> a = (b :: entry)"
  by simp

lemma heap_eqI:
  "same_static h h' \<Longrightarrow> (\<And>p. e_prev (h p) = e_prev (h' p)) \<Longrightarrow> (\<And>p. e_next (h p) = e_next (h' p)) \<Longrightarrow> h = h'"
  by (rule ext, rule entry_eqI) (simp_all add: same_static_def)

lemma relink_static: "same_static h' (relink h x) = same_static h' h"
  by (auto simp: relink_def Let_def split: option.split)

lemma relink_next: "e_next (relink h x y) = (if y = the (e_prev (h x)) then Some x else e_next (h y))"
  by (auto simp: relink_def Let_def split: option.split)

lemma relink_prev: "e_prev (relink h x y) = (if Some y = e_next (h x) then Some x else e_prev (h y))"
  by (auto simp: relink_def Let_def split: option.split)

lemma unlink_own:
  assumes "chain h p (pre @ x # post)" "distinct (p # pre @ x # post)"
  shows "e_prev (unlink h x x) = e_prev (h x)" "e_next (unlink h x x) = e_next (h x)"
proof -
  have "last (p # pre) \<noteq> x" using assms(2)
    by (metis (no_types) append_Cons disjoint_insert(1) distinct_append last_in_set list.discI list.simps(15))
  then show "e_next (unlink h x x) = e_next (h x)"
    using chain_prev [OF assms(1)] by (simp add: unlink_next)
  show "e_prev (unlink h x x) = e_prev (h x)"
    using chain_next [OF assms(1)] assms(2) by (auto simp: unlink_prev split: list.splits)
qed

lemma relink_unlink:
  assumes c: "chain h p (pre @ x # post)" and d: "distinct (p # pre @ x # post)"
  shows "relink (unlink h x) x = h"
proof (rule heap_eqI)
  note own = unlink_own [OF c d]
  show "same_static (relink (unlink h x) x) h"
    by (metis relink_static same_static_refl unlink_static same_static_def)
  fix y
  have pv: "the (e_prev (h x)) = last (p # pre)" using chain_prev [OF c] by simp
  show "e_next (relink (unlink h x) x y) = e_next (h y)"
    using chain_pred_next [OF c] by (simp add: relink_next unlink_next own pv)
  show "e_prev (relink (unlink h x) x y) = e_prev (h y)"
  proof (cases "Some y = e_next (h x)")
    case True
    then obtain qs where "post = y # qs"
      using chain_next [OF c] by (auto split: list.splits)
    with c have "e_prev (h y) = Some x" by (auto dest: chain_succ_prev)
    with True show ?thesis by (simp add: relink_prev own)
  next
    case False
    then show ?thesis by (simp add: relink_prev unlink_prev own)
  qed
qed

section \<open>\<open>lift\<close> and \<open>unlift\<close>\<close>

lemma lift_steps:
  assumes "e_prev (h e) = Some p" "h1 = set_next h p (e_next (h e))" "e_next (h1 e) = Some q"
    and "h2 = set_prev h1 q (e_prev (h1 e))" "e_match (h2 e) = Some m" "e_prev (h2 m) = Some mp"
    and "h3 = set_next h2 mp (e_next (h2 m))"
  shows "lift h e = (case e_next (h3 m) of None \<Rightarrow> Some h3 | Some mq \<Rightarrow> Some (set_prev h3 mq (e_prev (h3 m))))"
  using assms by (simp only: lift_def Let_def bind.bind_lunit)

lemma lift_unlink:
  assumes c: "chain h p (pre @ e # q # post)" and d: "distinct (p # pre @ e # q # post)"
    and m: "e_match (h e) = Some m" "m \<in> set (q # post)"
  shows "lift h e = Some (unlink (unlink h e) m)"
proof -
  have pv: "e_prev (h e) = Some (last (p # pre))" using chain_prev [OF c] .
  have nx: "e_next (h e) = Some q" using chain_next [OF c] by simp
  have ne: "last (p # pre) \<noteq> e" using d
    by (metis (no_types) append_Cons disjoint_insert(1) distinct_append last_in_set list.discI list.simps(15))
  have u: "unlink h e = set_prev (set_next h (last (p # pre)) (Some q)) q (Some (last (p # pre)))"
    by (simp add: unlink_def pv nx Let_def)
  have c1: "chain (unlink h e) p (pre @ q # post)" using chain_unlink [OF c d] .
  have "m \<in> set (pre @ q # post)" using m(2) by auto
  then obtain A B where AB: "pre @ q # post = A @ m # B" by (meson split_list)
  with c1 have c2: "chain (unlink h e) p (A @ m # B)" by simp
  have d2: "distinct (p # A @ m # B)" using d unfolding AB [symmetric] by auto
  have mp: "e_prev (unlink h e m) = Some (last (p # A))" using chain_prev [OF c2] .
  have lm: "last (p # A) \<noteq> m" using d2
    by (metis (no_types) append_Cons disjoint_insert(1) distinct_append last_in_set list.discI list.simps(15))
  let ?g = "unlink h e" and ?mp = "last (p # A)"
  let ?h1 = "set_next h (last (p # pre)) (Some q)" and ?h3 = "set_next ?g ?mp (e_next (?g m))"
  have "lift h e = (case e_next (?h3 m) of
      None \<Rightarrow> Some ?h3 | Some mq \<Rightarrow> Some (set_prev ?h3 mq (e_prev (?h3 m))))"
  proof (rule lift_steps [of h e "last (p # pre)" ?h1 q ?g m ?mp ?h3])
    show "e_prev (h e) = Some (last (p # pre))" by (rule pv)
    show "?h1 = set_next h (last (p # pre)) (e_next (h e))" by (simp only: nx)
    show "e_next (?h1 e) = Some q" unfolding set_next_fields using nx by (simp only: if_cancel)
    show "?g = set_prev ?h1 q (e_prev (?h1 e))" unfolding set_next_fields pv by (rule u)
    show "e_match (?g e) = Some m" unfolding u by (simp only: set_prev_fields set_next_fields m(1))
  qed (rule mp refl)+
  also have "\<dots> = Some (unlink ?g m)"
    using lm mp by (simp add: unlink_def [of ?g m] Let_def split: option.split)
  finally show ?thesis .
qed

lemma unlift_relink:
  assumes "e_match (h e) = Some m" "e_prev (h m) = Some mp" "mp \<noteq> m"
    and "e_prev (relink h m e) = Some p" "e_next (relink h m e) = Some q" "p \<noteq> e"
  shows "unlift h e = Some (relink (relink h m) e)"
proof -
  have r: "(case e_next (set_next h mp (Some m) m) of
      None \<Rightarrow> set_next h mp (Some m) | Some mq \<Rightarrow> set_prev (set_next h mp (Some m)) mq (Some m)) = relink h m"
    using assms(2,3) by (simp add: relink_def Let_def)
  have nx: "e_next (set_next (relink h m) p (Some e) e) = Some q" using assms by simp
  show ?thesis
    unfolding unlift_def Let_def using assms r nx
    by (simp add: relink_def [of "relink h m" e] Let_def del: set_next_fields(1))
qed

text \<open>
  Removing an operation from the list, and the exact restoration of the store by \<open>unlift\<close>. The
  call comes first in the list, its return somewhere after it.
\<close>

lemma lift_chain:
  assumes c: "chain h p (pre @ e # mid @ m # post)" and d: "distinct (p # pre @ e # mid @ m # post)"
    and m: "e_match (h e) = Some m"
  obtains h' where "lift h e = Some h'" "chain h' p (pre @ mid @ post)" "same_static h h'"
    "unlift h' e = Some h"
proof -
  obtain q qs where q: "mid @ m # post = q # qs" by (cases mid) auto
  from c q have c': "chain h p (pre @ e # q # qs)" by simp
  from d q have d': "distinct (p # pre @ e # q # qs)" by simp
  have min: "m \<in> set (q # qs)" using q by (metis in_set_conv_decomp)
  let ?h1 = "unlink h e"
  have c1: "chain ?h1 p ((pre @ mid) @ m # post)" using chain_unlink [OF c d] by simp
  have d1: "distinct (p # (pre @ mid) @ m # post)" using d by auto
  let ?h2 = "unlink ?h1 m"
  have c2: "chain ?h2 p (pre @ mid @ post)" using chain_unlink [OF c1 d1] by simp
  have l: "lift h e = Some ?h2" by (rule lift_unlink [OF c' d' m min])
  have st: "same_static h ?h2" by (simp add: unlink_static)
  have r1: "relink ?h2 m = ?h1" by (rule relink_unlink [OF c1 d1])
  have r2: "relink ?h1 e = h" by (rule relink_unlink [OF c d])
  have ne: "last (p # pre) \<noteq> e" using d
    by (metis (no_types) append_Cons disjoint_insert(1) distinct_append last_in_set list.discI list.simps(15))
  have "unlift ?h2 e = Some (relink (relink ?h2 m) e)"
  proof (rule unlift_relink)
    show "e_match (?h2 e) = Some m" using st m by (simp add: same_static_def)
    show "e_prev (?h2 m) = Some (last (p # pre @ mid))"
      using unlink_own(1) [OF c1 d1] chain_prev [OF c1] by simp
    show "last (p # pre @ mid) \<noteq> m" using d1
      by (metis (no_types) append_Cons disjoint_insert(1) distinct_append last_in_set list.discI list.simps(15))
    show "e_prev (relink ?h2 m e) = Some (last (p # pre))"
      unfolding r1 using unlink_own(1) [OF c d] chain_prev [OF c] by simp
    show "e_next (relink ?h2 m e) = Some q"
      unfolding r1 using unlink_own(2) [OF c d] chain_next [OF c'] by simp
  qed (rule ne)
  with l c2 st r1 r2 show thesis by (intro that) simp_all
qed

section \<open>The order of the entries\<close>

definition entry_key :: "entry \<Rightarrow> (int64 \<times> int) \<times> int \<times> bool" where
  "entry_key e = (position e, e_id e, e_isReturn e)"

interpretation entry_less: keyed_less "\<lambda>a b. entryLess (nodes ops a) (nodes ops b)"
  "\<lambda>p. entry_key (nodes ops p)" for ops
  by unfold_locales (auto simp: entryLess_def entry_key_def split: prod.splits)

lemma set_entry_order: "set (entry_order ops) = {..<2 * length ops}"
  unfolding entry_order_def entry_less.set_sort_by by auto

lemma distinct_entry_order: "distinct (entry_order ops)"
  unfolding entry_order_def entry_less.distinct_sort_by by simp

abbreviation pkey :: "History \<Rightarrow> ptr \<Rightarrow> (int64 \<times> int) \<times> int \<times> bool" where
  "pkey ops p \<equiv> entry_key (nodes ops p)"

lemma pkey_inj:
  assumes "p < 2 * length ops" "q < 2 * length ops" "pkey ops p = pkey ops q"
  shows "p = q"
proof -
  have "p div 2 = q div 2" "odd p = odd q"
    using assms by (simp_all add: entry_key_def nodes_def)
  then show ?thesis by (metis even_two_times_div_two odd_two_times_div_two_succ)
qed

lemma sorted_entry_order: "sorted_wrt (\<lambda>p q. pkey ops p < pkey ops q) (entry_order ops)"
proof -
  have "sorted_wrt (\<lambda>p q. pkey ops p \<le> pkey ops q) (entry_order ops)"
    using entry_less.sorted_sort_by unfolding entry_order_def sorted_map .
  moreover have "sorted_wrt (\<noteq>) (entry_order ops)"
    using distinct_entry_order by (simp add: distinct_conv_nth sorted_wrt_iff_nth_less)
  ultimately have "sorted_wrt (\<lambda>p q. pkey ops p \<le> pkey ops q \<and> p \<noteq> q) (entry_order ops)"
    by (simp add: sorted_wrt_iff_nth_less)
  then show ?thesis
  proof (rule sorted_wrt_mono_rel [rotated])
    fix p q assume "p \<in> set (entry_order ops)" "q \<in> set (entry_order ops)"
      and "pkey ops p \<le> pkey ops q \<and> p \<noteq> q"
    moreover from this have "pkey ops p \<noteq> pkey ops q"
      using pkey_inj [of p ops q] by (auto simp: set_entry_order)
    ultimately show "pkey ops p < pkey ops q" by (metis order.strict_iff_order)
  qed
qed

text \<open>
  The operations the search can be given: no completion before its invocation, and no two
  instantaneous operations at one moment. Then the entry list says of two operations what their
  times say.
\<close>

definition entry_ok :: "History \<Rightarrow> bool" where
  "entry_ok ops \<longleftrightarrow>
     (\<forall>op \<in> set ops. Invoke op \<le> Complete op) \<and>
     sorted_wrt (\<lambda>a b. \<not> (Complete a = Invoke a \<and> Complete b = Invoke b \<and> Invoke a = Invoke b)) ops"

lemma pkey_simps:
  assumes "i < length ops"
  shows "pkey ops (2 * i) =
      ((Invoke (ops ! i), if Complete (ops ! i) = Invoke (ops ! i) then 1 else 2), int i, False)"
    and "pkey ops (2 * i + 1) =
      ((Complete (ops ! i), if Complete (ops ! i) = Invoke (ops ! i) then 1 else 0), int i, True)"
  using assms by (simp_all add: entry_key_def position_def nodes_def Let_def)

lemma call_before_return:
  "entry_ok ops \<Longrightarrow> i < length ops \<Longrightarrow> pkey ops (2 * i) < pkey ops (2 * i + 1)"
  unfolding pkey_simps by (auto simp: entry_ok_def less_prod_def order.order_iff_strict)

lemma return_before_call:
  assumes "entry_ok ops" "i < length ops" "j < length ops" "i \<noteq> j"
  shows "pkey ops (2 * j + 1) < pkey ops (2 * i) \<longleftrightarrow> precedes (ops ! j) (ops ! i)"
proof -
  have le: "Invoke (ops ! i) \<le> Complete (ops ! i)" "Invoke (ops ! j) \<le> Complete (ops ! j)"
    using assms by (auto simp: entry_ok_def)
  let ?R = "\<lambda>a b. \<not> (Complete a = Invoke a \<and> Complete b = Invoke b \<and> Invoke a = Invoke b)"
  have "?R (ops ! i) (ops ! j)"
    using assms by (intro sorted_wrt_symp_nth [of ?R]) (auto simp: entry_ok_def symp_def)
  with le show ?thesis
    unfolding pkey_simps(1) [OF assms(2)] pkey_simps(2) [OF assms(3)] precedes_def
    by (auto simp: less_prod_def)
qed

section \<open>The list that is left\<close>

text \<open>
  What is in the list while the operations in \<open>P\<close> are out of it. \<open>rest_split\<close> says that a call
  stands before its return, and that taking both out leaves the list of the larger set;
  \<open>rest_minimal\<close> that a call with no return before it is an operation no remaining operation
  precedes.
\<close>

definition rest :: "History \<Rightarrow> nat set \<Rightarrow> ptr list" where
  "rest ops P = filter (\<lambda>p. p div 2 \<notin> P) (entry_order ops)"

lemma set_rest: "set (rest ops P) = {p. p < 2 * length ops \<and> p div 2 \<notin> P}"
  by (auto simp: rest_def set_entry_order)

lemma distinct_rest: "distinct (rest ops P)"
  by (simp add: rest_def distinct_entry_order)

lemma sorted_rest: "sorted_wrt (\<lambda>p q. pkey ops p < pkey ops q) (rest ops P)"
  by (simp add: rest_def sorted_wrt_filter sorted_entry_order)

lemma rest_empty: "rest ops {} = entry_order ops"
  by (simp add: rest_def)

lemma head_notin_rest: "head_ptr ops \<notin> set (rest ops P)"
  by (simp add: set_rest head_ptr_def)

lemma rest_Nil_iff: "rest ops P = [] \<longleftrightarrow> {..<length ops} \<subseteq> P"
proof
  assume "rest ops P = []"
  then have empty: "set (rest ops P) = {}" by simp
  show "{..<length ops} \<subseteq> P"
  proof
    fix i assume "i \<in> {..<length ops}"
    then have "2 * i \<in> set (rest ops P) \<or> i \<in> P" by (auto simp: set_rest)
    with empty show "i \<in> P" by simp
  qed
next
  assume "{..<length ops} \<subseteq> P"
  then have "set (rest ops P) = {}" by (auto simp: set_rest)
  then show "rest ops P = []" by simp
qed

lemma rest_before:
  assumes "rest ops P = pre @ c # post" "q \<in> set (rest ops P)" "q \<noteq> c"
  shows "q \<in> set pre \<longleftrightarrow> pkey ops q < pkey ops c"
proof -
  from sorted_rest [of ops P] assms(1)
  have "\<forall>x \<in> set pre. pkey ops x < pkey ops c" "\<forall>x \<in> set post. pkey ops c < pkey ops x"
    by (simp_all add: sorted_wrt_append)
  moreover from assms have "q \<in> set pre \<or> q \<in> set post" by auto
  ultimately show ?thesis by (meson order.asym)
qed

lemma rest_split:
  assumes "entry_ok ops" "rest ops P = pre @ 2 * i # post"
  obtains mid after where "post = mid @ (2 * i + 1) # after"
    "rest ops (insert i P) = pre @ mid @ after"
proof -
  have "2 * i \<in> set (rest ops P)" using assms(2) by simp
  then have i: "i < length ops" "i \<notin> P" by (auto simp: set_rest)
  then have "2 * i + 1 \<in> set (rest ops P)" by (auto simp: set_rest)
  moreover have "2 * i + 1 \<notin> set pre"
    using rest_before [OF assms(2), of "2 * i + 1"] call_before_return [OF assms(1) i(1)] i
    by (auto simp: set_rest dest: order.asym)
  ultimately have "2 * i + 1 \<in> set post" using assms(2) by auto
  then obtain mid after where ma: "post = mid @ (2 * i + 1) # after" by (meson split_list)
  have "rest ops (insert i P) = filter (\<lambda>p. p div 2 \<noteq> i) (rest ops P)"
    by (simp add: rest_def) (metis insert_iff)
  also have "\<dots> = filter (\<lambda>p. p \<noteq> 2 * i \<and> p \<noteq> 2 * i + 1) (rest ops P)"
    by (rule filter_cong [OF refl]) presburger
  also have "\<dots> = pre @ mid @ after"
  proof -
    have "distinct (pre @ 2 * i # mid @ (2 * i + 1) # after)"
      using distinct_rest [of ops P] unfolding assms(2) ma .
    then have "\<forall>p \<in> set pre. p \<noteq> 2 * i \<and> p \<noteq> 2 * i + 1" "\<forall>p \<in> set mid. p \<noteq> 2 * i \<and> p \<noteq> 2 * i + 1"
      "\<forall>p \<in> set after. p \<noteq> 2 * i \<and> p \<noteq> 2 * i + 1" by auto
    from this [THEN filter_True] show ?thesis unfolding assms(2) ma by simp
  qed
  finally show thesis using ma that by blast
qed

lemma rest_minimal:
  assumes ok: "entry_ok ops" and r: "rest ops P = pre @ 2 * i # post" and P: "P \<subseteq> {..<length ops}"
  shows "(\<forall>q \<in> set pre. even q) \<longleftrightarrow> minimal ops ({..<length ops} - P) i"
proof -
  have "2 * i \<in> set (rest ops P)" using r by simp
  then have i: "i < length ops" "i \<notin> P" by (auto simp: set_rest)
  have key: "2 * j + 1 \<in> set pre \<longleftrightarrow> j \<noteq> i \<and> precedes (ops ! j) (ops ! i)"
    if "j < length ops" "j \<notin> P" for j
  proof -
    have "2 * j + 1 \<in> set (rest ops P)" "2 * j + 1 \<noteq> 2 * i" using that by (auto simp: set_rest) presburger
    from rest_before [OF r this]
    have "2 * j + 1 \<in> set pre \<longleftrightarrow> pkey ops (2 * j + 1) < pkey ops (2 * i)" .
    then show ?thesis
      using return_before_call [OF ok i(1) that(1)] call_before_return [OF ok i(1)]
      by (auto dest: order.asym)
  qed
  show ?thesis
  proof
    assume ev: "\<forall>q \<in> set pre. even q"
    then show "minimal ops ({..<length ops} - P) i"
      unfolding minimal_def using key by fastforce
  next
    assume min: "minimal ops ({..<length ops} - P) i"
    show "\<forall>q \<in> set pre. even q"
    proof
      fix q assume q: "q \<in> set pre"
      show "even q"
      proof (rule ccontr)
        assume "odd q"
        then obtain j where j: "q = 2 * j + 1" by (rule oddE)
        have "q \<in> set (rest ops P)" using q r by simp
        with j have "j < length ops" "j \<notin> P" by (auto simp: set_rest)
        with key q j min show False by (auto simp: minimal_def)
      qed
    qed
  qed
qed

lemma rest_last_odd:
  assumes "rest ops P = pre" "pre \<noteq> []"
  shows "\<exists>q \<in> set pre. odd q"
proof -
  obtain p where p: "p \<in> set (rest ops P)" using assms by (metis list.set_intros(1) neq_Nil_conv)
  then have "2 * (p div 2) + 1 < 2 * length ops" "p div 2 \<notin> P" by (auto simp: set_rest) presburger
  then have "2 * (p div 2) + 1 \<in> set (rest ops P)" by (simp add: set_rest)
  with assms show ?thesis by (metis even_plus_one_iff even_two_times_div_two dvd_triv_left)
qed

section \<open>The store \<open>buildEntries\<close> lays out\<close>

lemma buildEntries_static: "same_static (nodes ops) (buildEntries ops)"
  by (simp add: buildEntries_def link_static)

lemma buildEntries_chain: "chain (buildEntries ops) (head_ptr ops) (rest ops {})"
  unfolding buildEntries_def rest_empty
  by (rule chain_link)
    (auto simp: distinct_entry_order set_entry_order head_ptr_def nodes_def)

lemma static_nodes:
  assumes "same_static (nodes ops) h" "p < 2 * length ops"
  shows "e_op (h p) = Some (ops ! (p div 2))" "e_id (h p) = int (p div 2)" "e_isReturn (h p) = odd p"
    "e_match (h p) = Some (if even p then p + 1 else p - 1)"
proof -
  have "e_op (nodes ops p) = e_op (h p)" "e_id (nodes ops p) = e_id (h p)"
    "e_isReturn (nodes ops p) = e_isReturn (h p)" "e_match (nodes ops p) = e_match (h p)"
    using assms(1) by (simp_all only: same_static_def)
  then show "e_op (h p) = Some (ops ! (p div 2))" "e_id (h p) = int (p div 2)"
    "e_isReturn (h p) = odd p" "e_match (h p) = Some (if even p then p + 1 else p - 1)"
    using assms(2) by (simp_all add: nodes_def)
qed

end
