(* ===== verification/Bitset.thy ===== *)
theory Bitset
  imports Prelude "HOL-Library.Word"
begin

text \<open>
  \<open>internal/checker/bitset.go\<close>: the fixed-width set of placed operations. The words are 64-bit
  machine words; an index outside the slice panics in Go, and is \<open>None\<close> here. The locale
  \<open>placed_set\<close> states what the search uses of it: membership after \<open>set\<close> and \<open>clear\<close>, and that
  \<open>clear\<close> takes back exactly what \<open>set\<close> did.
\<close>

unbundle bit_operations_syntax

type_synonym bitset = "64 word list"

definition newBitset :: "nat \<Rightarrow> bitset" where
  "newBitset n = replicate ((n + 63) div 64) 0"

text \<open>\<open>1 << uint(n)\<close> in 64 bits.\<close>

definition one_shl :: "nat \<Rightarrow> 64 word" where
  "one_shl n = push_bit n 1"

definition bs_set :: "bitset \<Rightarrow> int \<Rightarrow> bitset option" where
  "bs_set b i =
     (let w = i div 64 in
      if 0 \<le> w \<and> w < int (length b)
      then Some (b[nat w := b ! nat w OR one_shl (nat (i mod 64))])
      else None)"

definition bs_clear :: "bitset \<Rightarrow> int \<Rightarrow> bitset option" where
  "bs_clear b i =
     (let w = i div 64 in
      if 0 \<le> w \<and> w < int (length b)
      then Some (b[nat w := b ! nat w AND NOT (one_shl (nat (i mod 64)))])
      else None)"

definition bs_clone :: "bitset \<Rightarrow> bitset" where
  "bs_clone b = b"

fun words_equal :: "64 word list \<Rightarrow> 64 word list \<Rightarrow> bool" where
  "words_equal (w # ws) (v # vs) = (if w \<noteq> v then False else words_equal ws vs)"
| "words_equal _ _ = True"

definition bs_equal :: "bitset \<Rightarrow> bitset \<Rightarrow> bool" where
  "bs_equal b c = (if length b \<noteq> length c then False else words_equal b c)"

definition offset64 :: "64 word" where
  "offset64 = 14695981039346656037"

definition prime64 :: "64 word" where
  "prime64 = 1099511628211"

definition bs_hash :: "bitset \<Rightarrow> 64 word" where
  "bs_hash b = foldl (\<lambda>h w. (h XOR w) * prime64) offset64 b"

section \<open>Its meaning as a set\<close>

definition bs_mem :: "bitset \<Rightarrow> nat \<Rightarrow> bool" where
  "bs_mem b i \<longleftrightarrow> i div 64 < length b \<and> bit (b ! (i div 64)) (i mod 64)"

definition members :: "bitset \<Rightarrow> nat set" where
  "members b = {i. bs_mem b i}"

lemma words_equal_iff: "length b = length c \<Longrightarrow> words_equal b c \<longleftrightarrow> b = c"
  by (induction b c rule: words_equal.induct) auto

lemma bs_equal_iff [simp]: "bs_equal b c \<longleftrightarrow> b = c"
  by (auto simp: bs_equal_def words_equal_iff)

lemma members_new [simp]: "members (newBitset n) = {}"
  by (auto simp: members_def bs_mem_def newBitset_def)

lemma bs_set_None: "bs_set b (int i) = None \<longleftrightarrow> \<not> i div 64 < length b"
  by (auto simp: bs_set_def Let_def zdiv_int [of i 64, simplified, symmetric])

lemma nat_index [simp]:
  "nat (int i div 64) = i div 64" "nat (int i mod 64) = i mod 64"
  "int i div 64 < int n \<longleftrightarrow> i div 64 < n"
  using zdiv_int [of i 64] zmod_int [of i 64] by simp_all linarith+

lemma bs_set_Some:
  "bs_set b (int i) = Some c \<longleftrightarrow>
     i div 64 < length b \<and> c = b[i div 64 := b ! (i div 64) OR one_shl (i mod 64)]"
  by (auto simp: bs_set_def Let_def)

lemma bs_clear_Some:
  "bs_clear b (int i) = Some c \<longleftrightarrow>
     i div 64 < length b \<and> c = b[i div 64 := b ! (i div 64) AND NOT (one_shl (i mod 64))]"
  by (auto simp: bs_clear_def Let_def)

lemma div_mod_64_eq: "(i::nat) div 64 = j div 64 \<Longrightarrow> i mod 64 = j mod 64 \<Longrightarrow> i = j"
  by (metis div_mult_mod_eq)

lemma bit_push_one: "n < 64 \<Longrightarrow> bit (one_shl n) k \<longleftrightarrow> k = n"
  by (auto simp: one_shl_def bit_exp_iff)

lemma members_set: "bs_set b (int i) = Some c \<Longrightarrow> members c = insert i (members b)"
  by (auto simp: bs_set_Some members_def bs_mem_def nth_list_update bit_or_iff bit_push_one
      dest: div_mod_64_eq)

lemma members_clear: "bs_clear b (int i) = Some c \<Longrightarrow> members c = members b - {i}"
  by (auto simp: bs_clear_Some members_def bs_mem_def nth_list_update bit_and_iff bit_not_iff
      bit_push_one dest: div_mod_64_eq)

lemma length_set: "bs_set b (int i) = Some c \<Longrightarrow> length c = length b"
  by (auto simp: bs_set_Some)

lemma or_and_not_one:
  fixes w :: "64 word"
  assumes "n < 64" "\<not> bit w n"
  shows "(w OR one_shl n) AND NOT (one_shl n) = w"
  using assms by (intro bit_word_eqI) (auto simp: bit_or_iff bit_and_iff bit_not_iff bit_push_one)

lemma clear_set:
  assumes "bs_set b (int i) = Some c" "i \<notin> members b"
  shows "bs_clear c (int i) = Some b"
proof -
  have "\<not> bit (b ! (i div 64)) (i mod 64)" and "i div 64 < length b"
    using assms by (auto simp: bs_set_Some members_def bs_mem_def)
  with assms show ?thesis by (simp add: bs_set_Some bs_clear_Some or_and_not_one)
qed

lemma newBitset_capacity: "i < n \<Longrightarrow> i div 64 < length (newBitset n)"
  by (simp add: newBitset_def)

lemma finite_bitsets: "finite {b :: bitset. length b = k}"
  using finite_lists_length_eq [of "UNIV :: 64 word set" k] by simp

section \<open>The contract the search relies on\<close>

text \<open>
  \<open>dom\<close> is the range of indices a set of the search's width admits, \<open>wd\<close> says a set has that
  width.
\<close>

locale placed_set =
  fixes n :: nat
    and empty :: 'b
    and ins :: "'b \<Rightarrow> int \<Rightarrow> 'b option"
    and del :: "'b \<Rightarrow> int \<Rightarrow> 'b option"
    and mem :: "'b \<Rightarrow> nat set"
    and wd :: "'b \<Rightarrow> bool"
  assumes empty_mem: "mem empty = {}"
    and empty_wd: "wd empty"
    and ins_total: "wd b \<Longrightarrow> i < n \<Longrightarrow> \<exists>c. ins b (int i) = Some c"
    and ins_mem: "ins b (int i) = Some c \<Longrightarrow> mem c = insert i (mem b)"
    and ins_wd: "wd b \<Longrightarrow> ins b (int i) = Some c \<Longrightarrow> wd c"
    and del_ins: "ins b (int i) = Some c \<Longrightarrow> i \<notin> mem b \<Longrightarrow> del c (int i) = Some b"
    and finite_wd: "finite {b. wd b}"

interpretation bits: placed_set n "newBitset n" bs_set bs_clear members
  "\<lambda>b. length b = length (newBitset n)" for n
proof unfold_locales
  fix b :: bitset and i
  assume "length b = length (newBitset n)" "i < n"
  then show "\<exists>c. bs_set b (int i) = Some c"
    using newBitset_capacity by (auto simp: bs_set_Some)
qed (auto simp: members_set length_set clear_set finite_bitsets)

end
