(* ===== verification/Config_Cache.thy ===== *)
theory Config_Cache
  imports Bitset
begin

text \<open>
  The cache of explored configurations (\<open>internal/checker/checker.go\<close>): a hash table from the hash
  of a placed-set and a model state to the configurations that share it. The hash of a state is
  \<open>maphash.Comparable\<close> under a random seed, a parameter of the model; the locale \<open>config_set\<close>
  states what the search relies on, which no choice of that function changes.
\<close>

type_synonym 's config = "bitset \<times> 's"

record 's cache =
  c_seed :: "'s \<Rightarrow> 64 word"
  c_buckets :: "64 word \<Rightarrow> 's config list"
  c_bytes :: int
  c_entryBytes :: int

definition perEntryOverhead :: int where
  "perEntryOverhead = 64"

definition newCache :: "('s \<Rightarrow> 64 word) \<Rightarrow> nat \<Rightarrow> 's cache" where
  "newCache seed words =
     \<lparr>c_seed = seed, c_buckets = (\<lambda>_. []), c_bytes = 0,
      c_entryBytes = int words * 8 + perEntryOverhead\<rparr>"

definition cache_Bytes :: "'s cache \<Rightarrow> int" where
  "cache_Bytes c = c_bytes c"

definition cache_hash :: "'s cache \<Rightarrow> bitset \<Rightarrow> 's \<Rightarrow> 64 word" where
  "cache_hash c lin s = bs_hash lin XOR c_seed c s"

definition cache_contains :: "'s cache \<Rightarrow> bitset \<Rightarrow> 's \<Rightarrow> bool" where
  "cache_contains c lin s =
     list_ex (\<lambda>(elin, estate). estate = s \<and> bs_equal elin lin) (c_buckets c (cache_hash c lin s))"

definition cache_add :: "'s cache \<Rightarrow> bitset \<Rightarrow> 's \<Rightarrow> 's cache" where
  "cache_add c lin s =
     (let h = cache_hash c lin s in
      c\<lparr>c_buckets := (c_buckets c)(h := c_buckets c h @ [(bs_clone lin, s)]),
        c_bytes := c_bytes c + c_entryBytes c\<rparr>)"

section \<open>Its meaning as a set of configurations\<close>

definition configs :: "'s cache \<Rightarrow> 's config set" where
  "configs c = {(lin, s). cache_contains c lin s}"

lemma configs_new [simp]: "configs (newCache seed k) = {}"
  by (simp add: configs_def cache_contains_def newCache_def)

lemma cache_contains_iff: "cache_contains c lin s \<longleftrightarrow> (lin, s) \<in> configs c"
  by (simp add: configs_def)

lemma cache_contains_bucket:
  "cache_contains c lin s \<longleftrightarrow> (lin, s) \<in> set (c_buckets c (cache_hash c lin s))"
  by (auto simp: cache_contains_def list_ex_iff)

lemma cache_hash_add [simp]: "cache_hash (cache_add c lin s) = cache_hash c"
  by (simp add: cache_hash_def cache_add_def Let_def fun_eq_iff)

lemma configs_add: "configs (cache_add c lin s) = insert (lin, s) (configs c)"
  by (auto simp: configs_def cache_contains_bucket cache_add_def cache_hash_def bs_clone_def Let_def)

lemma bytes_add: "cache_Bytes (cache_add c lin s) = cache_Bytes c + c_entryBytes c"
  by (simp add: cache_Bytes_def cache_add_def Let_def)

locale config_set =
  fixes empty :: 'c
    and contains :: "'c \<Rightarrow> bitset \<Rightarrow> 's \<Rightarrow> bool"
    and add :: "'c \<Rightarrow> bitset \<Rightarrow> 's \<Rightarrow> 'c"
    and abs :: "'c \<Rightarrow> 's config set"
  assumes abs_empty: "abs empty = {}"
    and abs_contains: "contains c lin s \<longleftrightarrow> (lin, s) \<in> abs c"
    and abs_add: "abs (add c lin s) = insert (lin, s) (abs c)"
begin

lemma contains_empty: "\<not> contains empty lin s"
  by (simp add: abs_contains abs_empty)

lemma contains_add: "contains (add c lin s) lin' s' \<longleftrightarrow> (lin', s') = (lin, s) \<or> contains c lin' s'"
  by (auto simp: abs_contains abs_add)

end

interpretation seen: config_set "newCache seed k" cache_contains cache_add configs for seed k
  by unfold_locales (simp_all add: cache_contains_iff configs_add)

end
