(* ===== verification/Search.thy ===== *)
theory Search
  imports Entry_List Config_Cache
begin

text \<open>
  The Wing-Gong search over one key's operations (\<open>searchFull\<close> in
  \<open>internal/checker/checker.go\<close>), as the code runs it: the entry list with its in-place \<open>lift\<close> and
  \<open>unlift\<close>, the bit set of placed operations, the cache of explored configurations, the stack of
  frames, and the three budgets that end it early.

  The loop is a \<open>partial_function\<close>: \<open>None\<close> is a run that does not return. \<open>Panic\<close> is a nil
  dereference or an index out of range. That neither happens is a theorem of \<open>Search_Correct\<close>.
\<close>

section \<open>Verdicts, options, results\<close>

datatype Verdict = Linearizable | NotLinearizable | Unknown | Verdict_other nat

fun Verdict_String :: "Verdict \<Rightarrow> string" where
  "Verdict_String Linearizable = ''linearizable''"
| "Verdict_String NotLinearizable = ''not linearizable''"
| "Verdict_String Unknown = ''unknown''"
| "Verdict_String (Verdict_other n) = ''verdict('' @ show_nat n @ '')''"

record Options =
  MaxVisits :: int
  Timeout :: int
  MaxCacheBytes :: int
  Minimize :: bool
  Parallelism :: int

text \<open>
  The deadline is the zero time (\<open>None\<close>) or a moment, and then what the search learns of it is the
  answer of \<open>time.Now().After(deadline)\<close> each time it asks. Those answers are an argument: a
  function of which search asks (the path of branch numbers \<open>sub\<close> records) and of the iteration
  it asks at. Nothing is assumed of it, so every result holds whatever the clock does.
\<close>

type_synonym deadline = "(nat list \<Rightarrow> bool) option"

definition sub :: "nat \<Rightarrow> deadline \<Rightarrow> deadline" where
  "sub k d = map_option (\<lambda>f path. f (k # path)) d"

lemma sub_simps [simp]: "sub k None = None" "sub k d = None \<longleftrightarrow> d = None"
  by (simp_all add: sub_def)

definition deadlineCheckEvery :: nat where
  "deadlineCheckEvery = 4096"

definition overdue :: "deadline \<Rightarrow> nat \<Rightarrow> bool" where
  "overdue d iters =
     (case d of None \<Rightarrow> False | Some late \<Rightarrow> iters mod deadlineCheckEvery = 0 \<and> late [iters])"

text \<open>The reason line, by the \<open>Sprintf\<close> that builds it and its arguments.\<close>

datatype reason =
    AllLinearize nat
  | OverVisits int
  | OverTime int
  | OverMemory int
  | WalkedOff
  | NoOrdering
  | Explained string

text \<open>
  A \<open>keyResult\<close>. The culprit and its \<open>hasCulprit\<close> flag are one option; the elapsed time is left
  out, since no decision reads it.
\<close>

record 's keyResult =
  kr_verdict :: Verdict
  kr_visits :: int
  kr_reason :: reason
  kr_culprit :: "Op option"
  kr_finalState :: "'s option"

text \<open>What a call that may panic returns; \<open>None\<close> around it is a call that does not return.\<close>

datatype 'a ret = Ret 'a | Panicked

type_synonym 'a run = "'a ret option"

definition and_then :: "'a run \<Rightarrow> ('a \<Rightarrow> 'b run) \<Rightarrow> 'b run" where
  "and_then x f = (case x of None \<Rightarrow> None | Some Panicked \<Rightarrow> Some Panicked | Some (Ret a) \<Rightarrow> f a)"

lemma and_then_simps [simp]:
  "and_then (Some (Ret a)) f = f a" "and_then None f = None" "and_then (Some Panicked) f = Some Panicked"
  by (simp_all add: and_then_def)

section \<open>The loop\<close>

record 's frame =
  f_call :: ptr
  f_state :: 's

text \<open>
  The variables of \<open>searchFull\<close>. The stack \<open>calls\<close> has its top first. \<open>bestState\<close> and \<open>bestOp\<close> are
  assigned together and are one option.
\<close>

record 's search =
  s_heap :: heap
  s_lin :: bitset
  s_seen :: "'s cache"
  s_state :: 's
  s_calls :: "'s frame list"
  s_bestDepth :: int
  s_best :: "('s \<times> Op) option"
  s_visits :: int
  s_iters :: nat
  s_cursor :: "ptr option"

datatype 's progress = Continue "'s search" | Break Verdict reason "'s search" | Panic

definition step_call :: "'s model \<Rightarrow> ptr \<Rightarrow> ptr \<Rightarrow> 's search \<Rightarrow> 's progress" where
  "step_call m head e S =
     (case e_op (s_heap S e) of
        None \<Rightarrow> Panic
      | Some op \<Rightarrow>
          (case m_Step m (s_state S) op of (next, ok) \<Rightarrow>
            let S = S\<lparr>s_visits := s_visits S + 1\<rparr>; id = e_id (s_heap S e); after = e_next (s_heap S e) in
            if ok then
              (case bs_set (s_lin S) id of
                 None \<Rightarrow> Panic
               | Some lin \<Rightarrow>
                   if \<not> cache_contains (s_seen S) lin next then
                     (case lift (s_heap S) e of
                        None \<Rightarrow> Panic
                      | Some h \<Rightarrow>
                          Continue (S\<lparr>s_lin := lin, s_seen := cache_add (s_seen S) lin next,
                            s_calls := \<lparr>f_call = e, f_state = s_state S\<rparr> # s_calls S,
                            s_state := next, s_heap := h, s_cursor := e_next (h head)\<rparr>))
                   else
                     (case bs_clear lin id of
                        None \<Rightarrow> Panic
                      | Some lin \<Rightarrow> Continue (S\<lparr>s_lin := lin, s_cursor := after\<rparr>)))
            else if int (length (s_calls S)) > s_bestDepth S then
              Continue (S\<lparr>s_bestDepth := int (length (s_calls S)), s_best := Some (s_state S, op),
                s_cursor := after\<rparr>)
            else Continue (S\<lparr>s_cursor := after\<rparr>)))"

definition step_return :: "'s model \<Rightarrow> 's search \<Rightarrow> 's progress" where
  "step_return m S =
     (case s_calls S of
        [] \<Rightarrow>
          Break NotLinearizable
            (case s_best S of None \<Rightarrow> NoOrdering | Some (s, op) \<Rightarrow> Explained (m_Explain m s op)) S
      | fr # calls \<Rightarrow>
          (case bs_clear (s_lin S) (e_id (s_heap S (f_call fr))) of
             None \<Rightarrow> Panic
           | Some lin \<Rightarrow>
               (case unlift (s_heap S) (f_call fr) of
                  None \<Rightarrow> Panic
                | Some h \<Rightarrow>
                    Continue (S\<lparr>s_calls := calls, s_state := f_state fr, s_lin := lin, s_heap := h,
                      s_cursor := e_next (h (f_call fr))\<rparr>))))"

definition search_step :: "'s model \<Rightarrow> Options \<Rightarrow> deadline \<Rightarrow> ptr \<Rightarrow> 's search \<Rightarrow> 's progress" where
  "search_step m opt d head S =
     (if MaxVisits opt > 0 \<and> s_visits S \<ge> MaxVisits opt then Break Unknown (OverVisits (s_visits S)) S
      else if overdue d (s_iters S) then Break Unknown (OverTime (Timeout opt)) S
      else if MaxCacheBytes opt > 0 \<and> cache_Bytes (s_seen S) \<ge> MaxCacheBytes opt
      then Break Unknown (OverMemory (cache_Bytes (s_seen S))) S
      else
        let S = S\<lparr>s_iters := s_iters S + 1\<rparr> in
        (case s_cursor S of
           None \<Rightarrow> Break Unknown WalkedOff S
         | Some e \<Rightarrow> if \<not> e_isReturn (s_heap S e) then step_call m head e S else step_return m S))"

partial_function (option) search_loop ::
  "'s model \<Rightarrow> Options \<Rightarrow> deadline \<Rightarrow> ptr \<Rightarrow> nat \<Rightarrow> 's search \<Rightarrow> (Verdict \<times> reason \<times> 's search) run" where
  "search_loop m opt d head n S =
     (if e_next (s_heap S head) = None then Some (Ret (Linearizable, AllLinearize n, S))
      else (case search_step m opt d head S of
          Continue S' \<Rightarrow> search_loop m opt d head n S'
        | Break v r S' \<Rightarrow> Some (Ret (v, r, S'))
        | Panic \<Rightarrow> Some Panicked))"

declare search_loop.simps [code]

definition search_init :: "('s \<Rightarrow> 64 word) \<Rightarrow> 's model \<Rightarrow> History \<Rightarrow> 's search" where
  "search_init seed m ops =
     (let h = buildEntries ops; lin = newBitset (length ops) in
      \<lparr>s_heap = h, s_lin = lin, s_seen = newCache seed (length lin), s_state = m_Init m,
       s_calls = [], s_bestDepth = -1, s_best = None, s_visits = 0, s_iters = 0,
       s_cursor = e_next (h (head_ptr ops))\<rparr>)"

definition searchFull ::
  "('s \<Rightarrow> 64 word) \<Rightarrow> 's model \<Rightarrow> Options \<Rightarrow> deadline \<Rightarrow> History \<Rightarrow> 's keyResult run" where
  "searchFull seed m opt d ops =
     (if ops = [] then
        Some (Ret \<lparr>kr_verdict = Linearizable, kr_visits = 0, kr_reason = AllLinearize 0,
          kr_culprit = None, kr_finalState = Some (m_Init m)\<rparr>)
      else
        and_then (search_loop m opt d (head_ptr ops) (length ops) (search_init seed m ops))
          (\<lambda>(v, r, S). Some (Ret
            \<lparr>kr_verdict = v, kr_visits = s_visits S, kr_reason = r,
             kr_culprit = (if v \<noteq> Linearizable then map_option snd (s_best S) else None),
             kr_finalState = (if v = Linearizable then Some (s_state S) else None)\<rparr>)))"

end
