(* ===== verification/Search_Correct.thy ===== *)
theory Search_Correct
  imports Search
begin

text \<open>
  The search of \<open>Search\<close> is correct. \<open>search_inv\<close> relates its store, its bit set, its stack and its
  cache to the abstract question \<open>completes\<close>: which set of operations is still to be placed, from
  which model state. The invariant is preserved by every iteration, no iteration panics, a measure
  falls, and what the loop reports when it stops is the answer.
\<close>

section \<open>The invariant\<close>

definition ops_ids :: "History \<Rightarrow> nat set" where
  "ops_ids ops = {..<length ops}"

text \<open>No linearization of what is left starts with operation \<open>j\<close>.\<close>

definition dead_end :: "'s model \<Rightarrow> History \<Rightarrow> nat set \<Rightarrow> 's \<Rightarrow> bool" where
  "dead_end m ops P s \<longleftrightarrow> (\<forall>t. \<not> completes m ops (ops_ids ops - P) s t)"

definition dead_choice :: "'s model \<Rightarrow> History \<Rightarrow> nat set \<Rightarrow> 's \<Rightarrow> nat \<Rightarrow> bool" where
  "dead_choice m ops P s j \<longleftrightarrow>
     (\<forall>s'. m_Step m s (ops ! j) = (s', True) \<longrightarrow> dead_end m ops (insert j P) s')"

text \<open>The entries already passed over: calls only, and none of them can come next.\<close>

definition passed :: "'s model \<Rightarrow> History \<Rightarrow> nat set \<Rightarrow> 's \<Rightarrow> ptr list \<Rightarrow> bool" where
  "passed m ops P s pre \<longleftrightarrow> (\<forall>p \<in> set pre. even p \<and> dead_choice m ops P s (p div 2))"

definition head_of :: "ptr list \<Rightarrow> ptr option" where
  "head_of xs = (case xs of [] \<Rightarrow> None | x # _ \<Rightarrow> Some x)"

definition placed_ok :: "History \<Rightarrow> heap \<Rightarrow> bitset \<Rightarrow> bool" where
  "placed_ok ops h b \<longleftrightarrow>
     length b = length (newBitset (length ops)) \<and> members b \<subseteq> ops_ids ops \<and>
     same_static (nodes ops) h \<and> chain h (head_ptr ops) (rest ops (members b))"

text \<open>
  The stack: each frame's call was minimal and fitted when it was placed, everything before it in
  the list had been tried, and \<open>unlift\<close> and \<open>clear\<close> lead back to the configuration below.
\<close>

fun stack_ok :: "'s model \<Rightarrow> History \<Rightarrow> heap \<Rightarrow> bitset \<Rightarrow> 's \<Rightarrow> 's frame list \<Rightarrow> bool" where
  "stack_ok m ops h b s [] \<longleftrightarrow> placed_ok ops h b \<and> members b = {} \<and> s = m_Init m"
| "stack_ok m ops h b s (fr # frs) \<longleftrightarrow>
     placed_ok ops h b \<and>
     (\<exists>i h' b' pre post.
        f_call fr = 2 * i \<and> i < length ops \<and> i \<notin> members b' \<and> bs_set b' (int i) = Some b \<and>
        unlift h (2 * i) = Some h' \<and> rest ops (members b') = pre @ 2 * i # post \<and>
        passed m ops (members b') (f_state fr) pre \<and>
        m_Step m (f_state fr) (ops ! i) = (s, True) \<and> stack_ok m ops h' b' (f_state fr) frs)"

text \<open>The configurations of the current path.\<close>

fun on_path :: "'s model \<Rightarrow> History \<Rightarrow> bitset \<Rightarrow> 's \<Rightarrow> 's frame list \<Rightarrow> 's config \<Rightarrow> bool" where
  "on_path m ops b s [] c \<longleftrightarrow> c = (b, s)"
| "on_path m ops b s (fr # frs) c \<longleftrightarrow>
     c = (b, s) \<or> (\<exists>b'. bs_clear b (int (f_call fr div 2)) = Some b' \<and> on_path m ops b' (f_state fr) frs c)"

text \<open>The states some sequence of distinct operations leads to, and the configurations over them.\<close>

definition reached :: "'s model \<Rightarrow> History \<Rightarrow> 's set" where
  "reached m ops =
     (\<lambda>\<sigma>. the (replay m (m_Init m) (map ((!) ops) \<sigma>))) ` {\<sigma>. distinct \<sigma> \<and> set \<sigma> \<subseteq> ops_ids ops}"

definition all_configs :: "'s model \<Rightarrow> History \<Rightarrow> 's config set" where
  "all_configs m ops = {b. length b = length (newBitset (length ops))} \<times> reached m ops"

definition search_inv :: "'s model \<Rightarrow> History \<Rightarrow> 's search \<Rightarrow> bool" where
  "search_inv m ops S \<longleftrightarrow>
     stack_ok m ops (s_heap S) (s_lin S) (s_state S) (s_calls S) \<and>
     (\<exists>pre post. rest ops (members (s_lin S)) = pre @ post \<and> s_cursor S = head_of post \<and>
        passed m ops (members (s_lin S)) (s_state S) pre) \<and>
     configs (s_seen S) \<subseteq> all_configs m ops \<and>
     (\<forall>b s. (b, s) \<in> configs (s_seen S) \<longrightarrow>
        on_path m ops (s_lin S) (s_state S) (s_calls S) (b, s) \<or> dead_end m ops (members b) s)"

section \<open>Facts about stacks and paths\<close>

lemma stack_placed_ok: "stack_ok m ops h b s frs \<Longrightarrow> placed_ok ops h b"
  by (cases frs) auto

lemma placed_okD:
  assumes "placed_ok ops h b"
  shows "length b = length (newBitset (length ops))" "members b \<subseteq> ops_ids ops"
    "same_static (nodes ops) h" "chain h (head_ptr ops) (rest ops (members b))"
  using assms by (auto simp: placed_ok_def)

lemma on_path_self: "on_path m ops b s frs (b, s)"
  by (cases frs) auto

lemma on_path_members:
  "on_path m ops b s frs c \<Longrightarrow> stack_ok m ops h b s frs \<Longrightarrow> members (fst c) \<subseteq> members b"
proof (induction frs arbitrary: b s h)
  case Nil
  then show ?case by simp
next
  case (Cons fr frs)
  from Cons.prems(2) obtain i h' b' where
    i: "f_call fr = 2 * i" "i \<notin> members b'" "bs_set b' (int i) = Some b"
      "stack_ok m ops h' b' (f_state fr) frs" by auto
  have cl: "bs_clear b (int i) = Some b'" using bits.del_ins [OF i(3) i(2)] .
  from Cons.prems(1) i(1) cl consider "c = (b, s)" | "on_path m ops b' (f_state fr) frs c" by auto
  then show ?case
  proof cases
    case 1
    then show ?thesis by simp
  next
    case 2
    from Cons.IH [OF this i(4)] bits.ins_mem [OF i(3)] show ?thesis by auto
  qed
qed

lemma passed_minimal:
  assumes "entry_ok ops" "rest ops P = pre @ 2 * i # post" "passed m ops P s pre" "P \<subseteq> ops_ids ops"
  shows "minimal ops (ops_ids ops - P) i"
  using rest_minimal [OF assms(1,2)] assms(3,4) by (auto simp: passed_def ops_ids_def)

lemma stack_completes:
  assumes "entry_ok ops"
  shows "stack_ok m ops h b s frs \<Longrightarrow> completes m ops (ops_ids ops - members b) s t \<Longrightarrow>
    completes m ops (ops_ids ops) (m_Init m) t"
proof (induction frs arbitrary: h b s)
  case Nil
  then show ?case by simp
next
  case (Cons fr frs)
  from Cons.prems(1) obtain i h' b' pre post where
    i: "i < length ops" "i \<notin> members b'" "bs_set b' (int i) = Some b"
      "rest ops (members b') = pre @ 2 * i # post" "passed m ops (members b') (f_state fr) pre"
      "m_Step m (f_state fr) (ops ! i) = (s, True)" "stack_ok m ops h' b' (f_state fr) frs" by auto
  have sub: "members b' \<subseteq> ops_ids ops" using stack_placed_ok [OF i(7)] by (rule placed_okD)
  have "ops_ids ops - members b = (ops_ids ops - members b') - {i}"
    using bits.ins_mem [OF i(3)] by auto
  with Cons.prems(2) have "completes m ops ((ops_ids ops - members b') - {i}) s t" by simp
  then have "completes m ops (ops_ids ops - members b') (f_state fr) t"
    using i(1,2) by (intro completes_step [OF _ passed_minimal [OF assms i(4,5) sub] i(6)])
      (auto simp: ops_ids_def)
  with Cons.IH [OF i(7)] show ?case by simp
qed

lemma stack_reached:
  "stack_ok m ops h b s frs \<Longrightarrow>
   \<exists>\<sigma>. distinct \<sigma> \<and> set \<sigma> = members b \<and> replay m (m_Init m) (map ((!) ops) \<sigma>) = Some s"
proof (induction frs arbitrary: h b s)
  case Nil
  then show ?case by (intro exI [of _ "[]"]) simp
next
  case (Cons fr frs)
  from Cons.prems obtain i h' b' where
    i: "i \<notin> members b'" "bs_set b' (int i) = Some b"
      "m_Step m (f_state fr) (ops ! i) = (s, True)" "stack_ok m ops h' b' (f_state fr) frs" by auto
  from Cons.IH [OF i(4)] obtain \<sigma> where
    "distinct \<sigma>" "set \<sigma> = members b'" "replay m (m_Init m) (map ((!) ops) \<sigma>) = Some (f_state fr)"
    by blast
  with i bits.ins_mem [OF i(2)] show ?case
    by (intro exI [of _ "\<sigma> @ [i]"]) (simp add: replay_append)
qed

lemma stack_config:
  assumes "stack_ok m ops h b s frs"
  shows "(b, s) \<in> all_configs m ops"
proof -
  from stack_reached [OF assms] obtain \<sigma> where
    \<sigma>: "distinct \<sigma>" "set \<sigma> = members b" "replay m (m_Init m) (map ((!) ops) \<sigma>) = Some s" by blast
  moreover from stack_placed_ok [OF assms] have "members b \<subseteq> ops_ids ops"
    and len: "length b = length (newBitset (length ops))" by (rule placed_okD)+
  ultimately have "s \<in> reached m ops"
    unfolding reached_def by (intro image_eqI [where x = \<sigma>]) simp_all
  with len show ?thesis by (simp add: all_configs_def)
qed

lemma finite_all_configs: "finite (all_configs m ops)"
proof -
  have "{\<sigma>. distinct \<sigma> \<and> set \<sigma> \<subseteq> ops_ids ops} \<subseteq> {\<sigma>. set \<sigma> \<subseteq> ops_ids ops \<and> length \<sigma> \<le> length ops}"
  proof clarify
    fix \<sigma> :: "nat list" assume "distinct \<sigma>" "set \<sigma> \<subseteq> ops_ids ops"
    then show "length \<sigma> \<le> length ops"
      using card_mono [of "ops_ids ops" "set \<sigma>"] by (simp add: distinct_card ops_ids_def)
  qed
  then have "finite {\<sigma>. distinct \<sigma> \<and> set \<sigma> \<subseteq> ops_ids ops}"
    by (rule finite_subset) (simp add: finite_lists_length_le ops_ids_def)
  then show ?thesis
    using bits.finite_wd [of "length ops"] by (simp add: all_configs_def reached_def)
qed

section \<open>One iteration\<close>

definition ahead :: "History \<Rightarrow> 's search \<Rightarrow> nat" where
  "ahead ops S =
     (case s_cursor S of
        None \<Rightarrow> 0
      | Some e \<Rightarrow> length (dropWhile (\<lambda>x. x \<noteq> e) (rest ops (members (s_lin S)))))"

definition search_rel :: "'s model \<Rightarrow> History \<Rightarrow> ('s search \<times> 's search) set" where
  "search_rel m ops =
     measures [\<lambda>S. card (all_configs m ops - configs (s_seen S)), \<lambda>S. length (s_calls S), ahead ops]"

lemma wf_search_rel: "wf (search_rel m ops)"
  by (simp add: search_rel_def)

lemma ahead_eq:
  assumes "rest ops (members (s_lin S)) = pre @ post" "s_cursor S = head_of post"
  shows "ahead ops S = length post"
proof (cases post)
  case Nil
  with assms show ?thesis by (simp add: ahead_def head_of_def)
next
  case (Cons e qs)
  have "e \<notin> set pre" using distinct_rest [of ops "members (s_lin S)"] assms(1) Cons by auto
  then have "dropWhile (\<lambda>x. x \<noteq> e) (pre @ e # qs) = e # qs"
    by (subst dropWhile_append2) auto
  with assms Cons show ?thesis by (simp add: ahead_def head_of_def)
qed

lemma search_invD:
  assumes "search_inv m ops S"
  obtains pre post where
    "stack_ok m ops (s_heap S) (s_lin S) (s_state S) (s_calls S)"
    "rest ops (members (s_lin S)) = pre @ post" "s_cursor S = head_of post"
    "passed m ops (members (s_lin S)) (s_state S) pre"
    "configs (s_seen S) \<subseteq> all_configs m ops"
    "\<forall>b s. (b, s) \<in> configs (s_seen S) \<longrightarrow>
       on_path m ops (s_lin S) (s_state S) (s_calls S) (b, s) \<or> dead_end m ops (members b) s"
  using assms by (auto simp: search_inv_def)

lemma rest_member:
  "rest ops P = pre @ e # post \<Longrightarrow> e < 2 * length ops \<and> e div 2 \<notin> P"
  using set_rest [of ops P] by auto

lemma chain_next_rest:
  "chain h (head_ptr ops) (rest ops P) \<Longrightarrow> rest ops P = pre @ x # post \<Longrightarrow> e_next (h x) = head_of post"
  by (metis chain_next head_of_def)

lemma chain_head_rest: "chain h (head_ptr ops) (rest ops P) \<Longrightarrow> e_next (h (head_ptr ops)) = head_of (rest ops P)"
  by (simp add: chain_head head_of_def)

text \<open>Placing an operation.\<close>

lemma place_ok:
  assumes ok: "entry_ok ops" and pl: "placed_ok ops h b"
    and r: "rest ops (members b) = pre @ 2 * i # post"
  obtains b' h' where "bs_set b (int i) = Some b'" "lift h (2 * i) = Some h'" "placed_ok ops h' b'"
    "unlift h' (2 * i) = Some h" "members b' = insert i (members b)" "bs_clear b' (int i) = Some b"
proof -
  have i: "i < length ops" "i \<notin> members b" using rest_member [OF r] by auto
  note d = placed_okD [OF pl]
  from bits.ins_total [OF d(1) i(1)] obtain b' where b': "bs_set b (int i) = Some b'" by blast
  have mem: "members b' = insert i (members b)" using bits.ins_mem [OF b'] .
  from rest_split [OF ok r] obtain mid after where
    ma: "post = mid @ (2 * i + 1) # after" "rest ops (insert i (members b)) = pre @ mid @ after" .
  have ch: "chain h (head_ptr ops) (pre @ 2 * i # mid @ (2 * i + 1) # after)"
    using d(4) unfolding r ma(1) .
  have di: "distinct (head_ptr ops # pre @ 2 * i # mid @ (2 * i + 1) # after)"
    using distinct_rest [of ops "members b"] head_notin_rest [of ops "members b"] unfolding r ma(1) by simp
  have "e_match (h (2 * i)) = Some (2 * i + 1)" using static_nodes(4) [OF d(3), of "2 * i"] i by simp
  from lift_chain [OF ch di this] obtain h' where
    h': "lift h (2 * i) = Some h'" "chain h' (head_ptr ops) (pre @ mid @ after)" "same_static h h'"
      "unlift h' (2 * i) = Some h" .
  have "placed_ok ops h' b'"
    unfolding placed_ok_def mem ma(2)
    using h'(2) same_static_trans [OF d(3) h'(3)] bits.ins_wd [OF d(1) b'] d(2) i(1)
    by (auto simp: ops_ids_def)
  then show thesis using that b' h' mem bits.del_ins [OF b' i(2)] by blast
qed

lemma step_call_inv:
  assumes ok: "entry_ok ops" and inv: "search_inv m ops S"
    and cur: "s_cursor S = Some e" "\<not> e_isReturn (s_heap S e)"
  obtains S' where "step_call m (head_ptr ops) e S = Continue S'" "search_inv m ops S'"
    "(S', S) \<in> search_rel m ops" "s_visits S' = s_visits S + 1"
proof -
  from inv obtain pre post where
    st: "stack_ok m ops (s_heap S) (s_lin S) (s_state S) (s_calls S)" and
    r0: "rest ops (members (s_lin S)) = pre @ post" "s_cursor S = head_of post" and
    pa: "passed m ops (members (s_lin S)) (s_state S) pre" and
    cs: "configs (s_seen S) \<subseteq> all_configs m ops" and
    dead: "\<forall>b s. (b, s) \<in> configs (s_seen S) \<longrightarrow>
       on_path m ops (s_lin S) (s_state S) (s_calls S) (b, s) \<or> dead_end m ops (members b) s"
    by (rule search_invD)
  from r0 cur obtain qs where post: "post = e # qs" by (auto simp: head_of_def split: list.splits)
  have r: "rest ops (members (s_lin S)) = pre @ e # qs" using r0 post by simp
  have pl: "placed_ok ops (s_heap S) (s_lin S)" using st by (rule stack_placed_ok)
  note d = placed_okD [OF pl]
  have e: "e < 2 * length ops" "e div 2 \<notin> members (s_lin S)" using rest_member [OF r] by auto
  note stat = static_nodes [OF d(3) e(1)]
  define i where "i = e div 2"
  have ei: "e = 2 * i" using cur(2) stat(3) by (simp add: i_def)
  have i: "i < length ops" "i \<notin> members (s_lin S)" using e by (simp_all add: i_def)
  obtain b' h' where pl':
    "bs_set (s_lin S) (int i) = Some b'" "lift (s_heap S) (2 * i) = Some h'" "placed_ok ops h' b'"
    "unlift h' (2 * i) = Some (s_heap S)" "members b' = insert i (members (s_lin S))"
    "bs_clear b' (int i) = Some (s_lin S)"
    using place_ok [OF ok pl r [unfolded ei]] .
  obtain s' good where step: "m_Step m (s_state S) (ops ! i) = (s', good)" by fastforce
  have nx: "e_next (s_heap S e) = head_of qs" using chain_next_rest [OF d(4) r] .
  have op: "e_op (s_heap S e) = Some (ops ! i)" "e_id (s_heap S e) = int i"
    using stat(1,2) by (simp_all add: i_def)
  have skip: "search_inv m ops S' \<and> (S', S) \<in> search_rel m ops"
    if eq: "s_heap S' = s_heap S" "s_lin S' = s_lin S" "s_state S' = s_state S" "s_calls S' = s_calls S"
      "s_seen S' = s_seen S" "s_cursor S' = head_of qs"
      and dc: "dead_choice m ops (members (s_lin S)) (s_state S) i" for S'
  proof -
    have pa': "passed m ops (members (s_lin S)) (s_state S) (pre @ [e])"
      using pa dc ei by (auto simp: passed_def)
    have r': "rest ops (members (s_lin S)) = (pre @ [e]) @ qs" using r by simp
    have "search_inv m ops S'"
      unfolding search_inv_def eq using st r' pa' cs dead by blast
    moreover have "ahead ops S' = length qs" by (rule ahead_eq [OF _ eq(6)]) (unfold eq, rule r')
    moreover have "ahead ops S = Suc (length qs)" using ahead_eq [OF r0] post by simp
    ultimately show ?thesis using eq by (simp add: search_rel_def)
  qed
  consider (placed) "good" "\<not> cache_contains (s_seen S) b' s'" | (cached) "good" "cache_contains (s_seen S) b' s'"
    | (refused) "\<not> good" by blast
  then show thesis
  proof cases
    case placed
    let ?S = "S\<lparr>s_visits := s_visits S + 1, s_lin := b', s_seen := cache_add (s_seen S) b' s',
      s_calls := \<lparr>f_call = e, f_state = s_state S\<rparr> # s_calls S, s_state := s', s_heap := h',
      s_cursor := e_next (h' (head_ptr ops))\<rparr>"
    have run: "step_call m (head_ptr ops) e S = Continue ?S"
      using op step placed pl'(1,2) ei by (simp add: step_call_def Let_def)
    have st': "stack_ok m ops h' b' s' (\<lparr>f_call = e, f_state = s_state S\<rparr> # s_calls S)"
      using pl'(1,3,4) i r pa st step placed(1) ei by auto
    have new: "(b', s') \<notin> configs (s_seen S)" using placed(2) by (simp add: seen.abs_contains)
    have conf: "(b', s') \<in> all_configs m ops" using stack_config [OF st'] .
    have "search_inv m ops ?S"
      unfolding search_inv_def
    proof (intro conjI allI impI)
      show "\<exists>pre post. rest ops (members (s_lin ?S)) = pre @ post \<and> s_cursor ?S = head_of post \<and>
          passed m ops (members (s_lin ?S)) (s_state ?S) pre"
        using chain_head_rest [OF placed_okD(4) [OF pl'(3)]]
        by (intro exI [of _ "[]"] exI [of _ "rest ops (members b')"]) (simp add: passed_def)
      show "configs (s_seen ?S) \<subseteq> all_configs m ops" using cs conf by (simp add: configs_add)
      fix b s assume "(b, s) \<in> configs (s_seen ?S)"
      then consider "(b, s) = (b', s')" | "(b, s) \<in> configs (s_seen S)" by (auto simp: configs_add)
      then show "on_path m ops (s_lin ?S) (s_state ?S) (s_calls ?S) (b, s) \<or> dead_end m ops (members b) s"
      proof cases
        case 1
        then show ?thesis by simp
      next
        case 2
        with dead show ?thesis using pl'(6) ei by auto
      qed
    qed (use st' in simp)
    moreover have "card (all_configs m ops - configs (s_seen ?S)) < card (all_configs m ops - configs (s_seen S))"
      by (rule psubset_card_mono) (use new conf finite_all_configs in \<open>auto simp: configs_add\<close>)
    then have "(?S, S) \<in> search_rel m ops" by (simp add: search_rel_def)
    ultimately show thesis using run by (intro that [of ?S]) simp_all
  next
    case cached
    let ?S = "S\<lparr>s_visits := s_visits S + 1, s_lin := s_lin S, s_cursor := head_of qs\<rparr>"
    have run: "step_call m (head_ptr ops) e S = Continue ?S"
      using op step cached pl'(1,6) nx by (simp add: step_call_def Let_def)
    have "(b', s') \<in> configs (s_seen S)" using cached(2) by (simp add: seen.abs_contains)
    with dead have "on_path m ops (s_lin S) (s_state S) (s_calls S) (b', s') \<or> dead_end m ops (members b') s'"
      by blast
    then have "dead_end m ops (members b') s'"
      using on_path_members [OF _ st, of "(b', s')"] pl'(5) i(2) by auto
    then have "dead_choice m ops (members (s_lin S)) (s_state S) i"
      using step pl'(5) by (auto simp: dead_choice_def)
    then have "search_inv m ops ?S \<and> (?S, S) \<in> search_rel m ops" by (intro skip) simp_all
    then show thesis using run by (intro that [of ?S]) simp_all
  next
    case refused
    have dc: "dead_choice m ops (members (s_lin S)) (s_state S) i"
      using step refused by (auto simp: dead_choice_def)
    let ?S = "S\<lparr>s_visits := s_visits S + 1, s_cursor := head_of qs\<rparr>"
    let ?T = "S\<lparr>s_visits := s_visits S + 1, s_bestDepth := int (length (s_calls S)),
      s_best := Some (s_state S, ops ! i), s_cursor := head_of qs\<rparr>"
    have "step_call m (head_ptr ops) e S = Continue (if int (length (s_calls S)) > s_bestDepth S then ?T else ?S)"
      using op step refused nx by (simp add: step_call_def Let_def)
    moreover have "search_inv m ops ?S \<and> (?S, S) \<in> search_rel m ops" using dc by (intro skip) simp_all
    moreover have "search_inv m ops ?T \<and> (?T, S) \<in> search_rel m ops" using dc by (intro skip) simp_all
    ultimately show thesis by (cases "int (length (s_calls S)) > s_bestDepth S") (auto intro: that)
  qed
qed

text \<open>A return entry under the cursor: what is left cannot be completed from here.\<close>

lemma cursor_return_dead:
  assumes ok: "entry_ok ops" and r: "rest ops P = pre @ e # post" "odd e"
    and pa: "passed m ops P s pre" and sub: "P \<subseteq> ops_ids ops"
  shows "dead_end m ops P s"
  unfolding dead_end_def
proof clarify
  fix t assume "completes m ops (ops_ids ops - P) s t"
  then show False
  proof (cases rule: completes_cases)
    case finished
    with rest_Nil_iff [of ops P] r(1) show False by (auto simp: ops_ids_def)
  next
    case (placed i s')
    have "2 * i \<in> set (rest ops P)" using placed(1) by (auto simp: set_rest ops_ids_def)
    then obtain A B where AB: "rest ops P = A @ 2 * i # B" by (meson split_list)
    have "P \<subseteq> {..<length ops}" using sub by (simp add: ops_ids_def)
    from rest_minimal [OF ok AB this] placed(2) have ev: "\<forall>q \<in> set A. even q"
      by (simp add: ops_ids_def)
    have "2 * i \<in> set pre"
    proof (rule ccontr)
      assume "2 * i \<notin> set pre"
      moreover have "2 * i \<noteq> e" using r(2) by auto
      ultimately have "e \<in> set A"
        using AB r(1) by (auto simp: append_eq_append_conv2 Cons_eq_append_conv append_eq_Cons_conv)
      with ev r(2) show False by blast
    qed
    then have "dead_choice m ops P s i" using pa by (auto simp: passed_def)
    then have "dead_end m ops (insert i P) s'" using placed(3) by (simp add: dead_choice_def)
    moreover have "ops_ids ops - insert i P = ops_ids ops - P - {i}" by blast
    ultimately show False using placed(4) by (simp add: dead_end_def)
  qed
qed

lemma step_return_inv:
  assumes ok: "entry_ok ops" and inv: "search_inv m ops S"
    and cur: "s_cursor S = Some e" "e_isReturn (s_heap S e)"
  shows "(\<exists>r. step_return m S = Break NotLinearizable r S \<and> dead_end m ops {} (m_Init m)) \<or>
    (\<exists>S'. step_return m S = Continue S' \<and> search_inv m ops S' \<and> (S', S) \<in> search_rel m ops \<and>
       s_visits S' = s_visits S)"
proof -
  from inv obtain pre post where
    st: "stack_ok m ops (s_heap S) (s_lin S) (s_state S) (s_calls S)" and
    r0: "rest ops (members (s_lin S)) = pre @ post" "s_cursor S = head_of post" and
    pa: "passed m ops (members (s_lin S)) (s_state S) pre" and
    cs: "configs (s_seen S) \<subseteq> all_configs m ops" and
    dead: "\<forall>b s. (b, s) \<in> configs (s_seen S) \<longrightarrow>
       on_path m ops (s_lin S) (s_state S) (s_calls S) (b, s) \<or> dead_end m ops (members b) s"
    by (rule search_invD)
  from r0 cur obtain qs where post: "post = e # qs" by (auto simp: head_of_def split: list.splits)
  have r: "rest ops (members (s_lin S)) = pre @ e # qs" using r0 post by simp
  note d = placed_okD [OF stack_placed_ok [OF st]]
  have "e < 2 * length ops" using rest_member [OF r] by simp
  from static_nodes(3) [OF d(3) this] cur(2) have "odd e" by simp
  have here: "dead_end m ops (members (s_lin S)) (s_state S)"
    by (rule cursor_return_dead [OF ok r \<open>odd e\<close> pa d(2)])
  show ?thesis
  proof (cases "s_calls S")
    case Nil
    with st here show ?thesis by (simp add: step_return_def)
  next
    case (Cons fr frs)
    with st obtain i h' b' ipre ipost where
      i: "f_call fr = 2 * i" "i < length ops" "i \<notin> members b'" "bs_set b' (int i) = Some (s_lin S)"
        "unlift (s_heap S) (2 * i) = Some h'" "rest ops (members b') = ipre @ 2 * i # ipost"
        "passed m ops (members b') (f_state fr) ipre"
        "m_Step m (f_state fr) (ops ! i) = (s_state S, True)" "stack_ok m ops h' b' (f_state fr) frs"
      by auto
    have cl: "bs_clear (s_lin S) (int i) = Some b'" using bits.del_ins [OF i(4) i(3)] .
    have mem: "members (s_lin S) = insert i (members b')" using bits.ins_mem [OF i(4)] .
    note d' = placed_okD [OF stack_placed_ok [OF i(9)]]
    have id: "e_id (s_heap S (2 * i)) = int i" using static_nodes(2) [OF d(3), of "2 * i"] i(2) by simp
    let ?S = "S\<lparr>s_calls := frs, s_state := f_state fr, s_lin := b', s_heap := h',
      s_cursor := e_next (h' (f_call fr))\<rparr>"
    have run: "step_return m S = Continue ?S"
      using Cons i(1,5) cl id by (simp add: step_return_def)
    have dc: "dead_choice m ops (members b') (f_state fr) i"
      using here i(8) mem by (simp add: dead_choice_def)
    have pa': "passed m ops (members b') (f_state fr) (ipre @ [2 * i])"
      using i(7) dc by (auto simp: passed_def)
    have nx: "e_next (h' (2 * i)) = head_of ipost" using chain_next_rest [OF d'(4) i(6)] .
    have "search_inv m ops ?S"
      unfolding search_inv_def
    proof (intro conjI allI impI)
      show "\<exists>pre post. rest ops (members (s_lin ?S)) = pre @ post \<and> s_cursor ?S = head_of post \<and>
          passed m ops (members (s_lin ?S)) (s_state ?S) pre"
        using pa' i(1,6) nx by (intro exI [of _ "ipre @ [2 * i]"] exI [of _ ipost]) simp
      fix b s assume "(b, s) \<in> configs (s_seen ?S)"
      then have "on_path m ops (s_lin S) (s_state S) (s_calls S) (b, s) \<or> dead_end m ops (members b) s"
        using dead by simp
      with Cons i(1) cl here
      show "on_path m ops (s_lin ?S) (s_state ?S) (s_calls ?S) (b, s) \<or> dead_end m ops (members b) s"
        by auto
    qed (use i(9) cs in simp_all)
    moreover have "(?S, S) \<in> search_rel m ops" using Cons by (simp add: search_rel_def)
    ultimately show ?thesis using run by (intro disjI2 exI [of _ ?S]) simp
  qed
qed

section \<open>The loop\<close>

text \<open>What the loop may report of a search that did not decide.\<close>

definition gave_up :: "Options \<Rightarrow> deadline \<Rightarrow> reason \<Rightarrow> bool" where
  "gave_up opt d r \<longleftrightarrow>
     (case r of
        OverVisits v \<Rightarrow> 0 < MaxVisits opt \<and> MaxVisits opt \<le> v
      | OverTime t \<Rightarrow> d \<noteq> None \<and> t = Timeout opt
      | OverMemory b \<Rightarrow> 0 < MaxCacheBytes opt \<and> MaxCacheBytes opt \<le> b
      | _ \<Rightarrow> False)"

definition loop_post :: "'s model \<Rightarrow> History \<Rightarrow> Options \<Rightarrow> deadline \<Rightarrow> Verdict \<Rightarrow> reason \<Rightarrow> 's search \<Rightarrow> bool" where
  "loop_post m ops opt d v r S \<longleftrightarrow>
     (case v of
        Linearizable \<Rightarrow> completes m ops (ops_ids ops) (m_Init m) (s_state S)
      | NotLinearizable \<Rightarrow> dead_end m ops {} (m_Init m)
      | Unknown \<Rightarrow> gave_up opt d r
      | Verdict_other _ \<Rightarrow> False)"

definition within_visits :: "Options \<Rightarrow> int \<Rightarrow> bool" where
  "within_visits opt v \<longleftrightarrow> 0 \<le> v \<and> (0 < MaxVisits opt \<longrightarrow> v \<le> MaxVisits opt)"

lemma search_inv_iters: "search_inv m ops (S\<lparr>s_iters := n\<rparr>) = search_inv m ops S"
  by (simp add: search_inv_def)

lemma ahead_iters: "ahead ops (S\<lparr>s_iters := n\<rparr>) = ahead ops S"
  by (cases "s_cursor S") (simp_all add: ahead_def)

lemma search_rel_iters: "(S', S\<lparr>s_iters := n\<rparr>) \<in> search_rel m ops \<longleftrightarrow> (S', S) \<in> search_rel m ops"
  by (simp add: search_rel_def ahead_iters)

lemma search_step_inv:
  assumes ok: "entry_ok ops" and inv: "search_inv m ops S" and w: "within_visits opt (s_visits S)"
    and more: "e_next (s_heap S (head_ptr ops)) \<noteq> None"
  shows "(\<exists>S'. search_step m opt d (head_ptr ops) S = Continue S' \<and> search_inv m ops S' \<and>
       (S', S) \<in> search_rel m ops \<and> within_visits opt (s_visits S')) \<or>
    (\<exists>v r S'. search_step m opt d (head_ptr ops) S = Break v r S' \<and> v \<noteq> Linearizable \<and>
       loop_post m ops opt d v r S' \<and> within_visits opt (s_visits S'))"
    (is "?C \<or> ?B")
proof (cases "0 < MaxVisits opt \<and> MaxVisits opt \<le> s_visits S")
  case True
  then have ?B using w by (simp add: search_step_def loop_post_def gave_up_def)
  then show ?thesis ..
next
  case visits: False
  show ?thesis
  proof (cases "overdue d (s_iters S)")
    case True
    then have "d \<noteq> None" by (auto simp: overdue_def split: option.splits)
    with visits True w have ?B by (simp add: search_step_def loop_post_def gave_up_def)
    then show ?thesis ..
  next
    case late: False
    show ?thesis
    proof (cases "0 < MaxCacheBytes opt \<and> MaxCacheBytes opt \<le> cache_Bytes (s_seen S)")
      case True
      with visits late w have ?B by (simp add: search_step_def loop_post_def gave_up_def)
      then show ?thesis ..
    next
      case False
      let ?S = "S\<lparr>s_iters := Suc (s_iters S)\<rparr>"
      have inv': "search_inv m ops ?S" using inv by (simp add: search_inv_iters)
      from visits late False have run: "search_step m opt d (head_ptr ops) S =
          (case s_cursor S of None \<Rightarrow> Break Unknown WalkedOff ?S
           | Some e \<Rightarrow> if \<not> e_isReturn (s_heap S e) then step_call m (head_ptr ops) e ?S else step_return m ?S)"
        unfolding search_step_def Let_def if_not_P [OF visits] if_not_P [OF late] if_not_P [OF False]
        by (simp split: option.split)
      show ?thesis
      proof (cases "s_cursor S")
        case None
        from inv obtain pre post where
          r: "stack_ok m ops (s_heap S) (s_lin S) (s_state S) (s_calls S)"
            "rest ops (members (s_lin S)) = pre @ post" "s_cursor S = head_of post"
            "passed m ops (members (s_lin S)) (s_state S) pre"
          by (rule search_invD)
        with None have "post = []" by (simp add: head_of_def split: list.splits)
        moreover from more have "rest ops (members (s_lin S)) \<noteq> []"
          using chain_head_rest [OF placed_okD(4) [OF stack_placed_ok [OF r(1)]]]
          by (auto simp: head_of_def)
        ultimately have False
          using r(2,4) rest_last_odd [of ops "members (s_lin S)" pre] by (auto simp: passed_def)
        then show ?thesis ..
      next
        case (Some e)
        show ?thesis
        proof (cases "e_isReturn (s_heap S e)")
          case False
          from step_call_inv [OF ok inv', of e] Some False obtain S' where
            "step_call m (head_ptr ops) e ?S = Continue S'" "search_inv m ops S'"
            "(S', ?S) \<in> search_rel m ops" "s_visits S' = s_visits ?S + 1" by auto
          moreover from this(4) w visits have "within_visits opt (s_visits S')"
            by (auto simp: within_visits_def)
          ultimately have ?C using run Some False by (simp add: search_rel_iters)
          then show ?thesis ..
        next
          case True
          from step_return_inv [OF ok inv', of e] Some True
          consider (stop) r where "step_return m ?S = Break NotLinearizable r ?S" "dead_end m ops {} (m_Init m)"
            | (pop) S' where "step_return m ?S = Continue S'" "search_inv m ops S'"
                "(S', ?S) \<in> search_rel m ops" "s_visits S' = s_visits ?S" by auto
          then show ?thesis
          proof cases
            case stop
            then have ?B using run Some True w by (simp add: loop_post_def)
            then show ?thesis ..
          next
            case pop
            then have ?C using run Some True w by (simp add: search_rel_iters)
            then show ?thesis ..
          qed
        qed
      qed
    qed
  qed
qed

lemma search_loop_correct:
  assumes ok: "entry_ok ops"
  shows "search_inv m ops S \<Longrightarrow> within_visits opt (s_visits S) \<Longrightarrow>
    \<exists>v r S'. search_loop m opt d (head_ptr ops) n S = Some (Ret (v, r, S')) \<and>
      loop_post m ops opt d v r S' \<and> within_visits opt (s_visits S')"
proof (induction S rule: wf_induct_rule [OF wf_search_rel [of m ops]])
  case (1 S)
  show ?case
  proof (cases "e_next (s_heap S (head_ptr ops)) = None")
    case True
    from 1(2) have st: "stack_ok m ops (s_heap S) (s_lin S) (s_state S) (s_calls S)"
      by (simp add: search_inv_def)
    from chain_head_rest [OF placed_okD(4) [OF stack_placed_ok [OF st]]] True
    have "rest ops (members (s_lin S)) = []" by (auto simp: head_of_def split: list.splits)
    then have empty: "ops_ids ops - members (s_lin S) = {}" by (simp add: rest_Nil_iff ops_ids_def)
    have "completes m ops (ops_ids ops) (m_Init m) (s_state S)"
      by (rule stack_completes [OF ok st]) (simp only: empty completes_empty)
    with True 1(3) show ?thesis
      by (subst search_loop.simps) (simp add: loop_post_def)
  next
    case False
    from search_step_inv [OF ok 1(2,3) False, of d] show ?thesis
    proof (elim disjE exE conjE)
      fix S' assume S': "search_step m opt d (head_ptr ops) S = Continue S'" "search_inv m ops S'"
        "(S', S) \<in> search_rel m ops" "within_visits opt (s_visits S')"
      have "search_loop m opt d (head_ptr ops) n S = search_loop m opt d (head_ptr ops) n S'"
        unfolding search_loop.simps [of m opt d "head_ptr ops" n S] if_not_P [OF False] S'(1) by simp
      with 1(1) [OF S'(3,2,4)] show ?thesis by simp
    next
      fix v r S' assume "search_step m opt d (head_ptr ops) S = Break v r S'"
        "loop_post m ops opt d v r S'" "within_visits opt (s_visits S')"
      then show ?thesis
        unfolding search_loop.simps [of m opt d "head_ptr ops" n S] if_not_P [OF False] by simp
    qed
  qed
qed

lemma search_init_inv: "search_inv m ops (search_init seed m ops)"
proof -
  have pl: "placed_ok ops (buildEntries ops) (newBitset (length ops))"
    using bits.empty_mem buildEntries_static buildEntries_chain by (simp add: placed_ok_def)
  have "e_next (buildEntries ops (head_ptr ops)) = head_of (rest ops {})"
    by (rule chain_head_rest [OF buildEntries_chain])
  with pl bits.empty_mem [of "length ops"] show ?thesis
    by (auto simp: search_inv_def search_init_def Let_def passed_def intro: exI [of _ "[]"])
qed

section \<open>\<open>searchFull\<close>\<close>

text \<open>What the outcome of a search says of the operations it was given.\<close>

definition answers :: "'s model \<Rightarrow> History \<Rightarrow> 's keyResult \<Rightarrow> bool" where
  "answers m ops kr \<longleftrightarrow>
     (case kr_verdict kr of
        Linearizable \<Rightarrow> \<exists>t seq. kr_finalState kr = Some t \<and> linearization m ops seq t
      | NotLinearizable \<Rightarrow> \<not> linearizable m ops
      | Unknown \<Rightarrow> True
      | Verdict_other _ \<Rightarrow> False)"

definition unbudgeted :: "Options \<Rightarrow> deadline \<Rightarrow> bool" where
  "unbudgeted opt d \<longleftrightarrow> MaxVisits opt \<le> 0 \<and> d = None \<and> MaxCacheBytes opt \<le> 0"

lemma gave_up_budget: "gave_up opt d r \<Longrightarrow> \<not> unbudgeted opt d"
  by (auto simp: gave_up_def unbudgeted_def split: reason.splits)

lemma searchFull_correct:
  assumes "entry_ok ops"
  obtains kr where "searchFull seed m opt d ops = Some (Ret kr)" "answers m ops kr"
    "within_visits opt (kr_visits kr)" "kr_verdict kr = Unknown \<longrightarrow> gave_up opt d (kr_reason kr)"
proof (cases "ops = []")
  case True
  let ?kr = "\<lparr>kr_verdict = Linearizable, kr_visits = 0, kr_reason = AllLinearize 0,
    kr_culprit = None, kr_finalState = Some (m_Init m)\<rparr>"
  have "linearization m ops [] (m_Init m)" using True by (simp add: linearization_def real_time_def)
  then have "answers m ops ?kr" by (auto simp: answers_def)
  with True show thesis by (intro that [of ?kr]) (simp_all add: searchFull_def within_visits_def)
next
  case False
  have "within_visits opt (s_visits (search_init seed m ops))"
    by (simp add: within_visits_def search_init_def Let_def)
  from search_loop_correct [OF assms search_init_inv this] obtain v r S where
    run: "search_loop m opt d (head_ptr ops) (length ops) (search_init seed m ops) = Some (Ret (v, r, S))"
    and post: "loop_post m ops opt d v r S" and w: "within_visits opt (s_visits S)" by blast
  let ?kr = "\<lparr>kr_verdict = v, kr_visits = s_visits S, kr_reason = r,
    kr_culprit = (if v \<noteq> Linearizable then map_option snd (s_best S) else None),
    kr_finalState = (if v = Linearizable then Some (s_state S) else None)\<rparr>"
  have "searchFull seed m opt d ops = Some (Ret ?kr)" using False run by (simp add: searchFull_def)
  moreover have "answers m ops ?kr"
  proof (cases v)
    case Linearizable
    with post have "completes m ops {..<length ops} (m_Init m) (s_state S)"
      by (simp add: loop_post_def ops_ids_def)
    then have "\<exists>seq. linearization m ops seq (s_state S)" by (simp add: linearization_completes)
    with Linearizable show ?thesis by (simp add: answers_def)
  next
    case NotLinearizable
    with post have "\<not> linearizable m ops"
      by (simp add: loop_post_def dead_end_def linearizable_completes ops_ids_def)
    with NotLinearizable show ?thesis by (simp add: answers_def)
  next
    case (Verdict_other n)
    with post show ?thesis by (simp add: loop_post_def)
  qed (simp add: answers_def)
  moreover have "v = Unknown \<longrightarrow> gave_up opt d r" using post by (auto simp: loop_post_def)
  ultimately show thesis using w by (intro that [of ?kr]) simp_all
qed

lemma answers_decided:
  assumes "answers m ops kr" "kr_verdict kr \<noteq> Unknown"
  shows "kr_verdict kr = (if linearizable m ops then Linearizable else NotLinearizable)"
  using assms by (auto simp: answers_def linearizable_def split: Verdict.splits)

section \<open>The random seed\<close>

text \<open>
  The cache is seeded at random, so two searches bucket their configurations differently. They
  agree on everything else: the same steps, verdict, count and culprit.
\<close>

definition same_seen :: "'s cache \<Rightarrow> 's cache \<Rightarrow> bool" where
  "same_seen c d \<longleftrightarrow> configs d = configs c \<and> c_bytes d = c_bytes c \<and> c_entryBytes d = c_entryBytes c"

definition same_search :: "'s search \<Rightarrow> 's search \<Rightarrow> bool" where
  "same_search S T \<longleftrightarrow>
     s_heap T = s_heap S \<and> s_lin T = s_lin S \<and> s_state T = s_state S \<and> s_calls T = s_calls S \<and>
     s_bestDepth T = s_bestDepth S \<and> s_best T = s_best S \<and> s_visits T = s_visits S \<and>
     s_iters T = s_iters S \<and> s_cursor T = s_cursor S \<and> same_seen (s_seen S) (s_seen T)"

lemma same_seen_contains: "same_seen c d \<Longrightarrow> cache_contains d b s = cache_contains c b s"
  by (simp add: same_seen_def seen.abs_contains)

lemma same_seen_Bytes: "same_seen c d \<Longrightarrow> cache_Bytes d = cache_Bytes c"
  by (simp add: same_seen_def cache_Bytes_def)

lemma same_seen_add: "same_seen c d \<Longrightarrow> same_seen (cache_add c b s) (cache_add d b s)"
  by (simp add: same_seen_def configs_add) (simp add: cache_add_def Let_def)

lemmas same_seen = same_seen_contains same_seen_Bytes same_seen_add

fun same_progress :: "'s progress \<Rightarrow> 's progress \<Rightarrow> bool" where
  "same_progress (Continue S) (Continue T) = same_search S T"
| "same_progress (Break v r S) (Break v' r' T) = (v' = v \<and> r' = r \<and> same_search S T)"
| "same_progress Panic Panic = True"
| "same_progress _ _ = False"

lemma same_step_call:
  assumes "same_search S T"
  shows "same_progress (step_call m head e S) (step_call m head e T)"
proof -
  from assms have eq: "s_heap T = s_heap S" "s_lin T = s_lin S" "s_state T = s_state S"
    "s_calls T = s_calls S" "s_bestDepth T = s_bestDepth S" "s_visits T = s_visits S"
    and ss: "same_seen (s_seen S) (s_seen T)" by (simp_all add: same_search_def)
  show ?thesis
    using assms
    by (auto simp: step_call_def Let_def eq same_seen [OF ss] same_search_def split: option.split prod.split)
qed

lemma same_step_return: "same_search S T \<Longrightarrow> same_progress (step_return m S) (step_return m T)"
  by (auto simp: step_return_def same_search_def split: list.split option.split)

lemma same_search_iters: "same_search S T \<Longrightarrow> same_search (S\<lparr>s_iters := n\<rparr>) (T\<lparr>s_iters := n\<rparr>)"
  by (simp add: same_search_def)

lemma same_search_step:
  assumes "same_search S T"
  shows "same_progress (search_step m opt d head S) (search_step m opt d head T)"
proof -
  from assms have eq: "s_heap T = s_heap S" "s_visits T = s_visits S" "s_iters T = s_iters S"
    "s_cursor T = s_cursor S" "cache_Bytes (s_seen T) = cache_Bytes (s_seen S)"
    by (simp_all add: same_search_def same_seen)
  note it = same_search_iters [OF assms, of "s_iters S + 1"]
  show ?thesis
    using assms it same_step_call [OF it] same_step_return [OF it]
    by (auto simp: search_step_def Let_def eq split: option.split)
qed

lemma same_search_loop:
  assumes ok: "entry_ok ops"
  shows "search_inv m ops S \<Longrightarrow> within_visits opt (s_visits S) \<Longrightarrow> same_search S T \<Longrightarrow>
    \<exists>v r S' T'. search_loop m opt d (head_ptr ops) n S = Some (Ret (v, r, S')) \<and>
      search_loop m opt d (head_ptr ops) n T = Some (Ret (v, r, T')) \<and> same_search S' T'"
proof (induction S arbitrary: T rule: wf_induct_rule [OF wf_search_rel [of m ops]])
  case (1 S T)
  have heap: "s_heap T = s_heap S" using 1(4) by (simp add: same_search_def)
  note loop = search_loop.simps [of m opt d "head_ptr ops" n]
  show ?case
  proof (cases "e_next (s_heap S (head_ptr ops)) = None")
    case True
    with 1(4) heap show ?thesis unfolding loop [of S] loop [of T] by simp
  next
    case False
    note same = same_search_step [OF 1(4), of m opt d "head_ptr ops"]
    from search_step_inv [OF ok 1(2,3) False, of d] show ?thesis
    proof (elim disjE exE conjE)
      fix S' assume S': "search_step m opt d (head_ptr ops) S = Continue S'" "search_inv m ops S'"
        "(S', S) \<in> search_rel m ops" "within_visits opt (s_visits S')"
      with same obtain T' where T': "search_step m opt d (head_ptr ops) T = Continue T'" "same_search S' T'"
        by (cases "search_step m opt d (head_ptr ops) T") auto
      from 1(1) [OF S'(3,2,4) T'(2)] show ?thesis
        unfolding loop [of S] loop [of T] heap if_not_P [OF False] S'(1) T'(1) by simp
    next
      fix v r S' assume S': "search_step m opt d (head_ptr ops) S = Break v r S'"
      with same obtain T' where T': "search_step m opt d (head_ptr ops) T = Break v r T'" "same_search S' T'"
        by (cases "search_step m opt d (head_ptr ops) T") auto
      then show ?thesis
        unfolding loop [of S] loop [of T] heap if_not_P [OF False] S' T'(1) by simp
    qed
  qed
qed

lemma searchFull_seed:
  assumes "entry_ok ops"
  shows "searchFull seed m opt d ops = searchFull seed' m opt d ops"
proof (cases "ops = []")
  case True
  then show ?thesis by (simp add: searchFull_def)
next
  case False
  have "same_search (search_init seed m ops) (search_init seed' m ops)"
    by (simp add: search_init_def Let_def same_search_def same_seen_def) (simp add: newCache_def)
  moreover have "within_visits opt (s_visits (search_init seed m ops))"
    by (simp add: within_visits_def search_init_def Let_def)
  ultimately obtain v r S T where
    "search_loop m opt d (head_ptr ops) (length ops) (search_init seed m ops) = Some (Ret (v, r, S))"
    "search_loop m opt d (head_ptr ops) (length ops) (search_init seed' m ops) = Some (Ret (v, r, T))"
    "same_search S T"
    using same_search_loop [OF assms search_init_inv] by meson
  with False show ?thesis by (auto simp: searchFull_def same_search_def)
qed

end
