(* ===== verification/Validate.thy ===== *)
theory Validate
  imports History
begin

text \<open>
  \<open>History.Validate\<close> (\<open>internal/history/history.go\<close>): the structural invariants a recorded history
  must satisfy, as the code checks them, and the declarative predicate \<open>valid_history\<close> that the
  check decides. The predicate speaks of the multiset of operations only, so the verdict does
  not depend on how the operations are laid out in the slice.
\<close>

section \<open>The check\<close>

datatype validate_error =
    NegativeInvoke nat int64
  | EmptyKey nat
  | NoCompletion nat Outcome
  | CompletesEarly nat int64 int64
  | InfoCompletes nat
  | BadOutcome nat Outcome
  | CasToSame nat int
  | SecondInstant nat string int64
  | AfterIndeterminate int
  | Overlap int int64 int64 int64

text \<open>The checks on operation number \<open>i\<close> alone, in the order the loop makes them.\<close>

definition validate_op :: "nat \<Rightarrow> Op \<Rightarrow> validate_error option" where
  "validate_op i op =
     (if Invoke op < 0 then Some (NegativeInvoke i (Invoke op))
      else if Key op = [] then Some (EmptyKey i)
      else case
        (if Outcome op = OK \<or> Outcome op = Fail then
           (if Complete op = Pending then Some (NoCompletion i (Outcome op))
            else if Complete op < Invoke op then Some (CompletesEarly i (Complete op) (Invoke op))
            else None)
         else if Outcome op = Info then
           (if Complete op \<noteq> Pending then Some (InfoCompletes i) else None)
         else Some (BadOutcome i (Outcome op)))
      of Some e \<Rightarrow> Some e
       | None \<Rightarrow> if OpKind op = CAS \<and> From op = To op then Some (CasToSame i (From op)) else None)"

text \<open>The first loop; \<open>instants\<close> holds the zero-width operations seen, by key and time.\<close>

fun validate_ops :: "nat \<Rightarrow> (string \<times> int64) list \<Rightarrow> History \<Rightarrow> validate_error option" where
  "validate_ops i instants [] = None"
| "validate_ops i instants (op # ops) =
     (case validate_op i op of
        Some e \<Rightarrow> Some e
      | None \<Rightarrow>
          if Outcome op \<noteq> Info \<and> Complete op = Invoke op then
            (if (Key op, Invoke op) \<in> set instants
             then Some (SecondInstant i (Key op) (Invoke op))
             else validate_ops (Suc i) ((Key op, Invoke op) # instants) ops)
          else validate_ops (Suc i) instants ops)"

text \<open>The order one process's operations are read in: by invocation, then by completion.\<close>

definition proc_less :: "Op \<Rightarrow> Op \<Rightarrow> bool" where
  "proc_less a b \<longleftrightarrow>
     (if Invoke a \<noteq> Invoke b then Invoke a < Invoke b else Complete a < Complete b)"

fun validate_proc :: "int \<Rightarrow> History \<Rightarrow> validate_error option" where
  "validate_proc proc (prev # op # ops) =
     (if Outcome prev = Info then Some (AfterIndeterminate proc)
      else if Invoke op < Complete prev
      then Some (Overlap proc (Invoke prev) (Complete prev) (Invoke op))
      else validate_proc proc (op # ops))"
| "validate_proc proc ops = None"

text \<open>
  The second loop ranges over a map, whose order Go leaves open; the processes are an argument.
  \<open>Validate\<close> takes them in order of first appearance, and \<open>validate_procs_order\<close> below shows that
  another order changes at most which error is reported, never whether there is one.
\<close>

definition byProc :: "History \<Rightarrow> int \<Rightarrow> History" where
  "byProc h p = filter (\<lambda>x. Process x = p) h"

fun validate_procs :: "int list \<Rightarrow> History \<Rightarrow> validate_error option" where
  "validate_procs [] h = None"
| "validate_procs (p # ps) h =
     (case validate_proc p (stable_sort proc_less (byProc h p)) of
        Some e \<Rightarrow> Some e
      | None \<Rightarrow> validate_procs ps h)"

definition Validate :: "History \<Rightarrow> validate_error option" where
  "Validate h =
     (case validate_ops 0 [] h of
        Some e \<Rightarrow> Some e
      | None \<Rightarrow> validate_procs (first_seen [] (map Process h)) h)"

section \<open>What the check decides\<close>

definition wf_op :: "Op \<Rightarrow> bool" where
  "wf_op op \<longleftrightarrow>
     0 \<le> Invoke op \<and> Key op \<noteq> [] \<and>
     ((Outcome op = OK \<or> Outcome op = Fail) \<and> Complete op \<noteq> Pending \<and> Invoke op \<le> Complete op
      \<or> Outcome op = Info \<and> Complete op = Pending) \<and>
     \<not> (OpKind op = CAS \<and> From op = To op)"

definition instantaneous :: "Op \<Rightarrow> bool" where
  "instantaneous op \<longleftrightarrow> Complete op = Invoke op"

text \<open>One process, one request at a time: \<open>a\<close> was answered before \<open>b\<close> was sent.\<close>

definition answered_before :: "Op \<Rightarrow> Op \<Rightarrow> bool" where
  "answered_before a b \<longleftrightarrow> Outcome a \<noteq> Info \<and> Complete a \<le> Invoke b"

text \<open>Two operations of one history agree with each other.\<close>

definition same_instant :: "Op \<Rightarrow> Op \<Rightarrow> bool" where
  "same_instant a b \<longleftrightarrow>
     Outcome a \<noteq> Info \<and> Outcome b \<noteq> Info \<and> instantaneous a \<and> instantaneous b \<and>
     Key a = Key b \<and> Invoke a = Invoke b"

definition compatible :: "Op \<Rightarrow> Op \<Rightarrow> bool" where
  "compatible a b \<longleftrightarrow>
     \<not> same_instant a b \<and>
     (Process a = Process b \<longrightarrow> answered_before a b \<or> answered_before b a)"

definition valid_history :: "History \<Rightarrow> bool" where
  "valid_history h \<longleftrightarrow> (\<forall>op \<in> set h. wf_op op) \<and> sorted_wrt compatible h"

lemmas valid_defs = valid_history_def wf_op_def compatible_def same_instant_def
  answered_before_def instantaneous_def

lemma symp_compatible: "symp compatible"
  by (auto simp: symp_def compatible_def same_instant_def)

lemma valid_history_perm: "mset h = mset h' \<Longrightarrow> valid_history h \<longleftrightarrow> valid_history h'"
  unfolding valid_history_def
  by (metis mset_eq_setD sorted_wrt_symp_perm symp_compatible)

lemma valid_history_filter: "valid_history h \<Longrightarrow> valid_history (filter P h)"
  by (auto simp: valid_history_def sorted_wrt_filter)

lemma validate_op_None: "validate_op i op = None \<longleftrightarrow> wf_op op"
  by (cases "Outcome op") (auto simp: validate_op_def wf_op_def)

lemma validate_ops_None:
  "validate_ops i instants h = None \<longleftrightarrow>
     (\<forall>op \<in> set h. wf_op op) \<and> sorted_wrt (\<lambda>a b. \<not> same_instant a b) h \<and>
     (\<forall>op \<in> set h. Outcome op \<noteq> Info \<longrightarrow> instantaneous op \<longrightarrow> (Key op, Invoke op) \<notin> set instants)"
proof (induction i instants h rule: validate_ops.induct)
  case (1 i instants)
  then show ?case by simp
next
  case (2 i instants op ops)
  show ?case
  proof (cases "validate_op i op")
    case (Some e)
    then have "\<not> wf_op op" using validate_op_None [of i op] by simp
    with Some show ?thesis by simp
  next
    case None
    then have wf: "wf_op op" by (simp add: validate_op_None)
    show ?thesis
    proof (cases "Outcome op \<noteq> Info \<and> Complete op = Invoke op")
      case True
      with None wf 2(1) [OF None True] show ?thesis
        by (auto simp: same_instant_def instantaneous_def)
    next
      case False
      with None wf 2(2) [OF None False] show ?thesis
        by (auto simp: same_instant_def instantaneous_def)
    qed
  qed
qed

interpretation proc_order: keyed_less proc_less "\<lambda>x. (Invoke x, Complete x)"
  by unfold_locales (auto simp: proc_less_def)

lemma answered_before_trans:
  "answered_before a b \<Longrightarrow> answered_before b c \<Longrightarrow> wf_op b \<Longrightarrow> answered_before a c"
  by (auto simp: answered_before_def wf_op_def)

lemma validate_proc_None:
  "\<forall>op \<in> set h. wf_op op \<Longrightarrow> validate_proc p h = None \<longleftrightarrow> sorted_wrt answered_before h"
proof (induction p h rule: validate_proc.induct)
  case (1 p a b h)
  have "\<not> Outcome a = Info \<Longrightarrow> \<not> Invoke b < Complete a \<Longrightarrow>
      (validate_proc p (b # h) = None) = sorted_wrt answered_before (b # h)"
    using 1 by (meson list.set_intros(2))
  then have "validate_proc p (a # b # h) = None \<longleftrightarrow>
      answered_before a b \<and> sorted_wrt answered_before (b # h)"
    unfolding answered_before_def [of a b] by (simp del: sorted_wrt.simps)
  also have "\<dots> \<longleftrightarrow> sorted_wrt answered_before (a # b # h)"
    using 1(2) by (auto dest: answered_before_trans)
  finally show ?case .
qed simp_all

lemma answered_before_swap:
  assumes "wf_op a" "wf_op b" "int64_op b" "answered_before b a" "(Invoke a, Complete a) \<le> (Invoke b, Complete b)"
  shows "answered_before a b"
  using assms int64_op_Pending [OF assms(3)]
  by (cases "Outcome a") (auto simp: answered_before_def wf_op_def less_eq_prod_def)

lemma symp_answered: "symp (\<lambda>a b. answered_before a b \<or> answered_before b a)"
  by (auto simp: symp_def)

lemma validate_proc_sorted_None:
  assumes "\<forall>op \<in> set h. wf_op op" "\<forall>op \<in> set h. int64_op op"
  shows "validate_proc p (stable_sort proc_less h) = None \<longleftrightarrow>
         sorted_wrt (\<lambda>a b. answered_before a b \<or> answered_before b a) h"
proof -
  let ?s = "stable_sort proc_less h"
  let ?R = "\<lambda>a b. answered_before a b \<or> answered_before b a"
  have wf: "\<forall>op \<in> set ?s. wf_op op \<and> int64_op op" using assms by simp
  have key: "sorted_wrt (\<lambda>a b. (Invoke a, Complete a) \<le> (Invoke b, Complete b)) ?s"
    using proc_order.sorted_sort_by by (simp add: sorted_map)
  have "sorted_wrt answered_before ?s \<longleftrightarrow> sorted_wrt ?R ?s"
  proof
    assume "sorted_wrt answered_before ?s"
    then show "sorted_wrt ?R ?s" by (rule sorted_wrt_mono_rel [rotated]) simp
  next
    assume "sorted_wrt ?R ?s"
    with key have "sorted_wrt (\<lambda>a b. (Invoke a, Complete a) \<le> (Invoke b, Complete b) \<and> ?R a b) ?s"
      by (simp add: sorted_wrt_iff_nth_less)
    then show "sorted_wrt answered_before ?s"
      by (rule sorted_wrt_mono_rel [rotated]) (use wf answered_before_swap in blast)
  qed
  also have "\<dots> \<longleftrightarrow> sorted_wrt ?R h"
    by (rule sorted_wrt_symp_perm [OF symp_answered]) simp
  finally show ?thesis using wf by (simp add: validate_proc_None)
qed

lemma validate_procs_None:
  assumes "\<forall>op \<in> set h. wf_op op" "\<forall>op \<in> set h. int64_op op"
  shows "validate_procs ps h = None \<longleftrightarrow>
     (\<forall>p \<in> set ps. sorted_wrt (\<lambda>a b. answered_before a b \<or> answered_before b a) (byProc h p))"
proof (induction ps)
  case Nil
  then show ?case by simp
next
  case (Cons p ps)
  have "\<forall>op \<in> set (byProc h p). wf_op op" "\<forall>op \<in> set (byProc h p). int64_op op"
    using assms by (simp_all add: byProc_def)
  from validate_proc_sorted_None [OF this, of p] Cons show ?case
    by (cases "validate_proc p (stable_sort proc_less (byProc h p))") auto
qed

lemma validate_procs_order:
  "\<forall>op \<in> set h. wf_op op \<Longrightarrow> \<forall>op \<in> set h. int64_op op \<Longrightarrow> set ps = set qs \<Longrightarrow>
   validate_procs ps h = None \<longleftrightarrow> validate_procs qs h = None"
  by (simp add: validate_procs_None)

lemma sorted_wrt_filter_classes:
  "(\<forall>p \<in> f ` set h. sorted_wrt R (filter (\<lambda>x. f x = p) h)) \<longleftrightarrow>
   sorted_wrt (\<lambda>a b. f a = f b \<longrightarrow> R a b) h"
proof (induction h)
  case Nil
  then show ?case by simp
next
  case (Cons a h)
  have "sorted_wrt (\<lambda>a b. f a = f b \<longrightarrow> R a b) (a # h) \<longleftrightarrow>
      (\<forall>b \<in> set h. f a = f b \<longrightarrow> R a b) \<and> (\<forall>p \<in> f ` set h. sorted_wrt R (filter (\<lambda>x. f x = p) h))"
    using Cons by simp
  also have "\<dots> \<longleftrightarrow> (\<forall>p \<in> f ` set (a # h). sorted_wrt R (filter (\<lambda>x. f x = p) (a # h)))"
  proof (cases "f a \<in> f ` set h")
    case True
    then show ?thesis by auto
  next
    case False
    then have "filter (\<lambda>x. f x = f a) h = []"
      by (metis (mono_tags, lifting) filter_False imageI)
    with False show ?thesis by auto
  qed
  finally show ?case by simp
qed

lemma Validate_None:
  assumes "\<forall>op \<in> set h. int64_op op"
  shows "Validate h = None \<longleftrightarrow> valid_history h"
proof (cases "validate_ops 0 [] h")
  case (Some e)
  then have "\<not> ((\<forall>op \<in> set h. wf_op op) \<and> sorted_wrt (\<lambda>a b. \<not> same_instant a b) h)"
    using validate_ops_None [of 0 "[]" h] by auto
  then have "\<not> valid_history h"
    unfolding valid_history_def by (metis (no_types, lifting) compatible_def sorted_wrt_mono_rel)
  with Some show ?thesis by (simp add: Validate_def)
next
  case None
  then have wf: "\<forall>op \<in> set h. wf_op op"
    and inst: "sorted_wrt (\<lambda>a b. \<not> same_instant a b) h"
    using validate_ops_None [of 0 "[]" h] by simp_all
  let ?R = "\<lambda>a b. answered_before a b \<or> answered_before b a"
  have "Validate h = None \<longleftrightarrow> (\<forall>p \<in> Process ` set h. sorted_wrt ?R (byProc h p))"
    using None by (simp add: Validate_def validate_procs_None [OF wf assms])
  also have "\<dots> \<longleftrightarrow> sorted_wrt (\<lambda>a b. Process a = Process b \<longrightarrow> ?R a b) h"
    unfolding byProc_def by (rule sorted_wrt_filter_classes)
  also have "\<dots> \<longleftrightarrow> sorted_wrt compatible h"
    using inst by (auto simp: compatible_def sorted_wrt_iff_nth_less)
  finally show ?thesis using wf by (simp add: valid_history_def)
qed

end
