(* ===== verification/Brute.thy ===== *)
theory Brute
  imports Search Validate
begin

text \<open>
  \<open>internal/checker/brute.go\<close>: the exponential reference implementation, and that it decides
  exactly the specification \<open>linearizable\<close>.
\<close>

datatype check_error =
    MalformedHistory validate_error
  | TooManyKeys nat "string list"
  | TooManyOps nat int

definition bruteMinimal :: "History \<Rightarrow> bool list \<Rightarrow> nat \<Rightarrow> bool" where
  "bruteMinimal ops placed i =
     list_all (\<lambda>j. j = i \<or> placed ! j \<or> \<not> Complete (ops ! j) \<le> Invoke (ops ! i)) [0..<length ops]"

fun bruteSearch :: "History \<Rightarrow> 's model \<Rightarrow> 's \<Rightarrow> bool list \<Rightarrow> nat \<Rightarrow> bool" where
  "bruteSearch ops m s placed 0 = True"
| "bruteSearch ops m s placed (Suc remaining) =
     list_ex (\<lambda>i.
       if placed ! i \<or> \<not> bruteMinimal ops placed i then False
       else case m_Step m s (ops ! i) of (next, ok) \<Rightarrow>
         ok \<and> bruteSearch ops m next (placed[i := True]) remaining) [0..<length ops]"

definition BruteForce :: "History \<Rightarrow> 's model \<Rightarrow> int \<Rightarrow> check_error + Verdict" where
  "BruteForce ops m maxOps =
     (if int (length ops) > maxOps then Inl (TooManyOps (length ops) maxOps)
      else
        let live = DropFailed ops; placed = replicate (length live) False in
        Inr (if bruteSearch live m (m_Init m) placed (length live) then Linearizable else NotLinearizable))"

section \<open>It decides linearizability\<close>

definition unplaced :: "History \<Rightarrow> bool list \<Rightarrow> nat set" where
  "unplaced ops placed = {i. i < length ops \<and> \<not> placed ! i}"

lemma case_ok: "(case r of (s, ok) \<Rightarrow> ok \<and> P s) \<longleftrightarrow> (\<exists>s. r = (s, True) \<and> P s)"
  by (cases r) auto

lemma bruteMinimal_iff:
  "bruteMinimal ops placed i \<longleftrightarrow> minimal ops (unplaced ops placed) i"
  by (auto simp: bruteMinimal_def minimal_def unplaced_def list_all_iff precedes_def)

lemma unplaced_update:
  "length placed = length ops \<Longrightarrow> i < length ops \<Longrightarrow>
   unplaced ops (placed[i := True]) = unplaced ops placed - {i}"
  by (auto simp: unplaced_def nth_list_update)

lemma bruteSearch_iff:
  "length placed = length ops \<Longrightarrow> card (unplaced ops placed) = remaining \<Longrightarrow>
   bruteSearch ops m s placed remaining \<longleftrightarrow> (\<exists>t. completes m ops (unplaced ops placed) s t)"
proof (induction remaining arbitrary: placed s)
  case 0
  then have "unplaced ops placed = {}" by (simp add: unplaced_def)
  then show ?case by (simp add: completes_empty)
next
  case (Suc n)
  let ?R = "unplaced ops placed"
  have rec: "bruteSearch ops m s' (placed[i := True]) n \<longleftrightarrow> (\<exists>t. completes m ops (?R - {i}) s' t)"
    if "i \<in> ?R" for i s'
  proof -
    have i: "i < length ops" using that by (simp add: unplaced_def)
    have "card (?R - {i}) = n" using Suc.prems(2) that by simp
    then show ?thesis using Suc.IH [of "placed[i := True]" s'] Suc.prems(1) i
      by (simp add: unplaced_update)
  qed
  have "bruteSearch ops m s placed (Suc n) \<longleftrightarrow>
      (\<exists>i \<in> ?R. minimal ops ?R i \<and> (\<exists>s'. m_Step m s (ops ! i) = (s', True) \<and>
         bruteSearch ops m s' (placed[i := True]) n))"
    by (simp add: list_ex_iff bruteMinimal_iff case_ok) (auto simp: unplaced_def)
  also have "\<dots> \<longleftrightarrow> (\<exists>t. completes m ops ?R s t)"
  proof
    assume "\<exists>i \<in> ?R. minimal ops ?R i \<and> (\<exists>s'. m_Step m s (ops ! i) = (s', True) \<and>
         bruteSearch ops m s' (placed[i := True]) n)"
    then show "\<exists>t. completes m ops ?R s t" using rec completes_step by metis
  next
    assume "\<exists>t. completes m ops ?R s t"
    then obtain t where "completes m ops ?R s t" ..
    then show "\<exists>i \<in> ?R. minimal ops ?R i \<and> (\<exists>s'. m_Step m s (ops ! i) = (s', True) \<and>
         bruteSearch ops m s' (placed[i := True]) n)"
    proof (cases rule: completes_cases)
      case finished
      with Suc.prems(2) show ?thesis by simp
    next
      case (placed i s')
      with rec show ?thesis by blast
    qed
  qed
  finally show ?case .
qed

lemma BruteForce_linearizable:
  assumes "int (length h) \<le> maxOps"
  shows "BruteForce h m maxOps =
    Inr (if linearizable m (DropFailed h) then Linearizable else NotLinearizable)"
proof -
  let ?l = "DropFailed h" and ?p = "replicate (length (DropFailed h)) False"
  have un: "unplaced ?l ?p = {..<length ?l}" by (auto simp: unplaced_def)
  have "bruteSearch ?l m (m_Init m) ?p (length ?l) \<longleftrightarrow> (\<exists>t. completes m ?l (unplaced ?l ?p) (m_Init m) t)"
    by (rule bruteSearch_iff) (simp_all add: un)
  also have "\<dots> \<longleftrightarrow> linearizable m ?l" by (simp add: un linearizable_completes)
  finally show ?thesis using assms by (simp add: BruteForce_def Let_def)
qed

end
