(* ===== verification/Key_Search.thy ===== *)
theory Key_Search
  imports Search_Correct Brute
begin

text \<open>
  One key's decision (\<open>searchKey\<close> and \<open>indeterminateLast\<close> in \<open>internal/checker/checker.go\<close>): the
  special case tried first, in which every operation without an answer goes last, and the general
  search on what is left of the budget.
\<close>

section \<open>The code\<close>

definition indeterminateLastVisits :: int where
  "indeterminateLastVisits = 32"

fun append_indeterminate :: "'s model \<Rightarrow> 's \<Rightarrow> int \<Rightarrow> History \<Rightarrow> bool \<times> int" where
  "append_indeterminate m state visits [] = (True, visits)"
| "append_indeterminate m state visits (op # ops) =
     (case m_Step m state op of (next, ok) \<Rightarrow>
        if \<not> ok then (False, visits + 1) else append_indeterminate m next (visits + 1) ops)"

definition indeterminateLast ::
  "('s \<Rightarrow> 64 word) \<Rightarrow> 's model \<Rightarrow> Options \<Rightarrow> deadline \<Rightarrow> History \<Rightarrow> (bool \<times> int) run" where
  "indeterminateLast seed m opt d ops =
     (case partition (\<lambda>op. Outcome op = Info) ops of (indeterminate, returned) \<Rightarrow>
        if indeterminate = [] then Some (Ret (False, 0))
        else
          let cap = indeterminateLastVisits * int (length ops);
              probe = opt\<lparr>MaxVisits :=
                (if MaxVisits opt > 0 \<and> MaxVisits opt < cap then MaxVisits opt else cap)\<rparr>
          in and_then (searchFull seed m probe d returned) (\<lambda>kr.
               if kr_verdict kr \<noteq> Linearizable then Some (Ret (False, kr_visits kr))
               else case kr_finalState kr of
                 None \<Rightarrow> Some Panicked
               | Some state \<Rightarrow> Some (Ret (append_indeterminate m state (kr_visits kr) indeterminate))))"

text \<open>
  A \<open>keyResult\<close> that \<open>searchKey\<close> builds itself leaves the culprit and the final state unset. A
  missing final state after a \<open>Linearizable\<close> would be a nil interface handed to \<open>Step\<close>; it is
  modelled as a panic and shown not to happen.
\<close>

definition keyResult :: "Verdict \<Rightarrow> reason \<Rightarrow> int \<Rightarrow> 's keyResult" where
  "keyResult v r visits =
     \<lparr>kr_verdict = v, kr_visits = visits, kr_reason = r, kr_culprit = None, kr_finalState = None\<rparr>"

definition searchKey ::
  "('s \<Rightarrow> 64 word) \<Rightarrow> 's model \<Rightarrow> Options \<Rightarrow> deadline \<Rightarrow> History \<Rightarrow> 's keyResult run" where
  "searchKey seed m opt d ops =
     (if ops = [] then Some (Ret (keyResult Linearizable (AllLinearize 0) 0))
      else and_then (indeterminateLast seed m opt (sub 0 d) ops) (\<lambda>(found, spent).
        if found then Some (Ret (keyResult Linearizable (AllLinearize (length ops)) spent))
        else if MaxVisits opt > 0 \<and> spent \<ge> MaxVisits opt
        then Some (Ret (keyResult Unknown (OverVisits spent) spent))
        else
          let rest = (if MaxVisits opt > 0 then opt\<lparr>MaxVisits := MaxVisits opt - spent\<rparr> else opt)
          in and_then (searchFull seed m rest (sub 1 d) ops) (\<lambda>kr.
               Some (Ret (kr\<lparr>kr_visits := kr_visits kr + spent\<rparr>)))))"

section \<open>What one key's operations have to be\<close>

definition key_ok :: "History \<Rightarrow> bool" where
  "key_ok ops \<longleftrightarrow>
     entry_ok ops \<and>
     (\<forall>op \<in> set ops. (Outcome op = Info \<longleftrightarrow> Complete op = Pending) \<and> Invoke op < Pending \<and> int64_op op)"

lemma entry_ok_perm: "mset a = mset b \<Longrightarrow> entry_ok a \<longleftrightarrow> entry_ok b"
  unfolding entry_ok_def
  by (intro conj_cong sorted_wrt_symp_perm) (auto simp: symp_def dest: mset_eq_setD)

lemma key_ok_perm: "mset a = mset b \<Longrightarrow> key_ok a \<longleftrightarrow> key_ok b"
  unfolding key_ok_def using entry_ok_perm [of a b] by (auto dest: mset_eq_setD)

lemma key_ok_filter: "key_ok ops \<Longrightarrow> key_ok (filter P ops)"
  by (auto simp: key_ok_def entry_ok_def sorted_wrt_filter)

text \<open>\<open>before_pending h\<close>: no operation is invoked at the last representable instant.\<close>

definition before_pending :: "History \<Rightarrow> bool" where
  "before_pending h \<longleftrightarrow> (\<forall>op \<in> set h. int64_op op \<and> Invoke op < Pending)"

definition single_key :: "History \<Rightarrow> bool" where
  "single_key h \<longleftrightarrow> (\<forall>a \<in> set h. \<forall>b \<in> set h. Key a = Key b)"

lemma key_ok_valid:
  assumes v: "valid_history h" and b: "before_pending h" and k: "single_key h"
  shows "key_ok h"
proof -
  have wf: "wf_op op" if "op \<in> set h" for op using v that by (simp add: valid_history_def)
  have "sorted_wrt (\<lambda>x y. \<not> (Complete x = Invoke x \<and> Complete y = Invoke y \<and> Invoke x = Invoke y)) h"
  proof (rule sorted_wrt_mono_rel [of h compatible])
    show "sorted_wrt compatible h" using v by (simp add: valid_history_def)
    fix x y assume xy: "x \<in> set h" "y \<in> set h" "compatible x y"
    have key: "Key x = Key y" using k xy(1,2) unfolding single_key_def by blast
    have fin: "Outcome op \<noteq> Info" if "op \<in> set h" "Complete op = Invoke op" for op
    proof
      assume "Outcome op = Info"
      then have "Complete op = Pending" using wf [OF that(1)] by (simp add: wf_op_def)
      moreover have "Invoke op < Pending" using b that(1) unfolding before_pending_def by blast
      ultimately show False using that(2) by simp
    qed
    have "\<not> same_instant x y" using xy(3) by (simp add: compatible_def)
    with key fin [OF xy(1)] fin [OF xy(2)]
    show "\<not> (Complete x = Invoke x \<and> Complete y = Invoke y \<and> Invoke x = Invoke y)"
      by (simp add: same_instant_def instantaneous_def)
  qed
  moreover have "Invoke op \<le> Complete op" if "op \<in> set h" for op
    using wf [OF that] b that by (auto simp: wf_op_def before_pending_def)
  moreover have "Outcome op = Info \<longleftrightarrow> Complete op = Pending" if "op \<in> set h" for op
    using wf [OF that] by (auto simp: wf_op_def)
  moreover have "Invoke op < Pending \<and> int64_op op" if "op \<in> set h" for op
    using b that by (simp add: before_pending_def)
  ultimately show ?thesis unfolding key_ok_def entry_ok_def by blast
qed

section \<open>The special case\<close>

lemma append_indeterminate_visits:
  "append_indeterminate m s v ops = (ok, v') \<Longrightarrow> v \<le> v' \<and> v' \<le> v + int (length ops)"
  by (induction ops arbitrary: s v) (fastforce split: prod.splits if_splits)+

lemma append_indeterminate_replay:
  "append_indeterminate m s v ops = (True, v') \<Longrightarrow> \<exists>t. replay m s ops = Some t"
  by (induction ops arbitrary: s v) (auto split: prod.splits if_splits)

lemma real_time_pending:
  "\<forall>op \<in> set ops. Complete op = Pending \<and> Invoke op < Pending \<Longrightarrow> real_time ops"
  by (induction ops) (auto simp: real_time_def precedes_def)

lemma indeterminate_last_linearizes:
  assumes ok: "key_ok ops"
    and seq: "linearization m (filter (\<lambda>op. Outcome op \<noteq> Info) ops) seq s"
    and t: "replay m s (filter (\<lambda>op. Outcome op = Info) ops) = Some t"
  shows "linearization m ops (seq @ filter (\<lambda>op. Outcome op = Info) ops) t"
proof -
  let ?i = "filter (\<lambda>op. Outcome op = Info) ops"
  from seq have m: "mset seq = mset (filter (\<lambda>op. Outcome op \<noteq> Info) ops)"
    and rt: "real_time seq" and rp: "replay m (m_Init m) seq = Some s"
    by (simp_all add: linearization_def)
  have "mset (seq @ ?i) = mset ops"
    unfolding mset_append m mset_filter
    using multiset_partition [of "mset ops" "\<lambda>op. Outcome op = Info"] by (simp only: add.commute)
  moreover have "real_time (seq @ ?i)"
  proof -
    have "real_time ?i" using ok by (intro real_time_pending) (auto simp: key_ok_def)
    moreover have "\<not> precedes b a" if "a \<in> set seq" "b \<in> set ?i" for a b
    proof -
      have "a \<in> set ops" using that(1) mset_eq_setD [OF m] by auto
      then have "Invoke a < Pending" using ok by (simp add: key_ok_def)
      moreover have "Complete b = Pending" using ok that(2) by (auto simp: key_ok_def)
      ultimately show ?thesis by (simp add: precedes_def)
    qed
    ultimately show ?thesis using rt by (simp add: real_time_append)
  qed
  moreover have "replay m (m_Init m) (seq @ ?i) = Some t" using rp t by (simp add: replay_append)
  ultimately show ?thesis by (simp add: linearization_def)
qed

definition infos :: "History \<Rightarrow> int" where
  "infos ops = int (length (filter (\<lambda>op. Outcome op = Info) ops))"

lemma indeterminateLast_correct:
  assumes ok: "key_ok ops"
  obtains found spent where "indeterminateLast seed m opt d ops = Some (Ret (found, spent))"
    "found \<longrightarrow> linearizable m ops" "0 \<le> spent"
    "0 < MaxVisits opt \<longrightarrow> spent \<le> MaxVisits opt + infos ops"
    "spent \<le> 32 * int (length ops) + infos ops"
proof -
  let ?i = "filter (\<lambda>op. Outcome op = Info) ops" and ?r = "filter (\<lambda>op. Outcome op \<noteq> Info) ops"
  have part: "partition (\<lambda>op. Outcome op = Info) ops = (?i, ?r)"
    by (simp add: o_def)
  show thesis
  proof (cases "?i = []")
    case True
    with part show thesis by (intro that [of False 0]) (simp_all add: indeterminateLast_def infos_def)
  next
    case False
    let ?cap = "indeterminateLastVisits * int (length ops)"
    let ?probe = "opt\<lparr>MaxVisits := (if MaxVisits opt > 0 \<and> MaxVisits opt < ?cap then MaxVisits opt else ?cap)\<rparr>"
    have "entry_ok ?r" using key_ok_filter [OF ok] by (simp add: key_ok_def)
    from searchFull_correct [OF this] obtain kr where
      kr: "searchFull seed m ?probe d ?r = Some (Ret kr)" "answers m ?r kr"
        "within_visits ?probe (kr_visits kr)" .
    have "0 < ?cap" using False by (cases ops) (auto simp: indeterminateLastVisits_def)
    with kr(3) have v: "0 \<le> kr_visits kr" "0 < MaxVisits opt \<longrightarrow> kr_visits kr \<le> MaxVisits opt"
      "kr_visits kr \<le> 32 * int (length ops)"
      by (auto simp: within_visits_def indeterminateLastVisits_def split: if_splits)
    have run: "indeterminateLast seed m opt d ops =
       (if kr_verdict kr \<noteq> Linearizable then Some (Ret (False, kr_visits kr))
        else case kr_finalState kr of
           None \<Rightarrow> Some Panicked
         | Some state \<Rightarrow> Some (Ret (append_indeterminate m state (kr_visits kr) ?i)))"
      unfolding indeterminateLast_def part using False kr(1) by (simp add: Let_def del: partition_filter_conv)
    show thesis
    proof (cases "kr_verdict kr = Linearizable")
      case False
      with run v show thesis by (intro that [of False "kr_visits kr"]) (auto simp: infos_def)
    next
      case True
      with kr(2) obtain s seq where s: "kr_finalState kr = Some s" "linearization m ?r seq s"
        by (auto simp: answers_def)
      obtain found spent where w: "append_indeterminate m s (kr_visits kr) ?i = (found, spent)" by fastforce
      have b: "kr_visits kr \<le> spent \<and> spent \<le> kr_visits kr + int (length ?i)"
        using append_indeterminate_visits [OF w] .
      have "linearizable m ops" if found
        using append_indeterminate_replay [of m s "kr_visits kr" ?i spent] w that
          indeterminate_last_linearizes [OF ok s(2)] by (auto simp: linearizable_def)
      with run True s(1) w b v show thesis
        by (intro that [of found spent]) (auto simp: infos_def)
    qed
  qed
qed

section \<open>The decision on one key\<close>

definition decides :: "'s model \<Rightarrow> History \<Rightarrow> Verdict \<Rightarrow> bool" where
  "decides m ops v \<longleftrightarrow>
     (case v of
        Linearizable \<Rightarrow> linearizable m ops
      | NotLinearizable \<Rightarrow> \<not> linearizable m ops
      | Unknown \<Rightarrow> True
      | Verdict_other _ \<Rightarrow> False)"

lemma answers_decides: "answers m ops kr \<Longrightarrow> decides m ops (kr_verdict kr)"
  by (auto simp: answers_def decides_def linearizable_def split: Verdict.splits)

lemma decides_eq:
  "decides m ops v \<Longrightarrow> v \<noteq> Unknown \<Longrightarrow> v = (if linearizable m ops then Linearizable else NotLinearizable)"
  by (auto simp: decides_def split: Verdict.splits)

lemma searchKey_correct:
  assumes ok: "key_ok ops"
  obtains kr where "searchKey seed m opt d ops = Some (Ret kr)" "decides m ops (kr_verdict kr)"
    "unbudgeted opt d \<longrightarrow> kr_verdict kr \<noteq> Unknown"
    "0 < MaxVisits opt \<longrightarrow> kr_visits kr \<le> MaxVisits opt + infos ops" "0 \<le> kr_visits kr"
proof (cases "ops = []")
  case True
  then have "linearizable m ops"
    by (auto simp: linearizable_def linearization_def real_time_def)
  with True show thesis
    by (intro that [of "keyResult Linearizable (AllLinearize 0) 0"])
      (simp_all add: searchKey_def keyResult_def decides_def infos_def)
next
  case False
  from indeterminateLast_correct [OF ok] obtain found spent where
    i: "indeterminateLast seed m opt (sub 0 d) ops = Some (Ret (found, spent))"
      "found \<longrightarrow> linearizable m ops" "0 \<le> spent" "0 < MaxVisits opt \<longrightarrow> spent \<le> MaxVisits opt + infos ops" .
  consider (found) found | (spent) "\<not> found" "0 < MaxVisits opt" "MaxVisits opt \<le> spent"
    | (go) "\<not> found" "\<not> (0 < MaxVisits opt \<and> MaxVisits opt \<le> spent)" by linarith
  then show thesis
  proof cases
    case found
    with False i show thesis
      by (intro that [of "keyResult Linearizable (AllLinearize (length ops)) spent"])
        (simp_all add: searchKey_def keyResult_def decides_def)
  next
    case spent
    with False i show thesis
      by (intro that [of "keyResult Unknown (OverVisits spent) spent"])
        (simp_all add: searchKey_def keyResult_def decides_def unbudgeted_def)
  next
    case go
    let ?rest = "if MaxVisits opt > 0 then opt\<lparr>MaxVisits := MaxVisits opt - spent\<rparr> else opt"
    have "entry_ok ops" using ok by (simp add: key_ok_def)
    from searchFull_correct [OF this] obtain kr where
      kr: "searchFull seed m ?rest (sub 1 d) ops = Some (Ret kr)" "answers m ops kr"
        "within_visits ?rest (kr_visits kr)" "kr_verdict kr = Unknown \<longrightarrow> gave_up ?rest (sub 1 d) (kr_reason kr)" .
    have run: "searchKey seed m opt d ops = Some (Ret (kr\<lparr>kr_visits := kr_visits kr + spent\<rparr>))"
      unfolding searchKey_def Let_def if_not_P [OF False] i(1) and_then_simps prod.case
        if_not_P [OF go(1)] if_not_P [OF go(2)] kr(1) ..
    have "unbudgeted opt d \<longrightarrow> unbudgeted ?rest (sub 1 d)" by (simp add: unbudgeted_def)
    then have "unbudgeted opt d \<longrightarrow> kr_verdict kr \<noteq> Unknown" using kr(4) gave_up_budget by blast
    moreover have "0 < MaxVisits opt \<longrightarrow> kr_visits kr + spent \<le> MaxVisits opt + infos ops"
      using kr(3) go(2) by (auto simp: within_visits_def infos_def)
    ultimately show thesis
      using run answers_decides [OF kr(2)] kr(3) i(3)
      by (intro that [of "kr\<lparr>kr_visits := kr_visits kr + spent\<rparr>"]) (simp_all add: within_visits_def)
  qed
qed

end
