(* ===== verification/Minimise.thy ===== *)
theory Minimise
  imports Key_Search
begin

text \<open>
  Minimisation (\<open>eventTimes\<close>, \<open>truncateAt\<close> and \<open>minimise\<close> in \<open>internal/checker/checker.go\<close>): the
  binary search for the earliest moment at which a violation became unavoidable. Its soundness
  rests on the monotonicity of truncation, proved once for every model under the contract
  \<open>sequential_model\<close>.
\<close>

section \<open>The code\<close>

definition add_time :: "int64 list \<Rightarrow> int64 \<Rightarrow> int64 list" where
  "add_time ts t = (if t \<in> set ts then ts else ts @ [t])"

fun scan_times :: "int64 list \<Rightarrow> int64 \<Rightarrow> History \<Rightarrow> int64 list \<times> int64" where
  "scan_times ts latest [] = (ts, latest)"
| "scan_times ts latest (op # ops) =
     (let ts = add_time ts (Invoke op);
          latest = (if Invoke op > latest then Invoke op else latest)
      in if Complete op \<noteq> Pending then
           scan_times (add_time ts (Complete op)) (if Complete op > latest then Complete op else latest) ops
         else scan_times ts latest ops)"

definition eventTimes :: "History \<Rightarrow> int64 list" where
  "eventTimes ops =
     (case scan_times [] 0 ops of (ts, latest) \<Rightarrow> stable_sort (<) (add_time ts (wrap64 (latest + 1))))"

fun truncateAt :: "History \<Rightarrow> int64 \<Rightarrow> History" where
  "truncateAt [] t = []"
| "truncateAt (op # ops) t =
     (if Invoke op \<ge> t then truncateAt ops t
      else (if Complete op \<ge> t then op\<lparr>Outcome := Info, Complete := Pending\<rparr> else op) # truncateAt ops t)"

definition sortedTruncation :: "History \<Rightarrow> int64 \<Rightarrow> History" where
  "sortedTruncation ops t = SortByInvoke (truncateAt ops t)"

text \<open>
  The loop of \<open>minimise\<close>; \<open>k\<close> numbers its probes for the clock. \<open>None\<close> is the \<open>false\<close> it returns
  when a probe was not decided.
\<close>

function minimise_loop ::
  "('s \<Rightarrow> 64 word) \<Rightarrow> 's model \<Rightarrow> Options \<Rightarrow> deadline \<Rightarrow> History \<Rightarrow> int64 list \<Rightarrow> nat \<Rightarrow> nat \<Rightarrow> nat \<Rightarrow>
   History option run" where
  "minimise_loop seed m opt d ops ts k lo hi =
     (if lo < hi then
        let mid = (lo + hi) div 2 in
        (if mid < length ts then
          (case searchKey seed m opt (sub k d) (sortedTruncation ops (ts ! mid)) of
             None \<Rightarrow> None
           | Some Panicked \<Rightarrow> Some Panicked
           | Some (Ret kr) \<Rightarrow>
               (case kr_verdict kr of
                  NotLinearizable \<Rightarrow> minimise_loop seed m opt d ops ts (Suc k) lo mid
                | Linearizable \<Rightarrow> minimise_loop seed m opt d ops ts (Suc k) (mid + 1) hi
                | _ \<Rightarrow> Some (Ret None)))
         else Some Panicked)
      else if lo < length ts then Some (Ret (Some (sortedTruncation ops (ts ! lo))))
      else Some Panicked)"
  by pat_completeness auto

termination
  by (relation "measure (\<lambda>(seed, m, opt, d, ops, ts, k, lo, hi). hi - lo)") auto

declare minimise_loop.simps [simp del]

definition minimise ::
  "('s \<Rightarrow> 64 word) \<Rightarrow> 's model \<Rightarrow> Options \<Rightarrow> deadline \<Rightarrow> History \<Rightarrow> History option run" where
  "minimise seed m opt d ops =
     (let ts = eventTimes ops in
      minimise_loop seed m (opt\<lparr>Minimize := False\<rparr>) d ops ts 0 0 (length ts - 1))"

section \<open>Truncation\<close>

definition cut :: "int64 \<Rightarrow> Op \<Rightarrow> Op" where
  "cut t op = (if Complete op \<ge> t then downgrade op else op)"

lemma truncateAt_eq: "truncateAt ops t = map (cut t) (filter (\<lambda>op. Invoke op < t) ops)"
  by (induction ops) (auto simp: cut_def downgrade_def)

lemma Invoke_cut [simp]: "Invoke (cut t op) = Invoke op"
  by (simp add: cut_def)

lemma truncateAt_mset: "mset a = mset b \<Longrightarrow> mset (truncateAt a t) = mset (truncateAt b t)"
  by (simp add: truncateAt_eq)

lemma truncateAt_truncateAt:
  assumes "t \<le> u" "t \<le> Pending"
  shows "truncateAt (truncateAt ops u) t = truncateAt ops t"
proof -
  have "cut t (cut u op) = cut t op" if "Invoke op < t" for op
    using assms by (simp add: cut_def)
  then show ?thesis using assms(1)
    by (induction ops) (auto simp: truncateAt_eq)
qed

lemma truncateAt_all:
  assumes "\<forall>op \<in> set ops. Invoke op < t" "\<forall>op \<in> set ops. Complete op \<ge> t \<longrightarrow> Outcome op = Info \<and> Complete op = Pending"
  shows "truncateAt ops t = ops"
  using assms by (induction ops) auto

lemma key_ok_cut:
  assumes "\<not> (Complete a = Invoke a \<and> Complete b = Invoke b \<and> Invoke a = Invoke b)"
    and "Invoke a < Pending" "Invoke b < Pending"
  shows "\<not> (Complete (cut t a) = Invoke (cut t a) \<and> Complete (cut t b) = Invoke (cut t b) \<and>
    Invoke (cut t a) = Invoke (cut t b))"
  using assms by (auto simp: cut_def)

lemma key_ok_truncateAt:
  assumes "key_ok ops"
  shows "key_ok (truncateAt ops t)"
proof -
  let ?f = "filter (\<lambda>op. Invoke op < t) ops"
  have f: "key_ok ?f" using assms by (rule key_ok_filter)
  then have before: "\<forall>op \<in> set ?f. Invoke op < Pending" unfolding key_ok_def by blast
  have "sorted_wrt (\<lambda>a b. \<not> (Complete a = Invoke a \<and> Complete b = Invoke b \<and> Invoke a = Invoke b)) (map (cut t) ?f)"
    by (rule sorted_wrt_map_mono [where R = "\<lambda>a b. \<not> (Complete a = Invoke a \<and> Complete b = Invoke b \<and> Invoke a = Invoke b)"])
      (use f before in \<open>auto simp: key_ok_def entry_ok_def cut_def\<close>)
  then show ?thesis
    unfolding truncateAt_eq key_ok_def entry_ok_def
    using f by (auto simp: key_ok_def entry_ok_def cut_def int64_op_def Pending_def min_int64_def max_int64_def)
qed

lemma key_ok_sortedTruncation: "key_ok ops \<Longrightarrow> key_ok (sortedTruncation ops t)"
  using key_ok_truncateAt key_ok_perm [of "sortedTruncation ops t" "truncateAt ops t"]
  by (simp add: sortedTruncation_def)

lemma linearizable_sortedTruncation:
  "linearizable m (sortedTruncation ops t) \<longleftrightarrow> linearizable m (truncateAt ops t)"
  by (rule linearizable_perm) (simp add: sortedTruncation_def)

text \<open>A truncated history still passes \<open>Validate\<close>.\<close>

lemma valid_history_truncateAt:
  assumes "valid_history h"
  shows "valid_history (truncateAt h t)"
proof -
  let ?f = "filter (\<lambda>op. Invoke op < t) h"
  have f: "valid_history ?f" using assms by (rule valid_history_filter)
  have ab: "answered_before (cut t a) (cut t b)" if "answered_before a b" "Invoke b < t" for a b
    using that by (auto simp: answered_before_def cut_def)
  have si: "\<not> same_instant (cut t a) (cut t b)" if "\<not> same_instant a b" for a b
    using that by (auto simp: same_instant_def instantaneous_def cut_def split: if_splits)
  have pr: "Process (cut t a) = Process a" for a by (simp add: cut_def)
  have "sorted_wrt compatible (map (cut t) ?f)"
    by (rule sorted_wrt_map_mono [of compatible])
      (use f ab si pr in \<open>auto simp: valid_history_def compatible_def\<close>)
  moreover have "wf_op (cut t op)" if "wf_op op" for op
    using that by (auto simp: wf_op_def cut_def)
  ultimately show ?thesis using f by (auto simp: valid_history_def truncateAt_eq)
qed

section \<open>Truncation is monotone\<close>

context sequential_model
begin

lemma replay_good: "replay m s seq = Some t \<Longrightarrow> good s \<Longrightarrow> good t"
  by (induction seq arbitrary: s) (auto split: prod.splits if_splits intro: good_step)

text \<open>Once operations are missing the states differ, but only unanswered operations are left.\<close>

lemma replay_infos:
  "replay m s seq = Some u \<Longrightarrow> good s \<Longrightarrow> good s' \<Longrightarrow>
   (\<forall>op \<in> set seq. Invoke op < t \<longrightarrow> t \<le> Complete op) \<Longrightarrow> \<exists>v. replay m s' (truncateAt seq t) = Some v"
proof (induction seq arbitrary: s s')
  case Nil
  then show ?case by simp
next
  case (Cons op seq)
  from Cons.prems(1) obtain s1 where s1: "m_Step m s op = (s1, True)" "replay m s1 seq = Some u"
    by (auto split: prod.splits if_splits)
  have g1: "good s1" using good_step Cons.prems(2) s1(1) .
  show ?case
  proof (cases "Invoke op < t")
    case False
    with Cons.IH [OF s1(2) g1 Cons.prems(3)] Cons.prems(4) show ?thesis by simp
  next
    case True
    then have c: "t \<le> Complete op" using Cons.prems(4) by simp
    have "snd (m_Step m s (downgrade op)) = snd (m_Step m s' (downgrade op))"
      by (rule info_step) (use Cons.prems in simp_all)
    with forget_step [OF s1(1)] obtain s2 where s2: "m_Step m s' (downgrade op) = (s2, True)"
      by (metis prod.collapse snd_conv)
    have "good s2" using good_step Cons.prems(3) s2 .
    from Cons.IH [OF s1(2) g1 this] Cons.prems(4) True c s2 show ?thesis
      by (simp add: downgrade_def)
  qed
qed

lemma replay_truncated:
  "replay m s seq = Some u \<Longrightarrow> good s \<Longrightarrow> real_time seq \<Longrightarrow> \<exists>v. replay m s (truncateAt seq t) = Some v"
proof (induction seq arbitrary: s)
  case Nil
  then show ?case by simp
next
  case (Cons op seq)
  from Cons.prems(1) obtain s1 where s1: "m_Step m s op = (s1, True)" "replay m s1 seq = Some u"
    by (auto split: prod.splits if_splits)
  have g1: "good s1" using good_step Cons.prems(2) s1(1) .
  show ?case
  proof (cases "Invoke op < t")
    case True
    from Cons.IH [OF s1(2) g1] Cons.prems(3) obtain v where
      "replay m s1 (truncateAt seq t) = Some v" by (auto simp: real_time_Cons)
    with True s1(1) forget_step [OF s1(1)] show ?thesis by (auto simp: downgrade_def)
  next
    case False
    have "\<forall>b \<in> set seq. Invoke b < t \<longrightarrow> t \<le> Complete b"
      using Cons.prems(3) False by (fastforce simp: real_time_Cons precedes_def)
    from replay_infos [OF s1(2) g1 Cons.prems(2) this] False show ?thesis by simp
  qed
qed

lemma real_time_truncated:
  assumes "real_time seq" "t \<le> Pending"
  shows "real_time (truncateAt seq t)"
proof -
  have "real_time (filter (\<lambda>op. Invoke op < t) seq)" using assms(1) by (rule real_time_filter)
  then show ?thesis
    unfolding truncateAt_eq real_time_def
    by (rule sorted_wrt_map_mono) (use assms(2) in \<open>auto simp: precedes_def cut_def\<close>)
qed

lemma linearizable_truncated:
  assumes "linearizable m ops" "t \<le> Pending"
  shows "linearizable m (truncateAt ops t)"
proof -
  from assms(1) obtain seq u where
    seq: "mset seq = mset ops" "real_time seq" "replay m (m_Init m) seq = Some u"
    by (auto simp: linearizable_def linearization_def)
  from replay_truncated [OF seq(3) good_init seq(2)] obtain v where
    "replay m (m_Init m) (truncateAt seq t) = Some v" by blast
  with truncateAt_mset [OF seq(1), of t] real_time_truncated [OF seq(2) assms(2)] show ?thesis
    by (auto simp: linearizable_def linearization_def)
qed

lemma truncation_monotone:
  assumes "linearizable m (truncateAt ops u)" "t \<le> u" "t \<le> Pending"
  shows "linearizable m (truncateAt ops t)"
  using linearizable_truncated [OF assms(1,3)] by (simp add: truncateAt_truncateAt [OF assms(2,3)])

end

section \<open>The event times\<close>

interpretation int_order: keyed_less "(<)" "\<lambda>t. t :: int"
  by unfold_locales simp

lemma add_time_simps [simp]:
  "set (add_time ts t) = insert t (set ts)" "distinct ts \<Longrightarrow> distinct (add_time ts t)"
  by (auto simp: add_time_def)

lemma scan_times_set:
  "scan_times ts latest ops = (ts', latest') \<Longrightarrow>
   set ts' = set ts \<union> Invoke ` set ops \<union> {Complete op | op. op \<in> set ops \<and> Complete op \<noteq> Pending} \<and>
   (distinct ts \<longrightarrow> distinct ts') \<and> latest \<le> latest' \<and>
   (\<forall>op \<in> set ops. Invoke op \<le> latest' \<and> (Complete op \<noteq> Pending \<longrightarrow> Complete op \<le> latest')) \<and>
   (\<forall>b. latest \<le> b \<longrightarrow> (\<forall>op \<in> set ops. Invoke op \<le> b \<and> (Complete op \<noteq> Pending \<longrightarrow> Complete op \<le> b)) \<longrightarrow> latest' \<le> b)"
proof (induction ops arbitrary: ts latest)
  case Nil
  then show ?case by simp
next
  case (Cons op ops)
  show ?case
  proof (cases "Complete op = Pending")
    case True
    with Cons.prems have "scan_times (add_time ts (Invoke op)) (if Invoke op > latest then Invoke op else latest) ops =
        (ts', latest')" by (simp add: Let_def)
    from Cons.IH [OF this] True show ?thesis by (auto split: if_splits)
  next
    case False
    with Cons.prems have "scan_times (add_time (add_time ts (Invoke op)) (Complete op))
        (if Complete op > (if Invoke op > latest then Invoke op else latest) then Complete op
         else (if Invoke op > latest then Invoke op else latest)) ops = (ts', latest')"
      by (simp add: Let_def)
    from Cons.IH [OF this] False show ?thesis by (auto split: if_splits)
  qed
qed

text \<open>
  With every time before \<open>Pending\<close> the sentinel is past them all, and truncating there keeps
  everything.
\<close>

lemma eventTimes_sentinel:
  assumes ok: "key_ok ops"
  shows "eventTimes ops \<noteq> []" "sorted (eventTimes ops)" "distinct (eventTimes ops)"
    "truncateAt ops (eventTimes ops ! (length (eventTimes ops) - 1)) = ops"
    "\<forall>t \<in> set (eventTimes ops). t \<le> Pending"
    "\<forall>op \<in> set ops. Invoke op \<in> set (eventTimes ops) \<and> (Complete op \<noteq> Pending \<longrightarrow> Complete op \<in> set (eventTimes ops))"
proof -
  obtain ts latest where sc: "scan_times [] 0 ops = (ts, latest)" by fastforce
  note facts = scan_times_set [OF sc]
  have set_ts: "set ts = Invoke ` set ops \<union> {Complete op | op. op \<in> set ops \<and> Complete op \<noteq> Pending}"
    using facts by auto
  have dist: "distinct ts" and "0 \<le> latest" using facts by auto
  have upper: "\<forall>op \<in> set ops. Invoke op \<le> latest \<and> (Complete op \<noteq> Pending \<longrightarrow> Complete op \<le> latest)"
    using facts by blast
  have low: "\<forall>op \<in> set ops. Invoke op \<le> Pending - 1 \<and> (Complete op \<noteq> Pending \<longrightarrow> Complete op \<le> Pending - 1)"
  proof
    fix op assume op: "op \<in> set ops"
    then have "Invoke op < Pending" using ok by (simp add: key_ok_def)
    moreover have "Complete op \<le> Pending" using ok op int64_op_Pending by (simp add: key_ok_def)
    ultimately show "Invoke op \<le> Pending - 1 \<and> (Complete op \<noteq> Pending \<longrightarrow> Complete op \<le> Pending - 1)"
      by auto
  qed
  have "\<forall>b. 0 \<le> b \<longrightarrow> (\<forall>op \<in> set ops. Invoke op \<le> b \<and> (Complete op \<noteq> Pending \<longrightarrow> Complete op \<le> b)) \<longrightarrow> latest \<le> b"
    using facts by blast
  from this [rule_format, OF _ low [rule_format]] have lp: "latest \<le> Pending - 1"
    by (simp add: Pending_def max_int64_def)
  have w: "wrap64 (latest + 1) = latest + 1"
    using lp \<open>0 \<le> latest\<close> by (intro wrap64_id) (simp_all add: Pending_def max_int64_def min_int64_def)
  have eq: "eventTimes ops = stable_sort (<) (add_time ts (latest + 1))"
    by (simp add: eventTimes_def sc w)
  have set_ev: "set (eventTimes ops) = insert (latest + 1) (set ts)"
    by (simp add: eq int_order.set_sort_by)
  show ne: "eventTimes ops \<noteq> []" using set_ev by auto
  show "\<forall>op \<in> set ops. Invoke op \<in> set (eventTimes ops) \<and> (Complete op \<noteq> Pending \<longrightarrow> Complete op \<in> set (eventTimes ops))"
    unfolding set_ev set_ts by blast
  show so: "sorted (eventTimes ops)" using int_order.sorted_sort_by unfolding eq by simp
  show "distinct (eventTimes ops)" unfolding eq int_order.distinct_sort_by using dist by simp
  have max: "t \<le> latest + 1" if "t \<in> set (eventTimes ops)" for t
    using that upper unfolding set_ev set_ts by force
  then show "\<forall>t \<in> set (eventTimes ops). t \<le> Pending" using lp by fastforce
  have "latest + 1 \<in> set (eventTimes ops)" by (simp add: set_ev)
  then obtain i where i: "i < length (eventTimes ops)" "eventTimes ops ! i = latest + 1"
    by (auto simp: in_set_conv_nth)
  have "eventTimes ops ! i \<le> eventTimes ops ! (length (eventTimes ops) - 1)"
    using so i(1) by (intro sorted_nth_mono) auto
  moreover have "eventTimes ops ! (length (eventTimes ops) - 1) \<le> latest + 1"
    using max ne by simp
  ultimately have "eventTimes ops ! (length (eventTimes ops) - 1) = latest + 1" using i(2) by simp
  moreover have "truncateAt ops (latest + 1) = ops"
  proof (rule truncateAt_all)
    show "\<forall>op \<in> set ops. Invoke op < latest + 1" using upper by auto
    show "\<forall>op \<in> set ops. latest + 1 \<le> Complete op \<longrightarrow> Outcome op = Info \<and> Complete op = Pending"
      using ok upper lp by (fastforce simp: key_ok_def)
  qed
  ultimately show "truncateAt ops (eventTimes ops ! (length (eventTimes ops) - 1)) = ops" by simp
qed

section \<open>The binary search\<close>

text \<open>What the search finds: the first of the event times whose truncation fails.\<close>

definition earliest_event :: "'s model \<Rightarrow> History \<Rightarrow> History \<Rightarrow> bool" where
  "earliest_event m ops trunc \<longleftrightarrow>
     (\<exists>i < length (eventTimes ops).
        trunc = sortedTruncation ops (eventTimes ops ! i) \<and>
        \<not> linearizable m (truncateAt ops (eventTimes ops ! i)) \<and>
        (\<forall>j < i. linearizable m (truncateAt ops (eventTimes ops ! j))))"

text \<open>
  What minimisation promises: of all instants the first before which the violation was already
  observed. What happened before \<open>t\<close> fails, what happened before any earlier instant does not.
\<close>

definition earliest_failure :: "'s model \<Rightarrow> History \<Rightarrow> History \<Rightarrow> bool" where
  "earliest_failure m ops trunc \<longleftrightarrow>
     (\<exists>t \<le> Pending. trunc = sortedTruncation ops t \<and> \<not> linearizable m (truncateAt ops t) \<and>
        (\<forall>u < t. linearizable m (truncateAt ops u)))"

text \<open>Between two event times nothing happens, so that a cut anywhere there keeps the same.\<close>

lemma truncateAt_between:
  assumes "u \<le> e" and "e \<le> Pending"
    and "\<forall>op \<in> set ops. \<not> (u \<le> Invoke op \<and> Invoke op < e) \<and> (Complete op \<noteq> Pending \<longrightarrow> \<not> (u \<le> Complete op \<and> Complete op < e))"
  shows "truncateAt ops u = truncateAt ops e"
proof -
  have "(Invoke op < u \<longleftrightarrow> Invoke op < e) \<and> cut u op = cut e op" if "op \<in> set ops" for op
    using assms(1,2) assms(3) [rule_format, OF that] by (cases "Complete op = Pending") (auto simp: cut_def)
  then show ?thesis unfolding truncateAt_eq by (induction ops) auto
qed

context sequential_model
begin

lemma minimise_loop_correct:
  assumes ok: "key_ok ops"
  shows "lo \<le> hi \<Longrightarrow> hi < length (eventTimes ops) \<Longrightarrow>
    \<not> linearizable m (truncateAt ops (eventTimes ops ! hi)) \<Longrightarrow>
    (\<forall>j < lo. linearizable m (truncateAt ops (eventTimes ops ! j))) \<Longrightarrow>
    \<exists>res. minimise_loop seed m opt d ops (eventTimes ops) k lo hi = Some (Ret res) \<and>
      (\<forall>trunc. res = Some trunc \<longrightarrow> earliest_event m ops trunc) \<and>
      (unbudgeted opt d \<longrightarrow> res \<noteq> None)"
proof (induction "hi - lo" arbitrary: k lo hi rule: less_induct)
  case less
  let ?T = "eventTimes ops"
  note unfold = minimise_loop.simps [of seed m opt d ops ?T k lo hi]
  show ?case
  proof (cases "lo < hi")
    case False
    with less.prems have "lo = hi" by simp
    with less.prems show ?thesis
      unfolding unfold earliest_event_def by (auto intro!: exI [of _ hi])
  next
    case True
    define mid where "mid = (lo + hi) div 2"
    have mid: "lo \<le> mid" "mid < hi" using True by (simp_all add: mid_def)
    then have len: "mid < length ?T" using less.prems by simp
    obtain kr where kr: "searchKey seed m opt (sub k d) (sortedTruncation ops (?T ! mid)) = Some (Ret kr)"
      "decides m (sortedTruncation ops (?T ! mid)) (kr_verdict kr)"
      "unbudgeted opt (sub k d) \<longrightarrow> kr_verdict kr \<noteq> Unknown"
      using searchKey_correct [OF key_ok_sortedTruncation [OF ok]] by metis
    have run: "minimise_loop seed m opt d ops ?T k lo hi =
      (case kr_verdict kr of
         NotLinearizable \<Rightarrow> minimise_loop seed m opt d ops ?T (Suc k) lo mid
       | Linearizable \<Rightarrow> minimise_loop seed m opt d ops ?T (Suc k) (mid + 1) hi
       | _ \<Rightarrow> Some (Ret None))"
      unfolding unfold Let_def mid_def [symmetric] using True len kr(1) by simp
    show ?thesis
    proof (cases "kr_verdict kr")
      case NotLinearizable
      then have "\<not> linearizable m (truncateAt ops (?T ! mid))"
        using kr(2) by (simp add: decides_def linearizable_sortedTruncation)
      moreover have "mid - lo < hi - lo" using mid by simp
      ultimately show ?thesis
        using less.hyps [of mid lo "Suc k"] less.prems mid len run NotLinearizable by simp
    next
      case Linearizable
      then have lin: "linearizable m (truncateAt ops (?T ! mid))"
        using kr(2) by (simp add: decides_def linearizable_sortedTruncation)
      have "linearizable m (truncateAt ops (?T ! j))" if "j < mid + 1" for j
      proof (rule truncation_monotone [OF lin])
        show "?T ! j \<le> ?T ! mid"
          using eventTimes_sentinel(2) [OF ok] len that by (intro sorted_nth_mono) simp_all
        show "?T ! j \<le> Pending" using eventTimes_sentinel(5) [OF ok] len that by simp
      qed
      moreover have "hi - (mid + 1) < hi - lo" using mid by simp
      ultimately show ?thesis
        using less.hyps [of hi "mid + 1" "Suc k"] less.prems mid run Linearizable by simp
    next
      case Unknown
      then show ?thesis using run kr(3) by (simp add: unbudgeted_def)
    next
      case (Verdict_other n)
      then show ?thesis using kr(2) by (simp add: decides_def)
    qed
  qed
qed

text \<open>The code tries event times only, and loses nothing by it.\<close>

lemma earliest_event_moment:
  assumes ok: "key_ok ops" and first: "earliest_event m ops trunc"
  shows "earliest_failure m ops trunc"
proof -
  let ?T = "eventTimes ops"
  note T = eventTimes_sentinel [OF ok]
  from first obtain i where i: "i < length ?T" "trunc = sortedTruncation ops (?T ! i)"
    "\<not> linearizable m (truncateAt ops (?T ! i))" "\<forall>j < i. linearizable m (truncateAt ops (?T ! j))"
    by (auto simp: earliest_event_def)
  have e: "?T ! i \<le> Pending" using T(5) i(1) by simp
  have "i \<noteq> 0"
  proof
    assume "i = 0"
    then have "?T ! i \<le> t" if "t \<in> set ?T" for t
      using T(2) that by (auto simp: in_set_conv_nth intro: sorted_nth_mono)
    with T(6) have "truncateAt ops (?T ! i) = []" unfolding truncateAt_eq by (fastforce simp: filter_empty_conv)
    moreover have "linearizable m []" by (auto simp: linearizable_def linearization_def real_time_def)
    ultimately show False using i(3) by simp
  qed
  then obtain k where k: "i = Suc k" by (cases i) auto
  define s where "s = ?T ! k"
  have gap: "t \<le> s \<or> ?T ! i \<le> t" if "t \<in> set ?T" for t
  proof -
    from that obtain j where j: "j < length ?T" "t = ?T ! j" by (auto simp: in_set_conv_nth)
    show ?thesis
    proof (cases "j \<le> k")
      case True
      with i(1) k have "t \<le> s" unfolding j(2) s_def by (intro sorted_nth_mono [OF T(2)]) simp_all
      then show ?thesis ..
    next
      case False
      with j k have "?T ! i \<le> t" unfolding j(2) by (intro sorted_nth_mono [OF T(2)]) simp_all
      then show ?thesis ..
    qed
  qed
  have "s \<noteq> ?T ! i" using T(3) i(1) k by (simp add: s_def nth_eq_iff_index_eq)
  moreover have "s \<le> ?T ! i" using i(1) k unfolding s_def by (intro sorted_nth_mono [OF T(2)]) simp_all
  ultimately have se: "s + 1 \<le> ?T ! i" by simp
  have same: "truncateAt ops (s + 1) = truncateAt ops (?T ! i)"
    by (rule truncateAt_between [OF se e]) (use T(6) gap in fastforce)
  have "linearizable m (truncateAt ops u)" if "u < s + 1" for u
    by (rule truncation_monotone [of ops s]) (use i(4) k that se e in \<open>simp_all add: s_def\<close>)
  with i(2,3) same se e show ?thesis
    unfolding earliest_failure_def sortedTruncation_def by (intro exI [of _ "s + 1"]) simp
qed

lemma minimise_correct:
  assumes ok: "key_ok ops" and bad: "\<not> linearizable m ops"
  obtains res where "minimise seed m opt d ops = Some (Ret res)"
    "\<And>trunc. res = Some trunc \<Longrightarrow> earliest_failure m ops trunc" "unbudgeted opt d \<longrightarrow> res \<noteq> None"
proof -
  let ?T = "eventTimes ops"
  note s = eventTimes_sentinel [OF ok]
  have "\<exists>res. minimise_loop seed m (opt\<lparr>Minimize := False\<rparr>) d ops ?T 0 0 (length ?T - 1) = Some (Ret res) \<and>
      (\<forall>trunc. res = Some trunc \<longrightarrow> earliest_event m ops trunc) \<and>
      (unbudgeted (opt\<lparr>Minimize := False\<rparr>) d \<longrightarrow> res \<noteq> None)"
    by (rule minimise_loop_correct [OF ok]) (use s bad in simp_all)
  then show thesis
    using that earliest_event_moment [OF ok] by (auto simp: minimise_def Let_def unbudgeted_def)
qed

end

lemma earliest_failure_facts:
  assumes "earliest_failure m ops trunc" "key_ok ops"
  shows "\<not> linearizable m trunc" "key_ok trunc" "trunc \<noteq> []" "sorted (map Invoke trunc)"
proof -
  from assms(1) obtain t where t: "trunc = sortedTruncation ops t" "\<not> linearizable m (truncateAt ops t)"
    by (auto simp: earliest_failure_def)
  then show nl: "\<not> linearizable m trunc" by (simp add: linearizable_sortedTruncation)
  show "key_ok trunc" using t assms(2) by (simp add: key_ok_sortedTruncation)
  have "linearizable m []" by (auto simp: linearizable_def linearization_def real_time_def)
  with nl show "trunc \<noteq> []" by auto
  show "sorted (map Invoke trunc)" unfolding t(1) sortedTruncation_def by (rule SortByInvoke_sorted)
qed

end
