(* ===== verification/Locality.thy ===== *)
theory Locality
  imports Key_Search
begin

text \<open>
  Why \<open>Check\<close> may split a history by key (\<open>History.ByKey\<close>, \<open>searchAll\<close>): a history over many
  registers is linearizable exactly when each register's part is. The whole store is the model
  \<open>keyed m\<close>, one copy of \<open>m\<close> for each key. The splitting direction needs nothing; joining the
  keys' orders back together needs that no two instantaneous operations share a moment.
\<close>

definition keyed :: "'s model \<Rightarrow> (string \<Rightarrow> 's) model" where
  "keyed m =
     \<lparr>m_Name = m_Name m, m_Init = (\<lambda>_. m_Init m),
      m_Step = (\<lambda>f op. case m_Step m (f (Key op)) op of (s, ok) \<Rightarrow> (f(Key op := s), ok)),
      m_Describe = (\<lambda>f. m_Describe m (f [])), m_Explain = (\<lambda>f op. m_Explain m (f (Key op)) op)\<rparr>"

lemma keyed_simps [simp]:
  "m_Init (keyed m) = (\<lambda>_. m_Init m)"
  "m_Step (keyed m) f op = (case m_Step m (f (Key op)) op of (s, ok) \<Rightarrow> (f(Key op := s), ok))"
  by (simp_all add: keyed_def)

lemma replay_keyed_filter:
  "replay (keyed m) f seq = Some g \<Longrightarrow> replay m (f k) (filter (\<lambda>op. Key op = k) seq) = Some (g k)"
proof (induction seq arbitrary: f)
  case Nil
  then show ?case by simp
next
  case (Cons op seq)
  from Cons.prems obtain s where s: "m_Step m (f (Key op)) op = (s, True)"
    "replay (keyed m) (f(Key op := s)) seq = Some g"
    by (auto split: prod.splits if_splits)
  from Cons.IH [OF s(2)] s(1) show ?case by auto
qed

lemma keyed_split:
  assumes "linearizable (keyed m) h"
  shows "linearizable m (filter (\<lambda>op. Key op = k) h)"
proof -
  from assms obtain seq g where
    seq: "mset seq = mset h" "real_time seq" "replay (keyed m) (\<lambda>_. m_Init m) seq = Some g"
    by (auto simp: linearizable_def linearization_def)
  have "mset (filter (\<lambda>op. Key op = k) seq) = mset (filter (\<lambda>op. Key op = k) h)"
    using seq(1) by (simp add: mset_filter)
  with real_time_filter [OF seq(2)] replay_keyed_filter [OF seq(3), of k]
  have "linearization m (filter (\<lambda>op. Key op = k) h) (filter (\<lambda>op. Key op = k) seq) (g k)"
    unfolding linearization_def by blast
  then show ?thesis unfolding linearizable_def by blast
qed

section \<open>Joining the keys\<close>

definition same_moment :: "Op \<Rightarrow> Op \<Rightarrow> bool" where
  "same_moment a b \<longleftrightarrow> Complete a = Invoke a \<and> Complete b = Invoke b \<and> Invoke a = Invoke b"

lemma symp_moment: "symp (\<lambda>a b. \<not> same_moment a b)"
  by (auto simp: symp_def same_moment_def)

text \<open>Among the first operations of the keys' orders there is one that nothing left precedes.\<close>

lemma some_head_minimal:
  assumes rt: "\<And>k. real_time (q k)"
    and le: "\<forall>op \<in> set L. Invoke op \<le> Complete op"
    and mom: "sorted_wrt (\<lambda>a b. \<not> same_moment a b) L"
    and L: "set L = (\<Union>k. set (q k))" "L \<noteq> []"
  obtains k x xs where "q k = x # xs" "\<And>b. b \<in># mset L - {#x#} \<Longrightarrow> \<not> precedes b x"
proof -
  let ?w = "\<lambda>op. (Complete op, Complete op = Invoke op)"
  have "Min (?w ` set L) \<in> ?w ` set L" using L(2) by (intro Min_in) auto
  then obtain c where "c \<in> set L" "Min (?w ` set L) = ?w c" by blast
  note least = this
  have c: "c \<in> set L" "\<And>b. b \<in> set L \<Longrightarrow> ?w c \<le> ?w b"
    unfolding least(2) [symmetric] by (rule least(1)) (intro Min_le finite_imageI imageI, simp_all)
  from c(1) L(1) obtain k where k: "c \<in> set (q k)" by blast
  then obtain x xs where x: "q k = x # xs" by (cases "q k") auto
  have "x \<in> set (q k)" using x by simp
  then have xL: "x \<in> set L" unfolding L(1) by blast
  show thesis
  proof (rule that [OF x])
    fix b assume b: "b \<in># mset L - {#x#}"
    then have bL: "b \<in> set L" by (metis in_diffD set_mset_mset)
    show "\<not> precedes b x"
    proof
      assume "precedes b x"
      then have bx: "Complete b \<le> Invoke x" by (simp add: precedes_def)
      from c(2) [OF bL] have "Complete c \<le> Complete b" by (auto simp: less_eq_prod_def)
      with bx have cx: "precedes c x" by (simp add: precedes_def)
      show False
      proof (cases "c = x")
        case False
        with k x have "c \<in> set xs" by auto
        with rt [of k] x cx show False by (simp add: real_time_Cons)
      next
        case True
        with cx le xL have ix: "Complete x = Invoke x" by (force simp: precedes_def)
        with bx c(2) [OF bL] True le bL have "Complete b = Complete x" "Complete b = Invoke b"
          by (auto simp: less_eq_prod_def)
        with ix have "same_moment x b" by (simp add: same_moment_def)
        with mom xL b show False
          unfolding sorted_wrt_symp_mset [OF symp_moment] by auto
      qed
    qed
  qed
qed

lemma merge_keys:
  assumes "\<And>k. real_time (q k)" "\<And>k op. op \<in> set (q k) \<Longrightarrow> Key op = k"
    and "\<And>k. replay m (f k) (q k) = Some (g k)"
    and "\<forall>op \<in> set L. Invoke op \<le> Complete op" "sorted_wrt (\<lambda>a b. \<not> same_moment a b) L"
    and "\<And>k. mset (q k) = filter_mset (\<lambda>op. Key op = k) (mset L)"
  shows "\<exists>seq. mset seq = mset L \<and> real_time seq \<and> replay (keyed m) f seq = Some g"
  using assms
proof (induction "length L" arbitrary: L q f)
  case 0
  then have "\<And>k. q k = []" by simp
  with 0 have "f = g" by auto
  with 0 show ?case by (intro exI [of _ "[]"]) (simp add: real_time_def)
next
  case (Suc n)
  have setL: "set L = (\<Union>k. set (q k))"
    using Suc.prems(6) by (auto simp flip: set_mset_mset)
  have "L \<noteq> []" using Suc.hyps(2) by auto
  from some_head_minimal [OF Suc.prems(1,4,5) setL this] obtain k x xs where
    x: "q k = x # xs" "\<And>b. b \<in># mset L - {#x#} \<Longrightarrow> \<not> precedes b x" by blast
  have kx: "Key x = k" using Suc.prems(2) [of x k] x(1) by simp
  from Suc.prems(3) [of k] x(1) obtain s where s: "m_Step m (f k) x = (s, True)" "replay m s xs = Some (g k)"
    by (auto split: prod.splits if_splits)
  have "x \<in> set (q k)" using x(1) by simp
  then have xL: "x \<in> set L" unfolding setL by blast
  have mL: "mset L = add_mset x (mset (remove1 x L))" using xL by simp
  have "\<exists>seq. mset seq = mset (remove1 x L) \<and> real_time seq \<and> replay (keyed m) (f(k := s)) seq = Some g"
  proof (rule Suc.hyps(1) [of "remove1 x L" "q(k := xs)"])
    show "n = length (remove1 x L)" using Suc.hyps(2) xL by (simp add: length_remove1)
    show "real_time ((q(k := xs)) j)" for j
      using Suc.prems(1) [of j] x(1) Suc.prems(1) [of k] by (simp add: real_time_Cons)
    show "Key op = j" if "op \<in> set ((q(k := xs)) j)" for j op
      using that Suc.prems(2) [of op j] x(1) by (auto split: if_splits)
    show "replay m ((f(k := s)) j) ((q(k := xs)) j) = Some (g j)" for j
      using Suc.prems(3) [of j] s(2) by simp
    show "\<forall>op \<in> set (remove1 x L). Invoke op \<le> Complete op"
      using Suc.prems(4) notin_set_remove1 by metis
    show "sorted_wrt (\<lambda>a b. \<not> same_moment a b) (remove1 x L)"
      using Suc.prems(5) by (induction L) (auto dest: notin_set_remove1)
    show "mset ((q(k := xs)) j) = filter_mset (\<lambda>op. Key op = j) (mset (remove1 x L))" for j
    proof (cases "j = k")
      case True
      have "add_mset x (mset xs) = add_mset x (filter_mset (\<lambda>op. Key op = k) (mset (remove1 x L)))"
        using Suc.prems(6) [of k] unfolding x(1) mL using kx by simp
      with True show ?thesis by (simp del: mset_remove1)
    next
      case False
      have "filter_mset (\<lambda>op. Key op = j) (mset L) = filter_mset (\<lambda>op. Key op = j) (mset (remove1 x L))"
        unfolding mL using kx False by simp
      with Suc.prems(6) [of j] False show ?thesis by (simp del: mset_remove1)
    qed
  qed
  then obtain seq where
    seq: "mset seq = mset (remove1 x L)" "real_time seq" "replay (keyed m) (f(k := s)) seq = Some g" by blast
  have "mset (x # seq) = mset L" unfolding mset.simps seq(1) by (rule mL [symmetric])
  moreover have "\<not> precedes b x" if "b \<in> set seq" for b
  proof (rule x(2))
    have "mset L - {#x#} = mset seq" unfolding mL seq(1) by (rule add_mset_remove_trivial)
    with that show "b \<in># mset L - {#x#}" by simp
  qed
  then have "real_time (x # seq)" using seq(2) by (simp add: real_time_Cons)
  moreover have "replay (keyed m) f (x # seq) = Some g" using s(1) kx seq(3) by simp
  ultimately show ?case by blast
qed

lemma locality:
  assumes le: "\<forall>op \<in> set h. Invoke op \<le> Complete op"
    and mom: "sorted_wrt (\<lambda>a b. \<not> same_moment a b) h"
  shows "linearizable (keyed m) h \<longleftrightarrow> (\<forall>k \<in> Key ` set h. linearizable m (ByKey h k))"
proof
  assume "linearizable (keyed m) h"
  then show "\<forall>k \<in> Key ` set h. linearizable m (ByKey h k)" by (simp add: ByKey_eq keyed_split)
next
  assume all: "\<forall>k \<in> Key ` set h. linearizable m (ByKey h k)"
  have "linearizable m (ByKey h k)" for k
  proof (cases "k \<in> Key ` set h")
    case False
    then have "ByKey h k = []" by (force simp: ByKey_eq filter_empty_conv)
    then show ?thesis by (auto simp: linearizable_def linearization_def real_time_def)
  qed (use all in blast)
  then have "\<forall>k. \<exists>p. linearization m (ByKey h k) (fst p) (snd p)" by (simp add: linearizable_def)
  then obtain p where p: "\<And>k. linearization m (ByKey h k) (fst (p k)) (snd (p k))" by metis
  have ms: "mset (fst (p k)) = filter_mset (\<lambda>op. Key op = k) (mset h)" for k
    using p [of k] by (simp add: linearization_def ByKey_eq)
  have "\<exists>seq. mset seq = mset h \<and> real_time seq \<and> replay (keyed m) (\<lambda>_. m_Init m) seq = Some (\<lambda>k. snd (p k))"
  proof (rule merge_keys [OF _ _ _ le mom ms])
    show "Key op = k" if "op \<in> set (fst (p k))" for op k
      using that ms [of k] by (metis (mono_tags, lifting) filter_mset_eq_conv set_mset_mset set_mset_filter mem_Collect_eq)
  qed (use p in \<open>simp_all add: linearization_def\<close>)
  then show "linearizable (keyed m) h" by (auto simp: linearizable_def linearization_def)
qed

end
