(* ===== verification/Pool.thy ===== *)
theory Pool
  imports Search
begin

text \<open>
  The worker pool of \<open>searchAll\<close> (\<open>internal/checker/checker.go\<close>): goroutines that take the next
  key's number from an atomic counter, search it, and write the outcome into that key's own slot.
  Every interleaving of their steps is a run of the relation \<open>pool_step\<close>; \<open>search i\<close> is the
  outcome of the search of key \<open>i\<close>.
\<close>

datatype worker = Asking | Searching nat | Returned

record 'r pool =
  p_next :: nat
  p_workers :: "worker list"
  p_results :: "'r option list"

definition pool_init :: "nat \<Rightarrow> nat \<Rightarrow> 'r pool" where
  "pool_init workers n =
     \<lparr>p_next = 0, p_workers = replicate workers Asking, p_results = replicate n None\<rparr>"

text \<open>
  One step of worker \<open>w\<close>: \<open>next.Add(1) - 1\<close>, which is atomic, and then either the return or a
  search; or the write of a finished search's outcome.
\<close>

inductive pool_step :: "(nat \<Rightarrow> 'r) \<Rightarrow> nat \<Rightarrow> 'r pool \<Rightarrow> 'r pool \<Rightarrow> bool" for search n where
  take: "w < length (p_workers P) \<Longrightarrow> p_workers P ! w = Asking \<Longrightarrow> p_next P < n \<Longrightarrow>
    pool_step search n P (P\<lparr>p_next := p_next P + 1, p_workers := (p_workers P)[w := Searching (p_next P)]\<rparr>)"
| leave: "w < length (p_workers P) \<Longrightarrow> p_workers P ! w = Asking \<Longrightarrow> \<not> p_next P < n \<Longrightarrow>
    pool_step search n P (P\<lparr>p_next := p_next P + 1, p_workers := (p_workers P)[w := Returned]\<rparr>)"
| fill: "w < length (p_workers P) \<Longrightarrow> p_workers P ! w = Searching i \<Longrightarrow> i < length (p_results P) \<Longrightarrow>
    pool_step search n P (P\<lparr>p_workers := (p_workers P)[w := Asking], p_results := (p_results P)[i := Some (search i)]\<rparr>)"

inductive_cases pool_stepE: "pool_step search n P Q"

definition pool_runs :: "(nat \<Rightarrow> 'r) \<Rightarrow> nat \<Rightarrow> 'r pool \<Rightarrow> 'r pool \<Rightarrow> bool" where
  "pool_runs search n = (pool_step search n)\<^sup>*\<^sup>*"

definition pool_finished :: "'r pool \<Rightarrow> bool" where
  "pool_finished P \<longleftrightarrow> (\<forall>w \<in> set (p_workers P). w = Returned)"

section \<open>The invariant\<close>

text \<open>
  Every slot below the counter is filled with its own key's outcome or is being searched by a
  worker, and no two workers search the same key.
\<close>

definition searching :: "'r pool \<Rightarrow> nat set" where
  "searching P = {i. Searching i \<in> set (p_workers P)}"

definition exclusive :: "worker list \<Rightarrow> bool" where
  "exclusive ws \<longleftrightarrow>
     (\<forall>v < length ws. \<forall>w < length ws. \<forall>i. ws ! v = Searching i \<longrightarrow> ws ! w = Searching i \<longrightarrow> v = w)"

definition pool_inv :: "(nat \<Rightarrow> 'r) \<Rightarrow> nat \<Rightarrow> 'r pool \<Rightarrow> bool" where
  "pool_inv search n P \<longleftrightarrow>
     length (p_results P) = n \<and> exclusive (p_workers P) \<and>
     (\<forall>i \<in> searching P. i < p_next P \<and> i < n) \<and>
     (\<forall>i < n. p_results P ! i = None \<or> p_results P ! i = Some (search i)) \<and>
     (\<forall>i < n. i < p_next P \<longrightarrow> i \<notin> searching P \<longrightarrow> p_results P ! i = Some (search i)) \<and>
     (\<forall>w \<in> set (p_workers P). w = Returned \<longrightarrow> n \<le> p_next P)"

lemma pool_inv_init: "pool_inv search n (pool_init workers n)"
  by (auto simp: pool_inv_def pool_init_def exclusive_def searching_def)

lemma searching_iff: "i \<in> searching P \<longleftrightarrow> (\<exists>w < length (p_workers P). p_workers P ! w = Searching i)"
  by (auto simp: searching_def in_set_conv_nth)

lemma searching_update:
  assumes "w < length ws"
  shows "(\<exists>x < length (ws[w := v]). ws[w := v] ! x = Searching i) \<longleftrightarrow>
    v = Searching i \<or> (\<exists>x < length ws. x \<noteq> w \<and> ws ! x = Searching i)"
  using assms by (metis length_list_update nth_list_update_eq nth_list_update_neq)

lemma searching_set:
  assumes "w < length (p_workers P)" "p_workers Q = (p_workers P)[w := v]"
  shows "i \<in> searching Q \<longleftrightarrow> v = Searching i \<or> (\<exists>x < length (p_workers P). x \<noteq> w \<and> p_workers P ! x = Searching i)"
  unfolding searching_iff assms(2) by (rule searching_update [OF assms(1)])

lemma exclusive_update:
  assumes "exclusive ws" "\<And>i. v = Searching i \<Longrightarrow> \<forall>x < length ws. ws ! x \<noteq> Searching i"
  shows "exclusive (ws[w := v])"
  unfolding exclusive_def
proof (intro allI impI)
  fix x y i assume "x < length (ws[w := v])" "y < length (ws[w := v])"
    "ws[w := v] ! x = Searching i" "ws[w := v] ! y = Searching i"
  with assms show "x = y" unfolding exclusive_def
    by (cases "x = w"; cases "y = w") auto
qed

lemma pool_inv_step:
  assumes "pool_step search n P Q" "pool_inv search n P"
  shows "pool_inv search n Q"
  using assms(1)
proof (cases rule: pool_step.cases)
  case (take w)
  have fresh: "p_next P \<notin> searching P" using assms(2) by (auto simp: pool_inv_def)
  have s: "searching Q = insert (p_next P) (searching P)"
    using take(3) searching_set [OF take(2), of Q "Searching (p_next P)"]
    by (force simp: take(1) searching_iff)
  have "exclusive (p_workers Q)"
    using assms(2) fresh by (auto simp: take(1) pool_inv_def searching_iff intro!: exclusive_update)
  moreover have "\<forall>v \<in> set (p_workers Q). v = Returned \<longrightarrow> n \<le> p_next Q"
    using assms(2) unfolding take(1) pool_inv_def
    by (auto dest!: set_update_subset_insert [THEN subsetD] intro: le_SucI)
  ultimately show ?thesis
    using assms(2) take(4) s unfolding pool_inv_def by (auto simp: take(1))
next
  case (leave w)
  have s: "searching Q = searching P"
    using leave(3) searching_set [OF leave(2), of Q Returned] by (force simp: leave(1) searching_iff)
  have "exclusive (p_workers Q)"
    using assms(2) by (auto simp: leave(1) pool_inv_def intro!: exclusive_update)
  then show ?thesis
    using assms(2) leave(4) s unfolding pool_inv_def by (auto simp: leave(1))
next
  case (fill w i)
  have ex: "exclusive (p_workers P)" using assms(2) by (simp add: pool_inv_def)
  have s: "searching Q = searching P - {i}"
  proof (rule set_eqI)
    fix j
    have "j \<in> searching Q \<longleftrightarrow> (\<exists>x < length (p_workers P). x \<noteq> w \<and> p_workers P ! x = Searching j)"
      using searching_set [OF fill(2), of Q Asking j] by (simp add: fill(1))
    also have "\<dots> \<longleftrightarrow> j \<in> searching P - {i}"
      unfolding searching_iff using ex fill(2,3) unfolding exclusive_def
      by (metis Diff_iff insertE insertI1 searching_iff empty_iff worker.inject)
    finally show "j \<in> searching Q \<longleftrightarrow> j \<in> searching P - {i}" .
  qed
  have "exclusive (p_workers Q)"
    using ex by (auto simp: fill(1) intro!: exclusive_update)
  moreover have "\<forall>v \<in> set (p_workers Q). v = Returned \<longrightarrow> n \<le> p_next Q"
    using assms(2) unfolding fill(1) pool_inv_def
    by (auto dest!: set_update_subset_insert [THEN subsetD])
  ultimately show ?thesis
    using assms(2) fill(4) s unfolding pool_inv_def by (auto simp: fill(1) nth_list_update)
qed

lemma pool_inv_runs: "pool_runs search n P Q \<Longrightarrow> pool_inv search n P \<Longrightarrow> pool_inv search n Q"
  unfolding pool_runs_def by (induction rule: rtranclp_induct) (auto intro: pool_inv_step)

lemma pool_workers_runs: "pool_runs search n P Q \<Longrightarrow> length (p_workers Q) = length (p_workers P)"
  unfolding pool_runs_def by (induction rule: rtranclp_induct) (auto elim!: pool_stepE)

lemma pool_outcome:
  assumes run: "pool_runs search n (pool_init workers n) P" and fin: "pool_finished P" and w: "0 < workers"
  shows "p_results P = map (\<lambda>i. Some (search i)) [0..<n]"
proof -
  have inv: "pool_inv search n P" using pool_inv_runs [OF run pool_inv_init] .
  have "length (p_workers P) = workers" using pool_workers_runs [OF run] by (simp add: pool_init_def)
  then obtain v where "v \<in> set (p_workers P)" using w by (metis length_0_conv list.set_intros(1) neq_Nil_conv not_less_zero)
  with fin inv have "n \<le> p_next P" by (auto simp: pool_finished_def pool_inv_def)
  moreover have "searching P = {}" using fin by (auto simp: searching_def pool_finished_def)
  ultimately show ?thesis using inv by (intro nth_equalityI) (auto simp: pool_inv_def)
qed

section \<open>Every run ends\<close>

text \<open>Each worker needs two steps for each key it can still get, and one to leave.\<close>

definition worker_work :: "worker \<Rightarrow> nat" where
  "worker_work w = (case w of Asking \<Rightarrow> 1 | Searching _ \<Rightarrow> 2 | Returned \<Rightarrow> 0)"

definition pool_work :: "nat \<Rightarrow> 'r pool \<Rightarrow> nat" where
  "pool_work n P = 2 * (n - p_next P) + sum_list (map worker_work (p_workers P))"

lemma sum_list_work_update:
  "w < length ws \<Longrightarrow>
   sum_list (map worker_work (ws[w := v])) + worker_work (ws ! w) = sum_list (map worker_work ws) + worker_work v"
proof (induction ws arbitrary: w)
  case (Cons a ws)
  then show ?case by (cases w) auto
qed simp

lemma pool_step_work:
  assumes "pool_step search n P Q"
  shows "pool_work n Q < pool_work n P"
  using assms
proof (cases rule: pool_step.cases)
  case (take w)
  with sum_list_work_update [of w "p_workers P" "Searching (p_next P)"]
  show ?thesis by (simp add: pool_work_def worker_work_def)
next
  case (leave w)
  with sum_list_work_update [of w "p_workers P" Returned]
  show ?thesis by (simp add: pool_work_def worker_work_def)
next
  case (fill w i)
  with sum_list_work_update [of w "p_workers P" Asking]
  show ?thesis by (simp add: pool_work_def worker_work_def)
qed

lemma pool_terminates: "wfP (\<lambda>Q P. pool_step search n P Q)"
  by (rule wfp_if_convertible_to_nat [where f = "pool_work n"]) (rule pool_step_work)

lemma pool_progress:
  assumes "pool_inv search n P" "\<not> pool_finished P"
  shows "\<exists>Q. pool_step search n P Q"
proof -
  from assms(2) obtain w where w: "w < length (p_workers P)" "p_workers P ! w \<noteq> Returned"
    by (auto simp: pool_finished_def in_set_conv_nth)
  show ?thesis
  proof (cases "p_workers P ! w")
    case Asking
    then show ?thesis using w(1) pool_step.take pool_step.leave by (metis)
  next
    case (Searching i)
    then have "i \<in> searching P" using w(1) by (auto simp: searching_iff)
    then have "i < length (p_results P)" using assms(1) by (auto simp: pool_inv_def)
    then show ?thesis using w(1) Searching pool_step.fill by metis
  qed (use w in simp)
qed

lemma pool_finishes:
  "pool_inv search n P \<Longrightarrow> \<exists>Q. pool_runs search n P Q \<and> pool_finished Q"
proof (induction "pool_work n P" arbitrary: P rule: less_induct)
  case less
  show ?case
  proof (cases "pool_finished P")
    case True
    then show ?thesis unfolding pool_runs_def by blast
  next
    case False
    from pool_progress [OF less.prems False] obtain Q where Q: "pool_step search n P Q" by blast
    from less.hyps [OF pool_step_work [OF Q] pool_inv_step [OF Q less.prems]] Q show ?thesis
      unfolding pool_runs_def by (meson converse_rtranclp_into_rtranclp)
  qed
qed

end
