(* ===== verification/Checker.thy ===== *)
theory Checker
  imports Minimise Locality Pool
begin

text \<open>
  The two entry points (\<open>Check\<close>, \<open>CheckKey\<close>, \<open>searchAll\<close> and \<open>attachDetail\<close> in
  \<open>internal/checker/checker.go\<close>) and what a caller may conclude from their results.

  \<open>searchAll\<close> is given in its sequential form; \<open>Pool\<close> shows that a run of the worker pool, which
  the code uses for two workers and more, fills the same slots with the same outcomes.
\<close>

section \<open>The code\<close>

record KeyStat =
  ks_Ops :: nat
  ks_Visits :: int
  ks_Verdict :: Verdict

text \<open>The reason line of a result: a summary, or one key's reason and what minimisation adds to it.\<close>

datatype result_reason = Summary string | OnKey string reason | OnKeyNotMinimised string reason

record Result =
  r_Verdict :: Verdict
  r_Key :: string
  r_Ops :: History
  r_Culprit :: "Op option"
  r_Reason :: result_reason
  r_Visits :: int
  r_PerKey :: "string \<Rightarrow> KeyStat option"

definition plural :: "nat \<Rightarrow> string \<Rightarrow> string" where
  "plural n word = (if n = 1 then show_nat n @ '' '' @ word else show_nat n @ '' '' @ word @ ''s'')"

definition summarise :: "nat \<Rightarrow> nat \<Rightarrow> string" where
  "summarise ops keys =
     (if ops = 0 then ''the history is empty''
      else ''all '' @ plural ops ''operation'' @ '' across '' @ plural keys ''key'' @ '' linearize'')"

text \<open>\<open>humanBytes\<close>; \<open>%.0f\<close> rounds to the nearest integer, ties to even, and \<open>%.1f\<close> so in tenths.\<close>

definition round_half_even :: "int \<Rightarrow> int \<Rightarrow> int" where
  "round_half_even a b =
     (let q = a div b; r = a mod b in
      if 2 * r < b \<or> 2 * r = b \<and> even q then q else q + 1)"

definition humanBytes :: "int \<Rightarrow> string" where
  "humanBytes n =
     (if n \<ge> 2 ^ 30 then
        (let t = round_half_even (10 * n) (2 ^ 30) in show_int (t div 10) @ ''.'' @ show_int (t mod 10) @ '' GB'')
      else if n \<ge> 2 ^ 20 then show_int (round_half_even n (2 ^ 20)) @ '' MB''
      else if n \<ge> 2 ^ 10 then show_int (round_half_even n (2 ^ 10)) @ '' KB''
      else show_int n @ '' bytes'')"

definition searchOne ::
  "('s \<Rightarrow> 64 word) \<Rightarrow> 's model \<Rightarrow> Options \<Rightarrow> deadline \<Rightarrow> History \<Rightarrow> 's keyResult run" where
  "searchOne seed m opt d ops = searchKey seed m opt d (SortByInvoke ops)"

fun each :: "(nat \<Rightarrow> 'a \<Rightarrow> 'b run) \<Rightarrow> nat \<Rightarrow> 'a list \<Rightarrow> 'b list run" where
  "each f i [] = Some (Ret [])"
| "each f i (x # xs) =
     and_then (f i x) (\<lambda>y. and_then (each f (Suc i) xs) (\<lambda>ys. Some (Ret (y # ys))))"

definition searchAll ::
  "('s \<Rightarrow> 64 word) \<Rightarrow> 's model \<Rightarrow> Options \<Rightarrow> deadline \<Rightarrow> (string \<Rightarrow> History) \<Rightarrow> string list \<Rightarrow>
   's keyResult list run" where
  "searchAll seed m opt d byKey keys = each (\<lambda>i k. searchOne seed m opt (sub i d) (byKey k)) 0 keys"

text \<open>How many goroutines \<open>searchAll\<close> starts; one or none means the sequential loop.\<close>

definition workers :: "Options \<Rightarrow> nat \<Rightarrow> nat \<Rightarrow> int" where
  "workers opt gomaxprocs keys =
     (let w = (if Parallelism opt \<le> 0 then int gomaxprocs else Parallelism opt) in
      if w > int keys then int keys else w)"

definition attachDetail ::
  "('s \<Rightarrow> 64 word) \<Rightarrow> 's model \<Rightarrow> Options \<Rightarrow> deadline \<Rightarrow> History \<Rightarrow> 's keyResult \<Rightarrow> Result \<Rightarrow> Result run" where
  "attachDetail seed m opt d ops kr r =
     (let r = (case kr_culprit kr of Some c \<Rightarrow> r\<lparr>r_Culprit := Some c\<rparr> | None \<Rightarrow> r) in
      if r_Verdict r \<noteq> NotLinearizable \<or> \<not> Minimize opt then Some (Ret r)
      else and_then (minimise seed m opt d ops) (\<lambda>res.
        case res of
          None \<Rightarrow> Some (Ret (r\<lparr>r_Reason :=
            (case r_Reason r of OnKey k why \<Rightarrow> OnKeyNotMinimised k why | other \<Rightarrow> other)\<rparr>))
        | Some trunc \<Rightarrow>
            let trunc = SortByInvoke trunc; r = r\<lparr>r_Ops := trunc\<rparr> in
            Some (Ret (if trunc \<noteq> [] then r\<lparr>r_Culprit := Some (last trunc)\<rparr> else r))))"

definition deadline_of :: "Options \<Rightarrow> (nat list \<Rightarrow> bool) \<Rightarrow> deadline" where
  "deadline_of opt late = (if Timeout opt > 0 then Some late else None)"

text \<open>The first key with a wanted verdict: failures before undecided keys, in key order.\<close>

definition first_with :: "'s keyResult list \<Rightarrow> Verdict \<Rightarrow> nat option" where
  "first_with results want = find (\<lambda>i. kr_verdict (results ! i) = want) [0..<length results]"

definition reported :: "'s keyResult list \<Rightarrow> (nat \<times> Verdict) option" where
  "reported results =
     (case first_with results NotLinearizable of
        Some i \<Rightarrow> Some (i, NotLinearizable)
      | None \<Rightarrow> map_option (\<lambda>i. (i, Unknown)) (first_with results Unknown))"

definition key_stats :: "string list \<Rightarrow> (string \<Rightarrow> History) \<Rightarrow> 's keyResult list \<Rightarrow> (string \<Rightarrow> KeyStat option)" where
  "key_stats keys byKey results =
     map_of (map (\<lambda>(k, kr). (k, \<lparr>ks_Ops = length (byKey k), ks_Visits = kr_visits kr, ks_Verdict = kr_verdict kr\<rparr>))
       (zip keys results))"

text \<open>
  \<open>searchOne\<close> sorts the slice \<open>byKey\<close> holds in place, so what \<open>attachDetail\<close> is given is sorted.
\<close>

definition Check ::
  "('s \<Rightarrow> 64 word) \<Rightarrow> 's model \<Rightarrow> Options \<Rightarrow> (nat list \<Rightarrow> bool) \<Rightarrow> History \<Rightarrow> (check_error + Result) run" where
  "Check seed m opt late h =
     (case Validate h of
        Some e \<Rightarrow> Some (Ret (Inl (MalformedHistory e)))
      | None \<Rightarrow>
          let live = DropFailed h; byKey = ByKey live; keys = Keys live; d = deadline_of opt late in
          and_then (searchAll seed m opt (sub 0 d) byKey keys) (\<lambda>results.
            let res = \<lparr>r_Verdict = Linearizable, r_Key = [], r_Ops = [], r_Culprit = None,
                  r_Reason = Summary (summarise (length live) (length keys)),
                  r_Visits = sum_list (map kr_visits results), r_PerKey = key_stats keys byKey results\<rparr>
            in case reported results of
                 None \<Rightarrow> Some (Ret (Inr res))
               | Some (i, want) \<Rightarrow>
                   let k = keys ! i; kr = results ! i;
                       res = res\<lparr>r_Verdict := want, r_Key := k, r_Reason := OnKey k (kr_reason kr)\<rparr>
                   in and_then (attachDetail seed m opt (sub 1 d) (SortByInvoke (byKey k)) kr res)
                        (\<lambda>res. Some (Ret (Inr res)))))"

definition CheckKey ::
  "('s \<Rightarrow> 64 word) \<Rightarrow> 's model \<Rightarrow> Options \<Rightarrow> (nat list \<Rightarrow> bool) \<Rightarrow> History \<Rightarrow> (check_error + Result) run" where
  "CheckKey seed m opt late ops =
     (case Validate ops of
        Some e \<Rightarrow> Some (Ret (Inl (MalformedHistory e)))
      | None \<Rightarrow>
          let keys = Keys ops in
          if length keys > 1 then Some (Ret (Inl (TooManyKeys (length keys) keys)))
          else
            let live = SortByInvoke (DropFailed ops); d = deadline_of opt late in
            and_then (searchKey seed m opt (sub 0 d) live) (\<lambda>kr.
              let key = (if length keys = 1 then keys ! 0 else []);
                  res = \<lparr>r_Verdict = kr_verdict kr, r_Key = [], r_Ops = [], r_Culprit = None,
                    r_Reason = Summary (summarise (length live) (length keys)), r_Visits = kr_visits kr,
                    r_PerKey = (if length keys = 1 then [key \<mapsto> \<lparr>ks_Ops = length live,
                      ks_Visits = kr_visits kr, ks_Verdict = kr_verdict kr\<rparr>] else Map.empty)\<rparr>
              in if kr_verdict kr \<noteq> Linearizable then
                   and_then (attachDetail seed m opt (sub 1 d) live kr
                     (res\<lparr>r_Key := key, r_Reason := OnKey key (kr_reason kr)\<rparr>))
                     (\<lambda>res. Some (Ret (Inr res)))
                 else Some (Ret (Inr res))))"

end
