(* ===== verification/Check_Correct.thy ===== *)
theory Check_Correct
  imports Checker
begin

text \<open>
  What a caller may conclude from \<open>Check\<close> and \<open>CheckKey\<close>: that they return, what each verdict
  means, that the key and the counterexample they report are ones, and that without a budget they
  decide. The results hold for every model under the contract \<open>sequential_model\<close>, which the models
  \<open>ByName\<close> hands out satisfy.
\<close>

section \<open>The pieces\<close>

lemma each_all2:
  assumes "\<And>i x. x \<in> set xs \<Longrightarrow> \<exists>y. f i x = Some (Ret y) \<and> P x y"
  shows "\<exists>ys. each f i xs = Some (Ret ys) \<and> list_all2 P xs ys"
  using assms
proof (induction xs arbitrary: i)
  case Nil
  then show ?case by simp
next
  case (Cons x xs)
  from Cons.prems [of x i] obtain y where "f i x = Some (Ret y)" "P x y" by auto
  moreover from Cons.IH [of "Suc i"] Cons.prems obtain ys where
    "each f (Suc i) xs = Some (Ret ys)" "list_all2 P xs ys" by auto
  ultimately show ?case by simp
qed

lemma each_pool:
  assumes "\<And>i. i < length xs \<Longrightarrow> f (j + i) (xs ! i) = Some (Ret (search i))"
  shows "each f j xs = Some (Ret (map search [0..<length xs]))"
  using assms
proof (induction xs arbitrary: j search)
  case Nil
  then show ?case by simp
next
  case (Cons x xs)
  have "each f (Suc j) xs = Some (Ret (map (\<lambda>i. search (Suc i)) [0..<length xs]))"
  proof (rule Cons.IH)
    show "f (Suc j + i) (xs ! i) = Some (Ret (search (Suc i)))" if "i < length xs" for i
      using Cons.prems [of "Suc i"] that by simp
  qed
  moreover have "map search [0..<length (x # xs)] = search 0 # map (\<lambda>i. search (Suc i)) [0..<length xs]"
    by (simp add: upt_conv_Cons map_Suc_upt [symmetric] del: upt_Suc)
  ultimately show ?case using Cons.prems [of 0] by simp
qed

lemma first_with_Some:
  assumes "first_with results want = Some i"
  shows "i < length results" "kr_verdict (results ! i) = want" "\<forall>j < i. kr_verdict (results ! j) \<noteq> want"
  using assms unfolding first_with_def find_Some_iff by auto

lemma first_with_None: "first_with results want = None \<longleftrightarrow> (\<forall>kr \<in> set results. kr_verdict kr \<noteq> want)"
  unfolding first_with_def find_None_iff all_set_conv_all_nth by simp

text \<open>What minimisation adds to a result.\<close>

definition detail_ok :: "'s model \<Rightarrow> History \<Rightarrow> Result \<Rightarrow> bool" where
  "detail_ok m ops r \<longleftrightarrow>
     r_Ops r = [] \<or>
     r_Verdict r = NotLinearizable \<and> earliest_failure m ops (r_Ops r) \<and> r_Culprit r = Some (last (r_Ops r))"

context sequential_model
begin

lemma attachDetail_correct:
  assumes ok: "key_ok ops" and bad: "r_Verdict r = NotLinearizable \<Longrightarrow> \<not> linearizable m ops"
    and empty: "r_Ops r = []"
  obtains r' where "attachDetail seed m opt d ops kr r = Some (Ret r')" "r_Verdict r' = r_Verdict r"
    "r_Key r' = r_Key r" "r_PerKey r' = r_PerKey r" "r_Visits r' = r_Visits r" "detail_ok m ops r'"
    "r_Verdict r = NotLinearizable \<and> Minimize opt \<and> unbudgeted opt d \<longrightarrow> r_Ops r' \<noteq> []"
proof -
  define q where "q = (case kr_culprit kr of Some c \<Rightarrow> r\<lparr>r_Culprit := Some c\<rparr> | None \<Rightarrow> r)"
  have q: "r_Verdict q = r_Verdict r" "r_Key q = r_Key r" "r_PerKey q = r_PerKey r"
    "r_Visits q = r_Visits r" "r_Ops q = []"
    using empty by (auto simp: q_def split: option.split)
  show thesis
  proof (cases "r_Verdict r \<noteq> NotLinearizable \<or> \<not> Minimize opt")
    case True
    then have "attachDetail seed m opt d ops kr r = Some (Ret q)"
      using q(1) by (simp add: attachDetail_def q_def [symmetric] Let_def)
    with q True show thesis by (intro that [of q]) (auto simp: detail_ok_def)
  next
    case False
    then have "\<not> linearizable m ops" using bad by simp
    from minimise_correct [OF ok this] obtain res where
      res: "minimise seed m opt d ops = Some (Ret res)" "\<And>trunc. res = Some trunc \<Longrightarrow> earliest_failure m ops trunc"
        "unbudgeted opt d \<longrightarrow> res \<noteq> None" by blast
    show thesis
    proof (cases res)
      case None
      let ?q = "q\<lparr>r_Reason := (case r_Reason q of OnKey k why \<Rightarrow> OnKeyNotMinimised k why | other \<Rightarrow> other)\<rparr>"
      have "attachDetail seed m opt d ops kr r = Some (Ret ?q)"
        using q(1) False res(1) None by (simp add: attachDetail_def q_def [symmetric] Let_def)
      with q None res(3) show thesis by (intro that [of ?q]) (auto simp: detail_ok_def)
    next
      case (Some trunc)
      from res(2) [OF Some] have ef: "earliest_failure m ops trunc" .
      then have so: "SortByInvoke trunc = trunc"
        by (auto simp: earliest_failure_def sortedTruncation_def SortByInvoke_idem)
      have ne: "trunc \<noteq> []" using earliest_failure_facts(3) [OF ef ok] .
      let ?q = "q\<lparr>r_Ops := trunc, r_Culprit := Some (last trunc)\<rparr>"
      have "attachDetail seed m opt d ops kr r = Some (Ret ?q)"
        using q(1) False res(1) Some so ne by (simp add: attachDetail_def q_def [symmetric] Let_def)
      with q ef ne False show thesis by (intro that [of ?q]) (auto simp: detail_ok_def)
    qed
  qed
qed

end

section \<open>What a result of \<open>Check\<close> means\<close>

definition no_budget :: "Options \<Rightarrow> bool" where
  "no_budget opt \<longleftrightarrow> MaxVisits opt \<le> 0 \<and> Timeout opt \<le> 0 \<and> MaxCacheBytes opt \<le> 0"

definition key_verdict :: "Result \<Rightarrow> string \<Rightarrow> Verdict option" where
  "key_verdict r k = map_option ks_Verdict (r_PerKey r k)"

definition verdict_means :: "'s model \<Rightarrow> History \<Rightarrow> Result \<Rightarrow> bool" where
  "verdict_means m live r \<longleftrightarrow>
     (\<forall>k \<in> set (Keys live). \<exists>v. key_verdict r k = Some v \<and> decides m (ByKey live k) v) \<and>
     (case r_Verdict r of
        Linearizable \<Rightarrow> r_Key r = [] \<and> (\<forall>k \<in> set (Keys live). key_verdict r k = Some Linearizable)
      | NotLinearizable \<Rightarrow> r_Key r \<in> set (Keys live) \<and> key_verdict r (r_Key r) = Some NotLinearizable \<and>
          (\<forall>k \<in> set (Keys live). k < r_Key r \<longrightarrow> key_verdict r k \<noteq> Some NotLinearizable)
      | Unknown \<Rightarrow> r_Key r \<in> set (Keys live) \<and> key_verdict r (r_Key r) = Some Unknown \<and>
          (\<forall>k \<in> set (Keys live). key_verdict r k \<noteq> Some NotLinearizable)
      | Verdict_other _ \<Rightarrow> False)"

lemma verdict_means_linearizable:
  assumes "verdict_means m live r"
  shows "r_Verdict r = Linearizable \<Longrightarrow> k \<in> set (Keys live) \<Longrightarrow> linearizable m (ByKey live k)"
    and "r_Verdict r = NotLinearizable \<Longrightarrow> r_Key r \<in> set (Keys live) \<and> \<not> linearizable m (ByKey live (r_Key r))"
  using assms by (fastforce simp: verdict_means_def decides_def)+

lemma verdict_means_iff:
  assumes "verdict_means m live r" and "r_Verdict r \<noteq> Unknown"
  shows "r_Verdict r = Linearizable \<longleftrightarrow> (\<forall>k \<in> set (Keys live). linearizable m (ByKey live k))"
proof -
  have "r_Verdict r = Linearizable \<or> r_Verdict r = NotLinearizable"
    using assms by (auto simp: verdict_means_def split: Verdict.splits)
  with verdict_means_linearizable [OF assms(1)] show ?thesis by blast
qed

lemma keys_key_ok:
  assumes "valid_history h" "before_pending h"
  shows "key_ok (ByKey (DropFailed h) k)"
proof -
  have "valid_history (ByKey (DropFailed h) k)"
    using assms(1) by (simp add: ByKey_eq DropFailed_eq valid_history_filter del: filter_filter)
  moreover have "before_pending (ByKey (DropFailed h) k)"
    using assms(2) by (auto simp: ByKey_eq DropFailed_eq before_pending_def)
  moreover have "single_key (ByKey (DropFailed h) k)" by (auto simp: ByKey_eq single_key_def)
  ultimately show ?thesis by (rule key_ok_valid)
qed

lemma key_ok_sorted: "key_ok ops \<Longrightarrow> key_ok (SortByInvoke ops)"
  using key_ok_perm [of "SortByInvoke ops" ops] by simp

lemma linearizable_sorted: "linearizable m (SortByInvoke ops) \<longleftrightarrow> linearizable m ops"
  by (rule linearizable_perm) simp

lemma decides_sorted: "decides m (SortByInvoke ops) v \<longleftrightarrow> decides m ops v"
  by (simp add: decides_def linearizable_sorted split: Verdict.split)

lemma key_stats_nth:
  assumes "distinct keys" "length results = length keys" "i < length keys"
  shows "key_stats keys byKey results (keys ! i) =
    Some \<lparr>ks_Ops = length (byKey (keys ! i)), ks_Visits = kr_visits (results ! i), ks_Verdict = kr_verdict (results ! i)\<rparr>"
proof -
  let ?l = "map (\<lambda>(k, kr). (k, \<lparr>ks_Ops = length (byKey k), ks_Visits = kr_visits kr, ks_Verdict = kr_verdict kr\<rparr>))
    (zip keys results)"
  have "map fst ?l = keys" using assms(2) by (simp add: comp_def case_prod_beta)
  with assms(1) have "distinct (map fst ?l)" by simp
  moreover have "i < length ?l" using assms by simp
  then have "?l ! i \<in> set ?l" by (rule nth_mem)
  ultimately show ?thesis using assms unfolding key_stats_def
    by (intro map_of_is_SomeI) simp_all
qed

section \<open>\<open>Check\<close>\<close>

lemma searchAll_correct:
  assumes "valid_history h" "before_pending h"
  obtains results where
    "searchAll seed m opt d (ByKey (DropFailed h)) keys = Some (Ret results)"
    "length results = length keys"
    "\<forall>i < length keys. decides m (ByKey (DropFailed h) (keys ! i)) (kr_verdict (results ! i)) \<and>
       (unbudgeted opt d \<longrightarrow> kr_verdict (results ! i) \<noteq> Unknown)"
proof -
  let ?P = "\<lambda>k kr. decides m (ByKey (DropFailed h) k) (kr_verdict kr) \<and>
    (unbudgeted opt d \<longrightarrow> kr_verdict kr \<noteq> Unknown)"
  have "\<exists>kr. searchOne seed m opt (sub i d) (ByKey (DropFailed h) k) = Some (Ret kr) \<and> ?P k kr" for i k
  proof -
    obtain kr where "searchKey seed m opt (sub i d) (SortByInvoke (ByKey (DropFailed h) k)) = Some (Ret kr)"
      "decides m (SortByInvoke (ByKey (DropFailed h) k)) (kr_verdict kr)"
      "unbudgeted opt (sub i d) \<longrightarrow> kr_verdict kr \<noteq> Unknown"
      by (rule searchKey_correct [OF key_ok_sorted [OF keys_key_ok [OF assms]]])
    then show ?thesis by (auto simp: searchOne_def decides_sorted unbudgeted_def)
  qed
  then have "\<exists>results. searchAll seed m opt d (ByKey (DropFailed h)) keys = Some (Ret results) \<and>
      list_all2 ?P keys results"
    unfolding searchAll_def by (intro each_all2)
  then obtain results where r: "searchAll seed m opt d (ByKey (DropFailed h)) keys = Some (Ret results)"
    "list_all2 ?P keys results" by blast
  from r(2) have "length results = length keys" "\<forall>i < length keys. ?P (keys ! i) (results ! i)"
    by (simp_all add: list_all2_conv_all_nth)
  with r(1) show thesis by (rule that)
qed

lemma reported_cases:
  assumes "\<forall>i < length results. decides m (q i) (kr_verdict (results ! i))"
  obtains (clean) "reported results = None" "\<forall>i < length results. kr_verdict (results ! i) = Linearizable"
    | (fail) i where "reported results = Some (i, NotLinearizable)" "i < length results"
        "kr_verdict (results ! i) = NotLinearizable" "\<forall>j < i. kr_verdict (results ! j) \<noteq> NotLinearizable"
    | (undecided) i where "reported results = Some (i, Unknown)" "i < length results"
        "kr_verdict (results ! i) = Unknown" "\<forall>j < length results. kr_verdict (results ! j) \<noteq> NotLinearizable"
proof (cases "first_with results NotLinearizable")
  case (Some i)
  with first_with_Some [OF Some] show thesis by (intro fail) (auto simp: reported_def)
next
  case nf: None
  then have no: "\<And>j. j < length results \<Longrightarrow> kr_verdict (results ! j) \<noteq> NotLinearizable"
    unfolding first_with_None by simp
  show thesis
  proof (cases "first_with results Unknown")
    case (Some i)
    with first_with_Some [OF Some] nf no show thesis by (intro undecided) (auto simp: reported_def)
  next
    case None
    then have "\<And>j. j < length results \<Longrightarrow> kr_verdict (results ! j) \<noteq> Unknown"
      unfolding first_with_None by simp
    then have "kr_verdict (results ! i) = Linearizable" if "i < length results" for i
      using decides_eq assms no [OF that] that by metis
    with nf None show thesis by (intro clean) (simp_all add: reported_def)
  qed
qed

definition check_result_ok :: "'s model \<Rightarrow> Options \<Rightarrow> History \<Rightarrow> Result \<Rightarrow> bool" where
  "check_result_ok m opt h r \<longleftrightarrow>
     verdict_means m (DropFailed h) r \<and>
     (no_budget opt \<longrightarrow> r_Verdict r \<noteq> Unknown) \<and>
     detail_ok m (SortByInvoke (ByKey (DropFailed h) (r_Key r))) r \<and>
     (r_Verdict r = NotLinearizable \<and> Minimize opt \<and> no_budget opt \<longrightarrow> r_Ops r \<noteq> [])"

context sequential_model
begin

lemma Check_correct:
  assumes v: "valid_history h" and b: "before_pending h"
  shows "\<exists>r. Check seed m opt late h = Some (Ret (Inr r)) \<and> check_result_ok m opt h r"
proof -
  let ?live = "DropFailed h" and ?d = "deadline_of opt late"
  let ?keys = "Keys ?live"
  have "\<forall>op \<in> set h. int64_op op" using b by (simp add: before_pending_def)
  with v have val: "Validate h = None" by (simp add: Validate_None)
  obtain results where
    all: "searchAll seed m opt (sub 0 ?d) (ByKey ?live) ?keys = Some (Ret results)"
      "length results = length ?keys"
      "\<forall>i < length ?keys. decides m (ByKey ?live (?keys ! i)) (kr_verdict (results ! i)) \<and>
         (unbudgeted opt (sub 0 ?d) \<longrightarrow> kr_verdict (results ! i) \<noteq> Unknown)"
    by (rule searchAll_correct [OF v b])
  have nb: "no_budget opt \<Longrightarrow> unbudgeted opt (sub k ?d)" for k
    by (simp add: no_budget_def unbudgeted_def deadline_of_def)
  define res where "res = \<lparr>r_Verdict = Linearizable, r_Key = [], r_Ops = [], r_Culprit = None,
    r_Reason = Summary (summarise (length ?live) (length ?keys)),
    r_Visits = sum_list (map kr_visits results), r_PerKey = key_stats ?keys (ByKey ?live) results\<rparr>"
  have run: "Check seed m opt late h = (case reported results of
       None \<Rightarrow> Some (Ret (Inr res))
     | Some (i, want) \<Rightarrow> and_then
         (attachDetail seed m opt (sub 1 ?d) (SortByInvoke (ByKey ?live (?keys ! i))) (results ! i)
           (res\<lparr>r_Verdict := want, r_Key := ?keys ! i, r_Reason := OnKey (?keys ! i) (kr_reason (results ! i))\<rparr>))
         (\<lambda>res. Some (Ret (Inr res))))"
    unfolding Check_def val Let_def res_def using all(1) by simp
  have stat: "key_verdict r (?keys ! i) = Some (kr_verdict (results ! i))"
    if "r_PerKey r = r_PerKey res" "i < length ?keys" for r i
    using that key_stats_nth [OF distinct_Keys all(2)] by (simp add: key_verdict_def res_def)
  have ex: "\<exists>i < length ?keys. k = ?keys ! i" if "k \<in> set ?keys" for k
    using that unfolding in_set_conv_nth by blast
  have dec: "\<forall>k \<in> set ?keys. \<exists>v. key_verdict r k = Some v \<and> decides m (ByKey ?live k) v"
    if "r_PerKey r = r_PerKey res" for r
    using stat [OF that] all(3) ex by blast
  have ord: "?keys ! i < ?keys ! j \<Longrightarrow> j < length ?keys \<Longrightarrow> i < length ?keys \<Longrightarrow> i < j" for i j
    using sorted_nth_mono [OF sorted_Keys, of j i ?live] by (metis leD not_le)
  have kok: "key_ok (SortByInvoke (ByKey ?live k))" for k
    by (rule key_ok_sorted [OF keys_key_ok [OF v b]])
  have detail: "\<exists>r. Check seed m opt late h = Some (Ret (Inr r)) \<and> check_result_ok m opt h r"
    if i: "reported results = Some (i, want)" "i < length ?keys" "want \<noteq> Linearizable"
      and bad: "want = NotLinearizable \<Longrightarrow> \<not> linearizable m (ByKey ?live (?keys ! i))"
      and und: "no_budget opt \<Longrightarrow> want \<noteq> Unknown"
      and vm: "\<And>r. r_PerKey r = r_PerKey res \<Longrightarrow> r_Verdict r = want \<Longrightarrow> r_Key r = ?keys ! i \<Longrightarrow>
        verdict_means m ?live r" for i want
  proof -
    let ?r = "res\<lparr>r_Verdict := want, r_Key := ?keys ! i, r_Reason := OnKey (?keys ! i) (kr_reason (results ! i))\<rparr>"
    obtain r' where r': "attachDetail seed m opt (sub 1 ?d) (SortByInvoke (ByKey ?live (?keys ! i))) (results ! i) ?r =
        Some (Ret r')" "r_Verdict r' = r_Verdict ?r" "r_Key r' = r_Key ?r" "r_PerKey r' = r_PerKey ?r"
        "detail_ok m (SortByInvoke (ByKey ?live (?keys ! i))) r'"
        "r_Verdict ?r = NotLinearizable \<and> Minimize opt \<and> unbudgeted opt (sub 1 ?d) \<longrightarrow> r_Ops r' \<noteq> []"
    proof (rule attachDetail_correct [OF kok, where r = ?r])
      show "r_Verdict ?r = NotLinearizable \<Longrightarrow> \<not> linearizable m (SortByInvoke (ByKey ?live (?keys ! i)))"
        using bad by (simp add: linearizable_sorted)
      show "r_Ops ?r = []" by (simp add: res_def)
    qed
    then have "check_result_ok m opt h r'"
      using vm [of r'] und nb by (simp add: check_result_ok_def)
    with run i(1) r'(1) show ?thesis by simp
  qed
  have decided: "\<forall>i < length results. decides m (ByKey ?live (?keys ! i)) (kr_verdict (results ! i))"
    using all by simp
  show ?thesis
  proof (cases rule: reported_cases [OF decided, case_names clean fail undecided])
    case clean
    have "\<forall>k \<in> set ?keys. key_verdict res k = Some Linearizable"
      using stat [of res, OF refl] clean(2) all(2) ex by metis
    then have "verdict_means m ?live res"
      unfolding verdict_means_def using dec [of res, OF refl] by (simp add: res_def)
    then have "check_result_ok m opt h res" by (simp add: check_result_ok_def res_def detail_ok_def)
    with run clean(1) show ?thesis by simp
  next
    case (fail i)
    then have i: "i < length ?keys" using all(2) by simp
    show ?thesis
    proof (rule detail [OF fail(1) i])
      show "\<not> linearizable m (ByKey ?live (?keys ! i))" using all(3) [rule_format, OF i] fail(3) by (simp add: decides_def)
      fix r :: Result assume r: "r_PerKey r = r_PerKey res" "r_Verdict r = NotLinearizable" "r_Key r = ?keys ! i"
      have "\<forall>k \<in> set ?keys. k < ?keys ! i \<longrightarrow> key_verdict r k \<noteq> Some NotLinearizable"
        using ex stat [OF r(1)] ord i fail(4) by (metis option.inject)
      then show "verdict_means m ?live r"
        unfolding verdict_means_def using dec [OF r(1)] stat [OF r(1) i] r fail(3) nth_mem [OF i] by (simp del: set_Keys)
    qed simp_all
  next
    case (undecided i)
    then have i: "i < length ?keys" using all(2) by simp
    show ?thesis
    proof (rule detail [OF undecided(1) i])
      show "no_budget opt \<Longrightarrow> Unknown \<noteq> Unknown" using all(3) [rule_format, OF i] undecided(3) nb [of 0] by simp
      fix r :: Result assume r: "r_PerKey r = r_PerKey res" "r_Verdict r = Unknown" "r_Key r = ?keys ! i"
      have "\<forall>k \<in> set ?keys. key_verdict r k \<noteq> Some NotLinearizable"
        using ex stat [OF r(1)] undecided(4) all(2) by (metis option.inject)
      then show "verdict_means m ?live r"
        unfolding verdict_means_def using dec [OF r(1)] stat [OF r(1) i] r undecided(3) nth_mem [OF i] by (simp del: set_Keys)
    qed simp_all
  qed
qed

text \<open>Without budgets a key that fails is found.\<close>

lemma Check_catches:
  assumes "valid_history h" "before_pending h" "no_budget opt"
    and "k \<in> set (Keys (DropFailed h))" "\<not> linearizable m (ByKey (DropFailed h) k)"
  shows "\<exists>r. Check seed m opt late h = Some (Ret (Inr r)) \<and> r_Verdict r = NotLinearizable"
proof -
  obtain r where r: "Check seed m opt late h = Some (Ret (Inr r))" "check_result_ok m opt h r"
    using Check_correct [OF assms(1,2)] by blast
  then have v: "verdict_means m (DropFailed h) r" and u: "r_Verdict r \<noteq> Unknown"
    using assms(3) by (auto simp: check_result_ok_def)
  from verdict_means_iff [OF v u] assms(4,5) have "r_Verdict r \<noteq> Linearizable" by blast
  with u v have "r_Verdict r = NotLinearizable" by (auto simp: verdict_means_def split: Verdict.splits)
  with r(1) show ?thesis by blast
qed

text \<open>\<open>CheckKey\<close>, on a history of one key or none.\<close>

lemma CheckKey_correct:
  assumes v: "valid_history h" and b: "before_pending h" and k: "length (Keys h) \<le> 1"
  shows "\<exists>r. CheckKey seed m opt late h = Some (Ret (Inr r)) \<and> decides m (DropFailed h) (r_Verdict r) \<and>
    (no_budget opt \<longrightarrow> r_Verdict r \<noteq> Unknown) \<and> detail_ok m (SortByInvoke (DropFailed h)) r \<and>
    (r_Verdict r = NotLinearizable \<and> Minimize opt \<and> no_budget opt \<longrightarrow> r_Ops r \<noteq> [])"
proof -
  let ?live = "SortByInvoke (DropFailed h)" and ?d = "deadline_of opt late"
  have "\<forall>op \<in> set h. int64_op op" using b by (simp add: before_pending_def)
  with v have val: "Validate h = None" by (simp add: Validate_None)
  have sk: "single_key h"
  proof (cases "Keys h")
    case Nil
    then have "set h = {}" using set_Keys [of h] by simp
    then show ?thesis by (simp add: single_key_def)
  next
    case (Cons a ks)
    with k have "Key ` set h = {a}" using set_Keys [of h] by simp
    then have "Key x = a" if "x \<in> set h" for x using that by (metis imageI singletonD)
    then show ?thesis by (simp add: single_key_def)
  qed
  have "key_ok h" by (rule key_ok_valid [OF v b sk])
  then have kok: "key_ok ?live" unfolding DropFailed_eq by (intro key_ok_sorted key_ok_filter)
  have nb: "no_budget opt \<Longrightarrow> unbudgeted opt (sub j ?d)" for j
    by (simp add: no_budget_def unbudgeted_def deadline_of_def)
  obtain kr where kr: "searchKey seed m opt (sub 0 ?d) ?live = Some (Ret kr)" "decides m ?live (kr_verdict kr)"
    "unbudgeted opt (sub 0 ?d) \<longrightarrow> kr_verdict kr \<noteq> Unknown"
    by (rule searchKey_correct [OF kok])
  define key where "key = (if length (Keys h) = 1 then Keys h ! 0 else [])"
  define res where "res = \<lparr>r_Verdict = kr_verdict kr, r_Key = [], r_Ops = [], r_Culprit = None,
    r_Reason = Summary (summarise (length ?live) (length (Keys h))), r_Visits = kr_visits kr,
    r_PerKey = (if length (Keys h) = 1 then [key \<mapsto> \<lparr>ks_Ops = length ?live,
      ks_Visits = kr_visits kr, ks_Verdict = kr_verdict kr\<rparr>] else Map.empty)\<rparr>"
  have "\<not> length (Keys h) > 1" using k by simp
  then have run: "CheckKey seed m opt late h = (if kr_verdict kr \<noteq> Linearizable then
      and_then (attachDetail seed m opt (sub 1 ?d) ?live kr (res\<lparr>r_Key := key, r_Reason := OnKey key (kr_reason kr)\<rparr>))
        (\<lambda>res. Some (Ret (Inr res))) else Some (Ret (Inr res)))"
    unfolding CheckKey_def val Let_def kr(1) key_def res_def by simp
  have dl: "decides m (DropFailed h) (kr_verdict kr)" using kr(2) by (simp add: decides_sorted)
  show ?thesis
  proof (cases "kr_verdict kr = Linearizable")
    case True
    with run dl show ?thesis by (simp add: res_def detail_ok_def)
  next
    case False
    let ?r = "res\<lparr>r_Key := key, r_Reason := OnKey key (kr_reason kr)\<rparr>"
    obtain r' where r': "attachDetail seed m opt (sub 1 ?d) ?live kr ?r = Some (Ret r')"
      "r_Verdict r' = r_Verdict ?r" "detail_ok m ?live r'"
      "r_Verdict ?r = NotLinearizable \<and> Minimize opt \<and> unbudgeted opt (sub 1 ?d) \<longrightarrow> r_Ops r' \<noteq> []"
    proof (rule attachDetail_correct [OF kok, where r = ?r])
      show "r_Verdict ?r = NotLinearizable \<Longrightarrow> \<not> linearizable m ?live"
        using kr(2) by (simp add: res_def decides_def)
      show "r_Ops ?r = []" by (simp add: res_def)
    qed
    then show ?thesis using run False dl kr(3) nb by (simp add: res_def)
  qed
qed

end

text \<open>The models the program names satisfy the contract.\<close>

lemma ByName_model: "ByName name = Inr m \<Longrightarrow> sequential_model m is_IntState"
  using cas_model.sequential_model_axioms reg_model.sequential_model_axioms
  by (auto simp: ByName_def All_models_def split: if_splits)

text \<open>The fast checker and the reference implementation agree.\<close>

lemma CheckKey_BruteForce:
  assumes "sequential_model m good" "valid_history h" "before_pending h" "length (Keys h) \<le> 1"
    and "CheckKey seed m opt late h = Some (Ret (Inr r))" "r_Verdict r \<noteq> Unknown"
    and "int (length h) \<le> maxOps"
  shows "BruteForce h m maxOps = Inr (r_Verdict r)"
proof -
  from sequential_model.CheckKey_correct [OF assms(1-4), of seed opt late] assms(5)
  have "decides m (DropFailed h) (r_Verdict r)" by simp
  from decides_eq [OF this assms(6)] show ?thesis by (simp add: BruteForce_linearizable [OF assms(7)])
qed

text \<open>The whole history against one register for each key.\<close>

definition distinct_moments :: "History \<Rightarrow> bool" where
  "distinct_moments h \<longleftrightarrow> sorted_wrt (\<lambda>a b. \<not> same_moment a b) h"

lemma verdict_keyed:
  assumes v: "valid_history h" and b: "before_pending h" and r: "verdict_means m (DropFailed h) r"
  shows "r_Verdict r = NotLinearizable \<Longrightarrow> \<not> linearizable (keyed m) (DropFailed h)"
    and "r_Verdict r = Linearizable \<Longrightarrow> distinct_moments h \<Longrightarrow> linearizable (keyed m) (DropFailed h)"
proof -
  assume "r_Verdict r = NotLinearizable"
  from verdict_means_linearizable(2) [OF r this] show "\<not> linearizable (keyed m) (DropFailed h)"
    using keyed_split [of m "DropFailed h" "r_Key r"] by (auto simp: ByKey_eq)
next
  assume l: "r_Verdict r = Linearizable" "distinct_moments h"
  have "Invoke op \<le> Complete op" if "op \<in> set h" for op
  proof -
    have "wf_op op" "Invoke op < Pending" using v b that by (simp_all add: valid_history_def before_pending_def)
    then show ?thesis by (auto simp: wf_op_def)
  qed
  then have "\<forall>op \<in> set (DropFailed h). Invoke op \<le> Complete op" by (auto simp: DropFailed_eq)
  moreover have "sorted_wrt (\<lambda>a b. \<not> same_moment a b) (DropFailed h)"
    using l(2) by (simp add: distinct_moments_def DropFailed_eq sorted_wrt_filter)
  ultimately show "linearizable (keyed m) (DropFailed h)"
    using verdict_means_linearizable(1) [OF r l(1)] by (simp add: locality)
qed

end
