(* ===== verification/Wire.thy ===== *)
theory Wire
  imports Validate Linearizability
begin

text \<open>
  The on-disk form of a history (\<open>wireOp\<close>, \<open>toWire\<close>, \<open>toOp\<close>, \<open>complete\<close>, \<open>Save\<close> and \<open>Load\<close> in
  \<open>internal/history/history.go\<close>). A line of the file is a string; \<open>json.Encoder\<close> and
  \<open>json.Unmarshal\<close> are the arguments \<open>encode\<close> and \<open>decode\<close>.
\<close>

section \<open>The code\<close>

record wireOp =
  w_Process :: "int option"
  w_Key :: string
  w_Kind :: string
  w_Value :: "int option"
  w_From :: "int option"
  w_To :: "int option"
  w_Observed :: "int option"
  w_Swapped :: "bool option"
  w_Outcome :: string
  w_Invoke :: "int64 option"
  w_Complete :: "int64 option"
  w_Err :: string

definition toWire :: "Op \<Rightarrow> wireOp" where
  "toWire op =
     (let w = \<lparr>w_Process = Some (Process op), w_Key = Key op, w_Kind = Kind_String (OpKind op),
            w_Value = None, w_From = None, w_To = None, w_Observed = None, w_Swapped = None,
            w_Outcome = Outcome_String (Outcome op), w_Invoke = Some (Invoke op), w_Complete = None,
            w_Err = Err op\<rparr>;
          w = (case OpKind op of
                 Write \<Rightarrow> w\<lparr>w_Value := Some (Value op)\<rparr>
               | CAS \<Rightarrow> w\<lparr>w_From := Some (From op), w_To := Some (To op)\<rparr>
               | _ \<Rightarrow> w);
          w = (if Outcome op = OK then
                 (case OpKind op of
                    Read \<Rightarrow> w\<lparr>w_Observed := Some (Observed op)\<rparr>
                  | CAS \<Rightarrow> w\<lparr>w_Swapped := Some (Swapped op)\<rparr>
                  | _ \<Rightarrow> w)
               else w)
      in if Outcome op \<noteq> Info then w\<lparr>w_Complete := Some (Complete op)\<rparr> else w)"

text \<open>\<open>complete\<close>: the field a line leaves out though its kind and outcome give it a meaning.\<close>

definition wire_complete :: "wireOp \<Rightarrow> Kind \<Rightarrow> Outcome \<Rightarrow> history_error option" where
  "wire_complete w k oc =
     (if w_Process w = None then Some NoProcess
      else if w_Invoke w = None then Some NoInvoke
      else if k = Write \<and> w_Value w = None then Some WriteNeedsValue
      else if k = CAS \<and> (w_From w = None \<or> w_To w = None) then Some CasNeedsBoth
      else if oc \<noteq> OK then None
      else if k = Read \<and> w_Observed w = None then Some ReadNeedsObserved
      else if k = CAS \<and> w_Swapped w = None then Some CasNeedsSwapped
      else None)"

fun or_zero :: "int option \<Rightarrow> int" where
  "or_zero None = 0"
| "or_zero (Some v) = v"

definition toOp :: "wireOp \<Rightarrow> history_error + Op" where
  "toOp w =
     (case ParseKind (w_Kind w) of
        Inl e \<Rightarrow> Inl e
      | Inr k \<Rightarrow>
          (case ParseOutcome (w_Outcome w) of
             Inl e \<Rightarrow> Inl e
           | Inr oc \<Rightarrow>
               (case wire_complete w k oc of
                  Some e \<Rightarrow> Inl e
                | None \<Rightarrow>
                    let op = \<lparr>Process = the (w_Process w), Key = w_Key w, OpKind = k,
                          Value = or_zero (w_Value w), From = or_zero (w_From w), To = or_zero (w_To w),
                          Observed = or_zero (w_Observed w), Swapped = (w_Swapped w = Some True),
                          Outcome = oc, Invoke = the (w_Invoke w), Complete = Pending, Err = w_Err w\<rparr>
                    in (case w_Complete w of
                          Some c \<Rightarrow> Inr (op\<lparr>Complete := c\<rparr>)
                        | None \<Rightarrow> if oc \<noteq> Info then Inl (NeedsComplete (w_Outcome w)) else Inr op))))"

definition Save :: "(wireOp \<Rightarrow> string) \<Rightarrow> History \<Rightarrow> string list" where
  "Save encode h = map (\<lambda>op. encode (toWire op)) (SortByInvoke h)"

datatype load_error = LineTooLong | Unparseable nat | BadLine nat history_error

definition maxLine :: nat where
  "maxLine = 8 * 1024 * 1024"

text \<open>The scanner gives up on a line that does not fit its buffer; blank lines are skipped.\<close>

fun load_lines :: "(string \<Rightarrow> wireOp option) \<Rightarrow> nat \<Rightarrow> string list \<Rightarrow> load_error + History" where
  "load_lines decode line [] = Inr []"
| "load_lines decode line (b # bs) =
     (if length b \<ge> maxLine then Inl LineTooLong
      else if b = [] then load_lines decode (Suc line) bs
      else case decode b of
        None \<Rightarrow> Inl (Unparseable (Suc line))
      | Some w \<Rightarrow>
          (case toOp w of
             Inl e \<Rightarrow> Inl (BadLine (Suc line) e)
           | Inr op \<Rightarrow>
               (case load_lines decode (Suc line) bs of
                  Inl e \<Rightarrow> Inl e
                | Inr h \<Rightarrow> Inr (op # h))))"

definition Load :: "(string \<Rightarrow> wireOp option) \<Rightarrow> string list \<Rightarrow> load_error + History" where
  "Load decode bs = load_lines decode 0 bs"

section \<open>Round trips\<close>

text \<open>
  What a written operation reads back as: the fields its kind and outcome give no meaning to are
  not in the file, and read as zero.
\<close>

definition recorded :: "Op \<Rightarrow> Op" where
  "recorded op = op
     \<lparr>Value := (if OpKind op = Write then Value op else 0),
      From := (if OpKind op = CAS then From op else 0),
      To := (if OpKind op = CAS then To op else 0),
      Observed := (if OpKind op = Read \<and> Outcome op = OK then Observed op else 0),
      Swapped := (OpKind op = CAS \<and> Outcome op = OK \<and> Swapped op),
      Complete := (if Outcome op = Info then Pending else Complete op)\<rparr>"

definition known_op :: "Op \<Rightarrow> bool" where
  "known_op op \<longleftrightarrow> OpKind op \<in> {Read, Write, CAS} \<and> Outcome op \<in> {OK, Fail, Info}"

lemma Parse_String [simp]:
  "k \<in> {Read, Write, CAS} \<Longrightarrow> ParseKind (Kind_String k) = Inr k"
  "oc \<in> {OK, Fail, Info} \<Longrightarrow> ParseOutcome (Outcome_String oc) = Inr oc"
  by (auto simp: ParseKind_def ParseOutcome_def)

lemma Parse_inverse:
  "ParseKind s = Inr k \<Longrightarrow> Kind_String k = s"
  "ParseOutcome s = Inr oc \<Longrightarrow> Outcome_String oc = s"
  by (auto simp: ParseKind_def ParseOutcome_def split: if_splits)

lemma toOp_toWire:
  assumes "known_op op"
  shows "toOp (toWire op) = Inr (recorded op)"
proof -
  have k: "ParseKind (w_Kind (toWire op)) = Inr (OpKind op)"
    and oc: "ParseOutcome (w_Outcome (toWire op)) = Inr (Outcome op)"
    using assms by (auto simp: known_op_def toWire_def Let_def ParseKind_def ParseOutcome_def)
  show ?thesis
    unfolding toOp_def k oc
    using assms
    by (cases op; cases "OpKind op"; cases "Outcome op")
      (simp_all add: known_op_def toWire_def wire_complete_def recorded_def Let_def)
qed

lemma toOp_known: "toOp w = Inr op \<Longrightarrow> known_op op"
  by (auto simp: toOp_def known_op_def ParseKind_def ParseOutcome_def Let_def
      split: sum.splits option.splits if_splits)

lemma toOp_present:
  assumes "toOp w = Inr op"
  shows "w_Process w = Some (Process op)" "w_Invoke w = Some (Invoke op)" "w_Key w = Key op"
    "OpKind op = Write \<Longrightarrow> w_Value w = Some (Value op)"
    "OpKind op = CAS \<Longrightarrow> w_From w = Some (From op) \<and> w_To w = Some (To op)"
    "Outcome op = OK \<Longrightarrow> OpKind op = Read \<Longrightarrow> w_Observed w = Some (Observed op)"
    "Outcome op = OK \<Longrightarrow> OpKind op = CAS \<Longrightarrow> w_Swapped w = Some (Swapped op)"
    "Outcome op \<noteq> Info \<Longrightarrow> w_Complete w = Some (Complete op)"
  using assms
  by (auto simp: toOp_def wire_complete_def Let_def split: sum.splits option.splits if_splits)

definition json_round_trip :: "(wireOp \<Rightarrow> string) \<Rightarrow> (string \<Rightarrow> wireOp option) \<Rightarrow> History \<Rightarrow> bool" where
  "json_round_trip encode decode h \<longleftrightarrow>
     (\<forall>op \<in> set h. encode (toWire op) \<noteq> [] \<and> length (encode (toWire op)) < maxLine \<and>
        decode (encode (toWire op)) = Some (toWire op))"

lemma load_lines_map:
  "\<forall>op \<in> set h. known_op op \<Longrightarrow> json_round_trip encode decode h \<Longrightarrow>
   load_lines decode n (map (\<lambda>op. encode (toWire op)) h) = Inr (map recorded h)"
  by (induction h arbitrary: n) (simp_all add: json_round_trip_def toOp_toWire)

lemma Load_Save:
  assumes "\<forall>op \<in> set h. known_op op" "json_round_trip encode decode h"
  shows "Load decode (Save encode h) = Inr (map recorded (SortByInvoke h))"
  unfolding Load_def Save_def
  by (rule load_lines_map) (use assms in \<open>simp_all add: json_round_trip_def\<close>)

text \<open>A file with a line that cannot be read is refused whole: no operation is dropped silently.\<close>

lemma load_lines_all:
  "load_lines decode n bs = Inr h \<Longrightarrow>
   map (\<lambda>b. map_option toOp (decode b)) (filter (\<lambda>b. b \<noteq> []) bs) = map (\<lambda>op. Some (Inr op)) h"
  by (induction bs arbitrary: n h) (auto split: if_splits option.splits sum.splits)

section \<open>What is lost does not matter\<close>

lemma recorded_simps [simp]:
  "Outcome (recorded op) = Outcome op" "OpKind (recorded op) = OpKind op" "Key (recorded op) = Key op"
  "Process (recorded op) = Process op" "Invoke (recorded op) = Invoke op" "Err (recorded op) = Err op"
  by (simp_all add: recorded_def)

lemma recorded_idem: "recorded (recorded op) = recorded op"
  by (cases op) (simp add: recorded_def)

lemma Step_recorded:
  "CASRegister_Step s (recorded op) = CASRegister_Step s op"
  "Register_Step s (recorded op) = Register_Step s op"
proof -
  show c: "CASRegister_Step s (recorded op) = CASRegister_Step s op"
    by (cases s; cases "OpKind op"; cases "Outcome op")
      (auto simp: CASRegister_Step_def recorded_def Let_def)
  show "Register_Step s (recorded op) = Register_Step s op" by (simp add: Register_Step_def c)
qed

lemma wf_op_recorded: "wf_op op \<Longrightarrow> wf_op (recorded op)"
  by (cases "Outcome op") (auto simp: wf_op_def recorded_def)

lemma valid_history_recorded:
  assumes "valid_history h"
  shows "valid_history (map recorded h)"
proof -
  have wf: "\<forall>op \<in> set h. wf_op op" using assms by (simp add: valid_history_def)
  have eq: "Complete (recorded op) = Complete op" if "op \<in> set h" for op
    using wf that by (auto simp: recorded_def wf_op_def)
  have "sorted_wrt compatible (map recorded h)"
    by (rule sorted_wrt_map_mono [of compatible])
      (use assms eq in \<open>auto simp: valid_history_def compatible_def same_instant_def
        instantaneous_def answered_before_def\<close>)
  with wf wf_op_recorded show ?thesis by (auto simp: valid_history_def)
qed

end
