(* ===== verification/Samples.thy ===== *)
theory Samples
  imports Check_Correct Wire
begin

text \<open>
  Small histories the properties are applied to, with the facts about them that more than one
  application uses. Nothing here models code.
\<close>

definition sample_op :: "int \<Rightarrow> Kind \<Rightarrow> int \<Rightarrow> Outcome \<Rightarrow> int64 \<Rightarrow> int64 \<Rightarrow> Op" where
  "sample_op p k v oc i c =
     \<lparr>Process = p, Key = ''k0'', OpKind = k, Value = (if k = Write then v else 0), From = 0, To = 1,
      Observed = (if k = Read then v else 0), Swapped = False, Outcome = oc, Invoke = i, Complete = c, Err = []\<rparr>"

text \<open>A read that misses a write which had completed.\<close>

definition stale_read :: History where
  "stale_read = [sample_op 0 Write 7 OK 1 2, sample_op 1 Read 0 OK 3 4]"

text \<open>A read that sees a write nobody was told the fate of.\<close>

definition lost_write :: History where
  "lost_write = [sample_op 0 Write 7 Info 1 Pending, sample_op 1 Read 7 OK 3 4]"

definition no_limits :: Options where
  "no_limits = \<lparr>MaxVisits = 0, Timeout = 0, MaxCacheBytes = 0, Minimize = True, Parallelism = 0\<rparr>"

definition tight :: Options where
  "tight = \<lparr>MaxVisits = 1, Timeout = 0, MaxCacheBytes = 0, Minimize = True, Parallelism = 0\<rparr>"

lemmas sample_defs = sample_op_def stale_read_def lost_write_def no_limits_def tight_def

lemma sample_valid:
  "valid_history stale_read" "valid_history lost_write"
  by (auto simp: sample_defs valid_defs Pending_def max_int64_def)

lemma sample_before_pending:
  "before_pending stale_read" "before_pending lost_write"
  by (auto simp: sample_defs before_pending_def int64_op_def Pending_def max_int64_def min_int64_def)

lemma sample_single_key: "single_key stale_read" "single_key lost_write"
  by (auto simp: sample_defs single_key_def)

lemma sample_key_ok: "key_ok stale_read" "key_ok lost_write"
  using key_ok_valid sample_valid sample_before_pending sample_single_key by blast+

lemma sample_keys: "Keys stale_read = [''k0'']" "Keys lost_write = [''k0'']"
  by (simp_all add: sample_defs Keys_def sort_strings_def stable_sort_def)

lemma sample_model: "ByName ''cas-register'' = Inr CASRegister"
  by (simp add: ByName_def All_models_def CASRegister_def)

end
