(* ===== verification/Kv_Protocol.thy ===== *)
theory Kv_Protocol
  imports History
begin

text \<open>
  The wire protocol of the stores (\<open>internal/kv/kv.go\<close>, \<open>internal/kv/server.go\<close>): requests,
  replies, their JSON forms, and the handler that turns a body into a status and a reply. The JSON
  codec is the argument \<open>decode\<close>.
\<close>

section \<open>Requests and replies\<close>

record Request =
  q_Kind :: Kind
  q_Key :: string
  q_Value :: int
  q_From :: int
  q_To :: int

definition Request_String :: "Request \<Rightarrow> string" where
  "Request_String r =
     (case q_Kind r of
        Write \<Rightarrow> ''write '' @ q_Key r @ ''='' @ show_int (q_Value r)
      | CAS \<Rightarrow> ''cas '' @ q_Key r @ '' '' @ show_int (q_From r) @ ''->'' @ show_int (q_To r)
      | _ \<Rightarrow> ''read '' @ q_Key r)"

record Response =
  p_OK :: bool
  p_Value :: "int option"
  p_Swapped :: "bool option"
  p_Err :: string

definition ReadOK :: "int \<Rightarrow> Response" where
  "ReadOK v = \<lparr>p_OK = True, p_Value = Some v, p_Swapped = None, p_Err = []\<rparr>"

definition WriteOK :: Response where
  "WriteOK = \<lparr>p_OK = True, p_Value = None, p_Swapped = None, p_Err = []\<rparr>"

definition CASOK :: "bool \<Rightarrow> Response" where
  "CASOK b = \<lparr>p_OK = True, p_Value = None, p_Swapped = Some b, p_Err = []\<rparr>"

definition Declined :: "string \<Rightarrow> Response" where
  "Declined why = \<lparr>p_OK = False, p_Value = None, p_Swapped = None, p_Err = why\<rparr>"

lemmas reply_defs = ReadOK_def WriteOK_def CASOK_def Declined_def

section \<open>The JSON form of a request\<close>

record wireRequest =
  wr_Op :: string
  wr_Key :: string
  wr_Value :: "int option"
  wr_From :: "int option"
  wr_To :: "int option"

definition request_toWire :: "Request \<Rightarrow> wireRequest" where
  "request_toWire r =
     (let w = \<lparr>wr_Op = Kind_String (q_Kind r), wr_Key = q_Key r, wr_Value = None, wr_From = None, wr_To = None\<rparr>
      in case q_Kind r of
           Write \<Rightarrow> w\<lparr>wr_Value := Some (q_Value r)\<rparr>
         | CAS \<Rightarrow> w\<lparr>wr_From := Some (q_From r), wr_To := Some (q_To r)\<rparr>
         | _ \<Rightarrow> w)"

datatype request_error =
    BadKind history_error
  | MissingKey
  | NeedsValue
  | NeedsFromTo
  | Malformed
  | TrailingContent

definition toRequest :: "wireRequest \<Rightarrow> request_error + Request" where
  "toRequest w =
     (case ParseKind (wr_Op w) of
        Inl e \<Rightarrow> Inl (BadKind e)
      | Inr kind \<Rightarrow>
          if wr_Key w = [] then Inl MissingKey
          else
            let r = \<lparr>q_Kind = kind, q_Key = wr_Key w, q_Value = 0, q_From = 0, q_To = 0\<rparr>
            in case kind of
                 Write \<Rightarrow>
                   (case wr_Value w of None \<Rightarrow> Inl NeedsValue | Some v \<Rightarrow> Inr (r\<lparr>q_Value := v\<rparr>))
               | CAS \<Rightarrow>
                   (case (wr_From w, wr_To w) of
                      (Some a, Some b) \<Rightarrow> Inr (r\<lparr>q_From := a, q_To := b\<rparr>)
                    | _ \<Rightarrow> Inl NeedsFromTo)
               | _ \<Rightarrow> Inr r)"

text \<open>
  The decoder reads one JSON value from the body and reports what is left; a second \<open>Decode\<close> that
  does not find the end of the body is trailing content.
\<close>

definition maxRequestBytes :: nat where
  "maxRequestBytes = 65536"

definition decodeRequest ::
  "(string \<Rightarrow> (wireRequest \<times> string) option) \<Rightarrow> (string \<Rightarrow> bool) \<Rightarrow> string \<Rightarrow> request_error + Request" where
  "decodeRequest decode at_end body =
     (case decode (take maxRequestBytes body) of
        None \<Rightarrow> Inl Malformed
      | Some (w, remaining) \<Rightarrow> if \<not> at_end remaining then Inl TrailingContent else toRequest w)"

section \<open>The server\<close>

text \<open>
  What a store's \<open>Apply\<close> answers: a decision, or an error that says it does not know. Only
  \<open>Indeterminate\<close> makes an error with a status of its own.
\<close>

datatype apply_error = StatusError nat string | PlainError string

definition Indeterminate :: "nat \<Rightarrow> string \<Rightarrow> apply_error" where
  "Indeterminate status msg = StatusError status msg"

fun statusOf :: "apply_error \<Rightarrow> nat" where
  "statusOf (StatusError status msg) = status"
| "statusOf (PlainError msg) = 502"

fun error_String :: "apply_error \<Rightarrow> string" where
  "error_String (StatusError status msg) = msg"
| "error_String (PlainError msg) = msg"

text \<open>A body the server writes: a decision, or an error with no decision in it.\<close>

datatype reply_body = Decision Response | NoDecision string

text \<open>
  \<open>handleKV\<close>: \<open>apply\<close> is the store's \<open>Apply\<close> on its state; \<open>complaint\<close> words a decoding error.
\<close>

definition handleKV ::
  "(string \<Rightarrow> request_error + Request) \<Rightarrow> (request_error \<Rightarrow> string) \<Rightarrow>
   ('st \<Rightarrow> Request \<Rightarrow> (apply_error + Response) \<times> 'st) \<Rightarrow> 'st \<Rightarrow> string \<Rightarrow> (nat \<times> reply_body) \<times> 'st" where
  "handleKV parse complaint apply st body =
     (case parse body of
        Inl e \<Rightarrow> ((200, Decision (Declined (complaint e))), st)
      | Inr req \<Rightarrow>
          (case apply st req of
             (Inl err, st') \<Rightarrow> ((statusOf err, NoDecision (error_String err)), st')
           | (Inr resp, st') \<Rightarrow> ((200, Decision resp), st')))"

section \<open>Round trip\<close>

text \<open>The fields the kind of a request gives a meaning to.\<close>

definition sent_request :: "Request \<Rightarrow> Request" where
  "sent_request r = r
     \<lparr>q_Value := (if q_Kind r = Write then q_Value r else 0),
      q_From := (if q_Kind r = CAS then q_From r else 0),
      q_To := (if q_Kind r = CAS then q_To r else 0)\<rparr>"

lemma toRequest_toWire:
  assumes "q_Kind r \<in> {Read, Write, CAS}" "q_Key r \<noteq> []"
  shows "toRequest (request_toWire r) = Inr (sent_request r)"
  using assms
  by (cases r) (auto simp: toRequest_def request_toWire_def sent_request_def ParseKind_def Let_def)

lemma toRequest_kind: "toRequest w = Inr r \<Longrightarrow> q_Kind r \<in> {Read, Write, CAS} \<and> q_Key r \<noteq> []"
  by (auto simp: toRequest_def ParseKind_def Let_def split: sum.splits Kind.splits option.splits if_splits)

lemma toRequest_wire:
  "toRequest w = Inr r \<Longrightarrow> wr_Key w = q_Key r \<and> (q_Kind r = Write \<longrightarrow> wr_Value w = Some (q_Value r)) \<and>
    (q_Kind r = CAS \<longrightarrow> wr_From w = Some (q_From r) \<and> wr_To w = Some (q_To r))"
  by (auto simp: toRequest_def Let_def split: sum.splits Kind.splits option.splits if_splits)

lemma handleKV_refused:
  "parse body = Inl e \<Longrightarrow> handleKV parse complaint apply st body = ((200, Decision (Declined (complaint e))), st)"
  by (simp add: handleKV_def)

end
