(* ===== verification/Single_Store.thy ===== *)
theory Single_Store
  imports Kv_Protocol Seq_Model
begin

text \<open>
  \<open>internal/kv/single.go\<close>: one map behind one mutex. \<open>Apply\<close> holds the lock throughout, so it is
  one function of the map. The locale \<open>register_store\<close> is the promise a caller of such a store
  relies on; that a reply agrees with the register model of \<open>Seq_Model\<close> is proved inside it.
\<close>

type_synonym data = "string \<Rightarrow> int option"

definition single_get :: "data \<Rightarrow> string \<Rightarrow> int" where
  "single_get d k = (case d k of Some v \<Rightarrow> v | None \<Rightarrow> InitialValue)"

definition single_Apply :: "data \<Rightarrow> Request \<Rightarrow> (apply_error + Response) \<times> data" where
  "single_Apply d req =
     (case q_Kind req of
        Write \<Rightarrow> (Inr WriteOK, d(q_Key req \<mapsto> q_Value req))
      | CAS \<Rightarrow>
          if single_get d (q_Key req) \<noteq> q_From req then (Inr (CASOK False), d)
          else (Inr (CASOK True), d(q_Key req \<mapsto> q_To req))
      | _ \<Rightarrow> (Inr (ReadOK (single_get d (q_Key req))), d))"

text \<open>What the register of one key does for a request, and what the reply says.\<close>

definition register_next :: "int \<Rightarrow> Request \<Rightarrow> int" where
  "register_next v req =
     (case q_Kind req of
        Write \<Rightarrow> q_Value req
      | CAS \<Rightarrow> if v = q_From req then q_To req else v
      | _ \<Rightarrow> v)"

definition register_reply :: "int \<Rightarrow> Request \<Rightarrow> Response" where
  "register_reply v req =
     (case q_Kind req of
        Write \<Rightarrow> WriteOK
      | CAS \<Rightarrow> CASOK (v = q_From req)
      | _ \<Rightarrow> ReadOK v)"

text \<open>An operation that records what a request was answered.\<close>

definition agrees :: "Request \<Rightarrow> Response \<Rightarrow> Op \<Rightarrow> bool" where
  "agrees req resp op \<longleftrightarrow>
     Key op = q_Key req \<and> OpKind op = q_Kind req \<and> Value op = q_Value req \<and> From op = q_From req \<and>
     To op = q_To req \<and>
     (Outcome op = OK \<longrightarrow>
        (q_Kind req = Read \<longrightarrow> p_Value resp = Some (Observed op)) \<and>
        (q_Kind req = CAS \<longrightarrow> p_Swapped resp = Some (Swapped op)))"

lemma register_step:
  assumes "agrees req (register_reply v req) op" "q_Kind req \<in> {Read, Write, CAS}"
  shows "CASRegister_Step (IntState v) op = (IntState (register_next v req), True)"
  using assms
  by (auto simp: agrees_def register_reply_def register_next_def CASRegister_Step_int reply_defs)

locale register_store =
  fixes get :: "'st \<Rightarrow> string \<Rightarrow> int"
    and apply_req :: "'st \<Rightarrow> Request \<Rightarrow> (apply_error + Response) \<times> 'st"
    and empty :: 'st
  assumes get_empty: "get empty k = InitialValue"
    and apply_reply: "fst (apply_req st req) = Inr (register_reply (get st (q_Key req)) req)"
    and apply_get: "get (snd (apply_req st req)) k =
      (if k = q_Key req then register_next (get st k) req else get st k)"
begin

text \<open>The store as the state of one register model for each key.\<close>

definition registers :: "'st \<Rightarrow> string \<Rightarrow> State" where
  "registers st = (\<lambda>k. IntState (get st k))"

lemma registers_empty: "registers empty = (\<lambda>_. m_Init CASRegister)"
  by (simp add: registers_def get_empty InitialValue_def)

lemma registers_apply:
  "registers (snd (apply_req st req)) =
     (registers st)(q_Key req := IntState (register_next (get st (q_Key req)) req))"
  by (auto simp: registers_def apply_get)

lemma reply_fits:
  assumes "fst (apply_req st req) = Inr resp" "agrees req resp op" "q_Kind req \<in> {Read, Write, CAS}"
  shows "CASRegister_Step (registers st (Key op)) op = (registers (snd (apply_req st req)) (Key op), True)"
proof -
  have "resp = register_reply (get st (q_Key req)) req" using assms(1) apply_reply by simp
  with assms(2) have "agrees req (register_reply (get st (q_Key req)) req) op" by simp
  from register_step [OF this assms(3)] assms(2) show ?thesis
    by (simp add: registers_apply) (simp add: registers_def agrees_def)
qed

end

interpretation single: register_store single_get single_Apply Map.empty
  by unfold_locales
    (auto simp: single_get_def single_Apply_def register_reply_def register_next_def split: Kind.split)

end
