(* ===== verification/Clock.thy ===== *)
theory Clock
  imports Prelude "HOL-Library.Signed_Division"
begin

text \<open>
  Package \<open>clock\<close> (\<open>internal/clock/clock.go\<close>): the timestamps of a history. The platform's
  counter is a sequence of readings, an argument; nothing is assumed of it. The resolution is
  measured, and \<open>Completion\<close> widens a completion by one tick, so that a recorded precedence is one
  the measurement supports.
\<close>

section \<open>The code\<close>

record Clock =
  ck_origin :: int64
  ck_granularity :: int64
  ck_source :: string

definition Nanos :: "Clock \<Rightarrow> int64 \<Rightarrow> int64" where
  "Nanos c raw = wrap64 (raw - ck_origin c)"

definition Granularity :: "Clock \<Rightarrow> int64" where
  "Granularity c = ck_granularity c"

definition Completion :: "Clock \<Rightarrow> int64 \<Rightarrow> int64 \<Rightarrow> int64" where
  "Completion c invoke measured =
     (let measured = (if measured < invoke then invoke else measured)
      in wrap64 (measured + ck_granularity c))"

text \<open>
  \<open>measure\<close>: \<open>spin\<close> reads the counter until it changes, at most \<open>maxSpins\<close> times, and \<open>trials\<close>
  keeps the smallest positive change. \<open>raw k\<close> is the \<open>k\<close>-th reading.
\<close>

definition maxSpins :: nat where
  "maxSpins = 50000000"

function spin :: "(nat \<Rightarrow> int64) \<Rightarrow> int64 \<Rightarrow> nat \<Rightarrow> nat \<Rightarrow> int64 \<Rightarrow> int64 \<times> nat" where
  "spin raw t0 spins k t1 =
     (if spins < maxSpins then
        (if raw k \<noteq> t0 then (raw k, Suc k) else spin raw t0 (Suc spins) (Suc k) (raw k))
      else (t1, k))"
  by pat_completeness auto

termination
  by (relation "measure (\<lambda>(raw, t0, spins, k, t1). maxSpins - spins)") auto

declare spin.simps [simp del]

definition noChange :: int64 where
  "noChange = 4611686018427387904"

fun trials :: "(nat \<Rightarrow> int64) \<Rightarrow> nat \<Rightarrow> nat \<Rightarrow> int64 \<Rightarrow> int64" where
  "trials raw 0 k best = best"
| "trials raw (Suc n) k best =
     (let t0 = raw k in
      case spin raw t0 0 (Suc k) 0 of (t1, k) \<Rightarrow>
        let d = wrap64 (t1 - t0) in
        trials raw n k (if d > 0 \<and> d < best then d else best))"

definition measure_clock :: "(nat \<Rightarrow> int64) \<Rightarrow> string \<Rightarrow> int64 \<times> string" where
  "measure_clock raw rawSource =
     (let best = trials raw 64 0 noChange in
      if best \<le> 0 \<or> best = noChange then (1000, rawSource @ '' (resolution not measurable)'')
      else (best, rawSource))"

definition New_clock :: "(nat \<Rightarrow> int64) \<Rightarrow> string \<Rightarrow> int64 \<Rightarrow> Clock" where
  "New_clock raw rawSource origin =
     (case measure_clock raw rawSource of (g, source) \<Rightarrow>
        \<lparr>ck_origin = origin, ck_granularity = g, ck_source = source\<rparr>)"

section \<open>What it guarantees\<close>

lemma trials_bound: "trials raw n k best \<le> best"
proof (induction n arbitrary: k best)
  case (Suc n)
  obtain t1 k' where s: "spin raw (raw k) 0 (Suc k) 0 = (t1, k')" by fastforce
  let ?d = "wrap64 (t1 - raw k)"
  let ?b = "if ?d > 0 \<and> ?d < best then ?d else best"
  have "trials raw (Suc n) k best = trials raw n k' ?b" by (simp add: s Let_def)
  also have "\<dots> \<le> ?b" by (rule Suc.IH)
  also have "\<dots> \<le> best" by simp
  finally show ?case .
qed simp

lemma measure_positive: "0 < fst (measure_clock raw src)" "fst (measure_clock raw src) < noChange"
  using trials_bound [of raw 64 0 noChange]
  by (auto simp: measure_clock_def Let_def noChange_def)

lemma New_clock_granularity:
  "0 < ck_granularity (New_clock raw src origin)" "ck_granularity (New_clock raw src origin) < noChange"
  using measure_positive [of raw src] by (auto simp: New_clock_def split: prod.split)

lemma Completion_eq:
  assumes "max invoke measured + ck_granularity c \<le> max_int64" "min_int64 \<le> invoke" "0 \<le> ck_granularity c"
  shows "Completion c invoke measured = max invoke measured + ck_granularity c"
proof -
  have "(if measured < invoke then invoke else measured) = max invoke measured" by auto
  moreover have "wrap64 (max invoke measured + ck_granularity c) = max invoke measured + ck_granularity c"
    using assms by (intro wrap64_id) auto
  ultimately show ?thesis by (simp add: Completion_def)
qed

text \<open>
  A reading \<open>r\<close> of a clock with granularity \<open>g\<close> says that the true instant lies in \<open>[r, r + g)\<close>. A
  recorded precedence then is a true one.
\<close>

definition reading :: "Clock \<Rightarrow> int64 \<Rightarrow> int \<Rightarrow> bool" where
  "reading c r t \<longleftrightarrow> r \<le> t \<and> t < r + ck_granularity c"

lemma Completion_supports:
  assumes "reading c done_r done_t" "reading c inv_r inv_t"
    and "max inv0 done_r + ck_granularity c \<le> max_int64" "min_int64 \<le> inv0" "0 \<le> ck_granularity c"
    and "Completion c inv0 done_r \<le> inv_r"
  shows "done_t < inv_t"
  using assms Completion_eq [OF assms(3-5)] by (auto simp: reading_def)

section \<open>The counter of Windows\<close>

text \<open>
  \<open>raw_windows.go\<close> reads the performance counter and turns its ticks into nanoseconds; a frequency or
  a counter that cannot be read falls back to Go's own clock. Go's division rounds towards zero.
\<close>

definition frequency :: "bool \<Rightarrow> int64 \<Rightarrow> int64" where
  "frequency answered f = (if answered \<and> f > 0 then f else 0)"

definition rawNanos :: "int64 \<Rightarrow> int64 option \<Rightarrow> int64 \<Rightarrow> int64" where
  "rawNanos f counter goNanos =
     (if f = 0 then goNanos
      else case counter of
        None \<Rightarrow> goNanos
      | Some ticks \<Rightarrow>
          wrap64 (wrap64 ((ticks sdiv f) * 1000000000) + wrap64 ((ticks smod f) * 1000000000) sdiv f))"

text \<open>
  Split as it is, the conversion is exact up to the rounding and nothing overflows while the counter
  has run for less than 292 years, whatever the frequency below 9.2 gigahertz; so readings follow the
  counter's order.
\<close>

lemma sdiv_smod_nonneg: "0 \<le> a \<Longrightarrow> 0 < b \<Longrightarrow> a sdiv b = a div b \<and> a smod b = a mod (b :: int)"
  by (cases "a = 0") (simp_all add: signed_divide_int_def signed_modulo_int_def)

lemma quotient_below:
  assumes "0 < (f :: int)" and "x < s * f"
  shows "x div f < s"
proof (rule ccontr)
  assume "\<not> x div f < s"
  then have "s * f \<le> (x div f) * f" using assms(1) by simp
  also have "\<dots> \<le> x" using pos_mod_sign [OF assms(1), of x] div_mult_mod_eq [of x f] by linarith
  finally show False using assms(2) by simp
qed

lemma split_scale:
  assumes "0 < (f :: int)"
  shows "(t div f) * s + ((t mod f) * s) div f = t * s div f"
proof -
  have "t * s = f * ((t div f) * s) + (t mod f) * s"
    by (metis mult.assoc mult_div_mod_eq distrib_right)
  then have "t * s div f = (f * ((t div f) * s) + (t mod f) * s) div f" by simp
  with assms show ?thesis by simp
qed

theorem rawNanos_exact:
  assumes "0 \<le> ticks" and "0 < f" and "f \<le> 9223372036" and "(ticks div f + 1) * 1000000000 \<le> max_int64"
  shows "rawNanos f (Some ticks) g = ticks * 1000000000 div f"
proof -
  have r: "0 \<le> ticks mod f" "ticks mod f < f" using assms(2) by simp_all
  have q: "0 \<le> ticks div f" using assms(1,2) by (simp add: pos_imp_zdiv_nonneg_iff)
  have rem: "0 \<le> (ticks mod f) * 1000000000 div f" "(ticks mod f) * 1000000000 div f < 1000000000"
    using r assms(2) by (simp_all add: pos_imp_zdiv_nonneg_iff quotient_below)
  have w1: "wrap64 ((ticks div f) * 1000000000) = (ticks div f) * 1000000000"
    using q assms(4) by (intro wrap64_id) (simp_all add: min_int64_def)
  have w2: "wrap64 ((ticks mod f) * 1000000000) = (ticks mod f) * 1000000000"
    using r assms(3) by (intro wrap64_id) (simp_all add: min_int64_def max_int64_def)
  have s: "((ticks mod f) * 1000000000) sdiv f = ((ticks mod f) * 1000000000) div f"
    using r(1) assms(2) sdiv_smod_nonneg by simp
  have "wrap64 ((ticks div f) * 1000000000 + (ticks mod f) * 1000000000 div f) =
      (ticks div f) * 1000000000 + (ticks mod f) * 1000000000 div f"
    using q rem assms(4) by (intro wrap64_id) (simp_all add: min_int64_def)
  with w1 w2 s sdiv_smod_nonneg [OF assms(1,2)] show ?thesis
    using assms(2) by (simp add: rawNanos_def split_scale)
qed

text \<open>
  One multiplication fewer would overflow within sixteen minutes of uptime at ten megahertz, not after
  the twenty-nine years a comment gives it.
\<close>

lemma plain_form_overflows:
  "wrap64 (922 * 10000000 * 1000000000) = 922 * 10000000 * 1000000000"
  "wrap64 (923 * 10000000 * 1000000000) < 0"
  by (simp_all add: wrap64_def)

end
