(* ===== verification/Go_Text.thy ===== *)
theory Go_Text
  imports Prelude
begin

text \<open>
  What the program uses of the Go library to read and write text: the verbs of \<open>fmt\<close> with widths,
  \<open>time.Duration\<close> rounded and printed, and the functions of \<open>strings\<close> and \<open>strconv\<close>. Strings are
  sequences of bytes; the functions that Go defines on characters are given on ASCII, which is all
  the program's own text holds.
\<close>

section \<open>Padding\<close>

definition pad_left :: "nat \<Rightarrow> string \<Rightarrow> string" where
  "pad_left n s = replicate (n - length s) CHR '' '' @ s"

definition pad_right :: "nat \<Rightarrow> string \<Rightarrow> string" where
  "pad_right n s = s @ replicate (n - length s) CHR '' ''"

lemma length_pad [simp]: "length (pad_left n s) = max n (length s)" "length (pad_right n s) = max n (length s)"
  by (simp_all add: pad_left_def pad_right_def)

section \<open>The package \<open>strings\<close>\<close>

definition is_space :: "char \<Rightarrow> bool" where
  "is_space c \<longleftrightarrow> (of_char c :: nat) = 32 \<or> (9 \<le> (of_char c :: nat) \<and> (of_char c :: nat) \<le> 13)"

definition TrimRight_by :: "(char \<Rightarrow> bool) \<Rightarrow> string \<Rightarrow> string" where
  "TrimRight_by P s = rev (dropWhile P (rev s))"

definition TrimSpace :: "string \<Rightarrow> string" where
  "TrimSpace s = TrimRight_by is_space (dropWhile is_space s)"

definition lower_char :: "char \<Rightarrow> char" where
  "lower_char c = (let n = (of_char c :: nat) in if 65 \<le> n \<and> n \<le> 90 then char_of (n + 32) else c)"

definition upper_char :: "char \<Rightarrow> char" where
  "upper_char c = (let n = (of_char c :: nat) in if 97 \<le> n \<and> n \<le> 122 then char_of (n - 32) else c)"

definition ToLower :: "string \<Rightarrow> string" where
  "ToLower s = map lower_char s"

definition ToUpper :: "string \<Rightarrow> string" where
  "ToUpper s = map upper_char s"

text \<open>\<open>strings.Cut\<close> around one byte; \<open>None\<close> where it does not occur.\<close>

fun Cut :: "char \<Rightarrow> string \<Rightarrow> (string \<times> string) option" where
  "Cut c [] = None"
| "Cut c (x # xs) = (if x = c then Some ([], xs) else map_option (\<lambda>(a, b). (x # a, b)) (Cut c xs))"

fun CutPrefix :: "string \<Rightarrow> string \<Rightarrow> string option" where
  "CutPrefix [] s = Some s"
| "CutPrefix (p # ps) [] = None"
| "CutPrefix (p # ps) (x # xs) = (if p = x then CutPrefix ps xs else None)"

text \<open>\<open>strings.Split\<close> at one byte, and \<open>strings.Join\<close>.\<close>

fun Contains :: "string \<Rightarrow> string \<Rightarrow> bool" where
  "Contains [] sub \<longleftrightarrow> sub = []"
| "Contains (c # s) sub \<longleftrightarrow> take (length sub) (c # s) = sub \<or> Contains s sub"

fun Split :: "char \<Rightarrow> string \<Rightarrow> string list" where
  "Split c [] = [[]]"
| "Split c (x # xs) =
     (if x = c then [] # Split c xs
      else case Split c xs of [] \<Rightarrow> [[x]] | l # ls \<Rightarrow> (x # l) # ls)"

fun Join :: "string \<Rightarrow> string list \<Rightarrow> string" where
  "Join sep [] = []"
| "Join sep [s] = s"
| "Join sep (s # t # ss) = s @ sep @ Join sep (t # ss)"

lemma CutPrefix_Some: "CutPrefix p s = Some r \<longleftrightarrow> s = p @ r"
  by (induction p s rule: CutPrefix.induct) auto

lemma Cut_Some: "Cut c s = Some (a, b) \<longleftrightarrow> s = a @ c # b \<and> c \<notin> set a"
proof (induction s arbitrary: a)
  case (Cons x xs)
  then show ?case by (cases a) auto
qed simp

lemma Cut_None: "Cut c s = None \<longleftrightarrow> c \<notin> set s"
  by (induction c s rule: Cut.induct) auto

lemma Split_neq_Nil [simp]: "Split c s \<noteq> []"
  by (induction c s rule: Split.induct) (auto split: list.split)

lemma Join_Split: "Join [c] (Split c s) = s"
proof (induction c s rule: Split.induct)
  case (2 c x xs)
  then obtain l ls where l: "Split c xs = l # ls" by (cases "Split c xs") auto
  with 2 show ?case by (cases ls) (auto split: list.splits)
qed simp

lemma TrimSpace_id:
  assumes "s \<noteq> []" and "\<not> is_space (hd s)" and "\<not> is_space (last s)"
  shows "TrimSpace s = s"
proof -
  from assms(1,2) have "dropWhile is_space s = s" by (cases s) auto
  moreover from assms(1,3) have "dropWhile is_space (rev s) = rev s"
    by (cases "rev s") (auto simp: hd_rev [symmetric])
  ultimately show ?thesis by (simp add: TrimSpace_def TrimRight_by_def)
qed

lemma TrimRight_by_last: "TrimRight_by P s \<noteq> [] \<Longrightarrow> \<not> P (last (TrimRight_by P s))"
proof -
  assume "TrimRight_by P s \<noteq> []"
  then have "dropWhile P (rev s) \<noteq> []" by (simp add: TrimRight_by_def)
  from hd_dropWhile [OF this] this show ?thesis by (simp add: TrimRight_by_def last_rev)
qed

lemma TrimSpace_last: "TrimSpace s \<noteq> [] \<Longrightarrow> \<not> is_space (last (TrimSpace s))"
  unfolding TrimSpace_def by (rule TrimRight_by_last)

lemma TrimSpace_Nil: "TrimSpace s = [] \<longleftrightarrow> (\<forall>c \<in> set s. is_space c)"
proof -
  have "TrimSpace s = [] \<longleftrightarrow> (\<forall>c \<in> set (dropWhile is_space s). is_space c)"
    unfolding TrimSpace_def TrimRight_by_def rev_is_Nil_conv dropWhile_eq_Nil_conv set_rev ..
  also have "\<dots> \<longleftrightarrow> (\<forall>c \<in> set s. is_space c)"
  proof (cases "dropWhile is_space s")
    case Nil
    then show ?thesis by (metis dropWhile_eq_Nil_conv empty_iff list.set(1))
  next
    case (Cons c cs)
    then have "\<not> is_space c" using hd_dropWhile [of is_space s] by simp
    moreover have "c \<in> set s" using Cons set_dropWhileD [of c is_space s] by simp
    ultimately show ?thesis using Cons by auto
  qed
  finally show ?thesis .
qed

section \<open>\<open>strconv.Atoi\<close>\<close>

definition digit_value :: "char \<Rightarrow> nat option" where
  "digit_value c = (let n = (of_char c :: nat) in if 48 \<le> n \<and> n \<le> 57 then Some (n - 48) else None)"

fun digits_value :: "nat \<Rightarrow> string \<Rightarrow> nat option" where
  "digits_value acc [] = Some acc"
| "digits_value acc (c # cs) = (case digit_value c of None \<Rightarrow> None | Some d \<Rightarrow> digits_value (10 * acc + d) cs)"

text \<open>A sign, at least one digit, nothing else, and a value that fits; \<open>None\<close> is any of its errors.\<close>

definition Atoi :: "string \<Rightarrow> int option" where
  "Atoi s =
     (let (neg, ds) = (case s of c # cs \<Rightarrow>
            if c = CHR ''-'' then (True, cs) else if c = CHR ''+'' then (False, cs) else (False, s)
          | [] \<Rightarrow> (False, []))
      in if ds = [] then None
         else case digits_value 0 ds of
           None \<Rightarrow> None
         | Some n \<Rightarrow>
             let i = (if neg then - int n else int n)
             in if min_int64 \<le> i \<and> i \<le> max_int64 then Some i else None)"

lemma digit_value_digit [simp]: "n < 10 \<Longrightarrow> digit_value (digit n) = Some n"
  by (simp add: digit_value_def digit_def)

lemma digits_value_append:
  "digits_value acc (xs @ ys) = (case digits_value acc xs of None \<Rightarrow> None | Some a \<Rightarrow> digits_value a ys)"
  by (induction acc xs rule: digits_value.induct) (auto split: option.split)

lemma digits_value_show_nat: "digits_value 0 (show_nat n) = Some n"
proof (induction n rule: show_nat.induct)
  case (1 n)
  show ?case
  proof (cases "n < 10")
    case True
    then show ?thesis by (subst show_nat.simps) simp
  next
    case False
    with 1 show ?thesis by (subst show_nat.simps) (simp add: digits_value_append)
  qed
qed

lemma show_nat_digits: "c \<in> set (show_nat n) \<Longrightarrow> digit_value c \<noteq> None"
  by (auto dest!: digit_set)

lemma show_nat_hd: "hd (show_nat n) \<noteq> CHR ''-''" "hd (show_nat n) \<noteq> CHR ''+''"
  using show_nat_digits [of "hd (show_nat n)" n] hd_in_set [OF show_nat_neq_Nil [of n]]
  by (auto simp: digit_value_def)

lemma Atoi_show_int:
  assumes "min_int64 \<le> i" and "i \<le> max_int64"
  shows "Atoi (show_int i) = Some i"
proof (cases "i < 0")
  case True
  with assms show ?thesis
    by (simp add: Atoi_def show_int_def digits_value_show_nat)
next
  case False
  obtain c cs where c: "show_nat (nat i) = c # cs" by (cases "show_nat (nat i)") auto
  with show_nat_hd [of "nat i"] have "c \<noteq> CHR ''-''" "c \<noteq> CHR ''+''" by auto
  with False assms c digits_value_show_nat [of "nat i"] show ?thesis
    by (simp add: Atoi_def show_int_def)
qed

lemma Atoi_range: "Atoi s = Some i \<Longrightarrow> min_int64 \<le> i \<and> i \<le> max_int64"
  by (auto simp: Atoi_def Let_def split: if_splits option.splits list.splits prod.splits)

section \<open>\<open>time.Duration\<close>\<close>

type_synonym duration = int

text \<open>\<open>Duration.Round\<close> for a positive multiple: to the nearest, halves away from zero, saturating.\<close>

definition Duration_Round :: "duration \<Rightarrow> duration \<Rightarrow> duration" where
  "Duration_Round m d =
     (if d < 0 then
        let r = (- d) mod m in
        if r + r < m then d + r else max min_int64 (d - m + r)
      else
        let r = d mod m in
        if r + r < m then d - r else min max_int64 (d + m - r))"

text \<open>
  \<open>fmtFrac\<close>: the last \<open>prec\<close> digits of a number as a decimal fraction without its trailing zeros,
  and what is left of the number.
\<close>

fun fmtFrac :: "nat \<Rightarrow> bool \<Rightarrow> nat \<Rightarrow> string \<Rightarrow> string \<times> nat" where
  "fmtFrac 0 printing v acc = (if printing then CHR ''.'' # acc else acc, v)"
| "fmtFrac (Suc prec) printing v acc =
     (let d = v mod 10; printing = (printing \<or> d \<noteq> 0)
      in fmtFrac prec printing (v div 10) (if printing then digit d # acc else acc))"

definition micro_sign :: string where
  "micro_sign = [char_of (194 :: nat), char_of (181 :: nat)]"

definition unsigned_String :: "nat \<Rightarrow> string" where
  "unsigned_String u =
     (if u = 0 then ''0s''
      else if u < 1000 then show_nat u @ ''ns''
      else if u < 1000000 then (case fmtFrac 3 False u [] of (f, v) \<Rightarrow> show_nat v @ f @ micro_sign @ ''s'')
      else if u < 1000000000 then (case fmtFrac 6 False u [] of (f, v) \<Rightarrow> show_nat v @ f @ ''ms'')
      else case fmtFrac 9 False u [] of (f, v) \<Rightarrow>
        let seconds = show_nat (v mod 60) @ f @ ''s''; minutes = v div 60
        in if minutes = 0 then seconds
           else let hours = minutes div 60
             in (if hours = 0 then [] else show_nat hours @ ''h'') @ show_nat (minutes mod 60) @ ''m'' @ seconds)"

definition Duration_String :: "duration \<Rightarrow> string" where
  "Duration_String d = (if d < 0 then CHR ''-'' # unsigned_String (nat (- d)) else unsigned_String (nat d))"

lemma Duration_Round_near:
  assumes "0 < m" and "0 \<le> d" and "d + m \<le> max_int64"
  shows "m dvd Duration_Round m d" and "\<bar>2 * (Duration_Round m d - d)\<bar> \<le> m"
proof -
  have r: "0 \<le> d mod m" "d mod m < m" using assms(1) by simp_all
  have "m dvd d - d mod m" by (rule dvd_minus_mod)
  moreover from this have "m dvd d - d mod m + m" by simp
  ultimately show "m dvd Duration_Round m d"
    using assms r by (auto simp: Duration_Round_def Let_def min_def algebra_simps)
  from assms r show "\<bar>2 * (Duration_Round m d - d)\<bar> \<le> m"
    by (auto simp: Duration_Round_def Let_def min_def)
qed

end
