(* ===== verification/Kv_Client.thy ===== *)
theory Kv_Client
  imports Kv_Protocol Clock Go_Text
begin

text \<open>
  The client (\<open>internal/kv/client.go\<close>, \<open>internal/kv/refused.go\<close>): what it does with each way an
  exchange over the network can end, and the operation it records. The network is an argument: the
  \<open>exchange\<close> that happened. \<open>url.Parse\<close> and \<open>json.Unmarshal\<close> are arguments too.
\<close>

section \<open>Addresses\<close>

text \<open>What \<open>peerBase\<close> reads of a parsed URL.\<close>

record url =
  u_Scheme :: string
  u_Host :: string
  u_hasUser :: bool
  u_Path :: string
  u_RawQuery :: string
  u_Fragment :: string

datatype peer_error = NotAUrl string | NoHost string | NotBare string

definition has_prefix :: "string \<Rightarrow> string \<Rightarrow> bool" where
  "has_prefix p s \<longleftrightarrow> take (length p) s = p"

definition peerBase :: "(string \<Rightarrow> url option) \<Rightarrow> string \<Rightarrow> peer_error + string" where
  "peerBase parse addr =
     (let raw = (if \<not> has_prefix ''http://'' addr \<and> \<not> has_prefix ''https://'' addr
                 then ''http://'' @ addr else addr)
      in case parse raw of
           None \<Rightarrow> Inl (NotAUrl addr)
         | Some u \<Rightarrow>
             if u_Host u = [] then Inl (NoHost addr)
             else if u_hasUser u \<or> (u_Path u \<noteq> [] \<and> u_Path u \<noteq> ''/'') \<or> u_RawQuery u \<noteq> [] \<or> u_Fragment u \<noteq> []
             then Inl (NotBare addr)
             else Inr (u_Scheme u @ ''://'' @ u_Host u))"

fun peer_error_String :: "peer_error \<Rightarrow> string" where
  "peer_error_String (NotAUrl a) = ''peer address '' @ a @ '' is not a URL''"
| "peer_error_String (NoHost a) = ''peer address '' @ a @ '' names no host''"
| "peer_error_String (NotBare a) = ''peer address '' @ a @ '' must be a host and port and nothing else''"

record Client =
  cl_addr :: string
  cl_base :: string
  cl_refuse :: "peer_error option"

definition NewClient :: "(string \<Rightarrow> url option) \<Rightarrow> string \<Rightarrow> Client" where
  "NewClient parse addr =
     (case peerBase parse addr of
        Inl e \<Rightarrow> \<lparr>cl_addr = addr, cl_base = [], cl_refuse = Some e\<rparr>
      | Inr base \<Rightarrow> \<lparr>cl_addr = addr, cl_base = base, cl_refuse = None\<rparr>)"

section \<open>One exchange\<close>

record TransportError =
  te_NeverSent :: bool
  te_Err :: string

text \<open>
  An error out of \<open>http.Client.Do\<close>, by what \<open>errors.As\<close> finds in its chain: the operation of a
  \<open>net.OpError\<close> and the number of a \<open>syscall.Errno\<close>.
\<close>

record net_error =
  ne_op :: "string option"
  ne_errno :: "nat option"
  ne_msg :: string

text \<open>\<open>econnrefused\<close> and \<open>connRefused\<close> are the platform's constants.\<close>

definition isConnRefused :: "nat \<Rightarrow> nat \<Rightarrow> net_error \<Rightarrow> bool" where
  "isConnRefused econnrefused connRefused e =
     (case ne_op e of
        None \<Rightarrow> False
      | Some opname \<Rightarrow>
          if opname \<noteq> ''dial'' then False
          else case ne_errno e of
            None \<Rightarrow> False
          | Some errno \<Rightarrow> errno = econnrefused \<or> errno = connRefused)"

text \<open>How an exchange ends; \<open>BuildFailed\<close> is a body or a request that could not be built.\<close>

datatype exchange =
    BuildFailed string
  | DoFailed net_error
  | ReadFailed string
  | Answered nat string

definition truncate_body :: "string \<Rightarrow> string" where
  "truncate_body b = (if length b \<le> 120 then b else take 120 b @ ''...'')"

definition checkShape :: "Request \<Rightarrow> Response \<Rightarrow> string option" where
  "checkShape req resp =
     (if \<not> p_OK resp then None
      else case q_Kind req of
        Read \<Rightarrow> if p_Value resp = None then Some ''read succeeded but the reply carried no value'' else None
      | CAS \<Rightarrow> if p_Swapped resp = None
          then Some ''cas succeeded but the reply did not say whether it swapped'' else None
      | _ \<Rightarrow> None)"

definition Send ::
  "nat \<Rightarrow> nat \<Rightarrow> (string \<Rightarrow> Response option) \<Rightarrow> Client \<Rightarrow> Request \<Rightarrow> exchange \<Rightarrow> TransportError + Response" where
  "Send econnrefused connRefused parse c req x =
     (case cl_refuse c of
        Some e \<Rightarrow> Inl \<lparr>te_NeverSent = True, te_Err = peer_error_String e\<rparr>
      | None \<Rightarrow>
          (case x of
             BuildFailed msg \<Rightarrow> Inl \<lparr>te_NeverSent = True, te_Err = msg\<rparr>
           | DoFailed e \<Rightarrow> Inl \<lparr>te_NeverSent = isConnRefused econnrefused connRefused e, te_Err = ne_msg e\<rparr>
           | ReadFailed msg \<Rightarrow> Inl \<lparr>te_NeverSent = False, te_Err = ''reading reply: '' @ msg\<rparr>
           | Answered status raw \<Rightarrow>
               let raw = take maxRequestBytes raw in
               if status \<noteq> 200
               then Inl \<lparr>te_NeverSent = False, te_Err = ''status '' @ show_nat status @ '': '' @ TrimSpace raw\<rparr>
               else case parse raw of
                 None \<Rightarrow> Inl \<lparr>te_NeverSent = False, te_Err = ''unparseable reply '' @ truncate_body raw\<rparr>
               | Some out \<Rightarrow>
                   (case checkShape req out of
                      Some msg \<Rightarrow> Inl \<lparr>te_NeverSent = False, te_Err = msg\<rparr>
                    | None \<Rightarrow> Inr out)))"

text \<open>
  \<open>Do\<close>: \<open>inv_t\<close> and \<open>meas_t\<close> are what the clock read before and after the exchange, \<open>r\<close> is what
  \<open>Send\<close> returned.
\<close>

definition Do_record :: "Clock \<Rightarrow> int \<Rightarrow> Request \<Rightarrow> int64 \<Rightarrow> int64 \<Rightarrow> TransportError + Response \<Rightarrow> Op" where
  "Do_record clk process req inv_t meas_t r =
     (let op = \<lparr>Process = process, Key = q_Key req, OpKind = q_Kind req, Value = q_Value req,
            From = q_From req, To = q_To req, Observed = 0, Swapped = False, Outcome = OK,
            Invoke = inv_t, Complete = 0, Err = []\<rparr>;
          done_at = Completion clk inv_t meas_t
      in case r of
           Inr resp \<Rightarrow>
             if p_OK resp then
               op\<lparr>Outcome := OK, Complete := done_at,
                 Observed := (case p_Value resp of Some v \<Rightarrow> v | None \<Rightarrow> 0),
                 Swapped := (p_Swapped resp = Some True)\<rparr>
             else op\<lparr>Outcome := Fail, Complete := done_at, Err := p_Err resp\<rparr>
         | Inl te \<Rightarrow>
             if te_NeverSent te then op\<lparr>Outcome := Fail, Complete := done_at, Err := te_Err te\<rparr>
             else op\<lparr>Outcome := Info, Complete := Pending, Err := te_Err te\<rparr>)"

section \<open>What the record says\<close>

lemma Do_record_simps [simp]:
  "Process (Do_record clk p req inv_t meas_t r) = p" "Key (Do_record clk p req inv_t meas_t r) = q_Key req"
  "OpKind (Do_record clk p req inv_t meas_t r) = q_Kind req" "Invoke (Do_record clk p req inv_t meas_t r) = inv_t"
  "Value (Do_record clk p req inv_t meas_t r) = q_Value req" "From (Do_record clk p req inv_t meas_t r) = q_From req"
  "To (Do_record clk p req inv_t meas_t r) = q_To req"
  by (auto simp: Do_record_def Let_def split: sum.split)

lemma Do_outcome:
  "Outcome (Do_record clk p req inv_t meas_t r) =
     (case r of Inr resp \<Rightarrow> if p_OK resp then OK else Fail
      | Inl te \<Rightarrow> if te_NeverSent te then Fail else Info)"
  by (auto simp: Do_record_def Let_def split: sum.split)

lemma Do_complete:
  "Complete (Do_record clk p req inv_t meas_t r) =
     (if Outcome (Do_record clk p req inv_t meas_t r) = Info then Pending else Completion clk inv_t meas_t)"
  by (auto simp: Do_record_def Let_def split: sum.split)

text \<open>Ways an exchange can end that prove no server saw the request.\<close>

definition never_left :: "nat \<Rightarrow> nat \<Rightarrow> Client \<Rightarrow> exchange \<Rightarrow> bool" where
  "never_left econnrefused connRefused c x \<longleftrightarrow>
     cl_refuse c \<noteq> None \<or>
     (case x of
        BuildFailed _ \<Rightarrow> True
      | DoFailed e \<Rightarrow> ne_op e = Some ''dial'' \<and> (ne_errno e = Some econnrefused \<or> ne_errno e = Some connRefused)
      | _ \<Rightarrow> False)"

lemma Send_NeverSent:
  "Send ec cr parse c req x = Inl te \<Longrightarrow> te_NeverSent te \<longleftrightarrow> never_left ec cr c x"
  by (auto simp: Send_def never_left_def isConnRefused_def Let_def
      split: option.splits exchange.splits if_splits)

lemma Send_decided:
  assumes "Send ec cr parse c req x = Inr resp"
  shows "cl_refuse c = None" "\<exists>raw. x = Answered 200 raw \<and> parse (take maxRequestBytes raw) = Some resp"
    "p_OK resp \<Longrightarrow> q_Kind req = Read \<Longrightarrow> p_Value resp \<noteq> None"
    "p_OK resp \<Longrightarrow> q_Kind req = CAS \<Longrightarrow> p_Swapped resp \<noteq> None"
  using assms
  by (auto simp: Send_def checkShape_def Let_def split: option.splits exchange.splits if_splits)

lemma Do_Fail:
  "Outcome (Do_record clk p req inv_t meas_t (Send ec cr parse c req x)) = Fail \<Longrightarrow>
   never_left ec cr c x \<or>
   (\<exists>raw resp. x = Answered 200 raw \<and> parse (take maxRequestBytes raw) = Some resp \<and> \<not> p_OK resp)"
  using Send_NeverSent [of ec cr parse c req x] Send_decided(2) [of ec cr parse c req x]
  by (cases "Send ec cr parse c req x") (auto simp: Do_outcome split: if_splits)

lemma Do_OK:
  assumes "Outcome (Do_record clk p req inv_t meas_t (Send ec cr parse c req x)) = OK"
  obtains raw resp where "x = Answered 200 raw" "parse (take maxRequestBytes raw) = Some resp" "p_OK resp"
    "q_Kind req = Read \<Longrightarrow> p_Value resp = Some (Observed (Do_record clk p req inv_t meas_t (Send ec cr parse c req x)))"
    "q_Kind req = CAS \<Longrightarrow> p_Swapped resp = Some (Swapped (Do_record clk p req inv_t meas_t (Send ec cr parse c req x)))"
proof (cases "Send ec cr parse c req x")
  case (Inl te)
  with assms show thesis by (simp add: Do_outcome split: if_splits)
next
  case (Inr resp)
  with assms have ok: "p_OK resp" by (simp add: Do_outcome split: if_splits)
  note d = Send_decided [OF Inr]
  from d(2) obtain raw where "x = Answered 200 raw" "parse (take maxRequestBytes raw) = Some resp" by blast
  then show thesis
    by (rule that) (use ok d(3,4) Inr in \<open>auto simp: Do_record_def Let_def\<close>)
qed

text \<open>A recorded operation is well formed, and its interval has positive width.\<close>

lemma Do_wf:
  assumes "0 \<le> inv_t" "q_Key req \<noteq> []" "\<not> (q_Kind req = CAS \<and> q_From req = q_To req)"
    and "0 < ck_granularity clk" "max inv_t meas_t + ck_granularity clk < max_int64"
  shows "inv_t < Complete (Do_record clk p req inv_t meas_t r)"
    "Outcome (Do_record clk p req inv_t meas_t r) \<noteq> Info \<Longrightarrow> Complete (Do_record clk p req inv_t meas_t r) \<noteq> Pending"
    "Outcome (Do_record clk p req inv_t meas_t r) = Info \<Longrightarrow> Complete (Do_record clk p req inv_t meas_t r) = Pending"
proof -
  have c: "Completion clk inv_t meas_t = max inv_t meas_t + ck_granularity clk"
    using assms by (intro Completion_eq) (simp_all add: min_int64_def)
  then show "inv_t < Complete (Do_record clk p req inv_t meas_t r)"
    using assms by (auto simp: Do_complete Pending_def)
  show "Outcome (Do_record clk p req inv_t meas_t r) \<noteq> Info \<Longrightarrow> Complete (Do_record clk p req inv_t meas_t r) \<noteq> Pending"
    using c assms by (simp add: Do_complete Pending_def)
  show "Outcome (Do_record clk p req inv_t meas_t r) = Info \<Longrightarrow> Complete (Do_record clk p req inv_t meas_t r) = Pending"
    by (simp add: Do_complete)
qed

text \<open>A peer address names a host and nothing else, so every request goes to one of this package's paths.\<close>

lemma peerBase_bare:
  assumes "peerBase parse addr = Inr base"
  obtains u raw where "parse raw = Some u" "base = u_Scheme u @ ''://'' @ u_Host u" "u_Host u \<noteq> []"
    "u_Path u = [] \<or> u_Path u = ''/''" "u_RawQuery u = []" "u_Fragment u = []" "\<not> u_hasUser u"
  using assms by (auto simp: peerBase_def Let_def split: option.splits if_splits)

end
