(* ===== verification/Store_Run.thy ===== *)
theory Store_Run
  imports Single_Store Kv_Client Check_Correct
begin

text \<open>
  A run: clients issuing requests to one store over a network that may delay a request, lose it,
  lose its reply or refuse the connection (\<open>harness.Run\<close> with \<open>Client.Do\<close>, \<open>Server.handleKV\<close> and a
  store's \<open>Apply\<close>). Each attempt is a row of a table; a step is a client starting one, the store
  applying one under its lock, or a client recording how one ended. A request a client gave up on
  may still be applied later.

  The store is the argument \<open>apply_req\<close>. For a store that keeps the contract \<open>register_store\<close> the
  recorded history is linearizable, so the checker never accuses it.
\<close>

record attempt =
  a_process :: int
  a_request :: Request
  a_invoke :: int64
  a_applied :: "(Response \<times> int) option"
  a_op :: "Op option"

text \<open>\<open>r_order\<close> lists the attempts in the order the store applied them.\<close>

record 'st run_state =
  r_store :: 'st
  r_now :: int
  r_attempts :: "attempt list"
  r_order :: "nat list"

definition run_init :: "'st \<Rightarrow> 'st run_state" where
  "run_init st = \<lparr>r_store = st, r_now = 0, r_attempts = [], r_order = []\<rparr>"

definition set_attempt :: "'st run_state \<Rightarrow> nat \<Rightarrow> attempt \<Rightarrow> 'st run_state" where
  "set_attempt R i a = R\<lparr>r_attempts := (r_attempts R)[i := a]\<rparr>"

text \<open>The client that made attempt \<open>a\<close> records its end \<open>r\<close> when the clock reads \<open>now_r\<close>.\<close>

definition finish :: "Clock \<Rightarrow> attempt \<Rightarrow> int64 \<Rightarrow> TransportError + Response \<Rightarrow> attempt" where
  "finish clk a now_r r = a\<lparr>a_op := Some (Do_record clk (a_process a) (a_request a) (a_invoke a) now_r r)\<rparr>"

inductive run_step ::
  "('st \<Rightarrow> Request \<Rightarrow> (apply_error + Response) \<times> 'st) \<Rightarrow> Clock \<Rightarrow> 'st run_state \<Rightarrow> 'st run_state \<Rightarrow> bool"
  for apply_req clk where
  tick: "r_now R \<le> t \<Longrightarrow> t + ck_granularity clk < max_int64 \<Longrightarrow>
    run_step apply_req clk R (R\<lparr>r_now := t\<rparr>)"
| start: "reading clk now_r (r_now R) \<Longrightarrow> 0 \<le> now_r \<Longrightarrow>
    q_Kind req \<in> {Read, Write, CAS} \<Longrightarrow> q_Key req \<noteq> [] \<Longrightarrow>
    run_step apply_req clk R (R\<lparr>r_attempts := r_attempts R @
      [\<lparr>a_process = p, a_request = req, a_invoke = now_r, a_applied = None, a_op = None\<rparr>]\<rparr>)"
| serve: "i < length (r_attempts R) \<Longrightarrow> a = r_attempts R ! i \<Longrightarrow> a_applied a = None \<Longrightarrow>
    (case a_op a of None \<Rightarrow> True | Some op \<Rightarrow> Outcome op = Info) \<Longrightarrow>
    apply_req (r_store R) (a_request a) = (Inr resp, st) \<Longrightarrow>
    run_step apply_req clk R (set_attempt (R\<lparr>r_store := st, r_order := r_order R @ [i]\<rparr>) i
      (a\<lparr>a_applied := Some (resp, r_now R)\<rparr>))"
| answered: "i < length (r_attempts R) \<Longrightarrow> a = r_attempts R ! i \<Longrightarrow> a_op a = None \<Longrightarrow>
    a_applied a = Some (resp, t) \<Longrightarrow> reading clk now_r (r_now R) \<Longrightarrow>
    run_step apply_req clk R (set_attempt R i (finish clk a now_r (Inr resp)))"
| lost: "i < length (r_attempts R) \<Longrightarrow> a = r_attempts R ! i \<Longrightarrow> a_op a = None \<Longrightarrow>
    \<not> te_NeverSent te \<Longrightarrow> reading clk now_r (r_now R) \<Longrightarrow>
    run_step apply_req clk R (set_attempt R i (finish clk a now_r (Inl te)))"
| refused: "i < length (r_attempts R) \<Longrightarrow> a = r_attempts R ! i \<Longrightarrow> a_op a = None \<Longrightarrow>
    a_applied a = None \<Longrightarrow> te_NeverSent te \<Longrightarrow> reading clk now_r (r_now R) \<Longrightarrow>
    run_step apply_req clk R (set_attempt R i (finish clk a now_r (Inl te)))"

inductive_cases run_stepE: "run_step apply_req clk R Q"

inductive run_reach ::
  "('st \<Rightarrow> Request \<Rightarrow> (apply_error + Response) \<times> 'st) \<Rightarrow> Clock \<Rightarrow> 'st \<Rightarrow> 'st run_state \<Rightarrow> bool"
  for apply_req clk st0 where
  init: "run_reach apply_req clk st0 (run_init st0)"
| step: "run_reach apply_req clk st0 R \<Longrightarrow> run_step apply_req clk R Q \<Longrightarrow> run_reach apply_req clk st0 Q"

definition run_over :: "'st run_state \<Rightarrow> bool" where
  "run_over R \<longleftrightarrow> (\<forall>a \<in> set (r_attempts R). a_op a \<noteq> None)"

text \<open>What \<open>Run\<close> returns once every client has finished.\<close>

definition run_history :: "'st run_state \<Rightarrow> History" where
  "run_history R = SortByInvoke (map (\<lambda>a. the (a_op a)) (r_attempts R))"

section \<open>The invariant\<close>

text \<open>A reply that carries what the client needs, as \<open>checkShape\<close> asks.\<close>

definition full_reply :: "Request \<Rightarrow> Response \<Rightarrow> bool" where
  "full_reply req resp \<longleftrightarrow> p_OK resp \<and> checkShape req resp = None"

text \<open>One row of the table.\<close>

definition attempt_ok :: "int \<Rightarrow> attempt \<Rightarrow> bool" where
  "attempt_ok now a \<longleftrightarrow>
     q_Kind (a_request a) \<in> {Read, Write, CAS} \<and> 0 \<le> a_invoke a \<and> a_invoke a \<le> now \<and>
     (\<forall>resp t. a_applied a = Some (resp, t) \<longrightarrow> a_invoke a \<le> t \<and> t \<le> now \<and> full_reply (a_request a) resp) \<and>
     (\<forall>op. a_op a = Some op \<longrightarrow>
        Invoke op = a_invoke a \<and> Outcome op \<in> {OK, Fail, Info} \<and>
        Key op = q_Key (a_request a) \<and> OpKind op = q_Kind (a_request a) \<and>
        Value op = q_Value (a_request a) \<and> From op = q_From (a_request a) \<and> To op = q_To (a_request a) \<and>
        (Outcome op = Info \<longrightarrow> Complete op = Pending) \<and>
        (Outcome op = Fail \<longrightarrow> a_applied a = None) \<and>
        (Outcome op = OK \<longrightarrow> (\<exists>resp t. a_applied a = Some (resp, t) \<and> t < Complete op \<and> agrees (a_request a) resp op)))"

text \<open>The requests the store has served, with its replies, lead from the empty store to this one.\<close>

fun serves :: "('st \<Rightarrow> Request \<Rightarrow> (apply_error + Response) \<times> 'st) \<Rightarrow> 'st \<Rightarrow> (Request \<times> Response) list \<Rightarrow> 'st \<Rightarrow> bool" where
  "serves apply_req st [] st' \<longleftrightarrow> st = st'"
| "serves apply_req st ((req, resp) # xs) st' \<longleftrightarrow>
     (\<exists>st1. apply_req st req = (Inr resp, st1) \<and> serves apply_req st1 xs st')"

lemma serves_append:
  "serves apply_req st (xs @ ys) st' \<longleftrightarrow> (\<exists>st1. serves apply_req st xs st1 \<and> serves apply_req st1 ys st')"
  by (induction xs arbitrary: st) (auto, blast+)

definition served :: "attempt \<Rightarrow> Request \<times> Response" where
  "served a = (a_request a, fst (the (a_applied a)))"

definition served_at :: "attempt \<Rightarrow> int" where
  "served_at a = snd (the (a_applied a))"

definition run_inv ::
  "('st \<Rightarrow> Request \<Rightarrow> (apply_error + Response) \<times> 'st) \<Rightarrow> Clock \<Rightarrow> 'st \<Rightarrow> 'st run_state \<Rightarrow> bool" where
  "run_inv apply_req clk st0 R \<longleftrightarrow>
     0 \<le> r_now R \<and> r_now R + ck_granularity clk < max_int64 \<and>
     (\<forall>a \<in> set (r_attempts R). attempt_ok (r_now R) a) \<and>
     distinct (r_order R) \<and>
     set (r_order R) = {i. i < length (r_attempts R) \<and> a_applied (r_attempts R ! i) \<noteq> None} \<and>
     sorted (map (\<lambda>i. served_at (r_attempts R ! i)) (r_order R)) \<and>
     serves apply_req st0 (map (\<lambda>i. served (r_attempts R ! i)) (r_order R)) (r_store R)"

section \<open>The invariant holds\<close>

lemma attempt_ok_later: "attempt_ok t a \<Longrightarrow> t \<le> t' \<Longrightarrow> attempt_ok t' a"
  unfolding attempt_ok_def by fastforce

lemma nth_update_same: "f a' = f (xs ! i) \<Longrightarrow> f (xs[i := a'] ! j) = f (xs ! j)"
  by (metis list_update_beyond not_le nth_list_update_eq nth_list_update_neq)

lemma map_update_same:
  assumes "f a' = f (xs ! i)"
  shows "map (\<lambda>j. f (xs[i := a'] ! j)) js = map (\<lambda>j. f (xs ! j)) js"
  by (simp add: nth_update_same [where f = f, OF assms])

lemma run_inv_init: "ck_granularity clk < max_int64 \<Longrightarrow> run_inv apply_req clk st0 (run_init st0)"
  by (simp add: run_inv_def run_init_def)

text \<open>Recording how an attempt ended leaves what the store served as it was.\<close>

lemma run_inv_finish:
  assumes inv: "run_inv apply_req clk st0 R" and i: "i < length (r_attempts R)"
    and a: "a = r_attempts R ! i" and ok: "attempt_ok (r_now R) (finish clk a t r)"
  shows "run_inv apply_req clk st0 (set_attempt R i (finish clk a t r))"
proof -
  have same: "a_applied (finish clk a t r) = a_applied a" "served (finish clk a t r) = served a"
    "served_at (finish clk a t r) = served_at a"
    by (simp_all add: finish_def served_def served_at_def)
  have "a_applied ((r_attempts R)[i := finish clk a t r] ! j) = a_applied (r_attempts R ! j)"
    if "j < length (r_attempts R)" for j
    by (rule nth_update_same) (use same(1) a in simp)
  then have "{j. j < length (r_attempts R) \<and> a_applied ((r_attempts R)[i := finish clk a t r] ! j) \<noteq> None} =
      {j. j < length (r_attempts R) \<and> a_applied (r_attempts R ! j) \<noteq> None}" by auto
  moreover have "\<forall>b \<in> set ((r_attempts R)[i := finish clk a t r]). attempt_ok (r_now R) b"
    using inv ok set_update_subset_insert [of "r_attempts R" i "finish clk a t r"]
    by (auto simp: run_inv_def)
  ultimately show ?thesis
    using inv same(2,3) a
    by (simp add: run_inv_def set_attempt_def map_update_same [where f = served] map_update_same [where f = served_at])
qed

lemma finish_lost:
  assumes "attempt_ok now a"
  shows "attempt_ok now (finish clk a t (Inl te)) \<longleftrightarrow> \<not> te_NeverSent te \<or> a_applied a = None"
  using assms by (auto simp: attempt_ok_def finish_def Do_outcome Do_complete)

lemma finish_answered:
  assumes ok: "attempt_ok now a" and ap: "a_applied a = Some (resp, t)" and rd: "reading clk now_r now"
    and b: "now + ck_granularity clk < max_int64" "0 < ck_granularity clk"
  shows "attempt_ok now (finish clk a now_r (Inr resp))"
proof -
  have p: "p_OK resp" "checkShape (a_request a) resp = None" "0 \<le> a_invoke a" "a_invoke a \<le> t" "t \<le> now"
    using ok ap by (auto simp: attempt_ok_def full_reply_def)
  let ?op = "Do_record clk (a_process a) (a_request a) (a_invoke a) now_r (Inr resp)"
  have oc: "Outcome ?op = OK" using p(1) by (simp add: Do_outcome)
  have "max (a_invoke a) now_r + ck_granularity clk \<le> max_int64"
    using rd b p by (auto simp: reading_def)
  then have "Complete ?op = max (a_invoke a) now_r + ck_granularity clk"
    using b p oc Completion_eq [of "a_invoke a" now_r clk] by (simp add: Do_complete min_int64_def)
  then have "t < Complete ?op" using rd p by (auto simp: reading_def)
  moreover have "agrees (a_request a) resp ?op"
    using p(1,2) by (auto simp: agrees_def Do_record_def Let_def checkShape_def split: if_splits)
  ultimately show ?thesis using ok ap oc by (auto simp: attempt_ok_def finish_def)
qed

context register_store
begin

lemma reply_full: "full_reply req (register_reply v req)"
  by (auto simp: full_reply_def checkShape_def register_reply_def reply_defs split: Kind.split)

lemma run_inv_serve:
  assumes inv: "run_inv apply_req clk st0 R" and i: "i < length (r_attempts R)" "a = r_attempts R ! i"
    and new: "a_applied a = None" and live: "case a_op a of None \<Rightarrow> True | Some op \<Rightarrow> Outcome op = Info"
    and ap: "apply_req (r_store R) (a_request a) = (Inr resp, st)"
  shows "run_inv apply_req clk st0 (set_attempt (R\<lparr>r_store := st, r_order := r_order R @ [i]\<rparr>) i
    (a\<lparr>a_applied := Some (resp, r_now R)\<rparr>))"
proof -
  let ?a = "a\<lparr>a_applied := Some (resp, r_now R)\<rparr>" and ?as = "r_attempts R"
  let ?as' = "?as[i := ?a]"
  have fresh: "i \<notin> set (r_order R)" using inv i new by (simp add: run_inv_def)
  have ok: "attempt_ok (r_now R) a" using inv i by (simp add: run_inv_def)
  have "fst (apply_req (r_store R) (a_request a)) = Inr resp" using ap by simp
  then have "resp = register_reply (get (r_store R) (q_Key (a_request a))) (a_request a)"
    unfolding apply_reply by simp
  then have "full_reply (a_request a) resp" by (simp add: reply_full)
  then have ok': "attempt_ok (r_now R) ?a"
    using ok live by (auto simp: attempt_ok_def split: option.splits)
  have other: "map (\<lambda>j. f (?as' ! j)) (r_order R) = map (\<lambda>j. f (?as ! j)) (r_order R)" for f :: "attempt \<Rightarrow> 'z"
    using fresh by (intro map_cong [OF refl]) (metis nth_list_update_neq)
  have served: "served (?as' ! i) = (a_request a, resp)" "served_at (?as' ! i) = r_now R"
    using i by (simp_all add: served_def served_at_def)
  have "served_at (?as ! j) \<le> r_now R" if "j \<in> set (r_order R)" for j
  proof -
    from that inv have "j < length ?as" "a_applied (?as ! j) \<noteq> None" by (auto simp: run_inv_def)
    moreover have "attempt_ok (r_now R) (?as ! j)" using inv \<open>j < length ?as\<close> by (simp add: run_inv_def)
    ultimately show ?thesis by (auto simp: attempt_ok_def served_at_def)
  qed
  then have so: "sorted (map (\<lambda>j. served_at (?as' ! j)) (r_order R @ [i]))"
    using inv served(2) unfolding map_append other by (auto simp: run_inv_def sorted_append)
  have se: "serves apply_req st0 (map (\<lambda>j. served (?as' ! j)) (r_order R @ [i])) st"
    unfolding map_append other serves_append
    using inv served(1) ap by (auto simp: run_inv_def)
  have "set (r_order R @ [i]) = {j. j < length ?as' \<and> a_applied (?as' ! j) \<noteq> None}"
    using inv i by (auto simp: run_inv_def nth_list_update)
  moreover have "\<forall>b \<in> set ?as'. attempt_ok (r_now R) b"
    using inv ok' set_update_subset_insert [of ?as i ?a] by (auto simp: run_inv_def)
  ultimately show ?thesis
    using inv fresh so se unfolding run_inv_def set_attempt_def by simp
qed

lemma run_inv_step:
  assumes g: "0 < ck_granularity clk"
  shows "run_step apply_req clk R Q \<Longrightarrow> run_inv apply_req clk st0 R \<Longrightarrow> run_inv apply_req clk st0 Q"
proof (induction rule: run_step.induct)
  case (tick R t)
  then have "\<forall>a \<in> set (r_attempts R). attempt_ok t a" using attempt_ok_later by (auto simp: run_inv_def)
  with tick show ?case by (auto simp: run_inv_def)
next
  case (start now_r R req p)
  let ?a = "\<lparr>a_process = p, a_request = req, a_invoke = now_r, a_applied = None, a_op = None\<rparr>"
  let ?as = "r_attempts R @ [?a]"
  have ids: "j < length (r_attempts R)" if "j \<in> set (r_order R)" for j
    using start that by (auto simp: run_inv_def)
  then have same: "map (\<lambda>j. f (?as ! j)) (r_order R) = map (\<lambda>j. f (r_attempts R ! j)) (r_order R)" for f :: "attempt \<Rightarrow> 'z"
    by (intro map_cong [OF refl]) (simp add: nth_append)
  have "attempt_ok (r_now R) ?a" using start by (auto simp: attempt_ok_def reading_def)
  moreover have "{j. j < length ?as \<and> a_applied (?as ! j) \<noteq> None} =
      {j. j < length (r_attempts R) \<and> a_applied (r_attempts R ! j) \<noteq> None}"
    by (auto simp: nth_append less_Suc_eq)
  ultimately show ?case using start(5) unfolding run_inv_def by (simp add: same [of served] same [of served_at])
next
  case (serve i R a resp st)
  then show ?case by (intro run_inv_serve)
next
  case (answered i R a resp t now_r)
  show ?case
    by (rule run_inv_finish, rule answered(6), rule answered(1), rule answered(2), rule finish_answered)
      (use answered g in \<open>auto simp: run_inv_def\<close>)
next
  case (lost i R a te now_r)
  then have "attempt_ok (r_now R) a" by (simp add: run_inv_def)
  with lost show ?case by (intro run_inv_finish) (simp_all add: finish_lost)
next
  case (refused i R a te now_r)
  then have "attempt_ok (r_now R) a" by (simp add: run_inv_def)
  with refused show ?case by (intro run_inv_finish) (simp_all add: finish_lost)
qed

lemma run_inv_reach:
  assumes "0 < ck_granularity clk" "ck_granularity clk < max_int64"
  shows "run_reach apply_req clk st0 R \<Longrightarrow> run_inv apply_req clk st0 R"
  by (induction rule: run_reach.induct) (auto intro: run_inv_init run_inv_step assms)

section \<open>What the clients record is linearizable\<close>

abbreviation recorded_op :: "'r run_state \<Rightarrow> nat \<Rightarrow> Op" where
  "recorded_op R i \<equiv> the (a_op (r_attempts R ! i))"

lemma serves_replay:
  assumes "serves apply_req st (map (\<lambda>i. served (r_attempts R ! i)) is) st'"
    and "\<And>i. i \<in> set is \<Longrightarrow> q_Kind (a_request (r_attempts R ! i)) \<in> {Read, Write, CAS} \<and>
      agrees (a_request (r_attempts R ! i)) (fst (the (a_applied (r_attempts R ! i)))) (recorded_op R i)"
  shows "replay (keyed CASRegister) (registers st) (map (recorded_op R) is) = Some (registers st')"
  using assms
proof (induction "is" arbitrary: st)
  case Nil
  then show ?case by simp
next
  case (Cons i js)
  let ?req = "a_request (r_attempts R ! i)" and ?resp = "fst (the (a_applied (r_attempts R ! i)))"
  from Cons.prems(1) obtain st1 where st1: "apply_req st ?req = (Inr ?resp, st1)"
    "serves apply_req st1 (map (\<lambda>i. served (r_attempts R ! i)) js) st'" by (auto simp: served_def)
  have fit: "q_Kind ?req \<in> {Read, Write, CAS}" "agrees ?req ?resp (recorded_op R i)"
    using Cons.prems(2) [of i] by simp_all
  have key: "Key (recorded_op R i) = q_Key ?req" using fit(2) by (simp add: agrees_def)
  have "CASRegister_Step (registers st (Key (recorded_op R i))) (recorded_op R i) =
      (registers st1 (Key (recorded_op R i)), True)"
    using reply_fits [of st ?req ?resp] fit st1(1) by simp
  moreover have "(registers st)(q_Key ?req := registers st1 (q_Key ?req)) = registers st1"
    using registers_apply [of st ?req] st1(1) by simp
  moreover have "replay (keyed CASRegister) (registers st1) (map (recorded_op R) js) = Some (registers st')"
    by (rule Cons.IH [OF st1(2)]) (use Cons.prems(2) in simp)
  ultimately show ?case by (simp add: key)
qed

lemma infos_replay:
  assumes "\<forall>op \<in> set ops. Outcome op = Info \<and> OpKind op \<in> {Read, Write, CAS}" "\<forall>k. is_IntState (f k)"
  shows "\<exists>g. replay (keyed CASRegister) f ops = Some g"
  using assms
proof (induction ops arbitrary: f)
  case Nil
  then show ?case by simp
next
  case (Cons op ops)
  from Cons.prems(2) obtain v where v: "f (Key op) = IntState v" by (auto simp: is_IntState_def)
  obtain w where w: "CASRegister_Step (IntState v) op = (IntState w, True)"
    using Cons.prems(1) by (cases "OpKind op") (auto simp: Step_info split: if_splits)
  have "\<forall>k. is_IntState ((f(Key op := IntState w)) k)" using Cons.prems(2) by (simp add: is_IntState_def)
  with Cons.IH Cons.prems(1) v w show ?case by simp
qed

lemma run_linearizable:
  assumes reach: "run_reach apply_req clk empty R" and fin: "run_over R"
    and g: "0 < ck_granularity clk" "ck_granularity clk < max_int64"
  shows "linearizable (keyed CASRegister) (DropFailed (run_history R))"
proof -
  have inv: "run_inv apply_req clk empty R" by (rule run_inv_reach [OF g reach])
  let ?n = "length (r_attempts R)" and ?as = "r_attempts R"
  let ?out = "\<lambda>i. Outcome (recorded_op R i)"
  have ok: "attempt_ok (r_now R) (?as ! i)" and op: "a_op (?as ! i) = Some (recorded_op R i)" if "i < ?n" for i
    using inv fin that by (auto simp: run_inv_def run_over_def)
  note row = ok [unfolded attempt_ok_def]
  define late where "late = filter (\<lambda>i. a_applied (?as ! i) = None \<and> ?out i \<noteq> Fail) [0..<?n]"
  let ?ids = "r_order R @ late"
  have ord: "set (r_order R) = {i. i < ?n \<and> a_applied (?as ! i) \<noteq> None}" "distinct (r_order R)"
    using inv by (auto simp: run_inv_def)
  have applied: "?out i \<noteq> Fail" if "i < ?n" "a_applied (?as ! i) \<noteq> None" for i
    using row [OF that(1)] op [OF that(1)] that(2) by auto
  have late: "?out i = Info" if "i \<in> set late" for i
    using row [of i] op [of i] that by (auto simp: late_def)
  have "set ?ids = {i. i < ?n \<and> ?out i \<noteq> Fail}" using ord(1) applied by (auto simp: late_def)
  moreover have "distinct ?ids" using ord by (auto simp: late_def)
  ultimately have "mset ?ids = mset (filter (\<lambda>i. ?out i \<noteq> Fail) [0..<?n])"
    by (subst set_eq_iff_mset_eq_distinct [symmetric]) auto
  then have "mset (map (recorded_op R) ?ids) = mset (map (recorded_op R) (filter (\<lambda>i. ?out i \<noteq> Fail) [0..<?n]))"
    by (simp only: mset_map)
  also have "map (recorded_op R) (filter (\<lambda>i. ?out i \<noteq> Fail) [0..<?n]) =
      filter (\<lambda>op. Outcome op \<noteq> Fail) (map (recorded_op R) [0..<?n])"
    by (simp add: filter_map comp_def)
  also have "map (recorded_op R) [0..<?n] = map (\<lambda>a. the (a_op a)) ?as"
    by (intro nth_equalityI) simp_all
  finally have ms: "mset (map (recorded_op R) ?ids) = mset (DropFailed (run_history R))"
    by (simp add: DropFailed_eq run_history_def mset_filter)
  have now: "r_now R < Pending" using inv g by (simp add: run_inv_def Pending_def)
  have inv_now: "Invoke (recorded_op R i) \<le> r_now R" if "i < ?n" for i
    using row [OF that] op [OF that] by simp
  have info: "Complete (recorded_op R i) = Pending" if "i < ?n" "?out i = Info" for i
    using row [OF that(1)] op [OF that(1)] that(2) by simp
  have span: "Invoke (recorded_op R i) \<le> served_at (?as ! i) \<and> served_at (?as ! i) < Complete (recorded_op R i)"
    if "i \<in> set (r_order R)" for i
  proof -
    have i: "i < ?n" "a_applied (?as ! i) \<noteq> None" using that ord(1) by auto
    have b: "a_invoke (?as ! i) \<le> served_at (?as ! i)" "served_at (?as ! i) \<le> r_now R"
      using row [OF i(1)] i(2) by (auto simp: served_at_def)
    have "served_at (?as ! i) < Complete (recorded_op R i)"
    proof (cases "?out i = Info")
      case True
      with info [OF i(1)] b now show ?thesis by simp
    next
      case False
      with row [OF i(1)] op [OF i(1)] applied [OF i] show ?thesis by (auto simp: served_at_def)
    qed
    with b row [OF i(1)] op [OF i(1)] show ?thesis by simp
  qed
  have "real_time (map (recorded_op R) (r_order R))"
    unfolding real_time_def
  proof (rule sorted_wrt_map_mono)
    show "sorted_wrt (\<lambda>i j. served_at (?as ! i) \<le> served_at (?as ! j)) (r_order R)"
      using inv by (simp add: run_inv_def sorted_map)
    fix i j assume "i \<in> set (r_order R)" "j \<in> set (r_order R)" "served_at (?as ! i) \<le> served_at (?as ! j)"
    then show "\<not> precedes (recorded_op R j) (recorded_op R i)"
      using span [of i] span [of j] by (simp add: precedes_def)
  qed
  moreover have not_before: "\<not> precedes (recorded_op R j) (recorded_op R i)" if "j \<in> set late" "i < ?n" for i j
  proof -
    have "j < ?n" using that(1) by (simp add: late_def)
    with info late [OF that(1)] inv_now [OF that(2)] now show ?thesis by (simp add: precedes_def)
  qed
  moreover have "real_time (map (recorded_op R) late)"
    unfolding real_time_def
    by (rule sorted_wrt_map_mono [of "\<lambda>i j. i < j"])
      (use not_before in \<open>auto simp: late_def sorted_wrt_filter\<close>)
  ultimately have rt: "real_time (map (recorded_op R) ?ids)"
    using ord(1) by (auto simp: real_time_append)
  have "serves apply_req empty (map (\<lambda>i. served (?as ! i)) (r_order R)) (r_store R)"
    using inv by (simp add: run_inv_def)
  moreover have "q_Kind (a_request (?as ! i)) \<in> {Read, Write, CAS} \<and>
      agrees (a_request (?as ! i)) (fst (the (a_applied (?as ! i)))) (recorded_op R i)"
    if "i \<in> set (r_order R)" for i
  proof -
    have i: "i < ?n" "a_applied (?as ! i) \<noteq> None" using that ord(1) by auto
    with row [OF i(1)] op [OF i(1)] applied [OF i] show ?thesis
      by (cases "?out i = OK") (auto simp: agrees_def)
  qed
  ultimately have "replay (keyed CASRegister) (registers empty) (map (recorded_op R) (r_order R)) =
      Some (registers (r_store R))" by (rule serves_replay)
  moreover have "\<forall>op \<in> set (map (recorded_op R) late). Outcome op = Info \<and> OpKind op \<in> {Read, Write, CAS}"
  proof -
    have "OpKind (recorded_op R i) \<in> {Read, Write, CAS}" if "i < ?n" for i
      using row [OF that] op [OF that] by simp
    with late show ?thesis by (auto simp: late_def)
  qed
  from infos_replay [OF this, of "registers (r_store R)"]
  obtain g where "replay (keyed CASRegister) (registers (r_store R)) (map (recorded_op R) late) = Some g"
    by (auto simp: registers_def is_IntState_def)
  ultimately have "replay (keyed CASRegister) (m_Init (keyed CASRegister)) (map (recorded_op R) ?ids) = Some g"
    using registers_empty by (simp add: replay_append)
  with ms rt show ?thesis unfolding linearizable_def linearization_def by blast
qed

end

text \<open>A run against \<open>SingleStore\<close>, and against a \<open>ForwardStore\<close> leader, which holds one.\<close>

lemma single_run_linearizable:
  assumes "run_reach single_Apply clk Map.empty R" "run_over R"
    "0 < ck_granularity clk" "ck_granularity clk < max_int64"
  shows "linearizable (keyed CASRegister) (DropFailed (run_history R))"
  by (rule single.run_linearizable [OF assms])

text \<open>So the checker never accuses it, whatever its options and its clock.\<close>

lemma single_run_check:
  assumes run: "run_reach single_Apply clk Map.empty R" "run_over R"
    "0 < ck_granularity clk" "ck_granularity clk < max_int64"
    and valid: "valid_history (run_history R)" "before_pending (run_history R)"
  obtains r where "Check seed CASRegister opt late (run_history R) = Some (Ret (Inr r))"
    "r_Verdict r \<noteq> NotLinearizable"
proof -
  from cas_model.Check_correct [OF valid] obtain r where
    r: "Check seed CASRegister opt late (run_history R) = Some (Ret (Inr r))"
      "check_result_ok CASRegister opt (run_history R) r" by blast
  then have "verdict_means CASRegister (DropFailed (run_history R)) r" by (simp add: check_result_ok_def)
  with verdict_keyed(1) [OF valid] single_run_linearizable [OF run] have "r_Verdict r \<noteq> NotLinearizable"
    by blast
  with r(1) show thesis by (rule that)
qed

end
