(* ===== verification/Link.thy ===== *)
theory Link
  imports Prelude "HOL-Library.AList"
begin

text \<open>
  One proxied TCP hop (\<open>internal/faultnet/link.go\<close>): the faults, the counters, the sockets a link
  owns and the operations that change them. Sockets are numbers. What the operating system decides
  is an argument: whether the port could be reclaimed, whether a dial, a read or a write succeeded.

  Goroutines are a step relation over the link and the place each connection's handler has reached.
  A chunk's fault is looked at in one step and its bytes are written in a later one, because the
  code holds no lock between the two.
\<close>

section \<open>Faults\<close>

datatype Fault = Pass | Delay | Drop | Reset | Refuse | Fault_other nat

fun Fault_String :: "Fault \<Rightarrow> string" where
  "Fault_String Pass = ''pass''"
| "Fault_String Delay = ''delay''"
| "Fault_String Drop = ''drop''"
| "Fault_String Reset = ''reset''"
| "Fault_String Refuse = ''refuse''"
| "Fault_String (Fault_other n) = ''fault('' @ show_nat n @ '')''"

definition ParseFault :: "string \<Rightarrow> string + Fault" where
  "ParseFault s =
     (if s = ''pass'' then Inr Pass
      else if s = ''delay'' then Inr Delay
      else if s = ''drop'' then Inr Drop
      else if s = ''reset'' then Inr Reset
      else if s = ''refuse'' then Inr Refuse
      else Inl s)"

lemma ParseFault_String:
  "f \<in> {Pass, Delay, Drop, Reset, Refuse} \<Longrightarrow> ParseFault (Fault_String f) = Inr f"
  by (auto simp: ParseFault_def)

section \<open>The link and its operations\<close>

type_synonym sock = nat

record Link =
  l_name :: string
  l_target :: string
  l_fault :: Fault
  l_delay :: int
  accepted :: int
  refused :: int
  resetConns :: int
  bytesForward :: int
  bytesBack :: int
  bytesDropped :: int
  listening :: bool
  conns :: "(sock \<times> bool) list"
  shut :: "sock list"
  l_closed :: bool

record LinkStats =
  st_Accepted :: int
  st_Refused :: int
  st_ResetConns :: int
  st_BytesForward :: int
  st_BytesBack :: int
  st_BytesDropped :: int

definition Stats :: "Link \<Rightarrow> LinkStats" where
  "Stats l = \<lparr>st_Accepted = accepted l, st_Refused = refused l, st_ResetConns = resetConns l,
     st_BytesForward = bytesForward l, st_BytesBack = bytesBack l, st_BytesDropped = bytesDropped l\<rparr>"

text \<open>\<open>NewLink\<close>, with the outcome of \<open>net.Listen\<close>.\<close>

datatype link_error = NoTarget | CannotListen string

definition NewLink :: "string \<Rightarrow> string \<Rightarrow> bool \<Rightarrow> link_error + Link" where
  "NewLink name target listens =
     (if target = '''' then Inl NoTarget
      else if \<not> listens then Inl (CannotListen name)
      else Inr \<lparr>l_name = name, l_target = target, l_fault = Pass, l_delay = 0, accepted = 0, refused = 0,
        resetConns = 0, bytesForward = 0, bytesBack = 0, bytesDropped = 0, listening = True,
        conns = [], shut = [], l_closed = False\<rparr>)"

definition hardClose :: "sock \<Rightarrow> Link \<Rightarrow> Link" where
  "hardClose c l = l\<lparr>shut := c # shut l\<rparr>"

definition tearDownLocked :: "Link \<Rightarrow> int \<times> Link" where
  "tearDownLocked l =
     (int (length (filter snd (conns l))), l\<lparr>shut := map fst (conns l) @ shut l, conns := []\<rparr>)"

definition listenLocked :: "bool \<Rightarrow> Link \<Rightarrow> Link" where
  "listenLocked reclaimed l =
     (if listening l \<or> l_closed l then l else if reclaimed then l\<lparr>listening := True\<rparr> else l)"

definition SetDelay :: "int \<Rightarrow> Link \<Rightarrow> Link" where
  "SetDelay d l = l\<lparr>l_delay := d\<rparr>"

definition Set :: "bool \<Rightarrow> Fault \<Rightarrow> Link \<Rightarrow> Link" where
  "Set reclaimed f l =
     (if l_closed l then l
      else let l = l\<lparr>l_fault := f\<rparr> in
        case f of
          Refuse \<Rightarrow>
            (case tearDownLocked l of (n, l) \<Rightarrow> l\<lparr>refused := refused l + n, listening := False\<rparr>)
        | Reset \<Rightarrow>
            (case tearDownLocked l of (n, l) \<Rightarrow> listenLocked reclaimed (l\<lparr>resetConns := resetConns l + n\<rparr>))
        | _ \<Rightarrow> listenLocked reclaimed l)"

definition Close :: "Link \<Rightarrow> Link" where
  "Close l =
     (if l_closed l then l
      else snd (tearDownLocked (l\<lparr>l_closed := True, listening := False\<rparr>)))"

definition register :: "sock \<Rightarrow> bool \<Rightarrow> Link \<Rightarrow> bool \<times> Link" where
  "register c isClient l =
     (if l_closed l then (False, l) else (True, l\<lparr>conns := AList.update c isClient (conns l)\<rparr>))"

definition release :: "sock \<Rightarrow> Link \<Rightarrow> Link" where
  "release c l = l\<lparr>conns := AList.delete c (conns l), shut := c # shut l\<rparr>"

section \<open>Handlers\<close>

datatype handler = Fresh | Dialling | Proxying sock | Ended

text \<open>One iteration of \<open>accept\<close>: the socket is counted, then registered or turned away.\<close>

definition accept_one :: "sock \<Rightarrow> Link \<Rightarrow> bool \<times> Link" where
  "accept_one c l =
     (let l = l\<lparr>accepted := accepted l + 1\<rparr> in
      case register c True l of (ok, l) \<Rightarrow> if ok then (True, l) else (False, hardClose c l))"

text \<open>The first thing \<open>handle\<close> does: read the fault, and turn the client away or go on.\<close>

definition handle_look :: "sock \<Rightarrow> Link \<Rightarrow> handler \<times> Link" where
  "handle_look c l =
     (case l_fault l of
        Refuse \<Rightarrow> (Ended, release c (hardClose c (l\<lparr>refused := refused l + 1\<rparr>)))
      | Reset \<Rightarrow> (Ended, release c (hardClose c (l\<lparr>resetConns := resetConns l + 1\<rparr>)))
      | _ \<Rightarrow> (Dialling, l))"

definition handle_dial :: "sock \<Rightarrow> sock option \<Rightarrow> Link \<Rightarrow> handler \<times> Link" where
  "handle_dial c target l =
     (case target of
        None \<Rightarrow> (Ended, release c l)
      | Some t \<Rightarrow>
          (case register t False l of (ok, l) \<Rightarrow>
             if ok then (Proxying t, l) else (Ended, release c (hardClose t l))))"

text \<open>
  \<open>pump\<close>, from a read that returned \<open>n > 0\<close> bytes to the decision about them: counted as dropped, or
  on their way to the other socket. The flag says whether the copy loop goes on.
\<close>

definition pump_look :: "int \<Rightarrow> Link \<Rightarrow> bool \<times> int \<times> Link" where
  "pump_look n l =
     (case l_fault l of
        Drop \<Rightarrow> (True, 0, l\<lparr>bytesDropped := bytesDropped l + n\<rparr>)
      | Reset \<Rightarrow> (False, 0, l\<lparr>bytesDropped := bytesDropped l + n\<rparr>)
      | Refuse \<Rightarrow> (False, 0, l\<lparr>bytesDropped := bytesDropped l + n\<rparr>)
      | _ \<Rightarrow> (True, n, l))"

text \<open>The write after it, which fails when the destination is closed or, in a hold, the link is.\<close>

definition pump_write :: "bool \<Rightarrow> bool \<Rightarrow> int \<Rightarrow> Link \<Rightarrow> Link" where
  "pump_write forward written n l =
     (if \<not> written then l
      else if forward then l\<lparr>bytesForward := bytesForward l + n\<rparr>
      else l\<lparr>bytesBack := bytesBack l + n\<rparr>)"

record link_run =
  lr_link :: Link
  lr_handlers :: "sock \<Rightarrow> handler option"
  lr_flight :: "(sock \<times> bool \<times> int) list"

inductive link_step :: "link_run \<Rightarrow> link_run \<Rightarrow> bool" where
  set_fault: "link_step r (r\<lparr>lr_link := Set reclaimed f (lr_link r)\<rparr>)"
| set_delay: "link_step r (r\<lparr>lr_link := SetDelay d (lr_link r)\<rparr>)"
| accepts: "lr_handlers r c = None \<Longrightarrow> c \<notin> set (shut (lr_link r)) \<Longrightarrow> accept_one c (lr_link r) = (ok, l) \<Longrightarrow>
    link_step r (r\<lparr>lr_link := l, lr_handlers := (lr_handlers r)(c \<mapsto> (if ok then Fresh else Ended))\<rparr>)"
| looks: "lr_handlers r c = Some Fresh \<Longrightarrow> handle_look c (lr_link r) = (h, l) \<Longrightarrow>
    link_step r (r\<lparr>lr_link := l, lr_handlers := (lr_handlers r)(c \<mapsto> h)\<rparr>)"
| dials: "lr_handlers r c = Some Dialling \<Longrightarrow> handle_dial c target (lr_link r) = (h, l) \<Longrightarrow>
    link_step r (r\<lparr>lr_link := l, lr_handlers := (lr_handlers r)(c \<mapsto> h)\<rparr>)"
| reads: "lr_handlers r c = Some (Proxying t) \<Longrightarrow> (if forward then c else t) \<notin> set (shut (lr_link r)) \<Longrightarrow>
    0 < n \<Longrightarrow> pump_look n (lr_link r) = (go, sent, l) \<Longrightarrow>
    link_step r (r\<lparr>lr_link := l, lr_flight := (if sent = 0 then [] else [(c, forward, sent)]) @ lr_flight r\<rparr>)"
| writes: "(c, forward, n) \<in> set (lr_flight r) \<Longrightarrow>
    link_step r (r\<lparr>lr_link := pump_write forward written n (lr_link r),
      lr_flight := remove1 (c, forward, n) (lr_flight r)\<rparr>)"
| ends: "lr_handlers r c = Some (Proxying t) \<Longrightarrow>
    link_step r (r\<lparr>lr_link := release c (release t (lr_link r)), lr_handlers := (lr_handlers r)(c \<mapsto> Ended)\<rparr>)"
| closes: "link_step r (r\<lparr>lr_link := Close (lr_link r)\<rparr>)"

inductive_cases link_stepE: "link_step r r'"

definition link_start :: "string \<Rightarrow> string \<Rightarrow> link_run \<Rightarrow> bool" where
  "link_start name target r \<longleftrightarrow>
     NewLink name target True = Inr (lr_link r) \<and> lr_handlers r = Map.empty \<and> lr_flight r = []"

definition link_reach :: "string \<Rightarrow> string \<Rightarrow> link_run \<Rightarrow> bool" where
  "link_reach name target r \<longleftrightarrow> (\<exists>r0. link_start name target r0 \<and> link_step\<^sup>*\<^sup>* r0 r)"

section \<open>What holds of a link at every moment\<close>

lemmas link_ops = Set_def SetDelay_def Close_def register_def release_def accept_one_def handle_look_def
  handle_dial_def pump_look_def pump_write_def hardClose_def tearDownLocked_def listenLocked_def Let_def

definition live :: "handler option \<Rightarrow> bool" where
  "live h \<longleftrightarrow> h \<noteq> None \<and> h \<noteq> Some Ended"

text \<open>The sockets a link answers for: those it still owns, and those it has closed.\<close>

definition owned :: "(sock \<times> bool) list \<Rightarrow> sock set" where
  "owned cs = fst ` set cs"

definition known :: "Link \<Rightarrow> sock set" where
  "known l = owned (conns l) \<union> set (shut l)"

lemma owned_Nil [simp]: "owned [] = {}"
  by (simp add: owned_def)

lemma owned_delete [simp]: "owned (AList.delete c xs) = owned xs - {c}"
  by (simp add: owned_def dom_map_of_conv_image_fst [symmetric] delete_conv')

lemma owned_update [simp]: "owned (AList.update c v xs) = insert c (owned xs)"
  by (simp add: owned_def dom_map_of_conv_image_fst [symmetric] update_conv')

lemma owned_shut [simp]: "set (map fst xs) = owned xs"
  by (simp add: owned_def)

text \<open>
  A closed link owns no socket and listens for none, a refusing link listens for none, and a client
  whose handler is still running is registered or has been cut.
\<close>

definition link_ok :: "Link \<Rightarrow> bool" where
  "link_ok l \<longleftrightarrow>
     (l_closed l \<longrightarrow> conns l = [] \<and> \<not> listening l) \<and> (l_fault l = Refuse \<longrightarrow> \<not> listening l) \<and>
     0 \<le> bytesForward l \<and> 0 \<le> bytesBack l \<and> 0 \<le> bytesDropped l"

definition link_inv :: "link_run \<Rightarrow> bool" where
  "link_inv r \<longleftrightarrow> link_ok (lr_link r) \<and>
     (\<forall>c. live (lr_handlers r c) \<longrightarrow> c \<in> known (lr_link r)) \<and>
     (\<forall>c t. lr_handlers r c = Some (Proxying t) \<longrightarrow> t \<in> known (lr_link r)) \<and>
     (\<forall>x \<in> set (lr_flight r). 0 < snd (snd x))"

lemma link_inv_start: "link_start name target r \<Longrightarrow> link_inv r"
  by (auto simp: link_start_def link_inv_def link_ok_def NewLink_def live_def split: if_splits dest: sym)

definition keeps_sockets :: "Link \<Rightarrow> Link \<Rightarrow> bool" where
  "keeps_sockets l l' \<longleftrightarrow> known l \<subseteq> known l' \<and> (l_closed l \<longrightarrow> l_closed l')"

lemmas socket_rules = keeps_sockets_def link_ok_def known_def owned_shut

lemma Set_ok: "link_ok l \<Longrightarrow> link_ok (Set k f l) \<and> keeps_sockets l (Set k f l)"
  by (cases f) (auto simp: link_ops socket_rules simp del: set_map)

lemma Close_ok: "link_ok l \<Longrightarrow> link_ok (Close l) \<and> keeps_sockets l (Close l)"
  by (auto simp: link_ops socket_rules simp del: set_map)

lemma SetDelay_ok: "link_ok l \<Longrightarrow> link_ok (SetDelay d l) \<and> keeps_sockets l (SetDelay d l)"
  by (auto simp: link_ops socket_rules)

lemma release_ok: "link_ok l \<Longrightarrow> link_ok (release c l) \<and> keeps_sockets l (release c l)"
  by (auto simp: link_ops socket_rules)

lemma accept_one_ok:
  "link_ok l \<Longrightarrow> accept_one c l = (a, l') \<Longrightarrow>
     link_ok l' \<and> keeps_sockets l l' \<and> (a \<longrightarrow> c \<in> known l')"
  by (cases "l_closed l") (auto simp: link_ops socket_rules)

lemma handle_look_ok:
  "link_ok l \<Longrightarrow> handle_look c l = (h, l') \<Longrightarrow>
     link_ok l' \<and> keeps_sockets l l' \<and> (\<forall>t. h \<noteq> Proxying t)"
  by (cases "l_fault l") (auto simp: link_ops socket_rules)

lemma handle_dial_ok:
  "link_ok l \<Longrightarrow> handle_dial c t l = (h, l') \<Longrightarrow>
     link_ok l' \<and> keeps_sockets l l' \<and> (\<forall>s. h = Proxying s \<longrightarrow> s \<in> known l')"
  by (cases t; cases "l_closed l") (auto simp: link_ops socket_rules)

lemma pump_look_ok:
  "link_ok l \<Longrightarrow> 0 < n \<Longrightarrow> pump_look n l = (go, sent, l') \<Longrightarrow>
     link_ok l' \<and> keeps_sockets l l' \<and> 0 \<le> sent"
  by (cases "l_fault l") (auto simp: link_ops socket_rules)

lemma pump_write_ok:
  "link_ok l \<Longrightarrow> 0 < n \<Longrightarrow> link_ok (pump_write b k n l) \<and> keeps_sockets l (pump_write b k n l)"
  by (auto simp: link_ops socket_rules)

lemma link_inv_frame:
  assumes "link_inv r" and "link_ok l" and "keeps_sockets (lr_link r) l"
    and "\<And>x. x \<in> set fl \<Longrightarrow> x \<in> set (lr_flight r) \<or> 0 < snd (snd x)"
  shows "link_inv (r\<lparr>lr_link := l, lr_flight := fl\<rparr>)"
proof -
  from assms(1,4) have "\<forall>x \<in> set fl. 0 < snd (snd x)" unfolding link_inv_def by blast
  with assms(1-3) show ?thesis by (simp add: link_inv_def keeps_sockets_def) blast
qed

lemma link_inv_handler:
  assumes "link_inv r" and "link_ok l" and "keeps_sockets (lr_link r) l"
    and "live (Some h) \<Longrightarrow> c \<in> known l" and "\<And>t. h = Proxying t \<Longrightarrow> t \<in> known l"
  shows "link_inv (r\<lparr>lr_link := l, lr_handlers := (lr_handlers r)(c \<mapsto> h)\<rparr>)"
  using assms by (auto simp: link_inv_def keeps_sockets_def)

lemma link_inv_frame0:
  assumes "link_inv r" and "link_ok l \<and> keeps_sockets (lr_link r) l"
  shows "link_inv (r\<lparr>lr_link := l\<rparr>)"
  using link_inv_frame [of r l "lr_flight r"] assms by simp

lemma link_inv_ok: "link_inv r \<Longrightarrow> link_ok (lr_link r)"
  by (simp add: link_inv_def)

lemma link_inv_step: "link_step r r' \<Longrightarrow> link_inv r \<Longrightarrow> link_inv r'"
proof (induction rule: link_step.induct)
  case (set_fault r k f)
  then show ?case by (intro link_inv_frame0 Set_ok link_inv_ok)
next
  case (set_delay r d)
  then show ?case by (intro link_inv_frame0 SetDelay_ok link_inv_ok)
next
  case (accepts r c a l)
  then show ?case using accept_one_ok [of "lr_link r" c a l]
    by (intro link_inv_handler) (auto simp: link_inv_ok live_def split: if_splits)
next
  case (looks r c h l)
  then show ?case using handle_look_ok [of "lr_link r" c h l]
    by (intro link_inv_handler) (auto simp: link_inv_def live_def keeps_sockets_def)
next
  case (dials r c target h l)
  then show ?case using handle_dial_ok [of "lr_link r" c target h l]
    by (intro link_inv_handler) (auto simp: link_inv_def live_def keeps_sockets_def)
next
  case (reads r c t fwd n go sent l)
  then show ?case using pump_look_ok [of "lr_link r" n go sent l]
    by (intro link_inv_frame) (auto simp: link_inv_ok split: if_splits)
next
  case (writes c fwd n r k)
  then have "0 < n" by (auto simp: link_inv_def)
  with writes show ?case using pump_write_ok [of "lr_link r" n fwd k]
    by (intro link_inv_frame) (auto simp: link_inv_ok dest: in_set_remove1 [THEN iffD1, rotated] notin_set_remove1)
next
  case (ends r c t)
  have "link_ok (release c (release t (lr_link r))) \<and> keeps_sockets (lr_link r) (release c (release t (lr_link r)))"
    using release_ok [OF link_inv_ok [OF ends(2)], of t] release_ok [of "release t (lr_link r)" c]
    by (auto simp: keeps_sockets_def)
  with ends show ?case by (intro link_inv_handler) (auto simp: live_def)
next
  case (closes r)
  then show ?case by (intro link_inv_frame0 Close_ok link_inv_ok)
qed

lemma link_reach_inv: "link_reach name target r \<Longrightarrow> link_inv r"
proof (unfold link_reach_def, elim exE conjE)
  fix r0 assume "link_start name target r0" and "link_step\<^sup>*\<^sup>* r0 r"
  from this(2) link_inv_start [OF this(1)] show "link_inv r"
    by (induction rule: rtranclp_induct) (auto intro: link_inv_step)
qed

section \<open>What a fault does\<close>

text \<open>\<open>Reset\<close> and \<open>Refuse\<close> cut every connection the link owns, and counts each client once.\<close>

lemma Set_cuts:
  assumes "f = Reset \<or> f = Refuse" and "\<not> l_closed l"
  shows "conns (Set k f l) = []" and "owned (conns l) \<subseteq> set (shut (Set k f l))"
    and "refused (Set k f l) + resetConns (Set k f l) =
      refused l + resetConns l + int (length (filter snd (conns l)))"
  using assms by (auto simp: link_ops simp del: set_map simp flip: owned_shut split: if_splits)

lemma Set_listens: "\<not> l_closed l \<Longrightarrow> f \<noteq> Refuse \<Longrightarrow> listening (Set True f l)"
  by (cases f) (auto simp: link_ops)

lemma Set_fault: "l_fault (Set k f l) = (if l_closed l then l_fault l else f)"
  by (cases f) (auto simp: link_ops)

lemma Set_twice: "Set k f (Set k f l) = Set k f l \<or> \<not> k"
  by (cases f) (auto simp: link_ops)

text \<open>
  While a link drops, resets or refuses, nothing new is forwarded: what reaches either side is bounded
  by what was already on its way when the fault took hold.
\<close>

definition blackhole :: "Fault \<Rightarrow> bool" where
  "blackhole f \<longleftrightarrow> f = Drop \<or> f = Reset \<or> f = Refuse"

definition potential :: "link_run \<Rightarrow> int" where
  "potential r = bytesForward (lr_link r) + bytesBack (lr_link r) + sum_list (map (\<lambda>x. snd (snd x)) (lr_flight r))"

inductive silent_step :: "link_run \<Rightarrow> link_run \<Rightarrow> bool" where
  silent: "link_step r r' \<Longrightarrow> blackhole (l_fault (lr_link r)) \<Longrightarrow> blackhole (l_fault (lr_link r')) \<Longrightarrow>
    silent_step r r'"

lemma sum_remove1: "x \<in> set xs \<Longrightarrow> sum_list (map f (remove1 x xs)) = sum_list (map f xs) - (f x :: int)"
  by (induction xs) auto

lemma same_bytes:
  "bytesForward (Set k f l) = bytesForward l" "bytesBack (Set k f l) = bytesBack l"
  "bytesForward (SetDelay d l) = bytesForward l" "bytesBack (SetDelay d l) = bytesBack l"
  "bytesForward (Close l) = bytesForward l" "bytesBack (Close l) = bytesBack l"
  "bytesForward (release c l) = bytesForward l" "bytesBack (release c l) = bytesBack l"
  by (cases f; simp add: link_ops)+

lemma potential_step: "silent_step r r' \<Longrightarrow> link_inv r \<Longrightarrow> potential r' \<le> potential r"
proof (induction rule: silent_step.induct)
  case (silent r r')
  from silent(1) silent(2,3,4) show ?case
  proof (induction rule: link_step.induct)
    case (writes c fwd n r k)
    then have "0 < n" by (auto simp: link_inv_def)
    with writes show ?case by (auto simp: potential_def pump_write_def sum_remove1)
  next
    case (reads r c t fwd n go sent l)
    then show ?case by (auto simp: potential_def pump_look_def blackhole_def)
  next
    case (accepts r c a l)
    then show ?case by (auto simp: potential_def link_ops split: if_splits)
  next
    case (looks r c h l)
    then show ?case by (cases "l_fault (lr_link r)") (auto simp: potential_def link_ops)
  next
    case (dials r c target h l)
    then show ?case by (cases target) (auto simp: potential_def link_ops split: if_splits)
  qed (auto simp: potential_def same_bytes)
qed

lemma silent_run:
  assumes "link_inv r" and "silent_step\<^sup>*\<^sup>* r r'"
  shows "bytesForward (lr_link r') + bytesBack (lr_link r') \<le> potential r"
proof -
  from assms(2) assms(1) have i: "link_inv r' \<and> potential r' \<le> potential r"
  proof (induction rule: rtranclp_induct)
    case (step a b)
    then have "link_inv b" by (auto elim: silent_step.cases intro: link_inv_step)
    moreover have "potential b \<le> potential a" using step by (auto intro: potential_step)
    ultimately show ?case using step by auto
  qed simp
  then have "\<forall>x \<in> set (lr_flight r'). 0 < snd (snd x)" unfolding link_inv_def by blast
  then have "0 \<le> sum_list (map (\<lambda>x. snd (snd x)) (lr_flight r'))"
    by (intro sum_list_nonneg) force
  with i show ?thesis by (simp add: potential_def)
qed

lemma Set_shut: "set (shut l) \<subseteq> set (shut (Set k f l))"
  by (cases f) (auto simp: link_ops)

end
