(* ===== verification/Run_Samples.thy ===== *)
theory Run_Samples
  imports Samples Store_Run Link
begin

text \<open>
  A small run: a client writes and never hears back, the store applies that write afterwards, and
  another client reads it.
\<close>

definition sample_clock :: Clock where
  "sample_clock = \<lparr>ck_origin = 0, ck_granularity = 1, ck_source = ''sample''\<rparr>"

definition sample_write :: Request where
  "sample_write = \<lparr>q_Kind = Write, q_Key = ''k0'', q_Value = 7, q_From = 0, q_To = 0\<rparr>"

definition sample_read :: Request where
  "sample_read = \<lparr>q_Kind = Read, q_Key = ''k0'', q_Value = 0, q_From = 0, q_To = 0\<rparr>"

definition timed_out :: TransportError where
  "timed_out = \<lparr>te_NeverSent = False, te_Err = ''timeout''\<rparr>"

definition begun :: "int \<Rightarrow> Request \<Rightarrow> 'st run_state \<Rightarrow> 'st run_state" where
  "begun p req R = R\<lparr>r_attempts := r_attempts R @
      [\<lparr>a_process = p, a_request = req, a_invoke = 0, a_applied = None, a_op = None\<rparr>]\<rparr>"

definition ended :: "nat \<Rightarrow> TransportError + Response \<Rightarrow> 'st run_state \<Rightarrow> 'st run_state" where
  "ended i r R = set_attempt R i (finish sample_clock (r_attempts R ! i) 0 r)"

definition applied :: "nat \<Rightarrow> (string \<Rightarrow> int option) run_state \<Rightarrow> (string \<Rightarrow> int option) run_state" where
  "applied i R =
     (case single_Apply (r_store R) (a_request (r_attempts R ! i)) of
        (Inr resp, st) \<Rightarrow> set_attempt (R\<lparr>r_store := st, r_order := r_order R @ [i]\<rparr>) i
          ((r_attempts R ! i)\<lparr>a_applied := Some (resp, r_now R)\<rparr>)
      | _ \<Rightarrow> R)"

definition sample_run :: "(string \<Rightarrow> int option) run_state" where
  "sample_run = ended 1 (Inr (ReadOK 7)) (applied 1 (begun 1 sample_read
     (applied 0 (ended 0 (Inl timed_out) (begun 0 sample_write (run_init Map.empty))))))"

lemma begun_step:
  "run_reach single_Apply sample_clock Map.empty R \<Longrightarrow> r_now R = 0 \<Longrightarrow>
     q_Kind req \<in> {Read, Write, CAS} \<Longrightarrow> q_Key req \<noteq> [] \<Longrightarrow>
     run_reach single_Apply sample_clock Map.empty (begun p req R)"
  unfolding begun_def
  by (erule run_reach.step, rule run_step.start) (auto simp: reading_def sample_clock_def)

lemma lost_step:
  "run_reach single_Apply sample_clock Map.empty R \<Longrightarrow> r_now R = 0 \<Longrightarrow> i < length (r_attempts R) \<Longrightarrow>
     a_op (r_attempts R ! i) = None \<Longrightarrow>
     run_reach single_Apply sample_clock Map.empty (ended i (Inl timed_out) R)"
  unfolding ended_def
  by (erule run_reach.step, rule run_step.lost) (auto simp: reading_def sample_clock_def timed_out_def)

lemma answered_step:
  "run_reach single_Apply sample_clock Map.empty R \<Longrightarrow> r_now R = 0 \<Longrightarrow> i < length (r_attempts R) \<Longrightarrow>
     a_op (r_attempts R ! i) = None \<Longrightarrow> a_applied (r_attempts R ! i) = Some (resp, t) \<Longrightarrow>
     run_reach single_Apply sample_clock Map.empty (ended i (Inr resp) R)"
  unfolding ended_def
  by (erule run_reach.step, rule run_step.answered) (auto simp: reading_def sample_clock_def)

lemma applied_step:
  assumes "run_reach single_Apply sample_clock Map.empty R" and "i < length (r_attempts R)"
    and "a_applied (r_attempts R ! i) = None"
    and "case a_op (r_attempts R ! i) of None \<Rightarrow> True | Some op \<Rightarrow> Outcome op = Info"
    and "single_Apply (r_store R) (a_request (r_attempts R ! i)) = (Inr resp, st)"
  shows "run_reach single_Apply sample_clock Map.empty (applied i R)"
proof -
  have "run_step single_Apply sample_clock R
      (set_attempt (R\<lparr>r_store := st, r_order := r_order R @ [i]\<rparr>) i
        ((r_attempts R ! i)\<lparr>a_applied := Some (resp, r_now R)\<rparr>))"
    using assms(2-5) by (intro run_step.serve) simp_all
  with assms(1) show ?thesis by (simp add: applied_def assms(5) run_reach.step)
qed

lemmas sample_run_defs = sample_run_def begun_def ended_def applied_def finish_def set_attempt_def run_init_def
  sample_write_def sample_read_def sample_clock_def timed_out_def Do_record_def single_Apply_def single_get_def
  Completion_def wrap64_def reply_defs Let_def Pending_def max_int64_def

lemma sample_run_reach: "run_reach single_Apply sample_clock Map.empty sample_run"
  unfolding sample_run_def
  apply (rule answered_step [where t = 0])
      apply (rule applied_step [where resp = "ReadOK 7"])
          apply (rule begun_step)
             apply (rule applied_step [where resp = WriteOK])
                 apply (rule lost_step)
                    apply (rule begun_step)
                       apply (rule run_reach.init)
  by (simp_all add: sample_run_defs)

lemma sample_run_over: "run_over sample_run"
  by (simp add: run_over_def sample_run_defs)

lemma sample_run_history:
  "run_history sample_run =
     [\<lparr>Process = 0, Key = ''k0'', OpKind = Write, Value = 7, From = 0, To = 0, Observed = 0, Swapped = False,
       Outcome = Info, Invoke = 0, Complete = Pending, Err = ''timeout''\<rparr>,
      \<lparr>Process = 1, Key = ''k0'', OpKind = Read, Value = 0, From = 0, To = 0, Observed = 7, Swapped = False,
       Outcome = OK, Invoke = 0, Complete = 1, Err = []\<rparr>]"
  by (simp add: run_history_def SortByInvoke_def stable_sort_def invoke_less_def sample_run_defs)

lemma sample_run_valid: "valid_history (run_history sample_run)"
  by (simp add: sample_run_history valid_defs Pending_def max_int64_def)

lemma sample_run_before: "before_pending (run_history sample_run)"
  by (simp add: sample_run_history before_pending_def int64_op_def Pending_def max_int64_def min_int64_def)

definition sample_link :: Link where
  "sample_link = \<lparr>l_name = ''c0'', l_target = ''node'', l_fault = Pass, l_delay = 0, accepted = 0, refused = 0,
     resetConns = 0, bytesForward = 0, bytesBack = 0, bytesDropped = 0, listening = True, conns = [],
     shut = [], l_closed = False\<rparr>"

end
