(* ===== verification/Forward_Store.thy ===== *)
theory Forward_Store
  imports Single_Store Kv_Client
begin

text \<open>
  \<open>internal/kv/forward.go\<close>: one node of the store with a fixed leader. The critical sections of the
  code are functions of the node's fields; \<open>forward_step\<close> interleaves the requests in flight and
  \<open>Configure\<close> at their boundaries, as the locks allow. What the leader answers is an argument of the
  step that receives it.
\<close>

section \<open>The node\<close>

record Config =
  cf_Leader :: "string option"
  cf_Peers :: "string list option"
  cf_Sync :: "bool option"
  cf_Promote :: "bool option"
  cf_PromoteAfter :: "int option"

record forward =
  fs_leader :: "Client option"
  fs_local :: data
  fs_promote :: bool
  fs_promoteAfter :: int
  fs_failures :: int
  fs_promoted :: bool
  fs_cache :: data

definition defaultPromoteAfter :: int where
  "defaultPromoteAfter = 3"

definition NewForwardStore :: "(string \<Rightarrow> url option) \<Rightarrow> string \<Rightarrow> forward" where
  "NewForwardStore parse leaderAddr =
     \<lparr>fs_leader = (if leaderAddr \<noteq> [] then Some (NewClient parse leaderAddr) else None),
      fs_local = Map.empty, fs_promote = False, fs_promoteAfter = defaultPromoteAfter,
      fs_failures = 0, fs_promoted = False, fs_cache = Map.empty\<rparr>"

definition forwardSucceeded :: "Request \<Rightarrow> Response \<Rightarrow> forward \<Rightarrow> forward" where
  "forwardSucceeded req resp s =
     (let s = s\<lparr>fs_failures := 0\<rparr>;
          s = (if fs_promoted s then s\<lparr>fs_promoted := False\<rparr> else s)
      in if \<not> fs_promote s \<or> \<not> p_OK resp then s
         else case q_Kind req of
           Read \<Rightarrow>
             (case p_Value resp of Some v \<Rightarrow> s\<lparr>fs_cache := (fs_cache s)(q_Key req \<mapsto> v)\<rparr> | None \<Rightarrow> s)
         | Write \<Rightarrow> s\<lparr>fs_cache := (fs_cache s)(q_Key req \<mapsto> q_Value req)\<rparr>
         | CAS \<Rightarrow>
             (if p_Swapped resp = Some True then s\<lparr>fs_cache := (fs_cache s)(q_Key req \<mapsto> q_To req)\<rparr> else s)
         | Kind_other _ \<Rightarrow> s)"

text \<open>Whether this node is now serving on its own, and its fields afterwards.\<close>

definition forwardFailed :: "forward \<Rightarrow> bool \<times> forward" where
  "forwardFailed s =
     (let s = s\<lparr>fs_failures := fs_failures s + 1\<rparr> in
      if \<not> fs_promote s \<or> fs_promoted s \<or> fs_failures s < fs_promoteAfter s then (fs_promoted s, s)
      else (True, s\<lparr>fs_promoted := True\<rparr>))"

definition serveFromCache :: "Request \<Rightarrow> forward \<Rightarrow> Response \<times> forward" where
  "serveFromCache req s =
     (let held = single_get (fs_cache s) (q_Key req) in
      case q_Kind req of
        Write \<Rightarrow> (WriteOK, s\<lparr>fs_cache := (fs_cache s)(q_Key req \<mapsto> q_Value req)\<rparr>)
      | CAS \<Rightarrow>
          if held \<noteq> q_From req then (CASOK False, s)
          else (CASOK True, s\<lparr>fs_cache := (fs_cache s)(q_Key req \<mapsto> q_To req)\<rparr>)
      | _ \<Rightarrow> (ReadOK held, s))"

datatype configure_error = BadPromoteAfter | BadPeer peer_error | ShuttingDown

definition forward_Configure :: "(string \<Rightarrow> url option) \<Rightarrow> Config \<Rightarrow> forward \<Rightarrow> configure_error option \<times> forward" where
  "forward_Configure parse cfg s =
     (if (case cf_PromoteAfter cfg of Some n \<Rightarrow> n < 1 | None \<Rightarrow> False) then (Some BadPromoteAfter, s)
      else case (case cf_Leader cfg of
                   Some a \<Rightarrow> if a = [] then None
                     else (case peerBase parse a of Inl e \<Rightarrow> Some (BadPeer e) | Inr _ \<Rightarrow> None)
                 | None \<Rightarrow> None) of
        Some e \<Rightarrow> (Some e, s)
      | None \<Rightarrow>
          let s = (case cf_Promote cfg of
                None \<Rightarrow> s
              | Some p \<Rightarrow>
                  if \<not> p then s\<lparr>fs_promote := p, fs_promoted := False, fs_failures := 0, fs_cache := Map.empty\<rparr>
                  else s\<lparr>fs_promote := p\<rparr>);
              s = (case cf_PromoteAfter cfg of None \<Rightarrow> s | Some n \<Rightarrow> s\<lparr>fs_promoteAfter := n\<rparr>);
              s = (case cf_Leader cfg of
                None \<Rightarrow> s
              | Some a \<Rightarrow> s\<lparr>fs_leader := (if a = [] then None else Some (NewClient parse a)),
                  fs_promoted := False, fs_failures := 0\<rparr>)
          in (None, s))"

section \<open>\<open>Apply\<close>, one critical section at a time\<close>

text \<open>
  Where a request stands: it has read leader and role (\<open>Begun\<close>), the leader has been sent it and
  the role is remembered (\<open>Sent\<close>), it is to be answered from the cache (\<open>Serving\<close>), or it has
  its answer, together with whether the cache gave it.
\<close>

datatype request_state =
    Begun Request
  | Local Request
  | Sent Request Client bool
  | Serving Request
  | Answer "apply_error + Response" bool

record forward_system =
  fy_node :: forward
  fy_requests :: "request_state list"

definition put :: "forward_system \<Rightarrow> nat \<Rightarrow> forward \<Rightarrow> request_state \<Rightarrow> forward_system" where
  "put Y i s r = \<lparr>fy_node = s, fy_requests = (fy_requests Y)[i := r]\<rparr>"

text \<open>Where \<open>Apply\<close> goes from the leader and the role it read.\<close>

definition read_role :: "forward \<Rightarrow> Request \<Rightarrow> request_state" where
  "read_role s req = (case fs_leader s of None \<Rightarrow> Local req | Some c \<Rightarrow> Sent req c (fs_promoted s))"

text \<open>What \<open>Apply\<close> does with the leader's answer to a request sent while \<open>promoted\<close>.\<close>

definition after_send :: "Request \<Rightarrow> Client \<Rightarrow> bool \<Rightarrow> TransportError + Response \<Rightarrow> forward \<Rightarrow> forward \<times> request_state" where
  "after_send req leader promoted r s =
     (case r of
        Inr resp \<Rightarrow> (forwardSucceeded req resp s, Answer (Inr resp) False)
      | Inl te \<Rightarrow>
          (case forwardFailed s of (serving, s') \<Rightarrow>
             if promoted \<or> serving then (s', Serving req)
             else if te_NeverSent te
             then (s', Answer (Inr (Declined (''leader '' @ cl_addr leader @ '' refused the connection''))) False)
             else (s', Answer (Inl (Indeterminate 504
               (''no answer from leader '' @ cl_addr leader @ '': '' @ te_Err te))) False)))"

text \<open>\<open>allowed\<close> says which configurations arrive.\<close>

inductive forward_step ::
  "(string \<Rightarrow> url option) \<Rightarrow> (Config \<Rightarrow> bool) \<Rightarrow> forward_system \<Rightarrow> forward_system \<Rightarrow> bool" for parse allowed where
  arrive: "forward_step parse allowed Y (Y\<lparr>fy_requests := fy_requests Y @ [Begun req]\<rparr>)"
| role: "i < length (fy_requests Y) \<Longrightarrow> fy_requests Y ! i = Begun req \<Longrightarrow>
    forward_step parse allowed Y (put Y i (fy_node Y) (read_role (fy_node Y) req))"
| local: "i < length (fy_requests Y) \<Longrightarrow> fy_requests Y ! i = Local req \<Longrightarrow>
    single_Apply (fs_local (fy_node Y)) req = (r, d) \<Longrightarrow>
    forward_step parse allowed Y (put Y i ((fy_node Y)\<lparr>fs_local := d\<rparr>) (Answer r False))"
| answered: "i < length (fy_requests Y) \<Longrightarrow> fy_requests Y ! i = Sent req c promoted \<Longrightarrow>
    after_send req c promoted r (fy_node Y) = (s, q) \<Longrightarrow>
    forward_step parse allowed Y (put Y i s q)"
| cache: "i < length (fy_requests Y) \<Longrightarrow> fy_requests Y ! i = Serving req \<Longrightarrow>
    serveFromCache req (fy_node Y) = (resp, s) \<Longrightarrow>
    forward_step parse allowed Y (put Y i s (Answer (Inr resp) True))"
| configure: "allowed cfg \<Longrightarrow> forward_Configure parse cfg (fy_node Y) = (err, s) \<Longrightarrow>
    forward_step parse allowed Y (Y\<lparr>fy_node := s\<rparr>)"

definition forward_runs ::
  "(string \<Rightarrow> url option) \<Rightarrow> (Config \<Rightarrow> bool) \<Rightarrow> forward_system \<Rightarrow> forward_system \<Rightarrow> bool" where
  "forward_runs parse allowed = (forward_step parse allowed)\<^sup>*\<^sup>*"

section \<open>A follower without promotion keeps nothing\<close>

definition never_promotes :: "Config \<Rightarrow> bool" where
  "never_promotes cfg \<longleftrightarrow> cf_Promote cfg \<noteq> Some True"

definition plain :: "forward \<Rightarrow> bool" where
  "plain s \<longleftrightarrow> \<not> fs_promote s \<and> \<not> fs_promoted s \<and> fs_cache s = Map.empty"

definition honest :: "request_state \<Rightarrow> bool" where
  "honest r \<longleftrightarrow> (case r of Sent _ _ p \<Rightarrow> \<not> p | Serving _ \<Rightarrow> False | Answer _ c \<Rightarrow> \<not> c | _ \<Rightarrow> True)"

lemma plain_new: "plain (NewForwardStore parse addr)"
  by (simp add: plain_def NewForwardStore_def)

lemma plain_succeeded: "plain s \<Longrightarrow> plain (forwardSucceeded req resp s)"
  by (simp add: plain_def forwardSucceeded_def Let_def)

lemma plain_failed: "plain s \<Longrightarrow> forwardFailed s = (b, s') \<Longrightarrow> \<not> b \<and> plain s'"
  by (auto simp: plain_def forwardFailed_def Let_def)

lemma plain_configure:
  "plain s \<Longrightarrow> never_promotes cfg \<Longrightarrow> forward_Configure parse cfg s = (err, s') \<Longrightarrow> plain s'"
  by (auto simp: plain_def never_promotes_def forward_Configure_def Let_def split: option.splits if_splits)

lemma plain_after_send:
  "plain s \<Longrightarrow> after_send req c False r s = (s', q) \<Longrightarrow> plain s' \<and> honest q"
  by (auto simp: after_send_def honest_def plain_succeeded dest: plain_failed
      split: sum.splits prod.splits if_splits)

definition plain_system :: "forward_system \<Rightarrow> bool" where
  "plain_system Y \<longleftrightarrow> plain (fy_node Y) \<and> (\<forall>r \<in> set (fy_requests Y). honest r)"

lemma plain_put:
  "plain_system Y \<Longrightarrow> plain s \<Longrightarrow> honest q \<Longrightarrow> plain_system (put Y i s q)"
  using set_update_subset_insert [of "fy_requests Y" i q] by (auto simp: plain_system_def put_def)

lemma plain_step:
  assumes "forward_step parse never_promotes Y Z" "plain_system Y"
  shows "plain_system Z"
  using assms(1)
proof (cases rule: forward_step.cases)
  case (arrive req)
  with assms(2) show ?thesis by (simp add: plain_system_def honest_def)
next
  case (role i req)
  have p: "\<not> fs_promoted (fy_node Y)" using assms(2) by (simp add: plain_system_def plain_def)
  show ?thesis
    unfolding role(1)
    by (rule plain_put [OF assms(2)])
      (use assms(2) p in \<open>auto simp: plain_system_def honest_def read_role_def split: option.split\<close>)
next
  case (local i req r d)
  show ?thesis
    unfolding local(1)
    by (rule plain_put [OF assms(2)]) (use assms(2) in \<open>auto simp: plain_system_def plain_def honest_def\<close>)
next
  case (answered i req c promoted r s q)
  have "Sent req c promoted \<in> set (fy_requests Y)" using answered(2,3) nth_mem by metis
  then have "\<not> promoted" using assms(2) by (auto simp: plain_system_def honest_def)
  then have "after_send req c False r (fy_node Y) = (s, q)" using answered(4) by simp
  with plain_after_send assms(2) show ?thesis
    unfolding answered(1) by (intro plain_put [OF assms(2)]) (auto simp: plain_system_def)
next
  case (cache i req resp s)
  have "Serving req \<in> set (fy_requests Y)" using cache(2,3) nth_mem by metis
  then show ?thesis using assms(2) by (auto simp: plain_system_def honest_def)
next
  case (configure cfg err s)
  with plain_configure assms(2) show ?thesis by (auto simp: plain_system_def)
qed

lemma plain_runs:
  "forward_runs parse never_promotes Y Z \<Longrightarrow> plain_system Y \<Longrightarrow> plain_system Z"
  unfolding forward_runs_def by (induction rule: rtranclp_induct) (auto intro: plain_step)

section \<open>What a follower may claim\<close>

text \<open>A refusal of its own is sent only when nothing reached the leader.\<close>

lemma after_send_declined:
  assumes "after_send req c promoted r s = (s', Answer (Inr resp) b)" "\<not> p_OK resp"
  shows "r = Inr resp \<or> (\<exists>te. r = Inl te \<and> te_NeverSent te)"
  using assms by (auto simp: after_send_def split: sum.splits prod.splits if_splits)

lemma after_send_unknown:
  assumes "r = Inl te" "\<not> te_NeverSent te" "after_send req c promoted r s = (s', q)"
  shows "(\<exists>msg. q = Answer (Inl (Indeterminate 504 msg)) False) \<or> q = Serving req \<and> fs_promoted s' \<or>
    q = Serving req \<and> promoted"
  using assms by (auto simp: after_send_def forwardFailed_def Let_def split: prod.splits if_splits)

text \<open>Promotion takes \<open>promoteAfter\<close> failures in a row, and a success takes it back.\<close>

lemma forwardFailed_promotes:
  assumes "forwardFailed s = (b, s')" "\<not> fs_promoted s" "fs_promoted s'"
  shows "fs_promote s" "fs_promoteAfter s \<le> fs_failures s + 1"
  using assms by (auto simp: forwardFailed_def Let_def split: if_splits)

lemma forwardSucceeded_demotes:
  "\<not> fs_promoted (forwardSucceeded req resp s)" "fs_failures (forwardSucceeded req resp s) = 0"
  by (auto simp: forwardSucceeded_def Let_def split: Kind.split option.split)

fun fail_times :: "nat \<Rightarrow> forward \<Rightarrow> forward" where
  "fail_times 0 s = s"
| "fail_times (Suc n) s = snd (forwardFailed (fail_times n s))"

lemma fail_times_eq:
  assumes "fs_promote s" "\<not> fs_promoted s" "fs_failures s = 0" "1 \<le> fs_promoteAfter s"
  shows "fs_failures (fail_times n s) = int n \<and> fs_promote (fail_times n s) \<and>
    fs_promoteAfter (fail_times n s) = fs_promoteAfter s \<and>
    (fs_promoted (fail_times n s) \<longleftrightarrow> fs_promoteAfter s \<le> int n)"
  using assms by (induction n) (auto simp: forwardFailed_def Let_def)

text \<open>
  A configuration the node refuses changes nothing, and one that switches promotion off makes the
  node plain.
\<close>

lemma forward_Configure_refused: "forward_Configure parse cfg s = (Some e, s') \<Longrightarrow> s' = s"
  by (auto simp: forward_Configure_def Let_def split: option.splits if_splits)

lemma forward_Configure_off:
  "cf_Promote cfg = Some False \<Longrightarrow> forward_Configure parse cfg s = (None, s') \<Longrightarrow> plain s'"
  by (auto simp: forward_Configure_def Let_def plain_def split: option.splits if_splits)

text \<open>
  But a request that was sent while the node was promoted is still answered from the cache, and
  puts its write there.
\<close>

lemma served_after_switching_off:
  assumes "fs_leader s = Some c" "fs_promoted s" "cf_Promote cfg = Some False"
    "cf_PromoteAfter cfg = None" "cf_Leader cfg = None" "q_Kind req = Write"
  shows "\<exists>s1 Y. forward_Configure parse cfg s = (None, s1) \<and> plain s1 \<and>
    forward_runs parse (\<lambda>x. x = cfg) \<lparr>fy_node = s1, fy_requests = [Sent req c True]\<rparr> Y \<and>
    fy_requests Y = [Answer (Inr WriteOK) True] \<and> fs_cache (fy_node Y) \<noteq> Map.empty"
proof -
  define s1 where "s1 = s\<lparr>fs_promote := False, fs_promoted := False, fs_failures := 0, fs_cache := Map.empty\<rparr>"
  have c: "forward_Configure parse cfg s = (None, s1)"
    using assms by (simp add: forward_Configure_def Let_def s1_def)
  let ?Y0 = "\<lparr>fy_node = s1, fy_requests = [Sent req c True]\<rparr>"
  let ?te = "\<lparr>te_NeverSent = False, te_Err = []\<rparr>"
  obtain s2 where s2: "after_send req c True (Inl ?te) s1 = (s2, Serving req)" "fs_cache s2 = Map.empty"
    by (auto simp: after_send_def forwardFailed_def Let_def s1_def)
  have "forward_step parse (\<lambda>x. x = cfg) ?Y0 (put ?Y0 0 s2 (Serving req))"
    by (rule forward_step.answered [of 0 _ req c True "Inl ?te"]) (use s2 in simp_all)
  moreover have "serveFromCache req s2 = (WriteOK, s2\<lparr>fs_cache := [q_Key req \<mapsto> q_Value req]\<rparr>)"
    using assms(6) s2(2) by (simp add: serveFromCache_def Let_def)
  then have "forward_step parse (\<lambda>x. x = cfg) (put ?Y0 0 s2 (Serving req))
      (put (put ?Y0 0 s2 (Serving req)) 0 (s2\<lparr>fs_cache := [q_Key req \<mapsto> q_Value req]\<rparr>) (Answer (Inr WriteOK) True))"
    by (intro forward_step.cache [of 0 _ req]) (simp_all add: put_def)
  ultimately have "forward_runs parse (\<lambda>x. x = cfg) ?Y0
      (put (put ?Y0 0 s2 (Serving req)) 0 (s2\<lparr>fs_cache := [q_Key req \<mapsto> q_Value req]\<rparr>) (Answer (Inr WriteOK) True))"
    unfolding forward_runs_def by (meson r_into_rtranclp rtranclp_trans)
  moreover have "plain s1" by (simp add: plain_def s1_def)
  ultimately show ?thesis using c by (intro exI conjI) (auto simp: put_def)
qed

end
