(* ===== verification/Quorum_Store.thy ===== *)
theory Quorum_Store
  imports Forward_Store
begin

text \<open>
  \<open>internal/kv/quorum.go\<close>: the store that answers locally and gossips. What it promises is not
  linearizability but convergence, stated by the locale \<open>merge_store\<close>: taking updates in is
  commutative and idempotent, so nodes that have seen the same updates agree. The background
  workers are the queues of \<open>fanout\<close> and the steps \<open>fan_send\<close>, \<open>pump\<close> and \<open>fan_close\<close>.
\<close>

section \<open>Versions\<close>

record qentry =
  qe_value :: int
  qe_stamp :: int64
  qe_node :: string

definition dominates :: "qentry \<Rightarrow> qentry \<Rightarrow> bool" where
  "dominates e f \<longleftrightarrow>
     (if qe_stamp e \<noteq> qe_stamp f then qe_stamp e > qe_stamp f else qe_node e > qe_node f)"

record replication =
  rp_Key :: string
  rp_Value :: int
  rp_Stamp :: int64
  rp_Node :: string

type_synonym qdata = "string \<Rightarrow> qentry option"

text \<open>A key never written reads as the zero entry.\<close>

definition quorum_get :: "qdata \<Rightarrow> string \<Rightarrow> qentry" where
  "quorum_get d k = (case d k of Some e \<Rightarrow> e | None \<Rightarrow> \<lparr>qe_value = 0, qe_stamp = 0, qe_node = []\<rparr>)"

definition stampFor :: "int64 \<Rightarrow> qdata \<Rightarrow> string \<Rightarrow> int64" where
  "stampFor now d k =
     (case d k of
        Some held \<Rightarrow> if now \<le> qe_stamp held then wrap64 (qe_stamp held + 1) else now
      | None \<Rightarrow> now)"

definition applyReplication :: "replication \<Rightarrow> qdata \<Rightarrow> bool \<times> qdata" where
  "applyReplication u d =
     (let next = \<lparr>qe_value = rp_Value u, qe_stamp = rp_Stamp u, qe_node = rp_Node u\<rparr> in
      case d (rp_Key u) of
        Some held \<Rightarrow> if \<not> dominates next held then (False, d) else (True, d(rp_Key u \<mapsto> next))
      | None \<Rightarrow> (True, d(rp_Key u \<mapsto> next)))"

definition handleReplicate :: "(string \<Rightarrow> replication option) \<Rightarrow> string \<Rightarrow> qdata \<Rightarrow> Response \<times> qdata" where
  "handleReplicate parse body d =
     (case parse (take maxRequestBytes body) of
        None \<Rightarrow> (Declined ''malformed replication'', d)
      | Some u \<Rightarrow>
          if rp_Key u = [] \<or> rp_Node u = []
          then (Declined ''a replication needs both a key and a node'', d)
          else (WriteOK, snd (applyReplication u d)))"

section \<open>The fan-out\<close>

definition fanoutQueue :: nat where
  "fanoutQueue = 256"

record fanout =
  fo_queues :: "(string \<times> replication list) list"
  fo_closed :: bool

definition newFanout :: "string list \<Rightarrow> fanout" where
  "newFanout peers = \<lparr>fo_queues = map (\<lambda>a. (a, [])) (filter (\<lambda>a. a \<noteq> []) peers), fo_closed = False\<rparr>"

definition fan_send :: "replication \<Rightarrow> fanout \<Rightarrow> fanout" where
  "fan_send u f =
     (if fo_closed f then f
      else f\<lparr>fo_queues := map (\<lambda>(a, q). (a, if length q < fanoutQueue then q @ [u] else q)) (fo_queues f)\<rparr>)"

text \<open>
  One turn of a worker: the update it takes and whether it posts it. After \<open>close\<close> the rest of the
  queue is drained without sending.
\<close>

definition pump :: "nat \<Rightarrow> fanout \<Rightarrow> (string \<times> replication) option \<times> fanout" where
  "pump i f =
     (if i < length (fo_queues f) then
        (case fo_queues f ! i of
           (a, []) \<Rightarrow> (None, f)
         | (a, u # q) \<Rightarrow>
             (if fo_closed f then None else Some (a, u), f\<lparr>fo_queues := (fo_queues f)[i := (a, q)]\<rparr>))
      else (None, f))"

definition fan_close :: "fanout \<Rightarrow> fanout" where
  "fan_close f = (if fo_closed f then f else f\<lparr>fo_closed := True\<rparr>)"

section \<open>The node\<close>

text \<open>\<open>qn_fans\<close> holds every fan-out the node has had; the current one is number \<open>qn_fan\<close>.\<close>

record qnode =
  qn_id :: string
  qn_sync :: bool
  qn_data :: qdata
  qn_fans :: "fanout list"
  qn_fan :: nat
  qn_closed :: bool

definition NewQuorumStore :: "string \<Rightarrow> string list \<Rightarrow> qnode" where
  "NewQuorumStore nid peers =
     \<lparr>qn_id = nid, qn_sync = False, qn_data = Map.empty, qn_fans = [newFanout peers], qn_fan = 0,
      qn_closed = False\<rparr>"

text \<open>
  The locked part of \<open>Apply\<close>: the reply, and the update to hand to which fan-out, waiting for it
  or not. \<open>now\<close> is what \<open>time.Now().UnixNano()\<close> reads.
\<close>

definition local_write :: "int64 \<Rightarrow> string \<Rightarrow> int \<Rightarrow> qnode \<Rightarrow> (nat \<times> bool \<times> replication) \<times> qnode" where
  "local_write now k v s =
     (let e = \<lparr>qe_value = v, qe_stamp = stampFor now (qn_data s) k, qe_node = qn_id s\<rparr> in
      ((qn_fan s, qn_sync s,
        \<lparr>rp_Key = k, rp_Value = qe_value e, rp_Stamp = qe_stamp e, rp_Node = qe_node e\<rparr>),
       s\<lparr>qn_data := (qn_data s)(k \<mapsto> e)\<rparr>))"

definition quorum_Apply ::
  "int64 \<Rightarrow> Request \<Rightarrow> qnode \<Rightarrow> Response \<times> (nat \<times> bool \<times> replication) option \<times> qnode" where
  "quorum_Apply now req s =
     (case q_Kind req of
        Write \<Rightarrow>
          (case local_write now (q_Key req) (q_Value req) s of (r, s') \<Rightarrow> (WriteOK, Some r, s'))
      | CAS \<Rightarrow>
          if qe_value (quorum_get (qn_data s) (q_Key req)) \<noteq> q_From req then (CASOK False, None, s)
          else (case local_write now (q_Key req) (q_To req) s of (r, s') \<Rightarrow> (CASOK True, Some r, s'))
      | _ \<Rightarrow> (ReadOK (qe_value (quorum_get (qn_data s) (q_Key req))), None, s))"

text \<open>The posts \<open>broadcast\<close> makes, one to every peer; it waits for them and ignores what they answer.\<close>

definition broadcast :: "replication \<Rightarrow> fanout \<Rightarrow> (string \<times> replication) list" where
  "broadcast u f = (if fo_closed f then [] else map (\<lambda>(a, q). (a, u)) (fo_queues f))"

text \<open>
  \<open>replicate\<close>: in synchronous mode the posts made to every peer, whatever they answer; otherwise
  the queues.
\<close>

definition replicate_update :: "nat \<times> bool \<times> replication \<Rightarrow> qnode \<Rightarrow> (string \<times> replication) list \<times> qnode" where
  "replicate_update r s =
     (case r of (k, synchronous, u) \<Rightarrow>
        let f = qn_fans s ! k in
        if synchronous then (broadcast u f, s)
        else ([], s\<lparr>qn_fans := (qn_fans s)[k := fan_send u f]\<rparr>))"

fun first_bad_peer :: "(string \<Rightarrow> url option) \<Rightarrow> string list \<Rightarrow> peer_error option" where
  "first_bad_peer parse [] = None"
| "first_bad_peer parse (a # as) =
     (if a = [] then first_bad_peer parse as
      else case peerBase parse a of Inl e \<Rightarrow> Some e | Inr _ \<Rightarrow> first_bad_peer parse as)"

definition quorum_Configure :: "(string \<Rightarrow> url option) \<Rightarrow> Config \<Rightarrow> qnode \<Rightarrow> configure_error option \<times> qnode" where
  "quorum_Configure parse cfg s =
     (case (case cf_Peers cfg of None \<Rightarrow> None | Some peers \<Rightarrow> first_bad_peer parse peers) of
        Some e \<Rightarrow> (Some (BadPeer e), s)
      | None \<Rightarrow>
          let s = (case cf_Sync cfg of None \<Rightarrow> s | Some b \<Rightarrow> s\<lparr>qn_sync := b\<rparr>) in
          (case cf_Peers cfg of
             None \<Rightarrow> (None, s)
           | Some peers \<Rightarrow>
               if qn_closed s then (Some ShuttingDown, s)
               else (None, s\<lparr>qn_fans := (qn_fans s)[qn_fan s := fan_close (qn_fans s ! qn_fan s)] @ [newFanout peers],
                 qn_fan := length (qn_fans s)\<rparr>)))"

definition quorum_Close :: "qnode \<Rightarrow> qnode" where
  "quorum_Close s =
     (if qn_closed s then s
      else s\<lparr>qn_closed := True, qn_fans := (qn_fans s)[qn_fan s := fan_close (qn_fans s ! qn_fan s)]\<rparr>)"

section \<open>Last writer wins\<close>

definition version :: "qentry \<Rightarrow> int64 \<times> string" where
  "version e = (qe_stamp e, qe_node e)"

lemma dominates_version: "dominates e f \<longleftrightarrow> version f < version e"
  by (auto simp: dominates_def version_def)

interpretation last_writer: keyed_less "\<lambda>a b. dominates b a" version
  by unfold_locales (simp add: dominates_version)

definition entry_of :: "replication \<Rightarrow> qentry" where
  "entry_of u = \<lparr>qe_value = rp_Value u, qe_stamp = rp_Stamp u, qe_node = rp_Node u\<rparr>"

definition take_update :: "replication \<Rightarrow> qdata \<Rightarrow> qdata" where
  "take_update u d = snd (applyReplication u d)"

lemma take_update_eq:
  "take_update u d =
     (case d (rp_Key u) of
        Some held \<Rightarrow> if version held < version (entry_of u) then d(rp_Key u \<mapsto> entry_of u) else d
      | None \<Rightarrow> d(rp_Key u \<mapsto> entry_of u))"
  by (auto simp: take_update_def applyReplication_def dominates_version entry_of_def Let_def split: option.split)

text \<open>A version names one update.\<close>

definition consistent :: "replication \<Rightarrow> replication \<Rightarrow> bool" where
  "consistent u v \<longleftrightarrow> rp_Key u = rp_Key v \<longrightarrow> version (entry_of u) = version (entry_of v) \<longrightarrow> u = v"

lemma take_update_commute:
  assumes "consistent u v"
  shows "take_update u (take_update v d) = take_update v (take_update u d)"
proof (cases "rp_Key u = rp_Key v")
  case True
  show ?thesis
  proof (cases "version (entry_of u) = version (entry_of v)")
    case True
    with \<open>rp_Key u = rp_Key v\<close> assms have "u = v" by (simp add: consistent_def)
    then show ?thesis by simp
  next
    case False
    with \<open>rp_Key u = rp_Key v\<close> show ?thesis
      by (cases "d (rp_Key v)") (auto simp: take_update_eq fun_upd_twist)
  qed
next
  case False
  then show ?thesis by (auto simp: take_update_eq fun_upd_twist split: option.split)
qed

lemma take_update_idem: "take_update u (take_update u d) = take_update u d"
  by (auto simp: take_update_eq split: option.split)

locale merge_store =
  fixes merge :: "'u \<Rightarrow> 'd \<Rightarrow> 'd" and ok :: "'u \<Rightarrow> 'u \<Rightarrow> bool"
  assumes commute: "ok u v \<Longrightarrow> merge u (merge v d) = merge v (merge u d)"
    and idem: "merge u (merge u d) = merge u d"
begin

lemma converge:
  assumes "\<forall>u \<in> set us. \<forall>v \<in> set us. ok u v" "mset us = mset vs"
  shows "fold merge us d = fold merge vs d"
proof -
  have "fold merge us = fold merge vs"
  proof (rule fold_multiset_equiv [OF _ assms(2)])
    show "merge u \<circ> merge v = merge v \<circ> merge u" if "u \<in> set us" "v \<in> set us" for u v
      using assms(1) commute that by (simp add: fun_eq_iff)
  qed
  then show ?thesis by simp
qed

lemma push: "\<forall>v \<in> set us. ok u v \<Longrightarrow> merge u (fold merge us d) = fold merge us (merge u d)"
  by (induction us arbitrary: d) (simp_all add: commute)

lemma absorb:
  assumes "\<forall>v \<in> set us. ok u v" "u \<in> set us"
  shows "merge u (fold merge us d) = fold merge us d"
  using assms
proof (induction us arbitrary: d)
  case Nil
  then show ?case by simp
next
  case (Cons v us)
  show ?case
  proof (cases "u \<in> set us")
    case True
    with Cons show ?thesis by simp
  next
    case False
    with Cons.prems have "v = u" by simp
    with push [of us u "merge u d"] Cons.prems(1) show ?thesis by (simp add: idem)
  qed
qed

lemma fold_remdups:
  "\<forall>u \<in> set us. \<forall>v \<in> set us. ok u v \<Longrightarrow> fold merge us d = fold merge (remdups us) d"
proof (induction us arbitrary: d)
  case (Cons w us)
  show ?case
  proof (cases "w \<in> set us")
    case True
    have "fold merge us (merge w d) = merge w (fold merge us d)"
      by (rule push [symmetric]) (use Cons.prems in simp)
    also have "\<dots> = fold merge us d" by (rule absorb) (use Cons.prems True in auto)
    finally show ?thesis using Cons True by simp
  next
    case False
    with Cons show ?thesis by simp
  qed
qed simp

lemma agree:
  assumes "\<forall>u \<in> set us. \<forall>v \<in> set us. ok u v" "set us = set vs"
  shows "fold merge us d = fold merge vs d"
proof -
  have "mset (remdups us) = mset (remdups vs)"
    using assms(2) by (simp add: set_eq_iff_mset_remdups_eq)
  then have "fold merge (remdups us) d = fold merge (remdups vs) d"
    by (intro converge) (use assms(1) in auto)
  with fold_remdups [of us d] fold_remdups [of vs d] assms show ?thesis by simp
qed

end

interpretation gossip: merge_store take_update consistent
  by unfold_locales (rule take_update_commute, assumption, rule take_update_idem)

section \<open>A node's own writes\<close>

lemma stampFor_beats:
  assumes "d k = Some held" "qe_stamp held < max_int64" "min_int64 \<le> qe_stamp held"
  shows "qe_stamp held < stampFor now d k"
  using assms by (auto simp: stampFor_def wrap64_id)

lemma local_write_dominates:
  assumes "local_write now k v s = ((f, sy, u), s')"
    and "\<And>held. qn_data s k = Some held \<Longrightarrow> qe_stamp held < max_int64 \<and> min_int64 \<le> qe_stamp held"
  shows "qn_data s' = take_update u (qn_data s)" "qn_data s' k = Some (entry_of u)" "rp_Value u = v"
proof -
  from assms(1) have u: "u = \<lparr>rp_Key = k, rp_Value = v, rp_Stamp = stampFor now (qn_data s) k, rp_Node = qn_id s\<rparr>"
    and s': "s' = s\<lparr>qn_data := (qn_data s)(k \<mapsto> entry_of u)\<rparr>"
    by (auto simp: local_write_def Let_def entry_of_def)
  show "qn_data s' k = Some (entry_of u)" "rp_Value u = v" using s' u by simp_all
  show "qn_data s' = take_update u (qn_data s)"
  proof (cases "qn_data s k")
    case (Some held)
    with assms(2) have "qe_stamp held < stampFor now (qn_data s) k" by (intro stampFor_beats) auto
    with Some u s' show ?thesis by (simp add: take_update_eq version_def entry_of_def)
  qed (use u s' in \<open>simp add: take_update_eq\<close>)
qed

section \<open>Bounded queues\<close>

definition bounded_fan :: "fanout \<Rightarrow> bool" where
  "bounded_fan f \<longleftrightarrow> (\<forall>(a, q) \<in> set (fo_queues f). length q \<le> fanoutQueue)"

lemma bounded_fan_steps:
  "bounded_fan (newFanout peers)"
  "bounded_fan f \<Longrightarrow> bounded_fan (fan_send u f)"
  "bounded_fan f \<Longrightarrow> bounded_fan (snd (pump i f))"
  "bounded_fan f \<Longrightarrow> bounded_fan (fan_close f)"
proof -
  show "bounded_fan (newFanout peers)" by (auto simp: bounded_fan_def newFanout_def)
  show "bounded_fan f \<Longrightarrow> bounded_fan (fan_send u f)" by (auto simp: bounded_fan_def fan_send_def)
  show "bounded_fan f \<Longrightarrow> bounded_fan (fan_close f)" by (auto simp: bounded_fan_def fan_close_def)
  assume b: "bounded_fan f"
  show "bounded_fan (snd (pump i f))"
  proof (cases "i < length (fo_queues f) \<and> (\<exists>a u q. fo_queues f ! i = (a, u # q))")
    case True
    then obtain a u q where q: "i < length (fo_queues f)" "fo_queues f ! i = (a, u # q)" by blast
    then have "(a, u # q) \<in> set (fo_queues f)" by (metis nth_mem)
    with b q show ?thesis
      using set_update_subset_insert [of "fo_queues f" i "(a, q)"] by (fastforce simp: bounded_fan_def pump_def)
  next
    case False
    then have "snd (pump i f) = f" by (auto simp: pump_def split: prod.split list.split)
    with b show ?thesis by simp
  qed
qed

lemma pump_closed: "fo_closed f \<Longrightarrow> fst (pump i f) = None"
  by (auto simp: pump_def split: prod.split list.split)

lemma quorum_Close_idem: "quorum_Close (quorum_Close s) = quorum_Close s"
  by (simp add: quorum_Close_def)

text \<open>A read answers from what this node holds; no configuration changes that.\<close>

lemma quorum_read_local:
  "q_Kind req = Read \<Longrightarrow>
   quorum_Apply now req s = (ReadOK (qe_value (quorum_get (qn_data s) (q_Key req))), None, s)"
  by (simp add: quorum_Apply_def)

lemma quorum_Configure_data: "quorum_Configure parse cfg s = (e, s') \<Longrightarrow> qn_data s' = qn_data s"
  by (auto simp: quorum_Configure_def Let_def split: option.splits if_splits)

end
