(* ===== verification/Gossip_Run.thy ===== *)
theory Gossip_Run
  imports Quorum_Store Store_Run
begin

text \<open>
  Clients against the whole store of \<open>internal/kv/quorum.go\<close>: nodes that answer from their own maps
  and post what they wrote to each other, through proxies that may delay a post or lose it. The
  critical sections of \<open>Apply\<close>, the queues and their workers are those of \<open>Quorum_Store\<close>; here they
  run interleaved, with \<open>Client.Do\<close> at one end and \<open>handleReplicate\<close> at the other.

  Two results. Nodes that every update has reached hold the same data, whatever was lost, delayed,
  reconfigured or closed on the way and however the wall clocks drift. And in synchronous mode, when
  nothing goes wrong and clients take turns, the nodes together look like one store behind one lock
  (\<open>Store_Run\<close>): the control group of an experiment.
\<close>

section \<open>A cluster and what is under way in it\<close>

text \<open>Who waits for a post to return: a client's request, or worker \<open>i\<close> of fan-out \<open>k\<close> of a node.\<close>

datatype waiter = Caller nat | Worker nat nat nat

text \<open>One \<open>postJSON\<close>: whether the peer has handled it, and whether it has returned to its waiter.\<close>

record post =
  pt_addr :: string
  pt_update :: replication
  pt_waiter :: waiter
  pt_there :: bool
  pt_back :: bool

text \<open>Where \<open>Apply\<close> has got to; \<open>Handing\<close> is between its lock and \<open>replicate\<close>.\<close>

datatype apply_phase = Arriving | Handing Response "nat \<times> bool \<times> replication" | Replied Response

record call =
  gc_process :: int
  gc_request :: Request
  gc_invoke :: int64
  gc_node :: nat
  gc_phase :: apply_phase
  gc_update :: "replication option"
  gc_op :: "Op option"

record gossip =
  gs_nodes :: "qnode list"
  gs_now :: int
  gs_calls :: "call list"
  gs_posts :: "post list"

text \<open>The nodes as the harness configures them before the clients start.\<close>

definition configured :: "(string \<Rightarrow> url option) \<Rightarrow> bool \<Rightarrow> string \<times> string list \<Rightarrow> qnode" where
  "configured parse sync = (\<lambda>(nid, peers). snd (quorum_Configure parse
     \<lparr>cf_Leader = None, cf_Peers = Some peers, cf_Sync = Some sync, cf_Promote = None, cf_PromoteAfter = None\<rparr>
     (NewQuorumStore nid [])))"

definition gossip_start :: "(string \<Rightarrow> url option) \<Rightarrow> bool \<Rightarrow> (string \<times> string list) list \<Rightarrow> gossip" where
  "gossip_start parse sync plan =
     \<lparr>gs_nodes = map (configured parse sync) plan, gs_now = 0, gs_calls = [], gs_posts = []\<rparr>"

definition put_call :: "gossip \<Rightarrow> nat \<Rightarrow> call \<Rightarrow> gossip" where
  "put_call W i c = W\<lparr>gs_calls := (gs_calls W)[i := c]\<rparr>"

definition put_node :: "gossip \<Rightarrow> nat \<Rightarrow> qnode \<Rightarrow> gossip" where
  "put_node W n s = W\<lparr>gs_nodes := (gs_nodes W)[n := s]\<rparr>"

definition put_post :: "gossip \<Rightarrow> nat \<Rightarrow> post \<Rightarrow> gossip" where
  "put_post W i p = W\<lparr>gs_posts := (gs_posts W)[i := p]\<rparr>"

text \<open>New posts leave.\<close>

definition launch :: "waiter \<Rightarrow> (string \<times> replication) list \<Rightarrow> gossip \<Rightarrow> gossip" where
  "launch w ps W = W\<lparr>gs_posts := gs_posts W @
     map (\<lambda>(a, u). \<lparr>pt_addr = a, pt_update = u, pt_waiter = w, pt_there = False, pt_back = False\<rparr>) ps\<rparr>"

definition idle :: "gossip \<Rightarrow> waiter \<Rightarrow> bool" where
  "idle W w \<longleftrightarrow> (\<forall>p \<in> set (gs_posts W). pt_waiter p = w \<longrightarrow> pt_back p)"

definition end_call :: "Clock \<Rightarrow> call \<Rightarrow> int64 \<Rightarrow> TransportError + Response \<Rightarrow> call" where
  "end_call clk c now_r r = c\<lparr>gc_op := Some (Do_record clk (gc_process c) (gc_request c) (gc_invoke c) now_r r)\<rparr>"

definition still_sent :: "Op option \<Rightarrow> bool" where
  "still_sent x \<longleftrightarrow> (case x of None \<Rightarrow> True | Some op \<Rightarrow> Outcome op = Info)"

section \<open>The steps\<close>

text \<open>
  \<open>home\<close> says which node an address leads to, \<open>latest\<close> bounds what a wall clock reads, and \<open>ready\<close>
  when a client may send a request. \<open>rough\<close> is whether anything may go wrong: a post fails, a client
  gives up, a node is configured again or shuts down.
\<close>

inductive gossip_step ::
  "(string \<Rightarrow> url option) \<Rightarrow> (string \<Rightarrow> nat option) \<Rightarrow> Clock \<Rightarrow> int64 \<Rightarrow> (gossip \<Rightarrow> bool) \<Rightarrow> bool \<Rightarrow> gossip \<Rightarrow> gossip \<Rightarrow> bool"
  for parse home clk latest ready rough where
  tick: "gs_now W \<le> t \<Longrightarrow> t + ck_granularity clk < max_int64 \<Longrightarrow>
    gossip_step parse home clk latest ready rough W (W\<lparr>gs_now := t\<rparr>)"
| issue: "ready W \<Longrightarrow> reading clk now_r (gs_now W) \<Longrightarrow> 0 \<le> now_r \<Longrightarrow> n < length (gs_nodes W) \<Longrightarrow>
    q_Kind req \<in> {Read, Write, CAS} \<Longrightarrow> q_Key req \<noteq> [] \<Longrightarrow>
    gossip_step parse home clk latest ready rough W (W\<lparr>gs_calls := gs_calls W @
      [\<lparr>gc_process = p, gc_request = req, gc_invoke = now_r, gc_node = n, gc_phase = Arriving,
        gc_update = None, gc_op = None\<rparr>]\<rparr>)"
| apply_op: "i < length (gs_calls W) \<Longrightarrow> c = gs_calls W ! i \<Longrightarrow> gc_phase c = Arriving \<Longrightarrow> still_sent (gc_op c) \<Longrightarrow>
    min_int64 \<le> stamp \<Longrightarrow> stamp \<le> latest \<Longrightarrow>
    quorum_Apply stamp (gc_request c) (gs_nodes W ! gc_node c) = (resp, r, s) \<Longrightarrow>
    gossip_step parse home clk latest ready rough W (put_call (put_node W (gc_node c) s) i
      (c\<lparr>gc_phase := (case r of None \<Rightarrow> Replied resp | Some x \<Rightarrow> Handing resp x),
         gc_update := map_option (\<lambda>(k, sy, u). u) r\<rparr>))"
| hand: "i < length (gs_calls W) \<Longrightarrow> c = gs_calls W ! i \<Longrightarrow> gc_phase c = Handing resp r \<Longrightarrow>
    replicate_update r (gs_nodes W ! gc_node c) = (ps, s) \<Longrightarrow>
    gossip_step parse home clk latest ready rough W
      (launch (Caller i) ps (put_call (put_node W (gc_node c) s) i (c\<lparr>gc_phase := Replied resp\<rparr>)))"
| work: "n < length (gs_nodes W) \<Longrightarrow> s = gs_nodes W ! n \<Longrightarrow> k < length (qn_fans s) \<Longrightarrow> idle W (Worker n k i) \<Longrightarrow>
    pump i (qn_fans s ! k) = (p, f) \<Longrightarrow>
    gossip_step parse home clk latest ready rough W
      (launch (Worker n k i) (case p of None \<Rightarrow> [] | Some x \<Rightarrow> [x])
        (put_node W n (s\<lparr>qn_fans := (qn_fans s)[k := f]\<rparr>)))"
| deliver: "i < length (gs_posts W) \<Longrightarrow> p = gs_posts W ! i \<Longrightarrow> \<not> pt_there p \<Longrightarrow>
    home (pt_addr p) = Some m \<Longrightarrow> m < length (gs_nodes W) \<Longrightarrow> s = gs_nodes W ! m \<Longrightarrow>
    handleReplicate (\<lambda>_. Some (pt_update p)) body (qn_data s) = (resp, d) \<Longrightarrow>
    gossip_step parse home clk latest ready rough W
      (put_post (put_node W m (s\<lparr>qn_data := d\<rparr>)) i (p\<lparr>pt_there := True\<rparr>))"
| returned: "i < length (gs_posts W) \<Longrightarrow> p = gs_posts W ! i \<Longrightarrow> pt_there p \<Longrightarrow>
    gossip_step parse home clk latest ready rough W (put_post W i (p\<lparr>pt_back := True\<rparr>))"
| failed: "rough \<Longrightarrow> i < length (gs_posts W) \<Longrightarrow> p = gs_posts W ! i \<Longrightarrow>
    gossip_step parse home clk latest ready rough W (put_post W i (p\<lparr>pt_back := True\<rparr>))"
| configure: "rough \<Longrightarrow> n < length (gs_nodes W) \<Longrightarrow> quorum_Configure parse cfg (gs_nodes W ! n) = (err, s) \<Longrightarrow>
    gossip_step parse home clk latest ready rough W (put_node W n s)"
| close: "rough \<Longrightarrow> n < length (gs_nodes W) \<Longrightarrow>
    gossip_step parse home clk latest ready rough W (put_node W n (quorum_Close (gs_nodes W ! n)))"
| answered: "i < length (gs_calls W) \<Longrightarrow> c = gs_calls W ! i \<Longrightarrow> gc_op c = None \<Longrightarrow> gc_phase c = Replied resp \<Longrightarrow>
    idle W (Caller i) \<Longrightarrow> reading clk now_r (gs_now W) \<Longrightarrow>
    gossip_step parse home clk latest ready rough W (put_call W i (end_call clk c now_r (Inr resp)))"
| lost: "rough \<Longrightarrow> i < length (gs_calls W) \<Longrightarrow> c = gs_calls W ! i \<Longrightarrow> gc_op c = None \<Longrightarrow>
    \<not> te_NeverSent te \<Longrightarrow> reading clk now_r (gs_now W) \<Longrightarrow>
    gossip_step parse home clk latest ready rough W (put_call W i (end_call clk c now_r (Inl te)))"
| refused: "rough \<Longrightarrow> i < length (gs_calls W) \<Longrightarrow> c = gs_calls W ! i \<Longrightarrow> gc_op c = None \<Longrightarrow> gc_phase c = Arriving \<Longrightarrow>
    te_NeverSent te \<Longrightarrow> reading clk now_r (gs_now W) \<Longrightarrow>
    gossip_step parse home clk latest ready rough W (put_call W i (end_call clk c now_r (Inl te)))"

inductive gossip_reach ::
  "(string \<Rightarrow> url option) \<Rightarrow> (string \<Rightarrow> nat option) \<Rightarrow> Clock \<Rightarrow> int64 \<Rightarrow> (gossip \<Rightarrow> bool) \<Rightarrow> bool \<Rightarrow> gossip \<Rightarrow> gossip \<Rightarrow> bool"
  for parse home clk latest ready rough W0 where
  init: "gossip_reach parse home clk latest ready rough W0 W0"
| step: "gossip_reach parse home clk latest ready rough W0 W \<Longrightarrow> gossip_step parse home clk latest ready rough W W' \<Longrightarrow>
    gossip_reach parse home clk latest ready rough W0 W'"

definition calls_over :: "gossip \<Rightarrow> bool" where
  "calls_over W \<longleftrightarrow> (\<forall>c \<in> set (gs_calls W). gc_op c \<noteq> None)"

definition gossip_history :: "gossip \<Rightarrow> History" where
  "gossip_history W = SortByInvoke (map (\<lambda>c. the (gc_op c)) (gs_calls W))"

section \<open>What the nodes have seen\<close>

definition made :: "gossip \<Rightarrow> replication list" where
  "made W = List.map_filter gc_update (gs_calls W)"

text \<open>The updates node \<open>n\<close> has taken in: those it made, and those that reached it.\<close>

definition seen :: "(string \<Rightarrow> nat option) \<Rightarrow> gossip \<Rightarrow> nat \<Rightarrow> replication set" where
  "seen home W n =
     {u. \<exists>c \<in> set (gs_calls W). gc_node c = n \<and> gc_update c = Some u} \<union>
     {u. \<exists>p \<in> set (gs_posts W). pt_there p \<and> home (pt_addr p) = Some n \<and> pt_update p = u}"

text \<open>Every update has reached every node.\<close>

definition spread :: "(string \<Rightarrow> nat option) \<Rightarrow> gossip \<Rightarrow> bool" where
  "spread home W \<longleftrightarrow> (\<forall>n < length (gs_nodes W). set (made W) \<subseteq> seen home W n)"

lemma set_made: "set (made W) = {u. \<exists>c \<in> set (gs_calls W). gc_update c = Some u}"
  by (force simp: made_def List.map_filter_def)

lemma bex_update:
  assumes "i < length xs" "P (xs ! i) \<Longrightarrow> P y"
  shows "(\<exists>x \<in> set (xs[i := y]). P x) \<longleftrightarrow> P y \<or> (\<exists>x \<in> set xs. P x)"
proof -
  have "mset (xs[i := y]) = add_mset y (mset xs - {#xs ! i#})" using assms(1) by (rule mset_update)
  moreover have "mset xs = add_mset (xs ! i) (mset xs - {#xs ! i#})" using assms(1) by simp
  ultimately have "set (xs[i := y]) = insert y (set_mset (mset xs - {#xs ! i#}))"
    "set xs = insert (xs ! i) (set_mset (mset xs - {#xs ! i#}))"
    by (metis set_mset_add_mset_insert set_mset_mset)+
  with assms(2) show ?thesis by auto
qed

lemma ball_update: "\<forall>x \<in> set xs. P x \<Longrightarrow> P y \<Longrightarrow> \<forall>x \<in> set (xs[i := y]). P x"
  using set_update_subset_insert [of xs i y] by blast

lemma length_filter_update:
  assumes "i < length xs" "\<not> P (xs ! i)" "P y"
  shows "length (filter P (xs[i := y])) = Suc (length (filter P xs))"
  using assms by (induction xs arbitrary: i) (auto simp: nth_Cons' split: nat.splits if_splits)

lemma length_made: "length (made W) = length (filter (\<lambda>c. gc_update c \<noteq> None) (gs_calls W))"
  by (simp add: made_def List.map_filter_def)

text \<open>A map that is what some updates leave when they are taken in one by one.\<close>

definition holds :: "qdata \<Rightarrow> replication set \<Rightarrow> bool" where
  "holds d U \<longleftrightarrow> (\<exists>us. set us = U \<and> d = fold take_update us Map.empty)"

lemma holds_empty: "holds Map.empty {}"
  by (auto simp: holds_def intro: exI [of _ "[]"])

lemma holds_take:
  assumes "holds d U"
  shows "holds (take_update u d) (insert u U)"
proof -
  obtain us where "set us = U" "d = fold take_update us Map.empty" using assms by (auto simp: holds_def)
  then have "set (us @ [u]) = insert u U" "take_update u d = fold take_update (us @ [u]) Map.empty" by simp_all
  then show ?thesis unfolding holds_def by blast
qed

lemma holds_agree:
  assumes "holds d U" "holds d' U" "\<And>u v. u \<in> U \<Longrightarrow> v \<in> U \<Longrightarrow> consistent u v"
  shows "d = d'"
proof -
  obtain us vs where "set us = U" "d = fold take_update us Map.empty" "set vs = U" "d' = fold take_update vs Map.empty"
    using assms(1,2) by (auto simp: holds_def)
  with gossip.agree [of us vs Map.empty] assms(3) show ?thesis by simp
qed

lemma take_update_keeps:
  "d k = Some e \<Longrightarrow> \<exists>e'. take_update u d k = Some e' \<and> version e \<le> version e'"
  by (auto simp: take_update_eq split: option.splits)

lemma fold_take_keeps:
  "d k = Some e \<Longrightarrow> \<exists>e'. fold take_update us d k = Some e' \<and> version e \<le> version e'"
proof (induction us arbitrary: d e)
  case (Cons u us)
  from take_update_keeps [of d k e u, OF Cons.prems] obtain e1
    where e1: "take_update u d k = Some e1" "version e \<le> version e1" by blast
  with Cons.IH [where d = "take_update u d" and e = e1] show ?case by (auto intro: order_trans)
qed simp

lemma take_update_has: "\<exists>e. take_update u d (rp_Key u) = Some e \<and> version (entry_of u) \<le> version e"
  by (cases "d (rp_Key u)") (auto simp: take_update_eq)

lemma holds_has:
  assumes "holds d U" "u \<in> U"
  shows "\<exists>e. d (rp_Key u) = Some e \<and> version (entry_of u) \<le> version e"
proof -
  obtain us where us: "u \<in> set us" "d = fold take_update us Map.empty" using assms by (auto simp: holds_def)
  then obtain xs ys where "us = xs @ u # ys" by (meson split_list)
  then have d: "d = fold take_update ys (take_update u (fold take_update xs Map.empty))" using us(2) by simp
  obtain e where e: "take_update u (fold take_update xs Map.empty) (rp_Key u) = Some e" "version (entry_of u) \<le> version e"
    using take_update_has by blast
  from fold_take_keeps [where us = ys and d = "take_update u (fold take_update xs Map.empty)", of "rp_Key u" e] e d
  show ?thesis by (auto intro: order_trans)
qed

lemma fold_take_from:
  "fold take_update us d k = Some e \<Longrightarrow> d k = Some e \<or> (\<exists>u \<in> set us. rp_Key u = k \<and> entry_of u = e)"
  by (induction us arbitrary: d) (fastforce simp: take_update_eq split: option.splits if_splits)+

lemma holds_from: "holds d U \<Longrightarrow> d k = Some e \<Longrightarrow> \<exists>u \<in> U. rp_Key u = k \<and> entry_of u = e"
  using fold_take_from [of _ Map.empty] by (fastforce simp: holds_def)

section \<open>The invariant\<close>

definition call_ok :: "int64 \<Rightarrow> gossip \<Rightarrow> call \<Rightarrow> bool" where
  "call_ok latest W c \<longleftrightarrow>
     gc_node c < length (gs_nodes W) \<and> q_Key (gc_request c) \<noteq> [] \<and> q_Kind (gc_request c) \<in> {Read, Write, CAS} \<and>
     (gc_phase c = Arriving \<longrightarrow> gc_update c = None) \<and>
     (\<forall>resp k sy u. gc_phase c = Handing resp (k, sy, u) \<longrightarrow> gc_update c = Some u) \<and>
     (\<forall>u. gc_update c = Some u \<longrightarrow>
        rp_Key u = q_Key (gc_request c) \<and> rp_Node u = qn_id (gs_nodes W ! gc_node c) \<and>
        min_int64 \<le> rp_Stamp u \<and> rp_Stamp u \<le> latest + int (length (made W)))"

text \<open>No version names two updates.\<close>

definition versions_apart :: "gossip \<Rightarrow> bool" where
  "versions_apart W \<longleftrightarrow>
     (\<forall>i < length (gs_calls W). \<forall>j < length (gs_calls W). \<forall>u v. i \<noteq> j \<longrightarrow>
        gc_update (gs_calls W ! i) = Some u \<longrightarrow> gc_update (gs_calls W ! j) = Some v \<longrightarrow>
        rp_Key u = rp_Key v \<longrightarrow> version (entry_of u) \<noteq> version (entry_of v))"

definition fan_updates :: "fanout \<Rightarrow> replication set" where
  "fan_updates f = (\<Union>(a, q) \<in> set (fo_queues f). set q)"

definition queued :: "qnode \<Rightarrow> replication set" where
  "queued s = \<Union> (fan_updates ` set (qn_fans s))"

definition gossip_ok :: "(string \<Rightarrow> nat option) \<Rightarrow> int64 \<Rightarrow> gossip \<Rightarrow> bool" where
  "gossip_ok home latest W \<longleftrightarrow>
     distinct (map qn_id (gs_nodes W)) \<and> [] \<notin> qn_id ` set (gs_nodes W) \<and>
     (\<forall>c \<in> set (gs_calls W). call_ok latest W c) \<and> versions_apart W \<and>
     (\<forall>n < length (gs_nodes W). holds (qn_data (gs_nodes W ! n)) (seen home W n)) \<and>
     (\<forall>p \<in> set (gs_posts W). pt_update p \<in> set (made W)) \<and>
     (\<forall>s \<in> set (gs_nodes W). queued s \<subseteq> set (made W))"

lemma consistent_made:
  assumes "versions_apart W" "u \<in> set (made W)" "v \<in> set (made W)"
  shows "consistent u v"
proof -
  obtain i j where "i < length (gs_calls W)" "gc_update (gs_calls W ! i) = Some u"
    "j < length (gs_calls W)" "gc_update (gs_calls W ! j) = Some v"
    using assms(2,3) by (auto simp: set_made in_set_conv_nth)
  with assms(1) show ?thesis by (cases "i = j") (auto simp: versions_apart_def consistent_def)
qed

lemma seen_made: "gossip_ok home latest W \<Longrightarrow> seen home W n \<subseteq> set (made W)"
  by (auto simp: seen_def set_made gossip_ok_def)

text \<open>Nodes that have seen the same updates hold the same data.\<close>

lemma gossip_ok_agree:
  assumes "gossip_ok home latest W" "n < length (gs_nodes W)" "m < length (gs_nodes W)"
    and "seen home W n = seen home W m"
  shows "qn_data (gs_nodes W ! n) = qn_data (gs_nodes W ! m)"
proof (rule holds_agree)
  have h: "holds (qn_data (gs_nodes W ! k)) (seen home W k)" if "k < length (gs_nodes W)" for k
    using that assms(1) by (simp add: gossip_ok_def)
  show "holds (qn_data (gs_nodes W ! n)) (seen home W n)" by (rule h [OF assms(2)])
  show "holds (qn_data (gs_nodes W ! m)) (seen home W n)" using h [OF assms(3)] assms(4) by simp
  show "consistent u v" if "u \<in> seen home W n" "v \<in> seen home W n" for u v
    using that seen_made [OF assms(1)] assms(1) by (blast intro: consistent_made dest: gossip_ok_def [THEN iffD1])
qed

lemma spread_agree:
  assumes "gossip_ok home latest W" "spread home W" "n < length (gs_nodes W)" "m < length (gs_nodes W)"
  shows "qn_data (gs_nodes W ! n) = qn_data (gs_nodes W ! m)"
proof -
  have "seen home W k = set (made W)" if "k < length (gs_nodes W)" for k
    using that assms(2) seen_made [OF assms(1)] by (auto simp: spread_def)
  with assms(3,4) show ?thesis by (intro gossip_ok_agree [OF assms(1,3,4)]) simp
qed

lemma gossip_ok_call:
  assumes "gossip_ok home latest W" "i < length (gs_calls W)" "c = gs_calls W ! i"
  shows "call_ok latest W c" "gc_node c < length (gs_nodes W)"
  using assms by (auto simp: gossip_ok_def call_ok_def)

section \<open>Steps that leave what was made and seen alone\<close>

lemma put_simps [simp]:
  "gs_nodes (put_call W i c) = gs_nodes W" "gs_posts (put_call W i c) = gs_posts W"
  "gs_calls (put_node W n s) = gs_calls W" "gs_posts (put_node W n s) = gs_posts W"
  "gs_nodes (put_node W n s) = (gs_nodes W)[n := s]"
  "gs_nodes (put_post W i p) = gs_nodes W" "gs_calls (put_post W i p) = gs_calls W"
  "gs_nodes (launch w ps W) = gs_nodes W" "gs_calls (launch w ps W) = gs_calls W"
  "gs_calls (put_call W i c) = (gs_calls W)[i := c]" "gs_posts (put_post W i p) = (gs_posts W)[i := p]"
  by (simp_all add: put_call_def put_node_def put_post_def launch_def)

lemma made_put [simp]:
  "made (put_node W n s) = made W" "made (put_post W i p) = made W" "made (launch w ps W) = made W"
  by (simp_all add: made_def)

lemma made_put_same:
  assumes "i < length (gs_calls W)" "gc_update c' = gc_update (gs_calls W ! i)"
  shows "made (put_call W i c') = made W"
proof -
  have "map gc_update ((gs_calls W)[i := c']) = map gc_update (gs_calls W)"
    using assms by (simp add: map_update list_update_same_conv)
  moreover have "made V = map the (filter (\<lambda>x. x \<noteq> None) (map gc_update (gs_calls V)))" for V
    by (simp add: made_def List.map_filter_def filter_map comp_def)
  ultimately show ?thesis by simp
qed

lemma seen_put_node [simp]: "seen home (put_node W n s) m = seen home W m"
  by (simp add: seen_def)

lemma seen_launch [simp]: "seen home (launch w ps W) m = seen home W m"
  by (auto simp: seen_def launch_def)

lemma seen_put_call:
  assumes "i < length (gs_calls W)" "gc_node c' = gc_node (gs_calls W ! i)"
    and "\<And>u. gc_update (gs_calls W ! i) = Some u \<Longrightarrow> gc_update c' = Some u"
  shows "seen home (put_call W i c') m =
    seen home W m \<union> (if gc_node c' = m then set_option (gc_update c') else {})"
proof -
  have "(\<exists>c \<in> set ((gs_calls W)[i := c']). gc_node c = m \<and> gc_update c = Some u) \<longleftrightarrow>
      (gc_node c' = m \<and> gc_update c' = Some u) \<or> (\<exists>c \<in> set (gs_calls W). gc_node c = m \<and> gc_update c = Some u)" for u
    by (rule bex_update) (use assms in auto)
  then show ?thesis by (auto simp: seen_def)
qed

lemma seen_put_post:
  assumes "i < length (gs_posts W)" "pt_addr p' = pt_addr (gs_posts W ! i)"
    "pt_update p' = pt_update (gs_posts W ! i)" "pt_there (gs_posts W ! i) \<Longrightarrow> pt_there p'"
  shows "seen home (put_post W i p') m =
    seen home W m \<union> (if pt_there p' \<and> home (pt_addr p') = Some m then {pt_update p'} else {})"
proof -
  have "(\<exists>p \<in> set ((gs_posts W)[i := p']). pt_there p \<and> home (pt_addr p) = Some m \<and> pt_update p = u) \<longleftrightarrow>
      (pt_there p' \<and> home (pt_addr p') = Some m \<and> pt_update p' = u) \<or>
      (\<exists>p \<in> set (gs_posts W). pt_there p \<and> home (pt_addr p) = Some m \<and> pt_update p = u)" for u
    by (rule bex_update) (use assms in auto)
  then show ?thesis by (auto simp: seen_def)
qed

lemma call_ok_later:
  assumes "call_ok latest W c" "map qn_id (gs_nodes V) = map qn_id (gs_nodes W)" "length (made W) \<le> length (made V)"
  shows "call_ok latest V c"
proof -
  have "length (gs_nodes V) = length (gs_nodes W)" using assms(2) by (metis length_map)
  moreover from this have "qn_id (gs_nodes V ! n) = qn_id (gs_nodes W ! n)" if "n < length (gs_nodes W)" for n
    using that assms(2) by (metis nth_map)
  ultimately show ?thesis using assms(1,3) unfolding call_ok_def by fastforce
qed

lemma ids_update: "n < length xs \<Longrightarrow> f s = f (xs ! n) \<Longrightarrow> map f (xs[n := s]) = map f xs"
  by (simp add: map_update list_update_same_conv)

lemma gossip_ok_put_call:
  assumes "gossip_ok home latest W" "i < length (gs_calls W)" "call_ok latest W c'"
    and same: "gc_node c' = gc_node (gs_calls W ! i)" "gc_update c' = gc_update (gs_calls W ! i)"
  shows "gossip_ok home latest (put_call W i c')"
proof -
  have m [simp]: "made (put_call W i c') = made W" by (rule made_put_same [OF assms(2) same(2)])
  have sub: "(if gc_node c' = n then set_option (gc_update c') else {}) \<subseteq> seen home W n" for n
    using assms(2) same by (auto simp: seen_def)
  have "seen home (put_call W i c') n = seen home W n \<union> (if gc_node c' = n then set_option (gc_update c') else {})" for n
    by (rule seen_put_call) (simp_all add: assms(2) same)
  then have sn: "seen home (put_call W i c') n = seen home W n" for n using sub [of n] by (simp only: Un_absorb2)
  have calls: "\<forall>c \<in> set ((gs_calls W)[i := c']). call_ok latest W c"
    by (rule ball_update) (use assms(1,3) in \<open>simp_all add: gossip_ok_def\<close>)
  have "call_ok latest (put_call W i c') c" if "c \<in> set ((gs_calls W)[i := c'])" for c
    by (rule call_ok_later [OF calls [rule_format, OF that]]) simp_all
  moreover have "gc_update ((gs_calls W)[i := c'] ! j) = gc_update (gs_calls W ! j)" for j
    using same(2) by (rule nth_update_same)
  then have "versions_apart (put_call W i c')" using assms(1) by (simp add: gossip_ok_def versions_apart_def)
  ultimately show ?thesis using assms(1) by (simp add: gossip_ok_def sn)
qed

lemma gossip_ok_put_node:
  assumes "gossip_ok home latest W" "n < length (gs_nodes W)"
    and same: "qn_id s = qn_id (gs_nodes W ! n)" "qn_data s = qn_data (gs_nodes W ! n)" "queued s \<subseteq> set (made W)"
  shows "gossip_ok home latest (put_node W n s)"
proof -
  have ids: "map qn_id (gs_nodes (put_node W n s)) = map qn_id (gs_nodes W)"
    using ids_update [OF assms(2) same(1)] by simp
  then have ims: "qn_id ` set (gs_nodes (put_node W n s)) = qn_id ` set (gs_nodes W)" by (metis set_map)
  have "qn_data ((gs_nodes W)[n := s] ! m) = qn_data (gs_nodes W ! m)" for m
    using same(2) by (rule nth_update_same)
  moreover have "call_ok latest (put_node W n s) c" if "c \<in> set (gs_calls W)" for c
    by (rule call_ok_later [OF _ ids]) (use assms(1) that in \<open>simp_all add: gossip_ok_def\<close>)
  moreover have "\<forall>t \<in> set ((gs_nodes W)[n := s]). queued t \<subseteq> set (made W)"
    by (rule ball_update) (use assms(1) same(3) in \<open>simp_all add: gossip_ok_def\<close>)
  moreover have "versions_apart (put_node W n s)" using assms(1) by (simp add: gossip_ok_def versions_apart_def)
  ultimately show ?thesis using assms(1) ids ims unfolding gossip_ok_def by simp
qed

lemma gossip_ok_launch:
  assumes "gossip_ok home latest W" "snd ` set ps \<subseteq> set (made W)"
  shows "gossip_ok home latest (launch w ps W)"
proof -
  have "call_ok latest (launch w ps W) c" if "c \<in> set (gs_calls W)" for c
    by (rule call_ok_later [of latest W]) (use assms(1) that in \<open>simp_all add: gossip_ok_def\<close>)
  moreover have "\<forall>p \<in> set (gs_posts W). pt_update p \<in> set (made W)" using assms(1) by (simp add: gossip_ok_def)
  then have "\<forall>p \<in> set (gs_posts (launch w ps W)). pt_update p \<in> set (made W)"
    using assms(2) by (force simp: launch_def)
  moreover have "versions_apart (launch w ps W)" using assms(1) by (simp add: gossip_ok_def versions_apart_def)
  ultimately show ?thesis using assms(1) unfolding gossip_ok_def by simp
qed

lemma gossip_ok_put_post:
  assumes "gossip_ok home latest W" "i < length (gs_posts W)"
    and same: "pt_addr p' = pt_addr (gs_posts W ! i)" "pt_update p' = pt_update (gs_posts W ! i)"
      "pt_there p' = pt_there (gs_posts W ! i)"
  shows "gossip_ok home latest (put_post W i p')"
proof -
  have p: "gs_posts W ! i \<in> set (gs_posts W)" using assms(2) by simp
  have sub: "(if pt_there p' \<and> home (pt_addr p') = Some n then {pt_update p'} else {}) \<subseteq> seen home W n" for n
    using p same by (auto simp: seen_def)
  have "seen home (put_post W i p') n =
      seen home W n \<union> (if pt_there p' \<and> home (pt_addr p') = Some n then {pt_update p'} else {})" for n
    by (rule seen_put_post) (simp_all add: assms(2) same)
  then have sn: "seen home (put_post W i p') n = seen home W n" for n using sub [of n] by (simp only: Un_absorb2)
  have "call_ok latest (put_post W i p') c" if "c \<in> set (gs_calls W)" for c
    by (rule call_ok_later [of latest W]) (use assms(1) that in \<open>simp_all add: gossip_ok_def\<close>)
  moreover have "\<forall>q \<in> set ((gs_posts W)[i := p']). pt_update q \<in> set (made W)"
    by (rule ball_update) (use assms(1) p same(2) in \<open>simp_all add: gossip_ok_def\<close>)
  moreover have "versions_apart (put_post W i p')" using assms(1) by (simp add: gossip_ok_def versions_apart_def)
  ultimately show ?thesis using assms(1) unfolding gossip_ok_def by (simp add: sn)
qed

text \<open>A post reaches a peer.\<close>

lemma gossip_ok_deliver:
  assumes ok: "gossip_ok home latest W" and i: "i < length (gs_posts W)" "p = gs_posts W ! i"
    and m: "home (pt_addr p) = Some m" "m < length (gs_nodes W)" "s = gs_nodes W ! m"
    and h: "handleReplicate (\<lambda>_. Some (pt_update p)) body (qn_data s) = (resp, d)"
  shows "gossip_ok home latest (put_post (put_node W m (s\<lparr>qn_data := d\<rparr>)) i (p\<lparr>pt_there := True\<rparr>))"
proof -
  let ?s = "s\<lparr>qn_data := d\<rparr>" and ?p = "p\<lparr>pt_there := True\<rparr>"
  let ?V = "put_post (put_node W m ?s) i ?p"
  have "p \<in> set (gs_posts W)" using i by simp
  then have u: "pt_update p \<in> set (made W)" using ok by (simp add: gossip_ok_def)
  then obtain c where c: "c \<in> set (gs_calls W)" "gc_update c = Some (pt_update p)" by (auto simp: set_made)
  then have cok: "call_ok latest W c" using ok by (simp add: gossip_ok_def)
  then have "gs_nodes W ! gc_node c \<in> set (gs_nodes W)" by (simp add: call_ok_def)
  then have "qn_id (gs_nodes W ! gc_node c) \<noteq> []" using ok unfolding gossip_ok_def by (metis imageI)
  then have full: "rp_Key (pt_update p) \<noteq> []" "rp_Node (pt_update p) \<noteq> []"
    using cok c(2) by (simp_all add: call_ok_def)
  then have d: "d = take_update (pt_update p) (qn_data s)"
    using h by (simp add: handleReplicate_def take_update_def)
  have ids: "map qn_id (gs_nodes ?V) = map qn_id (gs_nodes W)"
    using ids_update [OF m(2), of qn_id ?s] m(3) by simp
  then have ims: "qn_id ` set (gs_nodes ?V) = qn_id ` set (gs_nodes W)" by (metis set_map)
  have sn: "seen home ?V n = seen home W n \<union> (if n = m then {pt_update p} else {})" for n
    using seen_put_post [of i "put_node W m ?s" ?p home n] i m(1) by (cases "n = m") auto
  have hl: "holds (qn_data (gs_nodes W ! n)) (seen home W n)" if "n < length (gs_nodes W)" for n
    using ok that by (simp add: gossip_ok_def)
  have "holds (qn_data ((gs_nodes W)[m := ?s] ! n)) (seen home ?V n)" if "n < length (gs_nodes W)" for n
    using hl [OF that] holds_take [of "qn_data s" "seen home W m" "pt_update p"] d m(2,3)
    unfolding sn by (cases "n = m") simp_all
  moreover have "call_ok latest ?V c'" if "c' \<in> set (gs_calls W)" for c'
    by (rule call_ok_later [OF _ ids]) (use ok that in \<open>simp_all add: gossip_ok_def\<close>)
  moreover have "\<forall>t \<in> set ((gs_nodes W)[m := ?s]). queued t \<subseteq> set (made W)"
    by (rule ball_update) (use ok m in \<open>simp_all add: gossip_ok_def queued_def\<close>)
  moreover have "\<forall>q \<in> set ((gs_posts W)[i := ?p]). pt_update q \<in> set (made W)"
    by (rule ball_update) (use ok u in \<open>simp_all add: gossip_ok_def\<close>)
  moreover have "versions_apart ?V" using ok by (simp add: gossip_ok_def versions_apart_def)
  ultimately show ?thesis using ok ids ims unfolding gossip_ok_def by simp
qed

section \<open>A node applies a request\<close>

text \<open>What a node holds is an update somebody made, so its stamp is bounded.\<close>

lemma held_stamp:
  assumes "gossip_ok home latest W" "n < length (gs_nodes W)" "qn_data (gs_nodes W ! n) k = Some held"
  shows "min_int64 \<le> qe_stamp held" "qe_stamp held \<le> latest + int (length (made W))"
proof -
  have "holds (qn_data (gs_nodes W ! n)) (seen home W n)" using assms(1,2) by (simp add: gossip_ok_def)
  from holds_from [OF this assms(3)] obtain u where u: "u \<in> seen home W n" "entry_of u = held" by blast
  then have "u \<in> set (made W)" using seen_made [OF assms(1)] by blast
  then obtain c where c: "c \<in> set (gs_calls W)" "gc_update c = Some u" by (auto simp: set_made)
  then have "call_ok latest W c" using assms(1) by (simp add: gossip_ok_def)
  with c(2) u(2) show "min_int64 \<le> qe_stamp held" "qe_stamp held \<le> latest + int (length (made W))"
    by (auto simp: call_ok_def entry_of_def)
qed

text \<open>The update a node makes beats everything it made before.\<close>

lemma own_version_new:
  assumes ok: "gossip_ok home latest W" and n: "n < length (gs_nodes W)"
    and u: "rp_Key u = k" "rp_Node u = qn_id (gs_nodes W ! n)" "rp_Stamp u = stampFor stamp (qn_data (gs_nodes W ! n)) k"
    and room: "latest + int (length (made W)) < max_int64"
    and c: "c \<in> set (gs_calls W)" "gc_update c = Some v" "rp_Key v = k"
  shows "version (entry_of v) \<noteq> version (entry_of u)"
proof
  assume eq: "version (entry_of v) = version (entry_of u)"
  have cok: "call_ok latest W c" using ok c(1) by (simp add: gossip_ok_def)
  then have "gc_node c < length (gs_nodes W)" "qn_id (gs_nodes W ! gc_node c) = qn_id (gs_nodes W ! n)"
    using eq c(2) u(2) by (auto simp: call_ok_def version_def entry_of_def)
  moreover have "distinct (map qn_id (gs_nodes W))" using ok by (simp add: gossip_ok_def)
  ultimately have "gc_node c = n" using n by (metis (no_types, lifting) length_map nth_eq_iff_index_eq nth_map)
  with c have "v \<in> seen home W n" by (auto simp: seen_def)
  moreover have "holds (qn_data (gs_nodes W ! n)) (seen home W n)" using ok n by (simp add: gossip_ok_def)
  ultimately obtain held where held: "qn_data (gs_nodes W ! n) k = Some held" "version (entry_of v) \<le> version held"
    using holds_has c(3) by blast
  have "qe_stamp held < rp_Stamp u"
    unfolding u(3)
    by (rule stampFor_beats [where d = "qn_data (gs_nodes W ! n)", OF held(1)])
      (use held_stamp [OF ok n held(1)] room in simp_all)
  moreover have "rp_Stamp v \<le> qe_stamp held" using held(2) by (auto simp: version_def entry_of_def)
  ultimately show False using eq by (simp add: version_def entry_of_def)
qed

lemma stampFor_range:
  assumes ok: "gossip_ok home latest W" "n < length (gs_nodes W)"
    and room: "latest + int (length (made W)) < max_int64"
    and stamp: "min_int64 \<le> stamp" "stamp \<le> latest"
  shows "min_int64 \<le> stampFor stamp (qn_data (gs_nodes W ! n)) k"
    "stampFor stamp (qn_data (gs_nodes W ! n)) k \<le> latest + int (Suc (length (made W)))"
proof -
  have "min_int64 \<le> qe_stamp held + 1 \<and> qe_stamp held + 1 \<le> max_int64 \<and> qe_stamp held \<le> latest + int (length (made W))"
    if "qn_data (gs_nodes W ! n) k = Some held" for held
    using held_stamp [OF ok that] room by simp
  then show "min_int64 \<le> stampFor stamp (qn_data (gs_nodes W ! n)) k"
    "stampFor stamp (qn_data (gs_nodes W ! n)) k \<le> latest + int (Suc (length (made W)))"
    using stamp by (auto simp: stampFor_def wrap64_id split: option.split)
qed

lemma quorum_Apply_cases:
  assumes "quorum_Apply stamp req s = (resp, r, s')"
  obtains (silent) "r = None" "s' = s"
  | (update) k sy u v where "r = Some (k, sy, u)" "local_write stamp (q_Key req) v s = ((k, sy, u), s')"
  using assms by (auto simp: quorum_Apply_def split: Kind.splits if_splits prod.splits)

lemma gossip_ok_made:
  assumes ok: "gossip_ok home latest W" and i: "i < length (gs_calls W)" "c = gs_calls W ! i" "gc_update c = None"
    and n: "n = gc_node c" "t = gs_nodes W ! n"
    and u: "rp_Key u = q_Key (gc_request c)" "rp_Node u = qn_id t" "rp_Stamp u = stampFor stamp (qn_data t) (rp_Key u)"
    and stamp: "min_int64 \<le> stamp" "stamp \<le> latest"
    and room: "latest + int (length (made W)) < max_int64"
    and s: "s = t\<lparr>qn_data := take_update u (qn_data t)\<rparr>"
    and c': "c' = c\<lparr>gc_phase := Handing resp (k, sy, u), gc_update := Some u\<rparr>"
  shows "gossip_ok home latest (put_call (put_node W n s) i c')"
proof -
  let ?V = "put_call (put_node W n s) i c'"
  have nl: "n < length (gs_nodes W)" using gossip_ok_call [OF ok i(1,2)] n(1) by simp
  have ids: "map qn_id (gs_nodes ?V) = map qn_id (gs_nodes W)" using ids_update [OF nl, of qn_id s] n s by simp
  then have ims: "qn_id ` set (gs_nodes ?V) = qn_id ` set (gs_nodes W)" by (metis set_map)
  have len: "length (made ?V) = Suc (length (made W))"
    using length_filter_update [OF i(1), of "\<lambda>c. gc_update c \<noteq> None" c'] i(2,3) c' by (simp add: length_made)
  have made: "set (made ?V) = insert u (set (made W))"
    using bex_update [OF i(1), of "\<lambda>c. gc_update c = Some v" c' for v] i(2,3) c' by (auto simp: set_made)
  have sn: "seen home ?V m = seen home W m \<union> (if n = m then {u} else {})" for m
    using seen_put_call [of i "put_node W n s" c' home m] i n(1) c' by simp
  have "holds (qn_data ((gs_nodes W)[n := s] ! m)) (seen home ?V m)" if "m < length (gs_nodes W)" for m
    using ok that holds_take [of "qn_data t" "seen home W n" u] n s nl
    unfolding sn by (cases "m = n") (simp_all add: gossip_ok_def)
  moreover have new: "call_ok latest ?V c'"
  proof -
    have "call_ok latest W c" by (rule gossip_ok_call [OF ok i(1,2)])
    moreover have "length (gs_nodes ?V) = length (gs_nodes W)" by simp
    moreover have "qn_id (gs_nodes ?V ! gc_node c) = qn_id t" using n s nl by simp
    ultimately show ?thesis
      using u len stampFor_range [OF ok nl room stamp, of "q_Key (gc_request c)"] n
      by (simp add: call_ok_def c')
  qed
  have "\<forall>c \<in> set (gs_calls W). call_ok latest ?V c"
  proof
    fix d assume "d \<in> set (gs_calls W)"
    then have "call_ok latest W d" using ok by (simp add: gossip_ok_def)
    then show "call_ok latest ?V d" by (rule call_ok_later [OF _ ids]) (use len in simp)
  qed
  then have "\<forall>c \<in> set ((gs_calls W)[i := c']). call_ok latest ?V c" using new by (rule ball_update)
  moreover have "versions_apart ?V"
  proof -
    have apart: "version (entry_of v) \<noteq> version (entry_of u)"
      if "j < length (gs_calls W)" "gc_update (gs_calls W ! j) = Some v" "rp_Key v = rp_Key u" for j v
      by (rule own_version_new [OF ok nl refl _ _ room nth_mem [OF that(1)] that(2,3)]) (use u n in simp_all)
    have "versions_apart W" using ok by (simp add: gossip_ok_def)
    then show ?thesis
      using i c' apart by (auto simp: versions_apart_def nth_list_update) metis
  qed
  moreover have "\<forall>t \<in> set ((gs_nodes W)[n := s]). queued t \<subseteq> set (made ?V)"
  proof (rule ball_update)
    show "\<forall>t \<in> set (gs_nodes W). queued t \<subseteq> set (made ?V)" using ok made by (auto simp: gossip_ok_def)
    then have "queued t \<subseteq> set (made ?V)" using n(2) nl by simp
    then show "queued s \<subseteq> set (made ?V)" using s by (simp add: queued_def)
  qed
  moreover have "\<forall>p \<in> set (gs_posts W). pt_update p \<in> set (made ?V)" using ok made by (simp add: gossip_ok_def)
  ultimately show ?thesis using ok ids ims unfolding gossip_ok_def by simp
qed

section \<open>Every step keeps the invariant\<close>

lemma queued_update: "queued (s\<lparr>qn_fans := (qn_fans s)[k := f]\<rparr>) \<subseteq> queued s \<union> fan_updates f"
  using set_update_subset_insert [of "qn_fans s" k f] by (auto simp: queued_def)

lemma fan_updates_nth: "k < length (qn_fans s) \<Longrightarrow> fan_updates (qn_fans s ! k) \<subseteq> queued s"
  using nth_mem by (fastforce simp: queued_def)

lemma fan_updates_simps:
  "fan_updates (newFanout peers) = {}" "fan_updates (fan_close f) = fan_updates f"
  "fan_updates (fan_send u f) \<subseteq> insert u (fan_updates f)"
  by (auto simp: fan_updates_def newFanout_def fan_close_def fan_send_def split: if_splits)

lemma queued_beyond: "\<not> k < length (qn_fans s) \<Longrightarrow> queued (s\<lparr>qn_fans := (qn_fans s)[k := f]\<rparr>) = queued s"
  by (simp add: queued_def list_update_beyond)

lemma pump_updates:
  assumes "pump i f = (p, f')"
  shows "fan_updates f' \<subseteq> fan_updates f" "p = Some (a, u) \<Longrightarrow> u \<in> fan_updates f"
proof -
  have "fan_updates f' \<subseteq> fan_updates f \<and> (\<forall>a u. p = Some (a, u) \<longrightarrow> u \<in> fan_updates f)"
  proof (cases "i < length (fo_queues f)")
    case True
    obtain b q where q: "fo_queues f ! i = (b, q)" by fastforce
    have at: "(b, q) \<in> set (fo_queues f)" using True q by (metis nth_mem)
    show ?thesis
    proof (cases q)
      case Nil
      with assms q True show ?thesis by (auto simp: pump_def)
    next
      case (Cons v vs)
      then have "v \<in> fan_updates f" "set vs \<subseteq> fan_updates f"
        using UN_upper [OF at, of "\<lambda>(a, q). set q"] by (simp_all add: fan_updates_def)
      moreover have "f' = f\<lparr>fo_queues := (fo_queues f)[i := (b, vs)]\<rparr>" "p = (if fo_closed f then None else Some (b, v))"
        using assms q True Cons by (auto simp: pump_def)
      moreover from this have "set (fo_queues f') \<subseteq> insert (b, vs) (set (fo_queues f))"
        using set_update_subset_insert [of "fo_queues f" i "(b, vs)"] by simp
      then have "fan_updates f' \<subseteq> set vs \<union> fan_updates f" by (fastforce simp: fan_updates_def)
      ultimately show ?thesis by (auto split: if_splits)
    qed
  qed (use assms in \<open>simp add: pump_def\<close>)
  then show "fan_updates f' \<subseteq> fan_updates f" "p = Some (a, u) \<Longrightarrow> u \<in> fan_updates f" by simp_all
qed

lemma replicate_update_keeps:
  assumes "replicate_update (k, sy, u) s = (ps, s')"
  shows "qn_id s' = qn_id s" "qn_data s' = qn_data s" "queued s' \<subseteq> insert u (queued s)" "snd ` set ps \<subseteq> {u}"
proof -
  show "qn_id s' = qn_id s" "qn_data s' = qn_data s" "snd ` set ps \<subseteq> {u}"
    using assms by (auto simp: replicate_update_def broadcast_def Let_def split: if_splits)
  have "s' = s \<or> s' = s\<lparr>qn_fans := (qn_fans s)[k := fan_send u (qn_fans s ! k)]\<rparr>"
    using assms by (auto simp: replicate_update_def Let_def split: if_splits)
  then show "queued s' \<subseteq> insert u (queued s)"
    using queued_update [of s k "fan_send u (qn_fans s ! k)"] fan_updates_nth [of k s]
      fan_updates_simps(3) [of u "qn_fans s ! k"] queued_beyond [of k s]
    by (cases "k < length (qn_fans s)") auto
qed

lemma queued_close: "queued (s\<lparr>qn_fans := (qn_fans s)[k := fan_close (qn_fans s ! k)]\<rparr>) \<subseteq> queued s"
  using queued_update [of s k "fan_close (qn_fans s ! k)"] fan_updates_nth [of k s] fan_updates_simps(2)
    queued_beyond [of k s]
  by (cases "k < length (qn_fans s)") auto

lemma quorum_Configure_keeps:
  assumes "quorum_Configure parse cfg s = (err, s')"
  shows "qn_id s' = qn_id s" "qn_data s' = qn_data s" "queued s' \<subseteq> queued s"
proof -
  show "qn_id s' = qn_id s" "qn_data s' = qn_data s"
    using assms by (auto simp: quorum_Configure_def Let_def split: option.splits if_splits)
  have "queued s' \<subseteq> queued s \<union> queued (s\<lparr>qn_fans := (qn_fans s)[qn_fan s := fan_close (qn_fans s ! qn_fan s)]\<rparr>)"
    using assms fan_updates_simps(1)
    by (auto simp: quorum_Configure_def queued_def Let_def split: option.splits if_splits)
  with queued_close show "queued s' \<subseteq> queued s" by blast
qed

lemma quorum_Close_keeps:
  "qn_id (quorum_Close s) = qn_id s" "qn_data (quorum_Close s) = qn_data s" "queued (quorum_Close s) \<subseteq> queued s"
proof -
  show "qn_id (quorum_Close s) = qn_id s" "qn_data (quorum_Close s) = qn_data s" by (simp_all add: quorum_Close_def)
  have "queued (quorum_Close s) \<subseteq>
      queued s \<union> queued (s\<lparr>qn_fans := (qn_fans s)[qn_fan s := fan_close (qn_fans s ! qn_fan s)]\<rparr>)"
    by (auto simp: quorum_Close_def queued_def)
  with queued_close show "queued (quorum_Close s) \<subseteq> queued s" by blast
qed

lemma length_made_le: "length (made W) \<le> length (gs_calls W)"
  by (simp add: length_made)

lemma calls_grow: "gossip_step parse home clk latest ready rough W W' \<Longrightarrow> length (gs_calls W) \<le> length (gs_calls W')"
  by (induction rule: gossip_step.induct) simp_all

lemma gossip_ok_reconfigured:
  assumes "gossip_ok home latest W" "n < length (gs_nodes W)" "qn_id s = qn_id (gs_nodes W ! n)"
    "qn_data s = qn_data (gs_nodes W ! n)" "queued s \<subseteq> queued (gs_nodes W ! n)"
  shows "gossip_ok home latest (put_node W n s)"
proof -
  have "queued (gs_nodes W ! n) \<subseteq> set (made W)" using assms(1,2) by (simp add: gossip_ok_def)
  with assms(5) show ?thesis by (intro gossip_ok_put_node assms(1-4)) simp
qed

lemma end_call_simps [simp]:
  "gc_node (end_call clk c t r) = gc_node c" "gc_request (end_call clk c t r) = gc_request c"
  "gc_phase (end_call clk c t r) = gc_phase c" "gc_update (end_call clk c t r) = gc_update c"
  by (simp_all add: end_call_def)

lemma call_ok_end: "call_ok latest W (end_call clk c t r) \<longleftrightarrow> call_ok latest W c"
  by (simp only: call_ok_def end_call_simps)

lemma gossip_ok_end:
  assumes "gossip_ok home latest W" "i < length (gs_calls W)" "c = gs_calls W ! i"
  shows "gossip_ok home latest (put_call W i (end_call clk c t r))"
  by (rule gossip_ok_put_call [OF assms(1,2) call_ok_end [THEN iffD2, OF gossip_ok_call(1) [OF assms]]])
    (simp_all add: assms(3))

lemma gossip_ok_hand:
  assumes ok: "gossip_ok home latest W" and i: "i < length (gs_calls W)" "c = gs_calls W ! i"
    and ph: "gc_phase c = Handing resp r" and up: "replicate_update r (gs_nodes W ! gc_node c) = (ps, s)"
  shows "gossip_ok home latest (launch (Caller i) ps (put_call (put_node W (gc_node c) s) i (c\<lparr>gc_phase := Replied resp\<rparr>)))"
proof -
  obtain k sy u where r: "r = (k, sy, u)" by (cases r) auto
  note c = gossip_ok_call [OF ok i]
  have "gc_update c = Some u" using c(1) ph r by (simp add: call_ok_def)
  then have u: "u \<in> set (made W)" using i by (auto simp: set_made)
  note keeps = replicate_update_keeps [OF up [unfolded r]]
  have "queued (gs_nodes W ! gc_node c) \<subseteq> set (made W)" using ok c(2) by (simp add: gossip_ok_def)
  then have ok1: "gossip_ok home latest (put_node W (gc_node c) s)"
    using keeps u by (intro gossip_ok_put_node [OF ok c(2)]) auto
  have "call_ok latest W (c\<lparr>gc_phase := Replied resp\<rparr>)" using c(1) by (simp add: call_ok_def)
  then have "call_ok latest (put_node W (gc_node c) s) (c\<lparr>gc_phase := Replied resp\<rparr>)"
    by (rule call_ok_later) (use ids_update [OF c(2), of qn_id s] keeps(1) in simp_all)
  then have ok2: "gossip_ok home latest (put_call (put_node W (gc_node c) s) i (c\<lparr>gc_phase := Replied resp\<rparr>))"
    by (intro gossip_ok_put_call [OF ok1]) (use i in simp_all)
  have "made (put_call (put_node W (gc_node c) s) i (c\<lparr>gc_phase := Replied resp\<rparr>)) = made W"
    using made_put_same [of i "put_node W (gc_node c) s" "c\<lparr>gc_phase := Replied resp\<rparr>"] i by simp
  with keeps(4) u ok2 show ?thesis by (intro gossip_ok_launch) auto
qed

lemma gossip_ok_apply:
  assumes ok: "gossip_ok home latest W" and i: "i < length (gs_calls W)" "c = gs_calls W ! i"
    and ph: "gc_phase c = Arriving" and stamp: "min_int64 \<le> stamp" "stamp \<le> latest"
    and ap: "quorum_Apply stamp (gc_request c) (gs_nodes W ! gc_node c) = (resp, r, s)"
    and room: "latest + int (length (made W)) < max_int64"
  shows "gossip_ok home latest (put_call (put_node W (gc_node c) s) i
      (c\<lparr>gc_phase := (case r of None \<Rightarrow> Replied resp | Some x \<Rightarrow> Handing resp x),
         gc_update := map_option (\<lambda>(k, sy, u). u) r\<rparr>))"
  using ap
proof (cases rule: quorum_Apply_cases)
  case silent
  note c = gossip_ok_call [OF ok i]
  have none: "gc_update c = None" using c(1) ph by (simp add: call_ok_def)
  have "put_node W (gc_node c) s = W" using silent by (simp add: put_node_def)
  moreover have "gossip_ok home latest (put_call W i (c\<lparr>gc_phase := Replied resp, gc_update := None\<rparr>))"
    by (rule gossip_ok_put_call [OF ok i(1)]) (use c(1) none i(2) in \<open>simp_all add: call_ok_def\<close>)
  ultimately show ?thesis using silent(1) by simp
next
  case (update k sy u v)
  let ?t = "gs_nodes W ! gc_node c"
  note c = gossip_ok_call [OF ok i]
  have none: "gc_update c = None" using c(1) ph by (simp add: call_ok_def)
  have "qe_stamp held < max_int64 \<and> min_int64 \<le> qe_stamp held"
    if "qn_data ?t (q_Key (gc_request c)) = Some held" for held
    using held_stamp [OF ok c(2) that] room by simp
  note loc = local_write_dominates [OF update(2) this]
  have u: "u = \<lparr>rp_Key = q_Key (gc_request c), rp_Value = v,
      rp_Stamp = stampFor stamp (qn_data ?t) (q_Key (gc_request c)), rp_Node = qn_id ?t\<rparr>"
    and "\<exists>d. s = ?t\<lparr>qn_data := d\<rparr>"
    using update(2) by (auto simp: local_write_def Let_def)
  then have s: "s = ?t\<lparr>qn_data := take_update u (qn_data ?t)\<rparr>" using loc(1) by auto
  show ?thesis
    by (rule gossip_ok_made [OF ok i none refl refl _ _ _ stamp room s]) (use u update(1) in simp_all)
qed

lemma gossip_ok_step:
  assumes "gossip_step parse home clk latest ready rough W W'" "gossip_ok home latest W"
    and "latest + int (length (gs_calls W')) < max_int64"
  shows "gossip_ok home latest W'"
  using assms
proof (induction rule: gossip_step.induct)
  case (tick W t)
  then have "call_ok latest (W\<lparr>gs_now := t\<rparr>) c" if "c \<in> set (gs_calls W)" for c
    by - (rule call_ok_later [of latest W c], use that in \<open>simp_all add: gossip_ok_def made_def\<close>)
  with tick(3) show ?case by (simp add: gossip_ok_def versions_apart_def made_def seen_def)
next
  case (issue W now_r n req p)
  let ?c = "\<lparr>gc_process = p, gc_request = req, gc_invoke = now_r, gc_node = n, gc_phase = Arriving,
    gc_update = None, gc_op = None\<rparr>"
  let ?V = "W\<lparr>gs_calls := gs_calls W @ [?c]\<rparr>"
  have m: "made ?V = made W" by (simp add: made_def List.map_filter_def)
  have sn: "seen home ?V k = seen home W k" for k by (auto simp: seen_def)
  have "call_ok latest ?V c" if "c \<in> set (gs_calls W)" for c
    by (rule call_ok_later [of latest W c]) (use that issue(7) m in \<open>simp_all add: gossip_ok_def\<close>)
  moreover have "call_ok latest ?V ?c" using issue(4-6) by (auto simp: call_ok_def)
  moreover have "versions_apart ?V"
    using issue(7) by (auto simp: gossip_ok_def versions_apart_def nth_append less_Suc_eq)
  ultimately show ?case using issue(7) by (simp add: gossip_ok_def m sn)
next
  case (apply_op i W c stamp resp r s)
  then have "latest + int (length (made W)) < max_int64" using length_made_le [of W] by simp
  with apply_op show ?case by (intro gossip_ok_apply)
next
  case (hand i W c resp r ps s)
  show ?case by (rule gossip_ok_hand [OF hand(5,1-4)])
next
  case (work n W s k i p f)
  have q: "queued s \<subseteq> set (made W)" using work(1,2,6) by (simp add: gossip_ok_def)
  have f: "fan_updates (qn_fans s ! k) \<subseteq> queued s" by (rule fan_updates_nth [OF work(3)])
  have "queued (s\<lparr>qn_fans := (qn_fans s)[k := f]\<rparr>) \<subseteq> queued s"
    using queued_update [of s k f] pump_updates(1) [OF work(5)] f by blast
  then have "gossip_ok home latest (put_node W n (s\<lparr>qn_fans := (qn_fans s)[k := f]\<rparr>))"
    by (intro gossip_ok_reconfigured [OF work(6,1)]) (use work(2) in simp_all)
  moreover have "snd ` set (case p of None \<Rightarrow> [] | Some x \<Rightarrow> [x]) \<subseteq> set (made W)"
    using pump_updates(2) [OF work(5)] q f by (fastforce split: option.split)
  ultimately show ?case by (intro gossip_ok_launch) simp_all
next
  case (deliver i W p m s body resp d)
  show ?case by (rule gossip_ok_deliver [OF deliver(8,1,2,4-7)])
next
  case (returned i W p)
  then show ?case by (intro gossip_ok_put_post) simp_all
next
  case (failed i W p)
  then show ?case by (intro gossip_ok_put_post) simp_all
next
  case (configure n W cfg err s)
  with quorum_Configure_keeps [OF configure(3)] show ?case by (intro gossip_ok_reconfigured) simp_all
next
  case (close n W)
  with quorum_Close_keeps [of "gs_nodes W ! n"] show ?case by (intro gossip_ok_reconfigured) simp_all
next
  case (answered i W c resp now_r)
  then show ?case by (intro gossip_ok_end)
next
  case (lost i W c te now_r)
  then show ?case by (intro gossip_ok_end)
next
  case (refused i W c te now_r)
  then show ?case by (intro gossip_ok_end)
qed

lemma gossip_ok_reach:
  assumes "gossip_reach parse home clk latest ready rough W0 W" "gossip_ok home latest W0"
    and "latest + int (length (gs_calls W)) < max_int64"
  shows "gossip_ok home latest W"
  using assms
proof (induction rule: gossip_reach.induct)
  case init
  then show ?case by simp
next
  case (step W W')
  with calls_grow [OF step(2)] show ?case by (intro gossip_ok_step [OF step(2)]) simp_all
qed

lemma configured_simps:
  "qn_id (configured parse sync (nid, peers)) = nid" "qn_data (configured parse sync (nid, peers)) = Map.empty"
  "queued (configured parse sync (nid, peers)) = {}"
  by (auto simp: configured_def quorum_Configure_def NewQuorumStore_def queued_def fan_updates_simps
      split: option.splits)

lemma gossip_ok_start:
  assumes "distinct (map fst plan)" "[] \<notin> fst ` set plan"
  shows "gossip_ok home latest (gossip_start parse sync plan)"
proof -
  have "map qn_id (map (configured parse sync) plan) = map fst plan"
    by (auto simp: configured_simps)
  moreover from this have "qn_id ` set (map (configured parse sync) plan) = fst ` set plan" by (metis set_map)
  moreover have "qn_data s = Map.empty \<and> queued s = {}" if "s \<in> set (map (configured parse sync) plan)" for s
    using that by (auto simp: configured_simps)
  ultimately show ?thesis
    using assms holds_empty
    by (auto simp: gossip_ok_def gossip_start_def versions_apart_def seen_def simp del: map_map)
qed

end
