(* ===== verification/Gossip_Control.thy ===== *)
theory Gossip_Control
  imports Gossip_Run
begin

text \<open>
  Runs of the gossiping store (\<open>internal/kv/quorum.go\<close>) in which nothing goes wrong: no post fails,
  no client gives up, no node is configured again or shuts down. Every update is then accounted for,
  in a queue or among the posts. So a quiet cluster comes to agree, and in synchronous mode with
  clients taking turns it refines one store behind one lock.
\<close>

section \<open>Every update is accounted for\<close>

text \<open>The queues of a node's latest fan-out.\<close>

definition queue_has :: "gossip \<Rightarrow> nat \<Rightarrow> string \<Rightarrow> replication \<Rightarrow> bool" where
  "queue_has W n a u \<longleftrightarrow> (\<exists>q. (a, q) \<in> set (fo_queues (last (qn_fans (gs_nodes W ! n)))) \<and> u \<in> set q)"

definition posted :: "gossip \<Rightarrow> string \<Rightarrow> replication \<Rightarrow> bool" where
  "posted W a u \<longleftrightarrow> (\<exists>p \<in> set (gs_posts W). pt_addr p = a \<and> pt_update p = u)"

definition posted_by :: "gossip \<Rightarrow> nat \<Rightarrow> string \<Rightarrow> replication \<Rightarrow> bool" where
  "posted_by W i a u \<longleftrightarrow> (\<exists>p \<in> set (gs_posts W). pt_waiter p = Caller i \<and> pt_addr p = a \<and> pt_update p = u)"

definition passed_on :: "bool \<Rightarrow> gossip \<Rightarrow> nat \<Rightarrow> nat \<Rightarrow> string \<Rightarrow> replication \<Rightarrow> bool" where
  "passed_on sync W i n a u \<longleftrightarrow> (if sync then posted_by W i a u else queue_has W n a u \<or> posted W a u)"

definition has_replied :: "call \<Rightarrow> bool" where
  "has_replied c \<longleftrightarrow> (case gc_phase c of Replied _ \<Rightarrow> True | _ \<Rightarrow> False)"

definition smooth_call :: "bool \<Rightarrow> (nat \<Rightarrow> string list) \<Rightarrow> gossip \<Rightarrow> nat \<Rightarrow> call \<Rightarrow> bool" where
  "smooth_call sync peers W i c \<longleftrightarrow>
     (\<forall>resp k sy u. gc_phase c = Handing resp (k, sy, u) \<longrightarrow> k = 1 \<and> sy = sync) \<and>
     (\<forall>u. has_replied c \<longrightarrow> gc_update c = Some u \<longrightarrow>
        (\<forall>a \<in> set (peers (gc_node c)). passed_on sync W i (gc_node c) a u)) \<and>
     (gc_op c \<noteq> None \<longrightarrow> has_replied c \<and> idle W (Caller i))"

text \<open>
  A node has the fan-out it was made with, which has no peers, and the one it was configured with;
  that one is open, and its queues hold no more than \<open>b\<close> updates each.
\<close>

definition smooth_node :: "bool \<Rightarrow> string list \<Rightarrow> nat \<Rightarrow> qnode \<Rightarrow> bool" where
  "smooth_node sync addrs b s \<longleftrightarrow>
     (\<exists>g f. qn_fans s = [g, f] \<and> fo_queues g = [] \<and> \<not> fo_closed f \<and> map fst (fo_queues f) = addrs \<and>
          (\<forall>(a, q) \<in> set (fo_queues f). length q \<le> b)) \<and>
     qn_fan s = 1 \<and> qn_sync s = sync"

definition replies :: "gossip \<Rightarrow> nat" where
  "replies W = length (filter has_replied (gs_calls W))"

definition smooth_ok :: "bool \<Rightarrow> (nat \<Rightarrow> string list) \<Rightarrow> gossip \<Rightarrow> bool" where
  "smooth_ok sync peers W \<longleftrightarrow>
     (\<forall>n < length (gs_nodes W). smooth_node sync (peers n) (replies W) (gs_nodes W ! n)) \<and>
     (\<forall>i < length (gs_calls W). smooth_call sync peers W i (gs_calls W ! i)) \<and>
     (\<forall>p \<in> set (gs_posts W). pt_back p \<longrightarrow> pt_there p)"

text \<open>What was accounted for stays so.\<close>

definition keeps :: "gossip \<Rightarrow> gossip \<Rightarrow> bool" where
  "keeps W W' \<longleftrightarrow>
     (\<forall>p \<in> set (gs_posts W). \<exists>p' \<in> set (gs_posts W').
        pt_waiter p' = pt_waiter p \<and> pt_addr p' = pt_addr p \<and> pt_update p' = pt_update p) \<and>
     (\<forall>n a u. queue_has W n a u \<longrightarrow> queue_has W' n a u \<or> posted W' a u)"

lemma passed_on_keeps:
  assumes "keeps W W'" "passed_on sync W i n a u"
  shows "passed_on sync W' i n a u"
proof -
  have "posted_by W i a u \<Longrightarrow> posted_by W' i a u" "posted W a u \<Longrightarrow> posted W' a u"
    using assms(1) by (fastforce simp: keeps_def posted_by_def posted_def)+
  with assms show ?thesis by (auto simp: passed_on_def keeps_def split: if_splits)
qed

lemma smooth_call_keeps:
  assumes "smooth_call sync peers W i c" "keeps W W'" "gc_op c \<noteq> None \<Longrightarrow> idle W (Caller i) \<Longrightarrow> idle W' (Caller i)"
  shows "smooth_call sync peers W' i c"
  using assms passed_on_keeps [OF assms(2)] unfolding smooth_call_def by blast

lemma smooth_node_more: "smooth_node sync addrs b s \<Longrightarrow> b \<le> b' \<Longrightarrow> smooth_node sync addrs b' s"
  by (fastforce simp: smooth_node_def)


lemma length_filter_same:
  "P y = P (xs ! i) \<Longrightarrow> length (filter P (xs[i := y])) = length (filter P xs)"
proof (induction xs arbitrary: i)
  case (Cons x xs)
  then show ?case by (cases i) auto
qed simp

lemma replies_simps [simp]:
  "replies (put_node W n s) = replies W" "replies (put_post W i p) = replies W" "replies (launch w ps W) = replies W"
  by (simp_all add: replies_def)

lemma replies_put_call:
  "has_replied c' = has_replied (gs_calls W ! i) \<Longrightarrow> replies (put_call W i c') = replies W"
  "i < length (gs_calls W) \<Longrightarrow> \<not> has_replied (gs_calls W ! i) \<Longrightarrow> has_replied c' \<Longrightarrow>
     replies (put_call W i c') = Suc (replies W)"
  by (simp_all add: replies_def length_filter_same length_filter_update)

lemma keeps_refl: "keeps W W"
  by (auto simp: keeps_def)

lemma keeps_same:
  "gs_posts W' = gs_posts W \<Longrightarrow> (\<And>n. qn_fans (gs_nodes W' ! n) = qn_fans (gs_nodes W ! n)) \<Longrightarrow> keeps W W'"
  by (auto simp: keeps_def queue_has_def)

lemma keeps_launch: "keeps W (launch w ps W)"
  by (auto simp: keeps_def launch_def queue_has_def)

lemma keeps_trans: "keeps U V \<Longrightarrow> keeps V W \<Longrightarrow> keeps U W"
  unfolding keeps_def posted_def by (metis (no_types, lifting))

lemma keeps_put_post:
  assumes "i < length (gs_posts W)" "pt_waiter p = pt_waiter (gs_posts W ! i)"
    "pt_addr p = pt_addr (gs_posts W ! i)" "pt_update p = pt_update (gs_posts W ! i)"
  shows "keeps W (put_post W i p)"
proof -
  have "\<exists>p' \<in> set ((gs_posts W)[i := p]). pt_waiter p' = pt_waiter q \<and> pt_addr p' = pt_addr q \<and> pt_update p' = pt_update q"
    if "q \<in> set (gs_posts W)" for q
    using bex_update [OF assms(1), of "\<lambda>p'. pt_waiter p' = pt_waiter q \<and> pt_addr p' = pt_addr q \<and> pt_update p' = pt_update q" p]
      assms that by auto
  then show ?thesis by (simp add: keeps_def queue_has_def)
qed

section \<open>Every smooth step keeps it\<close>

lemma smooth_ok_frame:
  assumes ok: "smooth_ok sync peers W" and k: "keeps W W'"
    and nodes: "\<And>n. n < length (gs_nodes W') \<Longrightarrow> smooth_node sync (peers n) (replies W') (gs_nodes W' ! n)"
    and calls: "\<And>i. i < length (gs_calls W') \<Longrightarrow>
      i < length (gs_calls W) \<and> gs_calls W' ! i = gs_calls W ! i \<or> smooth_call sync peers W' i (gs_calls W' ! i)"
    and idle: "\<And>i. i < length (gs_calls W) \<Longrightarrow> gc_op (gs_calls W ! i) \<noteq> None \<Longrightarrow> idle W (Caller i) \<Longrightarrow> idle W' (Caller i)"
    and posts: "\<And>p. p \<in> set (gs_posts W') \<Longrightarrow> pt_back p \<Longrightarrow> pt_there p"
  shows "smooth_ok sync peers W'"
proof -
  have "smooth_call sync peers W' i (gs_calls W' ! i)" if i: "i < length (gs_calls W')" for i
  proof (rule disjE [OF calls [OF i]])
    assume old: "i < length (gs_calls W) \<and> gs_calls W' ! i = gs_calls W ! i"
    then have "smooth_call sync peers W i (gs_calls W ! i)" using ok by (simp add: smooth_ok_def)
    from smooth_call_keeps [OF this k] idle old show ?thesis by simp
  qed
  with nodes posts show ?thesis unfolding smooth_ok_def by blast
qed

lemma smooth_ok_node:
  "smooth_ok sync peers W \<Longrightarrow> n < length (gs_nodes W) \<Longrightarrow> replies W \<le> b \<Longrightarrow> smooth_node sync (peers n) b (gs_nodes W ! n)"
  using smooth_node_more by (auto simp: smooth_ok_def)

lemma smooth_ok_call:
  "smooth_ok sync peers W \<Longrightarrow> i < length (gs_calls W) \<Longrightarrow> smooth_call sync peers W i (gs_calls W ! i)"
  by (simp add: smooth_ok_def)

lemma smooth_ok_post: "smooth_ok sync peers W \<Longrightarrow> p \<in> set (gs_posts W) \<Longrightarrow> pt_back p \<Longrightarrow> pt_there p"
  by (simp add: smooth_ok_def)

lemma smooth_open:
  "smooth_ok sync peers W \<Longrightarrow> i < length (gs_calls W) \<Longrightarrow> \<not> has_replied (gs_calls W ! i) \<Longrightarrow> gc_op (gs_calls W ! i) = None"
  using smooth_ok_call [of sync peers W i] by (auto simp: smooth_call_def)

lemma smooth_node_same:
  "smooth_node sync addrs b s \<Longrightarrow> qn_fans t = qn_fans s \<Longrightarrow> qn_fan t = qn_fan s \<Longrightarrow> qn_sync t = qn_sync s \<Longrightarrow>
   smooth_node sync addrs b t"
  by (simp add: smooth_node_def)

lemma quorum_Apply_fans:
  assumes "quorum_Apply stamp req s = (resp, r, s')"
  shows "qn_fans s' = qn_fans s" "qn_fan s' = qn_fan s" "qn_sync s' = qn_sync s"
    "r = Some (k, sy, u) \<Longrightarrow> k = qn_fan s \<and> sy = qn_sync s"
  using assms by (auto simp: quorum_Apply_def local_write_def Let_def split: Kind.splits if_splits)

lemma idle_launch: "idle W v \<Longrightarrow> v \<noteq> w \<Longrightarrow> idle (launch w ps W) v"
  by (auto simp: idle_def launch_def)

lemma idle_put: "gs_posts W' = gs_posts W \<Longrightarrow> idle W' = idle W"
  by (simp add: idle_def fun_eq_iff)

lemma idle_put_post:
  assumes "idle W w" "i < length (gs_posts W)" "pt_waiter p = pt_waiter (gs_posts W ! i)"
    "pt_back (gs_posts W ! i) \<Longrightarrow> pt_back p"
  shows "idle (put_post W i p) w"
proof -
  have "pt_waiter p = w \<longrightarrow> pt_back p" using assms by (auto simp: idle_def)
  with assms(1) show ?thesis unfolding idle_def put_simps by (intro ball_update) auto
qed

lemma pump_open:
  assumes "pump i f = (p, f')" "\<not> fo_closed f"
  shows "fo_closed f' = fo_closed f" "map fst (fo_queues f') = map fst (fo_queues f)"
    "\<forall>(a, q) \<in> set (fo_queues f). length q \<le> b \<Longrightarrow> \<forall>(a, q) \<in> set (fo_queues f'). length q \<le> b"
    "(a, q) \<in> set (fo_queues f) \<Longrightarrow> u \<in> set q \<Longrightarrow> (\<exists>q'. (a, q') \<in> set (fo_queues f') \<and> u \<in> set q') \<or> p = Some (a, u)"
proof -
  have "f' = f \<or> (\<exists>b v vs. i < length (fo_queues f) \<and> fo_queues f ! i = (b, v # vs) \<and> p = Some (b, v) \<and>
      f' = f\<lparr>fo_queues := (fo_queues f)[i := (b, vs)]\<rparr>)" (is "_ \<or> ?moved")
    using assms by (auto simp: pump_def split: if_splits prod.splits list.splits)
  then consider "f' = f" | c v vs where "i < length (fo_queues f)" "fo_queues f ! i = (c, v # vs)" "p = Some (c, v)"
    "f' = f\<lparr>fo_queues := (fo_queues f)[i := (c, vs)]\<rparr>" by blast
  note moved = this
  show "fo_closed f' = fo_closed f" by (cases rule: moved) auto
  show "map fst (fo_queues f') = map fst (fo_queues f)"
    by (cases rule: moved) (auto simp: ids_update)
  show "\<forall>(a, q) \<in> set (fo_queues f'). length q \<le> b" if b: "\<forall>(a, q) \<in> set (fo_queues f). length q \<le> b"
  proof (cases rule: moved)
    case (2 c v vs)
    then have "(c, v # vs) \<in> set (fo_queues f)" by (metis nth_mem)
    with b have "case (c, vs) of (a, q) \<Rightarrow> length q \<le> b" by auto
    with b have "\<forall>(a, q) \<in> set ((fo_queues f)[i := (c, vs)]). length q \<le> b" by (rule ball_update)
    then show ?thesis unfolding 2(4) by simp
  qed (use b in simp)
  assume at: "(a, q) \<in> set (fo_queues f)" "u \<in> set q"
  show "(\<exists>q'. (a, q') \<in> set (fo_queues f') \<and> u \<in> set q') \<or> p = Some (a, u)"
  proof (cases rule: moved)
    case (2 c v vs)
    have "(\<exists>x \<in> set ((fo_queues f)[i := (c, vs)]). (\<lambda>x. fst x = a \<and> u \<in> set (snd x) \<or> (c, v) = (a, u)) x) \<longleftrightarrow>
        (\<lambda>x. fst x = a \<and> u \<in> set (snd x) \<or> (c, v) = (a, u)) (c, vs) \<or>
        (\<exists>x \<in> set (fo_queues f). (\<lambda>x. fst x = a \<and> u \<in> set (snd x) \<or> (c, v) = (a, u)) x)"
      by (rule bex_update [OF 2(1)]) (use 2(2) in auto)
    with at 2(3,4) show ?thesis by fastforce
  qed (use at in blast)
qed

lemma fan_send_open:
  assumes "\<not> fo_closed f" "\<forall>(a, q) \<in> set (fo_queues f). length q \<le> b" "b < fanoutQueue"
  shows "fo_closed (fan_send u f) = fo_closed f" "map fst (fo_queues (fan_send u f)) = map fst (fo_queues f)"
    "\<forall>(a, q) \<in> set (fo_queues (fan_send u f)). length q \<le> Suc b"
    "(a, q) \<in> set (fo_queues f) \<Longrightarrow> v \<in> insert u (set q) \<Longrightarrow>
       \<exists>q'. (a, q') \<in> set (fo_queues (fan_send u f)) \<and> v \<in> set q'"
proof -
  have room: "length q < fanoutQueue" if "(a, q) \<in> set (fo_queues f)" for a q using assms(2,3) that by fastforce
  have eq: "fan_send u f = f\<lparr>fo_queues := map (\<lambda>(a, q). (a, q @ [u])) (fo_queues f)\<rparr>"
  proof -
    have "map (\<lambda>(a, q). (a, if length q < fanoutQueue then q @ [u] else q)) (fo_queues f) =
        map (\<lambda>(a, q). (a, q @ [u])) (fo_queues f)"
      by (rule map_cong [OF refl]) (use room in auto)
    then show ?thesis using assms(1) by (simp add: fan_send_def)
  qed
  show "fo_closed (fan_send u f) = fo_closed f" "map fst (fo_queues (fan_send u f)) = map fst (fo_queues f)"
    by (auto simp: eq)
  show "\<forall>(a, q) \<in> set (fo_queues (fan_send u f)). length q \<le> Suc b" using assms(2) by (auto simp: eq)
  assume "(a, q) \<in> set (fo_queues f)" "v \<in> insert u (set q)"
  then show "\<exists>q'. (a, q') \<in> set (fo_queues (fan_send u f)) \<and> v \<in> set q'"
    by (intro exI [of _ "q @ [u]"]) (force simp: eq)
qed

lemma smooth_hand_sync:
  assumes ok: "smooth_ok True peers W" and i: "i < length (gs_calls W)" "c = gs_calls W ! i" "gc_node c < length (gs_nodes W)"
    and ph: "gc_phase c = Handing resp r" and up: "replicate_update r (gs_nodes W ! gc_node c) = (ps, s)"
    and u: "\<And>v. gc_update c = Some v \<Longrightarrow> snd (snd r) = v"
  shows "smooth_ok True peers (launch (Caller i) ps (put_call (put_node W (gc_node c) s) i (c\<lparr>gc_phase := Replied resp\<rparr>)))"
    (is "smooth_ok _ _ ?V")
proof -
  let ?t = "gs_nodes W ! gc_node c" and ?c = "c\<lparr>gc_phase := Replied resp\<rparr>"
  obtain k sy u where r: "r = (k, sy, u)" by (cases r) auto
  have sc: "smooth_call True peers W i c" using smooth_ok_call [OF ok i(1)] i(2) by simp
  then have "k = 1 \<and> sy" using ph r by (simp add: smooth_call_def)
  moreover obtain g f where f: "qn_fans ?t = [g, f]" "\<not> fo_closed f" "map fst (fo_queues f) = peers (gc_node c)"
    using smooth_ok_node [OF ok i(3) le_refl] by (auto simp: smooth_node_def)
  ultimately have ps: "ps = map (\<lambda>(a, q). (a, u)) (fo_queues f)" "s = ?t"
    using up r by (auto simp: replicate_update_def broadcast_def)
  have V: "?V = launch (Caller i) ps (put_call W i ?c)" using ps(2) by (simp add: put_node_def)
  have nr: "\<not> has_replied c" using ph by (simp add: has_replied_def)
  have rep: "replies ?V = Suc (replies W)"
    using replies_put_call(2) [of i "put_node W (gc_node c) s" ?c] nr i by (simp add: has_replied_def)
  have op: "gc_op c = None" using smooth_open [OF ok i(1)] nr i(2) by simp
  have sent: "posted_by ?V i a u" if "a \<in> set (peers (gc_node c))" for a
  proof -
    have "a \<in> set (map fst (fo_queues f))" using that f(3) by simp
    then obtain q where "(a, q) \<in> set (fo_queues f)" by auto
    then have "(a, u) \<in> set ps" using ps(1) by force
    then show ?thesis unfolding V by (force simp: posted_by_def launch_def)
  qed
  have new: "smooth_call True peers ?V i ?c"
    using sent u r op by (auto simp: smooth_call_def passed_on_def)
  show ?thesis
  proof (rule smooth_ok_frame [OF ok])
    show "keeps W ?V" unfolding V by (rule keeps_trans [OF keeps_same keeps_launch]) simp_all
    show "smooth_node True (peers n) (replies ?V) (gs_nodes ?V ! n)" if "n < length (gs_nodes ?V)" for n
      using smooth_ok_node [OF ok, of n "replies ?V"] that rep unfolding V by simp
    show "j < length (gs_calls W) \<and> gs_calls ?V ! j = gs_calls W ! j \<or> smooth_call True peers ?V j (gs_calls ?V ! j)"
      if "j < length (gs_calls ?V)" for j
      using that new i by (cases "j = i") simp_all
    show "idle ?V (Caller j)" if "gc_op (gs_calls W ! j) \<noteq> None" "idle W (Caller j)" for j
      unfolding V by (rule idle_launch) (use that op i idle_put [of "put_call W i ?c" W] in auto)
    show "pt_there p" if "p \<in> set (gs_posts ?V)" "pt_back p" for p
      using that smooth_ok_post [OF ok] by (auto simp: launch_def)
  qed
qed

lemma smooth_hand_async:
  assumes ok: "smooth_ok False peers W" and i: "i < length (gs_calls W)" "c = gs_calls W ! i" "gc_node c < length (gs_nodes W)"
    and ph: "gc_phase c = Handing resp r" and up: "replicate_update r (gs_nodes W ! gc_node c) = (ps, s)"
    and u: "\<And>v. gc_update c = Some v \<Longrightarrow> snd (snd r) = v" and few: "length (gs_calls W) \<le> fanoutQueue"
  shows "smooth_ok False peers (launch (Caller i) ps (put_call (put_node W (gc_node c) s) i (c\<lparr>gc_phase := Replied resp\<rparr>)))"
    (is "smooth_ok _ _ ?V")
proof -
  let ?t = "gs_nodes W ! gc_node c" and ?c = "c\<lparr>gc_phase := Replied resp\<rparr>"
  obtain k sy u where r: "r = (k, sy, u)" by (cases r) auto
  have sc: "smooth_call False peers W i c" using smooth_ok_call [OF ok i(1)] i(2) by simp
  then have "k = 1 \<and> \<not> sy" using ph r by (simp add: smooth_call_def)
  moreover have sn: "smooth_node False (peers (gc_node c)) (replies W) ?t" by (rule smooth_ok_node [OF ok i(3) le_refl])
  then obtain g f where f: "qn_fans ?t = [g, f]" "\<not> fo_closed f" "map fst (fo_queues f) = peers (gc_node c)"
    and g: "fo_queues g = []" and b: "\<forall>(a, q) \<in> set (fo_queues f). length q \<le> replies W" by (auto simp: smooth_node_def)
  ultimately have ps: "ps = []" and s: "s = ?t\<lparr>qn_fans := [g, fan_send u f]\<rparr>"
    using up r by (auto simp: replicate_update_def)
  have V: "?V = put_call (put_node W (gc_node c) s) i ?c" using ps by (simp add: launch_def)
  have nr: "\<not> has_replied c" using ph by (simp add: has_replied_def)
  have rep: "replies ?V = Suc (replies W)"
    using replies_put_call(2) [of i "put_node W (gc_node c) s" ?c] nr i by (simp add: V has_replied_def)
  have op: "gc_op c = None" using smooth_open [OF ok i(1)] nr i(2) by simp
  have "replies W < length (gs_calls W)"
    unfolding replies_def by (rule length_filter_less [of c]) (use nr i in auto)
  then have room: "replies W < fanoutQueue" using few by simp
  note sent = fan_send_open [OF f(2) b room, where u = u]
  have q: "queue_has ?V (gc_node c) a v" if "(a, q) \<in> set (fo_queues f)" "v \<in> insert u (set q)" for a q v
    using sent(4) [OF that] s i(3) unfolding V by (simp add: queue_has_def)
  have "keeps W ?V"
    unfolding keeps_def
  proof (intro conjI allI impI)
    show "\<forall>p \<in> set (gs_posts W). \<exists>p' \<in> set (gs_posts ?V).
        pt_waiter p' = pt_waiter p \<and> pt_addr p' = pt_addr p \<and> pt_update p' = pt_update p" unfolding V by auto
    fix n a v assume h: "queue_has W n a v"
    show "queue_has ?V n a v \<or> posted ?V a v"
    proof (cases "n = gc_node c")
      case True
      with h f(1) obtain q' where "(a, q') \<in> set (fo_queues f)" "v \<in> set q'" by (auto simp: queue_has_def)
      with q True show ?thesis by blast
    next
      case False
      with h show ?thesis unfolding V by (simp add: queue_has_def)
    qed
  qed
  note k = this
  have "queue_has ?V (gc_node c) a u" if "a \<in> set (peers (gc_node c))" for a
  proof -
    have "a \<in> set (map fst (fo_queues f))" using that f(3) by simp
    then obtain q' where "(a, q') \<in> set (fo_queues f)" by auto
    with q show ?thesis by blast
  qed
  then have new: "smooth_call False peers ?V i ?c"
    using u r op by (auto simp: smooth_call_def passed_on_def)
  show ?thesis
  proof (rule smooth_ok_frame [OF ok k])
    show "smooth_node False (peers n) (replies ?V) (gs_nodes ?V ! n)" if n: "n < length (gs_nodes ?V)" for n
    proof (cases "n = gc_node c")
      case True
      have "smooth_node False (peers (gc_node c)) (Suc (replies W)) s"
        using sn sent(1-3) f g s by (simp add: smooth_node_def)
      then show ?thesis using True i(3) rep V by simp
    next
      case False
      then show ?thesis using smooth_ok_node [OF ok, of n "replies ?V"] n rep unfolding V by simp
    qed
    show "j < length (gs_calls W) \<and> gs_calls ?V ! j = gs_calls W ! j \<or> smooth_call False peers ?V j (gs_calls ?V ! j)"
      if "j < length (gs_calls ?V)" for j
      using that new i by (cases "j = i") simp_all
    show "idle ?V (Caller j)" if "idle W (Caller j)" for j
      using that idle_put [of ?V W] unfolding V by simp
    show "pt_there p" if "p \<in> set (gs_posts ?V)" "pt_back p" for p
      using that smooth_ok_post [OF ok] unfolding V by simp
  qed
qed

text \<open>A node's data and one call change; nothing is queued or posted.\<close>

lemma smooth_ok_local:
  assumes ok: "smooth_ok sync peers W" and n: "n < length (gs_nodes W)"
    and s: "qn_fans s = qn_fans (gs_nodes W ! n)" "qn_fan s = qn_fan (gs_nodes W ! n)" "qn_sync s = qn_sync (gs_nodes W ! n)"
    and i: "i < length (gs_calls W)" and c': "smooth_call sync peers W i c'"
    and rep: "replies W \<le> replies (put_call W i c')"
  shows "smooth_ok sync peers (put_call (put_node W n s) i c')" (is "smooth_ok _ _ ?V")
proof (rule smooth_ok_frame [OF ok])
  have fans: "qn_fans ((gs_nodes W)[n := s] ! m) = qn_fans (gs_nodes W ! m)" for m
    using s(1) by (rule nth_update_same)
  show k: "keeps W ?V" by (rule keeps_same) (simp_all add: fans)
  have rep': "replies W \<le> replies ?V" using rep by (simp add: replies_def)
  show "smooth_node sync (peers m) (replies ?V) (gs_nodes ?V ! m)" if "m < length (gs_nodes ?V)" for m
    using smooth_ok_node [OF ok _ rep'] that n smooth_node_same [OF smooth_ok_node [OF ok n rep'] s]
    by (cases "m = n") simp_all
  have same: "idle ?V = idle W" by (rule idle_put) simp
  then show "idle ?V (Caller j)" if "idle W (Caller j)" for j using that by simp
  have "smooth_call sync peers ?V i c'" by (rule smooth_call_keeps [OF c' k]) (simp add: same)
  then show "j < length (gs_calls W) \<and> gs_calls ?V ! j = gs_calls W ! j \<or> smooth_call sync peers ?V j (gs_calls ?V ! j)"
    if "j < length (gs_calls ?V)" for j using that i by (cases "j = i") simp_all
  show "pt_there p" if "p \<in> set (gs_posts ?V)" "pt_back p" for p using that smooth_ok_post [OF ok] by simp
qed

text \<open>A node's data and one post change.\<close>

lemma smooth_ok_post_moves:
  assumes ok: "smooth_ok sync peers W" and i: "i < length (gs_posts W)"
    and s: "qn_fans s = qn_fans (gs_nodes W ! n)" "qn_fan s = qn_fan (gs_nodes W ! n)" "qn_sync s = qn_sync (gs_nodes W ! n)"
    and same: "pt_waiter p = pt_waiter (gs_posts W ! i)" "pt_addr p = pt_addr (gs_posts W ! i)"
      "pt_update p = pt_update (gs_posts W ! i)"
    and mono: "pt_back (gs_posts W ! i) \<Longrightarrow> pt_back p" "pt_back p \<Longrightarrow> pt_there p"
  shows "smooth_ok sync peers (put_post (put_node W n s) i p)" (is "smooth_ok _ _ ?V")
proof (rule smooth_ok_frame [OF ok])
  have fans: "qn_fans ((gs_nodes W)[n := s] ! m) = qn_fans (gs_nodes W ! m)" for m
    using s(1) by (rule nth_update_same)
  have "keeps W (put_node W n s)" by (rule keeps_same) (simp_all add: fans)
  moreover have "keeps (put_node W n s) ?V" by (rule keeps_put_post) (simp_all add: i same)
  ultimately show "keeps W ?V" by (rule keeps_trans)
  show "smooth_node sync (peers m) (replies ?V) (gs_nodes ?V ! m)" if m: "m < length (gs_nodes ?V)" for m
  proof (cases "m = n")
    case True
    with m smooth_node_same [OF smooth_ok_node [OF ok _ le_refl] s] show ?thesis by simp
  qed (use m smooth_ok_node [OF ok _ le_refl] in simp)
  show "idle ?V (Caller j)" if "idle W (Caller j)" for j
    by (rule idle_put_post) (use that i same(1) mono(1) idle_put [of "put_node W n s" W] in simp_all)
  show "j < length (gs_calls W) \<and> gs_calls ?V ! j = gs_calls W ! j \<or> smooth_call sync peers ?V j (gs_calls ?V ! j)"
    if "j < length (gs_calls ?V)" for j using that by simp
  have "\<forall>q \<in> set (gs_posts W). pt_back q \<longrightarrow> pt_there q" using smooth_ok_post [OF ok] by blast
  then have "\<forall>q \<in> set ((gs_posts W)[i := p]). pt_back q \<longrightarrow> pt_there q" by (rule ball_update) (use mono(2) in blast)
  then show "pt_there q" if "q \<in> set (gs_posts ?V)" "pt_back q" for q using that by simp
qed

lemma smooth_ok_work_new:
  assumes ok: "smooth_ok sync peers W" and n: "n < length (gs_nodes W)" "s = gs_nodes W ! n"
    and p: "pump i (qn_fans s ! 1) = (p, f)"
  shows "smooth_ok sync peers (launch (Worker n 1 i) (case p of None \<Rightarrow> [] | Some x \<Rightarrow> [x])
    (put_node W n (s\<lparr>qn_fans := (qn_fans s)[1 := f]\<rparr>)))" (is "smooth_ok _ _ ?V")
proof (rule smooth_ok_frame [OF ok])
  have sn: "smooth_node sync (peers n) (replies W) s" using smooth_ok_node [OF ok n(1) le_refl] n(2) by simp
  then obtain e g where g: "qn_fans s = [e, g]" "\<not> fo_closed g" "map fst (fo_queues g) = peers n"
    "\<forall>(a, q) \<in> set (fo_queues g). length q \<le> replies W" "fo_queues e = []" by (auto simp: smooth_node_def)
  have k0: "(qn_fans s)[1 := f] = [e, f]" using g(1) by simp
  have pu: "pump i g = (p, f)" using p g(1) by simp
  note open' = pump_open [OF pu g(2)]
  show "keeps W ?V"
    unfolding keeps_def
  proof (intro conjI allI impI)
    show "\<forall>x \<in> set (gs_posts W). \<exists>y \<in> set (gs_posts ?V).
        pt_waiter y = pt_waiter x \<and> pt_addr y = pt_addr x \<and> pt_update y = pt_update x"
      by (auto simp: launch_def)
    fix m a u assume h: "queue_has W m a u"
    show "queue_has ?V m a u \<or> posted ?V a u"
    proof (cases "m = n")
      case True
      with h g(1) n(2) obtain q where "(a, q) \<in> set (fo_queues g)" "u \<in> set q" by (auto simp: queue_has_def)
      from open'(4) [OF this] show ?thesis
      proof
        assume "\<exists>q'. (a, q') \<in> set (fo_queues f) \<and> u \<in> set q'"
        then show ?thesis using True n(1) k0 by (simp add: queue_has_def)
      next
        assume "p = Some (a, u)"
        then show ?thesis by (auto simp: posted_def launch_def)
      qed
    next
      case False
      with h show ?thesis by (simp add: queue_has_def)
    qed
  qed
  show "smooth_node sync (peers m) (replies ?V) (gs_nodes ?V ! m)" if m: "m < length (gs_nodes ?V)" for m
  proof (cases "m = n")
    case True
    have "smooth_node sync (peers n) (replies W) (s\<lparr>qn_fans := [e, f]\<rparr>)"
      using sn open'(1,2) open'(3) [OF g(4)] g(2,3,5) by (simp add: smooth_node_def)
    with True n(1) k0 show ?thesis by simp
  qed (use m smooth_ok_node [OF ok _ le_refl] in simp)
  show "idle ?V (Caller j)" if "idle W (Caller j)" for j
    by (rule idle_launch) (use that idle_put [of "put_node W n (s\<lparr>qn_fans := (qn_fans s)[1 := f]\<rparr>)" W] in simp_all)
  show "j < length (gs_calls W) \<and> gs_calls ?V ! j = gs_calls W ! j \<or> smooth_call sync peers ?V j (gs_calls ?V ! j)"
    if "j < length (gs_calls ?V)" for j using that by simp
  show "pt_there q" if "q \<in> set (gs_posts ?V)" "pt_back q" for q
    using that smooth_ok_post [OF ok] by (auto simp: launch_def)
qed

lemma smooth_ok_work:
  assumes ok: "smooth_ok sync peers W" and n: "n < length (gs_nodes W)" "s = gs_nodes W ! n" "k < length (qn_fans s)"
    and p: "pump i (qn_fans s ! k) = (p, f)"
  shows "smooth_ok sync peers (launch (Worker n k i) (case p of None \<Rightarrow> [] | Some x \<Rightarrow> [x])
    (put_node W n (s\<lparr>qn_fans := (qn_fans s)[k := f]\<rparr>)))"
proof (cases "k = 1")
  case True
  with smooth_ok_work_new [OF ok n(1,2)] p show ?thesis by simp
next
  case False
  have "smooth_node sync (peers n) (replies W) s" using smooth_ok_node [OF ok n(1) le_refl] n(2) by simp
  moreover from this have "k = 0" using False n(3) by (auto simp: smooth_node_def)
  ultimately have "fo_queues (qn_fans s ! k) = []" by (auto simp: smooth_node_def)
  then have "p = None" "f = qn_fans s ! k" using p by (simp_all add: pump_def)
  with ok n(2) show ?thesis by (simp add: launch_def put_node_def)
qed

lemma smooth_ok_step:
  assumes "gossip_step parse home clk latest ready False W W'" "smooth_ok sync peers W" "gossip_ok home latest W"
    and "sync \<or> length (gs_calls W') \<le> fanoutQueue"
  shows "smooth_ok sync peers W'"
  using assms
proof (induction rule: gossip_step.induct)
  case (tick W t)
  have "idle (W\<lparr>gs_now := t\<rparr>) = idle W" by (rule idle_put) simp
  then show ?case
    by (intro smooth_ok_frame [OF tick(3) keeps_same])
      (use tick(3) smooth_ok_node [OF tick(3)] smooth_ok_post [OF tick(3)] in \<open>simp_all add: replies_def\<close>)
next
  case (issue W now_r n req p)
  let ?c = "\<lparr>gc_process = p, gc_request = req, gc_invoke = now_r, gc_node = n, gc_phase = Arriving,
    gc_update = None, gc_op = None\<rparr>"
  let ?V = "W\<lparr>gs_calls := gs_calls W @ [?c]\<rparr>"
  have new: "smooth_call sync peers ?V i ?c" for i by (simp add: smooth_call_def has_replied_def)
  have idl: "idle ?V = idle W" by (rule idle_put) simp
  have rep: "replies W \<le> replies ?V" by (simp add: replies_def)
  show ?case
  proof (rule smooth_ok_frame [OF issue(7) keeps_same])
    show "i < length (gs_calls W) \<and> gs_calls ?V ! i = gs_calls W ! i \<or> smooth_call sync peers ?V i (gs_calls ?V ! i)"
      if "i < length (gs_calls ?V)" for i
      using that new [of i] by (auto simp: nth_append less_Suc_eq)
  qed (use idl smooth_ok_node [OF issue(7) _ rep] smooth_ok_post [OF issue(7)] in simp_all)
next
  case (apply_op i W c stamp resp r s)
  note c = gossip_ok_call [OF apply_op(9,1,2)]
  let ?c = "c\<lparr>gc_phase := (case r of None \<Rightarrow> Replied resp | Some x \<Rightarrow> Handing resp x),
    gc_update := map_option (\<lambda>(k, sy, u). u) r\<rparr>"
  note fans = quorum_Apply_fans [OF apply_op(7)]
  have nr: "\<not> has_replied (gs_calls W ! i)" using apply_op(2,3) by (simp add: has_replied_def)
  have op: "gc_op c = None" using smooth_open [OF apply_op(8,1) nr] apply_op(2) by simp
  have "smooth_node sync (peers (gc_node c)) (replies W) (gs_nodes W ! gc_node c)"
    by (rule smooth_ok_node [OF apply_op(8) c(2) le_refl])
  then have at: "qn_fan (gs_nodes W ! gc_node c) = 1" "qn_sync (gs_nodes W ! gc_node c) = sync"
    by (simp_all add: smooth_node_def)
  have "smooth_call sync peers W i ?c"
    using op fans(4) at by (auto simp: smooth_call_def has_replied_def split: option.splits)
  moreover have "replies W \<le> replies (put_call W i ?c)"
    using replies_put_call(1) [of ?c W i] replies_put_call(2) [of i W ?c] nr apply_op(1) by (cases "has_replied ?c") simp_all
  ultimately show ?case by (intro smooth_ok_local [OF apply_op(8) c(2) fans(1-3) apply_op(1)])
next
  case (hand i W c resp r ps s)
  note c = gossip_ok_call [OF hand(6,1,2)]
  have u: "snd (snd r) = v" if "gc_update c = Some v" for v
    using c(1) hand(3) that by (cases r) (auto simp: call_ok_def)
  show ?case
  proof (cases sync)
    case True
    with smooth_hand_sync [OF _ hand(1,2) c(2) hand(3,4) u] hand(5) show ?thesis by simp
  next
    case False
    with smooth_hand_async [OF _ hand(1,2) c(2) hand(3,4) u] hand(5,7) show ?thesis by simp
  qed
next
  case (work n W s k i p f)
  show ?case by (rule smooth_ok_work [OF work(6,1-3,5)])
next
  case (deliver i W p m s body resp d)
  show ?case
    by (rule smooth_ok_post_moves [OF deliver(8,1)]) (use deliver(2,3,6) smooth_ok_post [OF deliver(8)] in simp_all)
next
  case (returned i W p)
  have "put_node W 0 (gs_nodes W ! 0) = W" by (simp add: put_node_def)
  with smooth_ok_post_moves [OF returned(4,1), of "gs_nodes W ! 0" 0 "p\<lparr>pt_back := True\<rparr>"] returned(2,3)
  show ?case by simp
next
  case (answered i W c resp now_r)
  note c = gossip_ok_call [OF answered(8,1,2)]
  have "put_node W (gc_node c) (gs_nodes W ! gc_node c) = W" by (simp add: put_node_def)
  moreover have "smooth_call sync peers W i (end_call clk c now_r (Inr resp))"
    using smooth_ok_call [OF answered(7,1)] answered(2,4,5) by (simp add: smooth_call_def has_replied_def)
  moreover have "replies W \<le> replies (put_call W i (end_call clk c now_r (Inr resp)))"
    using replies_put_call(1) [of "end_call clk c now_r (Inr resp)" W i] answered(2) by (simp add: has_replied_def)
  ultimately show ?case
    using smooth_ok_local [OF answered(7) c(2) refl refl refl answered(1)] by simp
qed simp_all

lemma smooth_ok_reach:
  assumes "gossip_reach parse home clk latest ready False W0 W" "smooth_ok sync peers W0" "gossip_ok home latest W0"
    and "latest + int (length (gs_calls W)) < max_int64" "sync \<or> length (gs_calls W) \<le> fanoutQueue"
  shows "smooth_ok sync peers W"
  using assms
proof (induction rule: gossip_reach.induct)
  case (step W W')
  note grow = calls_grow [OF step(2)]
  have "gossip_ok home latest W" by (rule gossip_ok_reach [OF step(1,5)]) (use step(6) grow in simp)
  with step grow show ?case by (intro smooth_ok_step [OF step(2)]) auto
qed simp

text \<open>The peers of node \<open>n\<close>, as the plan names them.\<close>

definition peers_of :: "(string \<times> string list) list \<Rightarrow> nat \<Rightarrow> string list" where
  "peers_of plan n = filter (\<lambda>a. a \<noteq> []) (snd (plan ! n))"

lemma smooth_ok_start:
  assumes "\<forall>x \<in> set plan. first_bad_peer parse (snd x) = None"
  shows "smooth_ok sync (peers_of plan) (gossip_start parse sync plan)"
proof -
  have "smooth_node sync (filter (\<lambda>a. a \<noteq> []) peers) b (configured parse sync (nid, peers))"
    if "first_bad_peer parse peers = None" for nid peers b
    using that by (auto simp: smooth_node_def configured_def quorum_Configure_def NewQuorumStore_def newFanout_def comp_def fan_close_def)
  note node = this
  have "smooth_node sync (peers_of plan n) b (configured parse sync (plan ! n))" if "n < length plan" for n b
    using node [of "snd (plan ! n)" b "fst (plan ! n)"] assms nth_mem [OF that] by (simp add: peers_of_def)
  then show ?thesis by (simp add: smooth_ok_def gossip_start_def)
qed

section \<open>The control group\<close>

text \<open>Clients take turns: none sends a request before the last one was answered.\<close>

definition taking_turns :: "gossip \<Rightarrow> bool" where
  "taking_turns W \<longleftrightarrow> calls_over W"

text \<open>Every node is a peer of every other.\<close>

definition full_mesh :: "(string \<Rightarrow> nat option) \<Rightarrow> (string \<times> string list) list \<Rightarrow> bool" where
  "full_mesh home plan \<longleftrightarrow>
     (\<forall>n < length plan. \<forall>m < length plan. n \<noteq> m \<longrightarrow> (\<exists>a \<in> set (peers_of plan n). home a = Some m))"

definition merged :: "gossip \<Rightarrow> qdata" where
  "merged W = fold take_update (made W) Map.empty"

lemma holds_merged: "holds (merged W) (set (made W))"
  by (auto simp: holds_def merged_def)

text \<open>A node every update has reached holds them all.\<close>

lemma informed_node:
  assumes "gossip_ok home latest W" "n < length (gs_nodes W)" "set (made W) \<subseteq> seen home W n"
  shows "qn_data (gs_nodes W ! n) = merged W"
proof (rule holds_agree)
  have "seen home W n = set (made W)" using assms(3) seen_made [OF assms(1)] by blast
  then show "holds (qn_data (gs_nodes W ! n)) (set (made W))" using assms(1,2) unfolding gossip_ok_def by metis
  show "holds (merged W) (set (made W))" by (rule holds_merged)
  show "consistent u v" if "u \<in> set (made W)" "v \<in> set (made W)" for u v
    by (rule consistent_made [OF _ that]) (use assms(1) in \<open>simp add: gossip_ok_def\<close>)
qed

text \<open>Once a synchronous write is over, every node has it.\<close>

lemma over_is_everywhere:
  assumes ok: "smooth_ok True peers W" and c: "c \<in> set (gs_calls W)" "gc_op c \<noteq> None" "gc_update c = Some u"
    and m: "m = gc_node c \<or> (\<exists>a \<in> set (peers (gc_node c)). home a = Some m)"
  shows "u \<in> seen home W m"
  using m
proof
  assume "m = gc_node c"
  with c show ?thesis by (auto simp: seen_def)
next
  assume "\<exists>a \<in> set (peers (gc_node c)). home a = Some m"
  then obtain a where a: "a \<in> set (peers (gc_node c))" "home a = Some m" by blast
  obtain i where i: "i < length (gs_calls W)" "c = gs_calls W ! i" using c(1) by (auto simp: in_set_conv_nth)
  then have "smooth_call True peers W i c" using smooth_ok_call [OF ok] by simp
  with c a(1) have "posted_by W i a u" "idle W (Caller i)" by (auto simp: smooth_call_def passed_on_def)
  then obtain p where p: "p \<in> set (gs_posts W)" "pt_back p" "pt_addr p = a" "pt_update p = u"
    by (auto simp: posted_by_def idle_def)
  moreover have "pt_there p" by (rule smooth_ok_post [OF ok p(1,2)])
  ultimately show ?thesis using a(2) by (auto simp: seen_def)
qed

text \<open>While clients take turns, only the last request is under way.\<close>

definition turns :: "gossip \<Rightarrow> bool" where
  "turns W \<longleftrightarrow> (\<forall>i. Suc i < length (gs_calls W) \<longrightarrow> gc_op (gs_calls W ! i) \<noteq> None)"

lemma turns_put_call: "turns W \<Longrightarrow> (gc_op (gs_calls W ! i) \<noteq> None \<Longrightarrow> gc_op c \<noteq> None) \<Longrightarrow> turns (put_call W i c)"
  unfolding turns_def put_simps length_list_update by (metis nth_list_update nth_list_update_neq Suc_lessD)

lemma turns_step:
  assumes "gossip_step parse home clk latest taking_turns False W W'" "turns W"
  shows "turns W'"
  using assms
proof (induction rule: gossip_step.induct)
  case (issue W now_r n req p)
  then show ?case by (auto simp: turns_def taking_turns_def calls_over_def nth_append)
next
  case (apply_op i W c stamp resp r s)
  then have "turns (put_node W (gc_node c) s)" by (simp add: turns_def)
  then show ?case by (rule turns_put_call) (use apply_op(2) in simp)
next
  case (hand i W c resp r ps s)
  then have "turns (put_node W (gc_node c) s)" by (simp add: turns_def)
  then have "turns (put_call (put_node W (gc_node c) s) i (c\<lparr>gc_phase := Replied resp\<rparr>))"
    by (rule turns_put_call) (use hand(2) in simp)
  then show ?case by (simp add: turns_def)
next
  case (answered i W c resp now_r)
  from answered(7) show ?case by (rule turns_put_call) (simp add: end_call_def)
qed (simp_all add: turns_def)

text \<open>The one store the cluster looks like.\<close>

definition reply_of :: "call \<Rightarrow> Response option" where
  "reply_of c = (case gc_phase c of Arriving \<Rightarrow> None | Handing resp _ \<Rightarrow> Some resp | Replied resp \<Rightarrow> Some resp)"

definition attempt_like :: "call \<Rightarrow> attempt \<Rightarrow> bool" where
  "attempt_like c a \<longleftrightarrow>
     a_process a = gc_process c \<and> a_request a = gc_request c \<and> a_invoke a = gc_invoke c \<and> a_op a = gc_op c \<and>
     map_option fst (a_applied a) = reply_of c"

definition acts_like :: "gossip \<Rightarrow> data run_state \<Rightarrow> bool" where
  "acts_like W R \<longleftrightarrow>
     r_now R = gs_now W \<and> (\<forall>k. single_get (r_store R) k = qe_value (quorum_get (merged W) k)) \<and>
     list_all2 attempt_like (gs_calls W) (r_attempts R)"

lemma acts_like_start: "acts_like (gossip_start parse sync plan) (run_init Map.empty)"
  by (simp add: acts_like_def gossip_start_def run_init_def merged_def made_def List.map_filter_def
      single_get_def quorum_get_def InitialValue_def)

lemma acts_likeD:
  assumes "acts_like W R" "i < length (gs_calls W)" "c = gs_calls W ! i"
  shows "i < length (r_attempts R)" "attempt_like c (r_attempts R ! i)"
proof -
  have all: "list_all2 attempt_like (gs_calls W) (r_attempts R)" using assms(1) by (simp add: acts_like_def)
  show "i < length (r_attempts R)" using list_all2_lengthD [OF all] assms(2) by simp
  show "attempt_like c (r_attempts R ! i)" using list_all2_nthD [OF all assms(2)] assms(3) by simp
qed

text \<open>Steps the clients do not see.\<close>

lemma acts_like_hidden:
  "acts_like W R \<Longrightarrow> gs_now W' = gs_now W \<Longrightarrow> gs_calls W' = gs_calls W \<Longrightarrow> acts_like W' R"
  by (simp add: acts_like_def merged_def made_def)

lemma acts_like_idle:
  assumes "acts_like W R" "gs_now W' = gs_now W" "gs_calls W' = gs_calls W"
  shows "\<exists>R'. (R' = R \<or> run_step single_Apply clk R R') \<and> acts_like W' R'"
  using acts_like_hidden [OF assms] by blast

lemma acts_like_put_call:
  assumes "acts_like W R" "i < length (gs_calls W)" "gc_update c' = gc_update (gs_calls W ! i)" "attempt_like c' a"
  shows "acts_like (put_call W i c') (set_attempt R i a)"
proof -
  have "merged (put_call W i c') = merged W" using made_put_same [OF assms(2,3)] by (simp add: merged_def)
  moreover have "gs_now (put_call W i c') = gs_now W" by (simp add: put_call_def)
  ultimately show ?thesis using assms(1,4) by (simp add: acts_like_def set_attempt_def list_all2_update_cong)
qed

lemma acts_like_seen:
  assumes "acts_like W R" "i < length (gs_calls W)" "c = gs_calls W ! i"
    and "gc_process c' = gc_process c" "gc_request c' = gc_request c" "gc_invoke c' = gc_invoke c" "gc_op c' = gc_op c"
    and "reply_of c' = reply_of c" "gc_update c' = gc_update c"
  shows "acts_like (put_call W i c') R"
proof -
  have "attempt_like c' (r_attempts R ! i)" using acts_likeD [OF assms(1-3)] assms(4-8) by (simp add: attempt_like_def)
  from acts_like_put_call [OF assms(1,2) _ this] assms(3,9) show ?thesis by (simp add: set_attempt_def)
qed

text \<open>A node applies a request as the one store does, when it holds what the store holds.\<close>

lemma quorum_single:
  assumes "\<And>k. single_get st k = qe_value (quorum_get (qn_data s) k)" "quorum_Apply stamp req s = (resp, r, s')"
  shows "\<exists>d. single_Apply st req = (Inr resp, d) \<and> (\<forall>k. single_get d k = qe_value (quorum_get (qn_data s') k))"
proof -
  have upd: "single_get (st(q_Key req \<mapsto> v)) k = qe_value (quorum_get ((qn_data s)(q_Key req \<mapsto> e)) k)"
    if "qe_value e = v" for v e k
    using assms(1) that by (auto simp: single_get_def quorum_get_def)
  show ?thesis
    using assms(2) assms(1) by (auto simp: quorum_Apply_def single_Apply_def local_write_def Let_def upd split: Kind.splits if_splits)
qed

lemma acts_like_apply:
  assumes al: "acts_like W R" and ok: "gossip_ok home latest W" and sm: "smooth_ok True peers W" and tu: "turns W"
    and mesh: "\<And>n m. n < length (gs_nodes W) \<Longrightarrow> m < length (gs_nodes W) \<Longrightarrow> n \<noteq> m \<Longrightarrow> \<exists>a \<in> set (peers n). home a = Some m"
    and i: "i < length (gs_calls W)" "c = gs_calls W ! i" and ph: "gc_phase c = Arriving"
    and ap: "quorum_Apply stamp (gc_request c) (gs_nodes W ! gc_node c) = (resp, r, s)"
    and room: "latest + int (length (made W)) < max_int64"
    and c': "c' = c\<lparr>gc_phase := (case r of None \<Rightarrow> Replied resp | Some x \<Rightarrow> Handing resp x),
         gc_update := map_option (\<lambda>(k, sy, u). u) r\<rparr>"
  shows "\<exists>R'. run_step single_Apply clk R R' \<and> acts_like (put_call (put_node W (gc_node c) s) i c') R'"
proof -
  let ?V = "put_call (put_node W (gc_node c) s) i c'" and ?s = "gs_nodes W ! gc_node c" and ?a = "r_attempts R ! i"
  note c = gossip_ok_call [OF ok i]
  have nr: "\<not> has_replied (gs_calls W ! i)" using ph i(2) by (simp add: has_replied_def)
  have op: "gc_op c = None" using smooth_open [OF sm i(1) nr] i(2) by simp
  have none: "gc_update c = None" using c(1) ph by (simp add: call_ok_def)
  have i_last: "Suc i = length (gs_calls W)"
    using tu op i by (metis Suc_lessI turns_def)
  have "set (made W) \<subseteq> seen home W (gc_node c)"
  proof
    fix u assume "u \<in> set (made W)"
    then obtain j where j: "j < length (gs_calls W)" "gc_update (gs_calls W ! j) = Some u"
      by (auto simp: set_made in_set_conv_nth)
    then have "j \<noteq> i" using none i(2) by auto
    with j(1) i_last have "Suc j < length (gs_calls W)" by simp
    then have "gc_op (gs_calls W ! j) \<noteq> None" using tu by (simp add: turns_def)
    moreover have "gc_node (gs_calls W ! j) < length (gs_nodes W)" by (rule gossip_ok_call [OF ok j(1) refl])
    ultimately show "u \<in> seen home W (gc_node c)"
      using mesh c(2) by (intro over_is_everywhere [OF sm nth_mem [OF j(1)] _ j(2)]) metis+
  qed
  from informed_node [OF ok c(2) this] have data: "qn_data ?s = merged W" .
  have "\<And>k. single_get (r_store R) k = qe_value (quorum_get (qn_data ?s) k)"
    using al by (simp add: acts_like_def data)
  from quorum_single [OF this ap] obtain d where d: "single_Apply (r_store R) (gc_request c) = (Inr resp, d)"
    "\<And>k. single_get d k = qe_value (quorum_get (qn_data s) k)" by blast
  have calls: "gs_calls W = butlast (gs_calls W) @ [c]"
    using i i_last by (metis append_butlast_last_id diff_Suc_1 last_conv_nth length_0_conv less_nat_zero_code)
  have "(gs_calls W)[i := c'] = butlast (gs_calls W) @ [c']"
  proof -
    have "length (butlast (gs_calls W)) = i" using i_last by simp
    then show ?thesis by (subst calls) (metis list_update_length)
  qed
  then have "made ?V = List.map_filter gc_update (butlast (gs_calls W) @ [c'])"
    by (simp add: made_def)
  moreover have "made W = List.map_filter gc_update (butlast (gs_calls W) @ [c])"
    unfolding made_def by (rule arg_cong [OF calls])
  ultimately have made: "made ?V = made W @ (case r of None \<Rightarrow> [] | Some (k, sy, u) \<Rightarrow> [u])"
    using none by (auto simp: List.map_filter_def c' split: option.splits)
  have "merged ?V = qn_data s"
    using ap
  proof (cases rule: quorum_Apply_cases)
    case silent
    then show ?thesis using made data by (simp add: merged_def)
  next
    case (update k sy u v)
    have "qe_stamp held < max_int64 \<and> min_int64 \<le> qe_stamp held"
      if "qn_data ?s (q_Key (gc_request c)) = Some held" for held
      using held_stamp [OF ok c(2) that] room by simp
    from local_write_dominates(1) [OF update(2) this] show ?thesis
      using made update(1) data by (simp add: merged_def)
  qed
  note a = acts_likeD [OF al i]
  then have fresh: "a_applied ?a = None" and same: "a_request ?a = gc_request c" "a_op ?a = None"
    using ph op by (auto simp: attempt_like_def reply_of_def)
  let ?R = "set_attempt (R\<lparr>r_store := d, r_order := r_order R @ [i]\<rparr>) i (?a\<lparr>a_applied := Some (resp, r_now R)\<rparr>)"
  have "run_step single_Apply clk R ?R"
    by (rule run_step.serve [OF a(1) refl fresh]) (use same d(1) in simp_all)
  moreover have "attempt_like c' (?a\<lparr>a_applied := Some (resp, r_now R)\<rparr>)"
    using a(2) by (auto simp: attempt_like_def reply_of_def c' split: option.split)
  then have "acts_like ?V ?R"
    using al d(2) \<open>merged ?V = qn_data s\<close>
    by (simp add: acts_like_def set_attempt_def put_call_def put_node_def list_all2_update_cong)
  ultimately show ?thesis by blast
qed

lemma acts_like_step:
  assumes "gossip_step parse home clk latest taking_turns False W W'" "acts_like W R" "gossip_ok home latest W"
    and "smooth_ok True peers W" "turns W" "latest + int (length (made W)) < max_int64"
    and "\<And>n m. n < length (gs_nodes W) \<Longrightarrow> m < length (gs_nodes W) \<Longrightarrow> n \<noteq> m \<Longrightarrow> \<exists>a \<in> set (peers n). home a = Some m"
  shows "\<exists>R'. (R' = R \<or> run_step single_Apply clk R R') \<and> acts_like W' R'"
  using assms
proof (induction rule: gossip_step.induct)
  case (tick W t)
  let ?R = "R\<lparr>r_now := t\<rparr>"
  have "run_step single_Apply clk R ?R" using tick(1-3) by (intro run_step.tick) (simp_all add: acts_like_def)
  moreover have "acts_like (W\<lparr>gs_now := t\<rparr>) ?R" using tick(3) by (simp add: acts_like_def merged_def made_def)
  ultimately show ?case by blast
next
  case (issue W now_r n req p)
  let ?a = "\<lparr>a_process = p, a_request = req, a_invoke = now_r, a_applied = None, a_op = None\<rparr>"
  let ?R = "R\<lparr>r_attempts := r_attempts R @ [?a]\<rparr>"
  have "run_step single_Apply clk R ?R" using issue by (intro run_step.start) (simp_all add: acts_like_def)
  moreover have "acts_like (W\<lparr>gs_calls := gs_calls W @ [\<lparr>gc_process = p, gc_request = req, gc_invoke = now_r,
      gc_node = n, gc_phase = Arriving, gc_update = None, gc_op = None\<rparr>]\<rparr>) ?R"
    using issue(7) by (simp add: acts_like_def merged_def made_def List.map_filter_def attempt_like_def reply_of_def
        list_all2_appendI)
  ultimately show ?case by blast
next
  case (apply_op i W c stamp resp r s)
  from acts_like_apply [OF apply_op(8-11) apply_op(13) apply_op(1-3,7,12) refl] show ?case by blast
next
  case (hand i W c resp r ps s)
  have "acts_like (put_node W (gc_node c) s) R" by (rule acts_like_hidden [OF hand(5)]) (simp_all add: put_node_def)
  then have "acts_like (put_call (put_node W (gc_node c) s) i (c\<lparr>gc_phase := Replied resp\<rparr>)) R"
    by (rule acts_like_seen) (use hand(1-3) in \<open>simp_all add: reply_of_def\<close>)
  then show ?case by (rule acts_like_idle) (simp_all add: launch_def)
next
  case (work n W s k i p f)
  show ?case by (rule acts_like_idle [OF work(6)]) (simp_all add: launch_def put_node_def)
next
  case (deliver i W p m s body resp d)
  show ?case by (rule acts_like_idle [OF deliver(8)]) (simp_all add: put_post_def put_node_def)
next
  case (returned i W p)
  show ?case by (rule acts_like_idle [OF returned(4)]) (simp_all add: put_post_def)
next
  case (answered i W c resp now_r)
  note a = acts_likeD [OF answered(7,1,2)]
  from a(2) answered(3,4) obtain t where t: "a_op (r_attempts R ! i) = None" "a_applied (r_attempts R ! i) = Some (resp, t)"
    by (auto simp: attempt_like_def reply_of_def)
  have "reading clk now_r (r_now R)" using answered(6,7) by (simp add: acts_like_def)
  then have "run_step single_Apply clk R (set_attempt R i (finish clk (r_attempts R ! i) now_r (Inr resp)))"
    by (intro run_step.answered [OF a(1) refl t])
  moreover have "attempt_like (end_call clk c now_r (Inr resp)) (finish clk (r_attempts R ! i) now_r (Inr resp))"
    using a(2) by (simp add: attempt_like_def finish_def end_call_def reply_of_def)
  with acts_like_put_call [OF answered(7,1), of "end_call clk c now_r (Inr resp)"] answered(2)
  have "acts_like (put_call W i (end_call clk c now_r (Inr resp)))
      (set_attempt R i (finish clk (r_attempts R ! i) now_r (Inr resp)))" by simp
  ultimately show ?case by blast
qed simp_all

lemma nodes_stay: "gossip_step parse home clk latest ready rough W W' \<Longrightarrow> length (gs_nodes W') = length (gs_nodes W)"
  by (induction rule: gossip_step.induct) simp_all

lemma nodes_reach: "gossip_reach parse home clk latest ready rough W0 W \<Longrightarrow> length (gs_nodes W) = length (gs_nodes W0)"
  by (induction rule: gossip_reach.induct) (simp_all add: nodes_stay)

lemma turns_reach: "gossip_reach parse home clk latest taking_turns False (gossip_start parse sync plan) W \<Longrightarrow> turns W"
  by (induction rule: gossip_reach.induct) (simp_all add: turns_step, simp add: turns_def gossip_start_def)

text \<open>What a plan of a cluster must give: names of its own to the nodes, and addresses they accept.\<close>

definition sound_plan :: "(string \<Rightarrow> url option) \<Rightarrow> (string \<times> string list) list \<Rightarrow> bool" where
  "sound_plan parse plan \<longleftrightarrow>
     distinct (map fst plan) \<and> [] \<notin> fst ` set plan \<and> (\<forall>x \<in> set plan. first_bad_peer parse (snd x) = None)"

lemma control_refines:
  assumes "gossip_reach parse home clk latest taking_turns False (gossip_start parse True plan) W"
    and "sound_plan parse plan" "full_mesh home plan" "latest + int (length (gs_calls W)) < max_int64"
  shows "\<exists>R. run_reach single_Apply clk Map.empty R \<and> acts_like W R"
  using assms
proof (induction rule: gossip_reach.induct)
  case init
  show ?case by (intro exI conjI) (rule run_reach.init, rule acts_like_start)
next
  case (step W W')
  let ?W0 = "gossip_start parse True plan"
  have room: "latest + int (length (gs_calls W)) < max_int64" using step(6) calls_grow [OF step(2)] by simp
  then obtain R where R: "run_reach single_Apply clk Map.empty R" "acts_like W R" using step by blast
  have start: "gossip_ok home latest ?W0" "smooth_ok True (peers_of plan) ?W0"
    using step(4) by (simp_all add: sound_plan_def gossip_ok_start smooth_ok_start)
  have ok: "gossip_ok home latest W" by (rule gossip_ok_reach [OF step(1) start(1) room])
  have sm: "smooth_ok True (peers_of plan) W" by (rule smooth_ok_reach [OF step(1) start(2,1) room]) simp
  have room': "latest + int (length (made W)) < max_int64" using room length_made_le [of W] by simp
  have "length (gs_nodes W) = length plan" using nodes_reach [OF step(1)] by (simp add: gossip_start_def)
  then have mesh: "\<exists>a \<in> set (peers_of plan n). home a = Some m"
    if "n < length (gs_nodes W)" "m < length (gs_nodes W)" "n \<noteq> m" for n m
    using step(5) that by (simp add: full_mesh_def)
  obtain R' where R': "R' = R \<or> run_step single_Apply clk R R'" "acts_like W' R'"
    using acts_like_step [OF step(2) R(2) ok sm turns_reach [OF step(1)] room' mesh] by blast
  from R'(1) have "run_reach single_Apply clk Map.empty R'"
    by (rule disjE) (use R(1) run_reach.step [OF R(1)] in simp_all)
  with R'(2) show ?case by blast
qed

lemma acts_like_history:
  assumes "acts_like W R"
  shows "run_history R = gossip_history W" "run_over R \<longleftrightarrow> calls_over W"
proof -
  have "list_all2 attempt_like (gs_calls W) (r_attempts R)" using assms by (simp add: acts_like_def)
  then have "list_all2 (\<lambda>c a. gc_op c = a_op a) (gs_calls W) (r_attempts R)"
    by (rule list_all2_mono) (simp add: attempt_like_def)
  then have maps: "map a_op (r_attempts R) = map gc_op (gs_calls W)"
    unfolding list_all2_conv_all_nth by (intro nth_equalityI) auto
  have "map f (map a_op (r_attempts R)) = map f (map gc_op (gs_calls W))" for f :: "Op option \<Rightarrow> 'z"
    by (simp only: maps)
  then have ops: "map (\<lambda>a. f (a_op a)) (r_attempts R) = map (\<lambda>c. f (gc_op c)) (gs_calls W)" for f :: "Op option \<Rightarrow> 'z"
    by (simp add: comp_def)
  show "run_history R = gossip_history W" by (simp only: run_history_def gossip_history_def ops)
  have "(\<forall>x \<in> set (map a_op (r_attempts R)). x \<noteq> None) \<longleftrightarrow> (\<forall>x \<in> set (map gc_op (gs_calls W)). x \<noteq> None)"
    by (simp only: maps)
  then show "run_over R \<longleftrightarrow> calls_over W" by (simp add: run_over_def calls_over_def)
qed

lemma control_run:
  assumes "gossip_reach parse home clk latest taking_turns False (gossip_start parse True plan) W" "calls_over W"
    and "sound_plan parse plan" "full_mesh home plan" "latest + int (length (gs_calls W)) < max_int64"
  obtains R where "run_reach single_Apply clk Map.empty R" "run_over R" "run_history R = gossip_history W"
  using control_refines [OF assms(1,3-5)] assms(2) acts_like_history by blast

end
