(* ===== verification/Gossip_Settle.thy ===== *)
theory Gossip_Settle
  imports Gossip_Control
begin

text \<open>
  Given enough quiet time the nodes of the gossiping store agree (\<open>internal/kv/quorum.go\<close>). From any
  state a smooth run leads to, the updates handed over, the queues and the posts can be worked off
  without a further request, and when nothing is left to work off every update has reached every
  node. Each step of the way makes four counters smaller, in lexicographic order.
\<close>

section \<open>Posts go to peers\<close>

definition addressed :: "(nat \<Rightarrow> string list) \<Rightarrow> gossip \<Rightarrow> bool" where
  "addressed peers W \<longleftrightarrow> (\<forall>p \<in> set (gs_posts W). \<exists>n < length (gs_nodes W). pt_addr p \<in> set (peers n))"

lemma smooth_addresses:
  assumes "smooth_node sync addrs b s" "k < length (qn_fans s)"
  shows "fst ` set (fo_queues (qn_fans s ! k)) \<subseteq> set addrs"
proof -
  obtain g f where f: "qn_fans s = [g, f]" "fo_queues g = []" "map fst (fo_queues f) = addrs"
    using assms(1) by (auto simp: smooth_node_def)
  then have "fst ` set (fo_queues f) = set addrs" by (metis set_map)
  with f assms(2) show ?thesis by (cases k) auto
qed

lemma pump_address:
  assumes "pump i f = (p, f')"
  shows "fst ` set (case p of None \<Rightarrow> [] | Some x \<Rightarrow> [x]) \<subseteq> fst ` set (fo_queues f)"
proof (cases p)
  case (Some x)
  then have i: "i < length (fo_queues f)" using assms by (auto simp: pump_def split: if_splits)
  then have "fst x = fst (fo_queues f ! i)"
    using assms Some by (auto simp: pump_def split: prod.splits list.splits if_splits)
  with i Some show ?thesis by simp
qed simp

lemma addressed_launch:
  "addressed peers W \<Longrightarrow> n < length (gs_nodes W) \<Longrightarrow> fst ` set ps \<subseteq> set (peers n) \<Longrightarrow> addressed peers (launch w ps W)"
  by (fastforce simp: addressed_def launch_def)

lemma addressed_same:
  "addressed peers W \<Longrightarrow> gs_posts W' = gs_posts W \<Longrightarrow> length (gs_nodes W') = length (gs_nodes W) \<Longrightarrow> addressed peers W'"
  by (simp add: addressed_def)

lemma addressed_put_post:
  assumes "addressed peers W" "i < length (gs_posts W)" "pt_addr p = pt_addr (gs_posts W ! i)"
  shows "addressed peers (put_post W i p)"
  unfolding addressed_def put_simps
  by (rule ball_update) (use assms in \<open>simp_all add: addressed_def\<close>)

lemma addressed_step:
  assumes "gossip_step parse home clk latest ready False W W'" "addressed peers W" "smooth_ok sync peers W"
    and "gossip_ok home latest W"
  shows "addressed peers W'"
  using assms
proof (induction rule: gossip_step.induct)
  case (tick W t)
  then show ?case by (simp add: addressed_def)
next
  case (issue W now_r n req p)
  then show ?case by (simp add: addressed_def)
next
  case (apply_op i W c stamp resp r s)
  show ?case by (rule addressed_same [OF apply_op(8)]) simp_all
next
  case (hand i W c resp r ps s)
  note c = gossip_ok_call [OF hand(7,1,2)]
  let ?s = "gs_nodes W ! gc_node c"
  have sn: "smooth_node sync (peers (gc_node c)) (replies W) ?s" by (rule smooth_ok_node [OF hand(6) c(2) le_refl])
  obtain k sy u where r: "r = (k, sy, u)" by (cases r) auto
  have "k = 1" using smooth_ok_call [OF hand(6,1)] hand(2,3) r by (simp add: smooth_call_def)
  then have k: "k < length (qn_fans ?s)" using sn by (auto simp: smooth_node_def)
  have "fst ` set ps \<subseteq> fst ` set (fo_queues (qn_fans ?s ! k))"
    using hand(4) r by (force simp: replicate_update_def broadcast_def Let_def split: if_splits)
  with smooth_addresses [OF sn k] have ps: "fst ` set ps \<subseteq> set (peers (gc_node c))" by blast
  have "addressed peers (put_call (put_node W (gc_node c) s) i (c\<lparr>gc_phase := Replied resp\<rparr>))"
    by (rule addressed_same [OF hand(5)]) simp_all
  then show ?case by (rule addressed_launch) (use c(2) ps in simp_all)
next
  case (work n W s k i p f)
  have sn: "smooth_node sync (peers n) (replies W) s" using smooth_ok_node [OF work(7,1) le_refl] work(2) by simp
  have "fst ` set (case p of None \<Rightarrow> [] | Some x \<Rightarrow> [x]) \<subseteq> fst ` set (fo_queues (qn_fans s ! k))"
    by (rule pump_address [OF work(5)])
  with smooth_addresses [OF sn work(3)] have ps: "fst ` set (case p of None \<Rightarrow> [] | Some x \<Rightarrow> [x]) \<subseteq> set (peers n)"
    by blast
  have "addressed peers (put_node W n (s\<lparr>qn_fans := (qn_fans s)[k := f]\<rparr>))"
    by (rule addressed_same [OF work(6)]) simp_all
  then show ?case by (rule addressed_launch) (use work(1) ps in simp_all)
next
  case (deliver i W p m s body resp d)
  have "addressed peers (put_node W m (s\<lparr>qn_data := d\<rparr>))" by (rule addressed_same [OF deliver(8)]) simp_all
  then show ?case by (rule addressed_put_post) (use deliver(1,2) in simp_all)
next
  case (returned i W p)
  show ?case by (rule addressed_put_post [OF returned(4,1)]) (use returned(2) in simp)
next
  case (answered i W c resp now_r)
  show ?case by (rule addressed_same [OF answered(7)]) simp_all
qed simp_all

lemma addressed_reach:
  assumes "gossip_reach parse home clk latest ready False W0 W" "smooth_ok sync peers W0" "gossip_ok home latest W0"
    and "gs_posts W0 = []" "latest + int (length (gs_calls W)) < max_int64" "sync \<or> length (gs_calls W) \<le> fanoutQueue"
  shows "addressed peers W"
  using assms
proof (induction rule: gossip_reach.induct)
  case init
  then show ?case by (simp add: addressed_def)
next
  case (step W W')
  have b: "latest + int (length (gs_calls W)) < max_int64" "sync \<or> length (gs_calls W) \<le> fanoutQueue"
    using step(7,8) calls_grow [OF step(2)] by auto
  show ?case
    by (rule addressed_step [OF step(2)])
      (use step b smooth_ok_reach [OF step(1) step(4,5) b] gossip_ok_reach [OF step(1) step(5) b(1)] in simp_all)
qed

section \<open>What is left to do\<close>

definition is_handing :: "call \<Rightarrow> bool" where
  "is_handing c \<longleftrightarrow> (case gc_phase c of Handing _ _ \<Rightarrow> True | _ \<Rightarrow> False)"

definition handing :: "gossip \<Rightarrow> nat" where
  "handing W = length (filter is_handing (gs_calls W))"

definition backlog :: "qnode \<Rightarrow> nat" where
  "backlog s = sum_list (map (\<lambda>(a, q). length q) (fo_queues (last (qn_fans s))))"

definition waiting :: "gossip \<Rightarrow> nat" where
  "waiting W = sum_list (map backlog (gs_nodes W))"

definition unseen :: "gossip \<Rightarrow> nat" where
  "unseen W = length (filter (\<lambda>p. \<not> pt_there p) (gs_posts W))"

definition unreturned :: "gossip \<Rightarrow> nat" where
  "unreturned W = length (filter (\<lambda>p. \<not> pt_back p) (gs_posts W))"

definition less_left :: "(gossip \<times> gossip) set" where
  "less_left = measures [handing, waiting, unseen, unreturned]"

lemma wf_less_left: "wf less_left"
  by (simp add: less_left_def)

lemma length_filter_drop:
  assumes "i < length xs" "P (xs ! i)" "\<not> P y"
  shows "length (filter P (xs[i := y])) < length (filter P xs)"
proof -
  have "length (filter P ((xs[i := y])[i := xs ! i])) = Suc (length (filter P (xs[i := y])))"
    by (rule length_filter_update) (use assms in simp_all)
  then show ?thesis by simp
qed

lemma waiting_put_node:
  "n < length (gs_nodes W) \<Longrightarrow> backlog s = backlog (gs_nodes W ! n) \<Longrightarrow> waiting (put_node W n s) = waiting W"
  by (simp add: waiting_def ids_update)

lemma left_simps [simp]:
  "handing (put_node W n s) = handing W" "handing (put_post W i p) = handing W" "handing (launch w ps W) = handing W"
  "waiting (put_call W i c) = waiting W" "waiting (put_post W i p) = waiting W" "waiting (launch w ps W) = waiting W"
  "unseen (put_node W n s) = unseen W" "unreturned (put_node W n s) = unreturned W"
  by (simp_all add: handing_def waiting_def unseen_def unreturned_def)

lemma less_leftI:
  "handing W' < handing W \<Longrightarrow> (W', W) \<in> less_left"
  "handing W' = handing W \<Longrightarrow> waiting W' < waiting W \<Longrightarrow> (W', W) \<in> less_left"
  "handing W' = handing W \<Longrightarrow> waiting W' = waiting W \<Longrightarrow> unseen W' < unseen W \<Longrightarrow> (W', W) \<in> less_left"
  "handing W' = handing W \<Longrightarrow> waiting W' = waiting W \<Longrightarrow> unseen W' = unseen W \<Longrightarrow> unreturned W' < unreturned W \<Longrightarrow>
     (W', W) \<in> less_left"
  by (simp_all add: less_left_def)

section \<open>While an update is missing somewhere, a step is possible\<close>

text \<open>A quiet step: no request is sent or applied, so nothing new is made.\<close>

definition quiet_step ::
  "(string \<Rightarrow> url option) \<Rightarrow> (string \<Rightarrow> nat option) \<Rightarrow> Clock \<Rightarrow> int64 \<Rightarrow> gossip \<Rightarrow> gossip \<Rightarrow> bool" where
  "quiet_step parse home clk latest W W' \<longleftrightarrow>
     gossip_step parse home clk latest (\<lambda>_. False) False W W' \<and> made W' = made W \<and>
     length (gs_calls W') = length (gs_calls W) \<and> (W', W) \<in> less_left"

lemma quiet_stepI:
  assumes "gossip_step parse home clk latest (\<lambda>_. False) False W W'" "(W', W) \<in> less_left" "made W' = made W"
    and "length (gs_calls W') = length (gs_calls W)"
  shows "\<exists>W'. quiet_step parse home clk latest W W'"
  using assms by (auto simp: quiet_step_def)

lemma quiet_post:
  assumes p: "p \<in> set (gs_posts W)" "\<not> pt_back p" and ok: "addressed peers W"
    and lead: "\<And>n a. n < length (gs_nodes W) \<Longrightarrow> a \<in> set (peers n) \<Longrightarrow> \<exists>m < length (gs_nodes W). home a = Some m"
  shows "\<exists>W'. quiet_step parse home clk latest W W'"
proof -
  obtain i where i: "i < length (gs_posts W)" "p = gs_posts W ! i" using p(1) by (auto simp: in_set_conv_nth)
  show ?thesis
  proof (cases "pt_there p")
    case True
    let ?V = "put_post W i (p\<lparr>pt_back := True\<rparr>)"
    have step: "gossip_step parse home clk latest (\<lambda>_. False) False W ?V" by (rule gossip_step.returned [OF i True])
    have "unseen ?V = unseen W" using True i by (simp add: unseen_def length_filter_same)
    moreover have "unreturned ?V < unreturned W"
      unfolding unreturned_def put_simps by (rule length_filter_drop) (use i p(2) in simp_all)
    ultimately have "(?V, W) \<in> less_left" by (intro less_leftI(4)) simp_all
    then show ?thesis by (rule quiet_stepI [OF step]) simp_all
  next
    case False
    obtain n where "n < length (gs_nodes W)" "pt_addr p \<in> set (peers n)" using ok p(1) by (auto simp: addressed_def)
    with lead obtain m where m: "m < length (gs_nodes W)" "home (pt_addr p) = Some m" by blast
    obtain resp d where h: "handleReplicate (\<lambda>_. Some (pt_update p)) [] (qn_data (gs_nodes W ! m)) = (resp, d)"
      by fastforce
    let ?s = "(gs_nodes W ! m)\<lparr>qn_data := d\<rparr>"
    let ?V = "put_post (put_node W m ?s) i (p\<lparr>pt_there := True\<rparr>)"
    have step: "gossip_step parse home clk latest (\<lambda>_. False) False W ?V"
      by (rule gossip_step.deliver [where s = "gs_nodes W ! m" and p = p and d = d and resp = resp and body = "[]"])
        (use i False m h in simp_all)
    have "waiting ?V = waiting W" using waiting_put_node [OF m(1), of ?s] by (simp add: backlog_def)
    moreover have "unseen ?V < unseen W"
      unfolding unseen_def put_simps by (rule length_filter_drop) (use i False in simp_all)
    ultimately have "(?V, W) \<in> less_left" by (intro less_leftI(3)) simp_all
    then show ?thesis by (rule quiet_stepI [OF step]) simp_all
  qed
qed

lemma quiet_hand:
  assumes i: "i < length (gs_calls W)" "c = gs_calls W ! i" and ph: "gc_phase c = Handing resp r"
  shows "\<exists>W'. quiet_step parse home clk latest W W'"
proof -
  obtain ps s where up: "replicate_update r (gs_nodes W ! gc_node c) = (ps, s)" by fastforce
  let ?c = "c\<lparr>gc_phase := Replied resp\<rparr>"
  let ?V = "launch (Caller i) ps (put_call (put_node W (gc_node c) s) i ?c)"
  have step: "gossip_step parse home clk latest (\<lambda>_. False) False W ?V" by (rule gossip_step.hand [OF i ph up])
  have made: "made ?V = made W"
    using made_put_same [of i "put_node W (gc_node c) s" ?c] i by simp
  have "handing ?V < handing W"
    unfolding handing_def put_simps by (rule length_filter_drop) (use i ph in \<open>simp_all add: is_handing_def\<close>)
  then show ?thesis by (intro quiet_stepI [OF step less_leftI(1) made]) simp_all
qed

lemma sum_list_drop:
  assumes "i < length xs" "f y < (f (xs ! i) :: nat)"
  shows "sum_list (map f (xs[i := y])) < sum_list (map f xs)"
  using assms by (induction xs arbitrary: i) (auto simp: nth_Cons' split: nat.splits)

lemma quiet_work:
  assumes sm: "smooth_ok sync peers W" and n: "n < length (gs_nodes W)" and q: "queue_has W n a u"
    and idl: "\<And>i. idle W (Worker n 1 i)"
  shows "\<exists>W'. quiet_step parse home clk latest W W'"
proof -
  let ?s = "gs_nodes W ! n"
  obtain g f where f: "qn_fans ?s = [g, f]" "\<not> fo_closed f"
    using smooth_ok_node [OF sm n le_refl] by (auto simp: smooth_node_def)
  obtain q' where "(a, q') \<in> set (fo_queues f)" "u \<in> set q'" using q f(1) by (auto simp: queue_has_def)
  then obtain i v vs where i: "i < length (fo_queues f)" "fo_queues f ! i = (a, v # vs)"
    by (metis in_set_conv_nth list.set_cases)
  let ?f = "f\<lparr>fo_queues := (fo_queues f)[i := (a, vs)]\<rparr>"
  have pu: "pump i (qn_fans ?s ! 1) = (Some (a, v), ?f)" using f i by (simp add: pump_def)
  let ?t = "?s\<lparr>qn_fans := (qn_fans ?s)[1 := ?f]\<rparr>"
  let ?V = "launch (Worker n 1 i) (case Some (a, v) of None \<Rightarrow> [] | Some x \<Rightarrow> [x]) (put_node W n ?t)"
  have k: "1 < length (qn_fans ?s)" using f(1) by simp
  have step: "gossip_step parse home clk latest (\<lambda>_. False) False W ?V"
    by (rule gossip_step.work [OF n refl k idl pu])
  have "backlog ?t < backlog ?s"
    using sum_list_drop [OF i(1), of "\<lambda>(a, q). length q" "(a, vs)"] i(2) f(1) by (simp add: backlog_def)
  then have "waiting ?V < waiting W"
    using sum_list_drop [OF n, of backlog ?t] by (simp add: waiting_def)
  then have "(?V, W) \<in> less_left" by (intro less_leftI(2)) simp_all
  then show ?thesis by (rule quiet_stepI [OF step]) simp_all
qed

text \<open>Where every address a node is given leads.\<close>

definition addresses_lead :: "(string \<Rightarrow> nat option) \<Rightarrow> (string \<times> string list) list \<Rightarrow> bool" where
  "addresses_lead home plan \<longleftrightarrow>
     (\<forall>n < length plan. \<forall>a \<in> set (peers_of plan n). \<exists>m < length plan. home a = Some m)"

lemma quiet_progress:
  assumes ok: "gossip_ok home latest W" and sm: "smooth_ok sync (peers_of plan) W" and ad: "addressed (peers_of plan) W"
    and plan: "length (gs_nodes W) = length plan" "full_mesh home plan" "addresses_lead home plan"
    and missing: "\<not> spread home W"
  shows "\<exists>W'. quiet_step parse home clk latest W W'"
proof -
  obtain n u where n: "n < length (gs_nodes W)" and u: "u \<in> set (made W)" "u \<notin> seen home W n"
    using missing by (auto simp: spread_def)
  obtain i where i: "i < length (gs_calls W)" and up: "gc_update (gs_calls W ! i) = Some u"
    using u(1) by (auto simp: set_made in_set_conv_nth)
  define c where "c = gs_calls W ! i"
  note c = gossip_ok_call [OF ok i c_def]
  have lead: "\<exists>m < length (gs_nodes W). home a = Some m" if "k < length (gs_nodes W)" "a \<in> set (peers_of plan k)" for k a
    using plan(1,3) that by (simp add: addresses_lead_def)
  have post: "\<exists>W'. quiet_step parse home clk latest W W'" if "p \<in> set (gs_posts W)" "\<not> pt_back p" for p
    by (rule quiet_post [OF that ad lead])
  have "gc_node c \<noteq> n" using u(2) up i nth_mem [OF i] by (auto simp: seen_def c_def)
  with plan(1,2) c(2) n obtain a where a: "a \<in> set (peers_of plan (gc_node c))" "home a = Some n"
    by (auto simp: full_mesh_def)
  show ?thesis
  proof (cases "gc_phase c")
    case Arriving
    with c(1) up show ?thesis by (simp add: call_ok_def c_def)
  next
    case (Handing resp r)
    from quiet_hand [OF i c_def this] show ?thesis .
  next
    case (Replied resp)
    then have "passed_on sync W i (gc_node c) a u"
      using smooth_ok_call [OF sm i] up a(1) by (simp add: smooth_call_def has_replied_def c_def)
    then consider "posted W a u" | "queue_has W (gc_node c) a u"
      by (auto simp: passed_on_def posted_by_def posted_def split: if_splits)
    then show ?thesis
    proof cases
      case 1
      then obtain p where p: "p \<in> set (gs_posts W)" "pt_addr p = a" "pt_update p = u" by (auto simp: posted_def)
      then have "\<not> pt_there p" using u(2) a(2) by (auto simp: seen_def)
      then have "\<not> pt_back p" using smooth_ok_post [OF sm p(1)] by blast
      from post [OF p(1) this] show ?thesis .
    next
      case 2
      show ?thesis
      proof (cases "\<forall>p \<in> set (gs_posts W). pt_back p")
        case True
        then have "idle W w" for w by (simp add: idle_def)
        from quiet_work [OF sm c(2) 2 this] show ?thesis .
      next
        case False
        with post show ?thesis by blast
      qed
    qed
  qed
qed

section \<open>So the cluster comes to rest\<close>

lemma gossip_reach_trans:
  assumes "gossip_reach parse home clk latest ready rough V W" "gossip_reach parse home clk latest ready rough U V"
  shows "gossip_reach parse home clk latest ready rough U W"
  using assms by (induction rule: gossip_reach.induct) (auto intro: gossip_reach.step)

lemma gossip_comes_to_rest:
  assumes "gossip_ok home latest W" "smooth_ok sync (peers_of plan) W" "addressed (peers_of plan) W"
    and "length (gs_nodes W) = length plan" "full_mesh home plan" "addresses_lead home plan"
    and "latest + int (length (gs_calls W)) < max_int64" "sync \<or> length (gs_calls W) \<le> fanoutQueue"
  shows "\<exists>W'. gossip_reach parse home clk latest (\<lambda>_. False) False W W' \<and> made W' = made W \<and>
    length (gs_nodes W') = length plan \<and> gossip_ok home latest W' \<and> spread home W'"
  using assms
proof (induction W rule: wf_induct_rule [OF wf_less_left])
  case (1 W)
  show ?case
  proof (cases "spread home W")
    case True
    with 1(2,5) show ?thesis using gossip_reach.init by blast
  next
    case False
    then obtain V where "quiet_step parse home clk latest W V" using quiet_progress [OF 1(2-7)] by blast
    then have V: "gossip_step parse home clk latest (\<lambda>_. False) False W V" "made V = made W"
      "length (gs_calls V) = length (gs_calls W)" "(V, W) \<in> less_left" by (simp_all add: quiet_step_def)
    have b: "latest + int (length (gs_calls V)) < max_int64" "sync \<or> length (gs_calls V) \<le> fanoutQueue"
      using 1(8,9) V(3) by simp_all
    have "gossip_ok home latest V" by (rule gossip_ok_step [OF V(1) 1(2) b(1)])
    moreover have "smooth_ok sync (peers_of plan) V" by (rule smooth_ok_step [OF V(1) 1(3,2) b(2)])
    moreover have "addressed (peers_of plan) V" by (rule addressed_step [OF V(1) 1(4,3,2)])
    moreover have "length (gs_nodes V) = length plan" using nodes_stay [OF V(1)] 1(5) by simp
    ultimately obtain W' where W': "gossip_reach parse home clk latest (\<lambda>_. False) False V W'" "made W' = made V"
      "length (gs_nodes W') = length plan" "gossip_ok home latest W'" "spread home W'"
      using 1(1) [OF V(4)] 1(6,7) b by blast
    have "gossip_reach parse home clk latest (\<lambda>_. False) False W V"
      by (rule gossip_reach.step [OF gossip_reach.init V(1)])
    from gossip_reach_trans [OF W'(1) this] W'(2-5) V(2) show ?thesis by auto
  qed
qed

lemma merged_same: "made W' = made W \<Longrightarrow> merged W' = merged W"
  by (simp add: merged_def)

lemma gossip_settle:
  assumes "gossip_reach parse home clk latest ready False (gossip_start parse sync plan) W"
    and "sound_plan parse plan" "full_mesh home plan" "addresses_lead home plan"
    and "latest + int (length (gs_calls W)) < max_int64" "sync \<or> length (gs_calls W) \<le> fanoutQueue"
  shows "\<exists>W'. gossip_reach parse home clk latest (\<lambda>_. False) False W W' \<and> made W' = made W \<and>
    (\<forall>n < length plan. qn_data (gs_nodes W' ! n) = merged W)"
proof -
  let ?W0 = "gossip_start parse sync plan"
  have start: "gossip_ok home latest ?W0" "smooth_ok sync (peers_of plan) ?W0"
    using assms(2) by (simp_all add: sound_plan_def gossip_ok_start smooth_ok_start)
  have "length (gs_nodes W) = length plan" using nodes_reach [OF assms(1)] by (simp add: gossip_start_def)
  moreover have "gossip_ok home latest W" by (rule gossip_ok_reach [OF assms(1) start(1) assms(5)])
  moreover have "smooth_ok sync (peers_of plan) W" by (rule smooth_ok_reach [OF assms(1) start(2,1) assms(5,6)])
  moreover have "addressed (peers_of plan) W"
    by (rule addressed_reach [OF assms(1) start(2,1) _ assms(5,6)]) (simp add: gossip_start_def)
  ultimately obtain W' where W': "gossip_reach parse home clk latest (\<lambda>_. False) False W W'" "made W' = made W"
    "length (gs_nodes W') = length plan" "gossip_ok home latest W'" "spread home W'"
    using gossip_comes_to_rest assms(3-6) by blast
  have "qn_data (gs_nodes W' ! n) = merged W" if "n < length plan" for n
    using informed_node [OF W'(4), of n] W'(2,3,5) that merged_same [OF W'(2)] by (simp add: spread_def)
  with W'(1,2) show ?thesis by blast
qed

end
