(* ===== verification/Forward_Run.thy ===== *)
theory Forward_Run
  imports Forward_Store Store_Run
begin

text \<open>
  Clients against the whole store of \<open>internal/kv/forward.go\<close>: a leader, node 0, that holds the data,
  and followers that send it every request they get. A request crosses two networks, each of which
  may delay it, lose it, lose its reply or refuse the connection. \<open>Client.Do\<close> is at one end,
  \<open>ForwardStore.Apply\<close> of the node asked in the middle, and \<open>ForwardStore.Apply\<close> of the leader at the
  other end; \<open>Forward_Store\<close> has the critical sections they are made of.

  While no node promotes itself the whole refines one store behind one lock (\<open>Store_Run\<close>): the
  relation \<open>looks_like\<close> is kept by every step, so what the clients record is linearizable. A node that
  may promote itself breaks exactly this.
\<close>

section \<open>A request on its way\<close>

text \<open>Its copy between the follower and the leader.\<close>

datatype relay = Unsent | Sending | Reached request_state

record journey =
  j_process :: int
  j_request :: Request
  j_invoke :: int64
  j_node :: nat
  j_front :: "request_state option"
  j_relay :: relay
  j_op :: "Op option"

record forward_cluster =
  fw_nodes :: "forward list"
  fw_now :: int
  fw_journeys :: "journey list"

definition forward_start :: "(string \<Rightarrow> url option) \<Rightarrow> string \<Rightarrow> nat \<Rightarrow> forward_cluster" where
  "forward_start parse addr followers =
     \<lparr>fw_nodes = NewForwardStore parse [] # replicate followers (NewForwardStore parse addr),
      fw_now = 0, fw_journeys = []\<rparr>"

definition move :: "forward_cluster \<Rightarrow> nat \<Rightarrow> journey \<Rightarrow> forward_cluster" where
  "move W i j = W\<lparr>fw_journeys := (fw_journeys W)[i := j]\<rparr>"

definition set_node :: "forward_cluster \<Rightarrow> nat \<Rightarrow> forward \<Rightarrow> forward_cluster" where
  "set_node W n s = W\<lparr>fw_nodes := (fw_nodes W)[n := s]\<rparr>"

abbreviation node_of :: "forward_cluster \<Rightarrow> journey \<Rightarrow> forward" where
  "node_of W j \<equiv> fw_nodes W ! j_node j"

text \<open>A follower that has read its role goes on to ask the leader.\<close>

definition asks :: "request_state \<Rightarrow> relay" where
  "asks q = (case q of Sent _ _ _ \<Rightarrow> Sending | _ \<Rightarrow> Unsent)"

text \<open>The client records how its request ended.\<close>

definition conclude :: "Clock \<Rightarrow> journey \<Rightarrow> int64 \<Rightarrow> TransportError + Response \<Rightarrow> journey" where
  "conclude clk j now_r r = j\<lparr>j_op := Some (Do_record clk (j_process j) (j_request j) (j_invoke j) now_r r)\<rparr>"

text \<open>No client has proof that the request never arrived.\<close>

definition may_arrive :: "Op option \<Rightarrow> bool" where
  "may_arrive x \<longleftrightarrow> (case x of None \<Rightarrow> True | Some op \<Rightarrow> Outcome op = Info)"

section \<open>The steps\<close>

text \<open>
  \<open>allowed\<close> says which configurations arrive while requests are in flight; none of them names
  another leader.
\<close>

inductive cluster_step ::
  "(string \<Rightarrow> url option) \<Rightarrow> (Config \<Rightarrow> bool) \<Rightarrow> Clock \<Rightarrow> forward_cluster \<Rightarrow> forward_cluster \<Rightarrow> bool"
  for parse allowed clk where
  tick: "fw_now W \<le> t \<Longrightarrow> t + ck_granularity clk < max_int64 \<Longrightarrow>
    cluster_step parse allowed clk W (W\<lparr>fw_now := t\<rparr>)"
| issue: "reading clk now_r (fw_now W) \<Longrightarrow> 0 \<le> now_r \<Longrightarrow> n < length (fw_nodes W) \<Longrightarrow>
    q_Kind req \<in> {Read, Write, CAS} \<Longrightarrow> q_Key req \<noteq> [] \<Longrightarrow>
    cluster_step parse allowed clk W (W\<lparr>fw_journeys := fw_journeys W @
      [\<lparr>j_process = p, j_request = req, j_invoke = now_r, j_node = n, j_front = None,
        j_relay = Unsent, j_op = None\<rparr>]\<rparr>)"
| arrive: "i < length (fw_journeys W) \<Longrightarrow> j = fw_journeys W ! i \<Longrightarrow> j_front j = None \<Longrightarrow> may_arrive (j_op j) \<Longrightarrow>
    cluster_step parse allowed clk W (move W i (j\<lparr>j_front := Some (Begun (j_request j))\<rparr>))"
| role: "i < length (fw_journeys W) \<Longrightarrow> j = fw_journeys W ! i \<Longrightarrow> j_front j = Some (Begun req) \<Longrightarrow>
    q = read_role (node_of W j) req \<Longrightarrow>
    cluster_step parse allowed clk W (move W i (j\<lparr>j_front := Some q, j_relay := asks q\<rparr>))"
| local: "i < length (fw_journeys W) \<Longrightarrow> j = fw_journeys W ! i \<Longrightarrow> j_front j = Some (Local req) \<Longrightarrow>
    single_Apply (fs_local (node_of W j)) req = (r, d) \<Longrightarrow>
    cluster_step parse allowed clk W (move (set_node W (j_node j) ((node_of W j)\<lparr>fs_local := d\<rparr>)) i
      (j\<lparr>j_front := Some (Answer r False)\<rparr>))"
| relay_arrives: "i < length (fw_journeys W) \<Longrightarrow> j = fw_journeys W ! i \<Longrightarrow> j_relay j = Sending \<Longrightarrow>
    cluster_step parse allowed clk W (move W i (j\<lparr>j_relay := Reached (Begun (j_request j))\<rparr>))"
| relay_role: "i < length (fw_journeys W) \<Longrightarrow> j = fw_journeys W ! i \<Longrightarrow> j_relay j = Reached (Begun req) \<Longrightarrow>
    cluster_step parse allowed clk W (move W i (j\<lparr>j_relay := Reached (read_role (fw_nodes W ! 0) req)\<rparr>))"
| relay_local: "i < length (fw_journeys W) \<Longrightarrow> j = fw_journeys W ! i \<Longrightarrow> j_relay j = Reached (Local req) \<Longrightarrow>
    single_Apply (fs_local (fw_nodes W ! 0)) req = (r, d) \<Longrightarrow>
    cluster_step parse allowed clk W (move (set_node W 0 ((fw_nodes W ! 0)\<lparr>fs_local := d\<rparr>)) i
      (j\<lparr>j_relay := Reached (Answer r False)\<rparr>))"
| leader_answers: "i < length (fw_journeys W) \<Longrightarrow> j = fw_journeys W ! i \<Longrightarrow> j_front j = Some (Sent req c pr) \<Longrightarrow>
    j_relay j = Reached (Answer (Inr resp) b) \<Longrightarrow>
    after_send req c pr (Inr resp) (node_of W j) = (s, q) \<Longrightarrow>
    cluster_step parse allowed clk W (move (set_node W (j_node j) s) i (j\<lparr>j_front := Some q\<rparr>))"
| no_answer: "i < length (fw_journeys W) \<Longrightarrow> j = fw_journeys W ! i \<Longrightarrow> j_front j = Some (Sent req c pr) \<Longrightarrow>
    \<not> te_NeverSent te \<Longrightarrow> after_send req c pr (Inl te) (node_of W j) = (s, q) \<Longrightarrow>
    cluster_step parse allowed clk W (move (set_node W (j_node j) s) i (j\<lparr>j_front := Some q\<rparr>))"
| dial_refused: "i < length (fw_journeys W) \<Longrightarrow> j = fw_journeys W ! i \<Longrightarrow> j_front j = Some (Sent req c pr) \<Longrightarrow>
    j_relay j = Sending \<Longrightarrow> te_NeverSent te \<Longrightarrow> after_send req c pr (Inl te) (node_of W j) = (s, q) \<Longrightarrow>
    cluster_step parse allowed clk W (move (set_node W (j_node j) s) i (j\<lparr>j_front := Some q, j_relay := Unsent\<rparr>))"
| cache: "i < length (fw_journeys W) \<Longrightarrow> j = fw_journeys W ! i \<Longrightarrow> j_front j = Some (Serving req) \<Longrightarrow>
    serveFromCache req (node_of W j) = (resp, s) \<Longrightarrow>
    cluster_step parse allowed clk W (move (set_node W (j_node j) s) i (j\<lparr>j_front := Some (Answer (Inr resp) True)\<rparr>))"
| configure: "allowed cfg \<Longrightarrow> cf_Leader cfg = None \<Longrightarrow> n < length (fw_nodes W) \<Longrightarrow>
    forward_Configure parse cfg (fw_nodes W ! n) = (err, s) \<Longrightarrow>
    cluster_step parse allowed clk W (set_node W n s)"
| answered: "i < length (fw_journeys W) \<Longrightarrow> j = fw_journeys W ! i \<Longrightarrow> j_op j = None \<Longrightarrow>
    j_front j = Some (Answer (Inr resp) b) \<Longrightarrow> reading clk now_r (fw_now W) \<Longrightarrow>
    cluster_step parse allowed clk W (move W i (conclude clk j now_r (Inr resp)))"
| lost: "i < length (fw_journeys W) \<Longrightarrow> j = fw_journeys W ! i \<Longrightarrow> j_op j = None \<Longrightarrow>
    \<not> te_NeverSent te \<Longrightarrow> reading clk now_r (fw_now W) \<Longrightarrow>
    cluster_step parse allowed clk W (move W i (conclude clk j now_r (Inl te)))"
| refused: "i < length (fw_journeys W) \<Longrightarrow> j = fw_journeys W ! i \<Longrightarrow> j_op j = None \<Longrightarrow>
    j_front j = None \<Longrightarrow> te_NeverSent te \<Longrightarrow> reading clk now_r (fw_now W) \<Longrightarrow>
    cluster_step parse allowed clk W (move W i (conclude clk j now_r (Inl te)))"

inductive cluster_reach ::
  "(string \<Rightarrow> url option) \<Rightarrow> (Config \<Rightarrow> bool) \<Rightarrow> Clock \<Rightarrow> forward_cluster \<Rightarrow> forward_cluster \<Rightarrow> bool"
  for parse allowed clk W0 where
  init: "cluster_reach parse allowed clk W0 W0"
| step: "cluster_reach parse allowed clk W0 W \<Longrightarrow> cluster_step parse allowed clk W W' \<Longrightarrow>
    cluster_reach parse allowed clk W0 W'"

definition cluster_over :: "forward_cluster \<Rightarrow> bool" where
  "cluster_over W \<longleftrightarrow> (\<forall>j \<in> set (fw_journeys W). j_op j \<noteq> None)"

definition cluster_history :: "forward_cluster \<Rightarrow> History" where
  "cluster_history W = SortByInvoke (map (\<lambda>j. the (j_op j)) (fw_journeys W))"

section \<open>What holds of a cluster in which no node promotes itself\<close>

text \<open>The leader's reply to a request it has applied.\<close>

definition leader_reply :: "journey \<Rightarrow> Response option" where
  "leader_reply j =
     (case j_relay j of
        Reached (Answer (Inr resp) _) \<Rightarrow> Some resp
      | Unsent \<Rightarrow>
          (if j_node j = 0 then case j_front j of Some (Answer (Inr resp) _) \<Rightarrow> Some resp | _ \<Rightarrow> None else None)
      | _ \<Rightarrow> None)"

lemma leader_reply_op [simp]: "leader_reply (j\<lparr>j_op := x\<rparr>) = leader_reply j"
  by (cases "j_relay j") (simp_all add: leader_reply_def)

lemma keep_relay: "j\<lparr>j_front := q, j_relay := j_relay j\<rparr> = j\<lparr>j_front := q\<rparr>"
  by (cases j) simp

fun front_ok :: "journey \<Rightarrow> request_state option \<Rightarrow> bool" where
  "front_ok j None \<longleftrightarrow> j_relay j = Unsent"
| "front_ok j (Some (Begun req)) \<longleftrightarrow> req = j_request j \<and> j_relay j = Unsent"
| "front_ok j (Some (Local req)) \<longleftrightarrow> req = j_request j \<and> j_relay j = Unsent \<and> j_node j = 0"
| "front_ok j (Some (Sent req _ pr)) \<longleftrightarrow> req = j_request j \<and> \<not> pr \<and> j_relay j \<noteq> Unsent \<and> j_node j \<noteq> 0"
| "front_ok j (Some (Serving _)) \<longleftrightarrow> False"
| "front_ok j (Some (Answer (Inl _) b)) \<longleftrightarrow> \<not> b \<and> j_relay j \<noteq> Unsent"
| "front_ok j (Some (Answer (Inr resp) b)) \<longleftrightarrow> \<not> b \<and>
     (if p_OK resp then leader_reply j = Some resp else j_relay j = Unsent \<and> j_node j \<noteq> 0)"

lemma front_ok_op [simp]: "front_ok (j\<lparr>j_op := x\<rparr>) q = front_ok j q"
  by (cases "(j, q)" rule: front_ok.cases) simp_all

fun relay_ok :: "Request \<Rightarrow> relay \<Rightarrow> bool" where
  "relay_ok req (Reached q) \<longleftrightarrow>
     (case q of Begun x \<Rightarrow> x = req | Local x \<Rightarrow> x = req | Answer r _ \<Rightarrow> (\<exists>resp. r = Inr resp \<and> p_OK resp) | _ \<Rightarrow> False)"
| "relay_ok req _ \<longleftrightarrow> True"

definition journey_ok :: "journey \<Rightarrow> bool" where
  "journey_ok j \<longleftrightarrow> front_ok j (j_front j) \<and> relay_ok (j_request j) (j_relay j) \<and>
     (may_arrive (j_op j) \<or> j_front j = None \<or> (\<exists>resp b. j_front j = Some (Answer (Inr resp) b)))"

definition cluster_ok :: "forward_cluster \<Rightarrow> bool" where
  "cluster_ok W \<longleftrightarrow>
     fw_nodes W \<noteq> [] \<and> (\<forall>s \<in> set (fw_nodes W). plain s) \<and>
     (\<forall>n < length (fw_nodes W). fs_leader (fw_nodes W ! n) = None \<longleftrightarrow> n = 0) \<and>
     (\<forall>j \<in> set (fw_journeys W). journey_ok j \<and> j_node j < length (fw_nodes W))"

lemma cluster_ok_start: "addr \<noteq> [] \<Longrightarrow> cluster_ok (forward_start parse addr n)"
  using plain_new [of parse addr] plain_new [of parse "[]"]
  by (auto simp: cluster_ok_def forward_start_def NewForwardStore_def nth_Cons' split: if_splits)

lemma cluster_ok_move:
  "cluster_ok W \<Longrightarrow> journey_ok j \<Longrightarrow> j_node j < length (fw_nodes W) \<Longrightarrow> cluster_ok (move W i j)"
  using set_update_subset_insert [of "fw_journeys W" i j] by (auto simp: cluster_ok_def move_def)

lemma cluster_ok_set_node:
  assumes "cluster_ok W" "plain s" "fs_leader s = fs_leader (fw_nodes W ! n)"
  shows "cluster_ok (set_node W n s)"
  using assms set_update_subset_insert [of "fw_nodes W" n s]
  by (cases "n < length (fw_nodes W)") (auto simp: cluster_ok_def set_node_def nth_list_update)

lemma cluster_okD:
  assumes "cluster_ok W" "i < length (fw_journeys W)" "j = fw_journeys W ! i"
  shows "journey_ok j" "j_node j < length (fw_nodes W)" "plain (node_of W j)"
    "fs_leader (node_of W j) = None \<longleftrightarrow> j_node j = 0"
    "plain (fw_nodes W ! 0)" "fs_leader (fw_nodes W ! 0) = None"
  using assms by (auto simp: cluster_ok_def)

lemma after_send_keeps:
  "after_send req c pr r s = (s', q) \<Longrightarrow> fs_leader s' = fs_leader s \<and> fs_local s' = fs_local s"
  by (auto simp: after_send_def forwardSucceeded_def forwardFailed_def Let_def
      split: sum.splits prod.splits if_splits Kind.splits option.splits)

lemma forward_Configure_keeps:
  "forward_Configure parse cfg s = (err, s') \<Longrightarrow> cf_Leader cfg = None \<Longrightarrow>
     fs_leader s' = fs_leader s \<and> fs_local s' = fs_local s"
  by (auto simp: forward_Configure_def Let_def split: option.splits if_splits)

lemma single_Apply_OK: "single_Apply d req = (r, d') \<Longrightarrow> \<exists>resp. r = Inr resp \<and> p_OK resp"
  by (auto simp: single_Apply_def reply_defs split: Kind.splits if_splits)

text \<open>What a plain follower makes of the end of its own request to the leader.\<close>

lemma plain_after:
  assumes "plain s" "after_send req c False r s = (s', q)"
  shows "\<exists>x. q = Answer x False \<and>
    (case r of Inr resp \<Rightarrow> x = Inr resp
     | Inl te \<Rightarrow> if te_NeverSent te then \<exists>resp. x = Inr resp \<and> \<not> p_OK resp else \<exists>e. x = Inl e)"
  using assms plain_failed [OF assms(1)]
  by (auto simp: after_send_def Declined_def split: sum.splits prod.splits if_splits)

text \<open>A copy the leader has not answered: the follower waits, or has given up without a verdict.\<close>

lemma relay_pending:
  assumes "journey_ok j" "j_relay j \<noteq> Unsent" "leader_reply j = None"
  shows "may_arrive (j_op j)"
    "(\<exists>c. j_front j = Some (Sent (j_request j) c False) \<and> j_node j \<noteq> 0) \<or> (\<exists>e. j_front j = Some (Answer (Inl e) False))"
  using assms by (auto simp: journey_ok_def elim!: front_ok.elims split: if_splits)

lemma journey_ok_relay:
  assumes "journey_ok j" "j_relay j \<noteq> Unsent" "leader_reply j = None" "relay_ok (j_request j) x" "x \<noteq> Unsent"
  shows "journey_ok (j\<lparr>j_relay := x\<rparr>)"
  using relay_pending [OF assms(1-3)] assms by (auto simp: journey_ok_def)

section \<open>Every step keeps it\<close>

lemma journey_of_move: "node_of (set_node W n s) j = ((fw_nodes W)[n := s]) ! j_node j"
  by (simp add: set_node_def)

lemma length_set_node [simp]: "length (fw_nodes (set_node W n s)) = length (fw_nodes W)"
  by (simp add: set_node_def)

lemma cluster_ok_answer:
  assumes ok: "cluster_ok W" and i: "i < length (fw_journeys W)" "j = fw_journeys W ! i"
    and front: "j_front j = Some (Sent req c pr)"
    and sent: "after_send req c pr r (node_of W j) = (s, q)"
    and fits: "case r of Inr resp \<Rightarrow> \<exists>b. relay = Reached (Answer (Inr resp) b) \<and> p_OK resp
      | Inl te \<Rightarrow> (if te_NeverSent te then relay = Unsent else relay = j_relay j)"
    and relay: "relay_ok (j_request j) relay"
  shows "cluster_ok (move (set_node W (j_node j) s) i (j\<lparr>j_front := Some q, j_relay := relay\<rparr>))"
proof (rule cluster_ok_move [OF cluster_ok_set_node [OF ok]])
  note d = cluster_okD [OF ok i]
  have f: "\<not> pr" "j_relay j \<noteq> Unsent" "j_node j \<noteq> 0" using d(1) front by (simp_all add: journey_ok_def)
  have pl: "after_send req c False r (node_of W j) = (s, q)" using sent f(1) by simp
  show "plain s" using plain_after_send [OF d(3) pl] by simp
  show "fs_leader s = fs_leader (node_of W j)" using after_send_keeps [OF sent] by simp
  show "j_node (j\<lparr>j_front := Some q, j_relay := relay\<rparr>) < length (fw_nodes (set_node W (j_node j) s))"
    using d(2) by simp
  have live: "may_arrive (j_op j)" using d(1) front by (simp add: journey_ok_def)
  from plain_after [OF d(3) pl] show "journey_ok (j\<lparr>j_front := Some q, j_relay := relay\<rparr>)"
    using fits relay live f
    by (cases r) (auto simp: journey_ok_def leader_reply_def split: if_splits)
qed

lemma cluster_ok_step:
  assumes "cluster_step parse never_promotes clk W W'" "cluster_ok W"
  shows "cluster_ok W'"
  using assms
proof (induction rule: cluster_step.induct)
  case (tick W t)
  then show ?case by (simp add: cluster_ok_def)
next
  case (issue now_r W n req p)
  then show ?case by (auto simp: cluster_ok_def journey_ok_def may_arrive_def)
next
  case (arrive i W j)
  note d = cluster_okD [OF arrive(5,1,2)]
  show ?case by (rule cluster_ok_move [OF arrive(5)]) (use d arrive in \<open>simp_all add: journey_ok_def\<close>)
next
  case (role i W j req q)
  note d = cluster_okD [OF role(5,1,2)]
  show ?case
    by (rule cluster_ok_move [OF role(5)])
      (use d role(3,4) in \<open>auto simp: journey_ok_def read_role_def asks_def plain_def split: option.split\<close>)
next
  case (local i W j req r d')
  note d = cluster_okD [OF local(5,1,2)]
  obtain resp where resp: "r = Inr resp" "p_OK resp" using single_Apply_OK [OF local(4)] by blast
  show ?case
    by (rule cluster_ok_move [OF cluster_ok_set_node [OF local(5)]])
      (use d local(3) resp in \<open>auto simp: journey_ok_def plain_def leader_reply_def\<close>)
next
  case (relay_arrives i W j)
  note d = cluster_okD [OF relay_arrives(4,1,2)]
  have "journey_ok (j\<lparr>j_relay := Reached (Begun (j_request j))\<rparr>)"
    by (rule journey_ok_relay [OF d(1)]) (use relay_arrives(3) in \<open>simp_all add: leader_reply_def\<close>)
  then show ?case by (rule cluster_ok_move [OF relay_arrives(4)]) (use d(2) in simp)
next
  case (relay_role i W j req)
  note d = cluster_okD [OF relay_role(4,1,2)]
  have "req = j_request j" using d(1) relay_role(3) by (simp add: journey_ok_def)
  then have "journey_ok (j\<lparr>j_relay := Reached (read_role (fw_nodes W ! 0) req)\<rparr>)"
    by (intro journey_ok_relay [OF d(1)]) (use relay_role(3) d(6) in \<open>simp_all add: leader_reply_def read_role_def\<close>)
  then show ?case by (rule cluster_ok_move [OF relay_role(4)]) (use d(2) in simp)
next
  case (relay_local i W j req r d')
  note d = cluster_okD [OF relay_local(5,1,2)]
  obtain resp where resp: "r = Inr resp" "p_OK resp" using single_Apply_OK [OF relay_local(4)] by blast
  then have row: "journey_ok (j\<lparr>j_relay := Reached (Answer r False)\<rparr>)"
    by (intro journey_ok_relay [OF d(1)]) (use relay_local(3) in \<open>simp_all add: leader_reply_def\<close>)
  show ?case
    by (rule cluster_ok_move [OF cluster_ok_set_node [OF relay_local(5)] row])
      (use d(2,5,6) in \<open>simp_all add: plain_def\<close>)
next
  case (leader_answers i W j req c pr resp b s q)
  note d = cluster_okD [OF leader_answers(6,1,2)]
  have "p_OK resp" using d(1) leader_answers(4) by (simp add: journey_ok_def)
  with leader_answers(4) d(1) cluster_ok_answer [OF leader_answers(6,1,2,3,5), of "j_relay j"] show ?case
    unfolding keep_relay by (simp add: journey_ok_def)
next
  case (no_answer i W j req c pr te s q)
  note d = cluster_okD [OF no_answer(6,1,2)]
  with no_answer(4) cluster_ok_answer [OF no_answer(6,1,2,3,5), of "j_relay j"] show ?case
    unfolding keep_relay by (simp add: journey_ok_def)
next
  case (dial_refused i W j req c pr te s q)
  with cluster_ok_answer [OF dial_refused(7,1,2,3,6), of Unsent] show ?case by simp
next
  case (cache i W j req resp s)
  note d = cluster_okD [OF cache(5,1,2)]
  with cache(3) show ?case by (simp add: journey_ok_def)
next
  case (configure cfg n W err s)
  then have "plain (fw_nodes W ! n)" by (simp add: cluster_ok_def)
  from cluster_ok_set_node [OF configure(5) plain_configure [OF this configure(1,4)]]
    forward_Configure_keeps [OF configure(4,2)] show ?case by blast
next
  case (answered i W j resp b now_r)
  note d = cluster_okD [OF answered(6,1,2)]
  show ?case
    by (rule cluster_ok_move [OF answered(6)])
      (use d answered(4) in \<open>auto simp: journey_ok_def conclude_def\<close>)
next
  case (lost i W j te now_r)
  note d = cluster_okD [OF lost(6,1,2)]
  show ?case
    by (rule cluster_ok_move [OF lost(6)])
      (use d lost(4) in \<open>auto simp: journey_ok_def conclude_def may_arrive_def Do_outcome\<close>)
next
  case (refused i W j te now_r)
  note d = cluster_okD [OF refused(7,1,2)]
  show ?case
    by (rule cluster_ok_move [OF refused(7)])
      (use d refused(4) in \<open>auto simp: journey_ok_def conclude_def\<close>)
qed

section \<open>The cluster refines one store\<close>

definition row_like :: "journey \<Rightarrow> attempt \<Rightarrow> bool" where
  "row_like j a \<longleftrightarrow>
     a_process a = j_process j \<and> a_request a = j_request j \<and> a_invoke a = j_invoke j \<and> a_op a = j_op j \<and>
     map_option fst (a_applied a) = leader_reply j"

definition looks_like :: "forward_cluster \<Rightarrow> data run_state \<Rightarrow> bool" where
  "looks_like W R \<longleftrightarrow>
     r_now R = fw_now W \<and> r_store R = fs_local (fw_nodes W ! 0) \<and> list_all2 row_like (fw_journeys W) (r_attempts R)"

lemma looks_like_start: "looks_like (forward_start parse addr n) (run_init Map.empty)"
  by (simp add: looks_like_def forward_start_def run_init_def NewForwardStore_def)

lemma looks_likeD:
  assumes "looks_like W R" "i < length (fw_journeys W)" "j = fw_journeys W ! i"
  shows "i < length (r_attempts R)" "row_like j (r_attempts R ! i)"
proof -
  have all: "list_all2 row_like (fw_journeys W) (r_attempts R)" using assms(1) by (simp add: looks_like_def)
  show "i < length (r_attempts R)" using list_all2_lengthD [OF all] assms(2) by simp
  show "row_like j (r_attempts R ! i)" using list_all2_nthD [OF all assms(2)] assms(3) by simp
qed

lemma looks_like_move:
  "looks_like W R \<Longrightarrow> row_like j a \<Longrightarrow> looks_like (move W i j) (set_attempt R i a)"
  by (simp add: looks_like_def move_def set_attempt_def list_all2_update_cong)

text \<open>The leader applies a request under its lock: the one store applies it.\<close>

lemma looks_like_apply:
  assumes "looks_like W R" "row_like j' (a\<lparr>a_applied := Some (resp, r_now R)\<rparr>)"
    and "W' = move (set_node W 0 ((fw_nodes W ! 0)\<lparr>fs_local := d\<rparr>)) i j'" "fw_nodes W \<noteq> []"
  shows "looks_like W' (set_attempt (R\<lparr>r_store := d, r_order := r_order R @ [i]\<rparr>) i (a\<lparr>a_applied := Some (resp, r_now R)\<rparr>))"
  using assms by (simp add: looks_like_def move_def set_node_def set_attempt_def list_all2_update_cong)

text \<open>A node that leaves its data alone, and a request on its way, are not seen at all.\<close>

lemma looks_like_node:
  "looks_like W R \<Longrightarrow> fs_local s = fs_local (fw_nodes W ! n) \<Longrightarrow> looks_like (set_node W n s) R"
  by (cases "n < length (fw_nodes W)") (auto simp: looks_like_def set_node_def nth_list_update list_update_beyond)

lemma looks_like_hop:
  assumes "looks_like W R" "i < length (fw_journeys W)" "j = fw_journeys W ! i"
    and "leader_reply j' = leader_reply j"
    and "j_process j' = j_process j" "j_request j' = j_request j" "j_invoke j' = j_invoke j" "j_op j' = j_op j"
  shows "looks_like (move W i j') R"
proof -
  have "row_like j' (r_attempts R ! i)" using looks_likeD [OF assms(1-3)] assms(4-) by (simp add: row_like_def)
  from looks_like_move [OF assms(1) this, of i] show ?thesis by (simp add: set_attempt_def)
qed

lemma row_like_finish: "row_like j a \<Longrightarrow> row_like (conclude clk j t r) (finish clk a t r)"
  by (simp add: row_like_def conclude_def finish_def)

text \<open>A refusal a node states for itself is recorded as one the network stated.\<close>

lemma conclude_declined:
  "\<not> p_OK resp \<Longrightarrow> conclude clk j t (Inr resp) = conclude clk j t (Inl \<lparr>te_NeverSent = True, te_Err = p_Err resp\<rparr>)"
  by (simp add: conclude_def Do_record_def Let_def)

definition mimics :: "Clock \<Rightarrow> data run_state \<Rightarrow> forward_cluster \<Rightarrow> bool" where
  "mimics clk R W \<longleftrightarrow> (\<exists>R'. (R' = R \<or> run_step single_Apply clk R R') \<and> looks_like W R')"

lemma mimics_still: "looks_like W R \<Longrightarrow> mimics clk R W"
  by (auto simp: mimics_def)

lemma mimics_step: "run_step single_Apply clk R R' \<Longrightarrow> looks_like W R' \<Longrightarrow> mimics clk R W"
  by (auto simp: mimics_def)

lemma mimics_conclude:
  assumes "looks_like W R" "i < length (fw_journeys W)" "j = fw_journeys W ! i"
    and "\<And>a. i < length (r_attempts R) \<Longrightarrow> a = r_attempts R ! i \<Longrightarrow> row_like j a \<Longrightarrow>
      run_step single_Apply clk R (set_attempt R i (finish clk a t r))"
  shows "mimics clk R (move W i (conclude clk j t r))"
proof -
  note l = looks_likeD [OF assms(1-3)]
  show ?thesis
    by (rule mimics_step [OF assms(4) [OF l(1) refl l(2)] looks_like_move [OF assms(1) row_like_finish [OF l(2)]]])
qed

lemma mimics_apply:
  assumes "looks_like W R" "i < length (fw_journeys W)" "j = fw_journeys W ! i" "fw_nodes W \<noteq> []"
    and "leader_reply j = None" "may_arrive (j_op j)"
    and "single_Apply (fs_local (fw_nodes W ! 0)) (j_request j) = (Inr resp, d)"
    and "leader_reply j' = Some resp"
    and "j_process j' = j_process j" "j_request j' = j_request j" "j_invoke j' = j_invoke j" "j_op j' = j_op j"
  shows "mimics clk R (move (set_node W 0 ((fw_nodes W ! 0)\<lparr>fs_local := d\<rparr>)) i j')"
proof -
  let ?a = "r_attempts R ! i"
  note l = looks_likeD [OF assms(1-3)]
  have st: "r_store R = fs_local (fw_nodes W ! 0)" using assms(1) by (simp add: looks_like_def)
  show ?thesis
  proof (rule mimics_step)
    show "run_step single_Apply clk R (set_attempt (R\<lparr>r_store := d, r_order := r_order R @ [i]\<rparr>) i
        (?a\<lparr>a_applied := Some (resp, r_now R)\<rparr>))"
      by (rule run_step.serve [OF l(1) refl])
        (use l(2) assms(5-7) st in \<open>auto simp: row_like_def may_arrive_def\<close>)
    show "looks_like (move (set_node W 0 ((fw_nodes W ! 0)\<lparr>fs_local := d\<rparr>)) i j')
        (set_attempt (R\<lparr>r_store := d, r_order := r_order R @ [i]\<rparr>) i (?a\<lparr>a_applied := Some (resp, r_now R)\<rparr>))"
      by (rule looks_like_apply [OF assms(1) _ refl assms(4)])
        (use l(2) assms(8-) in \<open>simp add: row_like_def\<close>)
  qed
qed

lemma mimics_answer:
  assumes "looks_like W R" "cluster_ok W" "i < length (fw_journeys W)" "j = fw_journeys W ! i"
    and "j_front j = Some (Sent req c pr)" "after_send req c pr r (node_of W j) = (s, q)"
    and "relay = j_relay j \<or> j_relay j = Sending \<and> relay = Unsent"
  shows "mimics clk R (move (set_node W (j_node j) s) i (j\<lparr>j_front := Some q, j_relay := relay\<rparr>))"
proof (rule mimics_still, rule looks_like_hop)
  show "looks_like (set_node W (j_node j) s) R"
    by (rule looks_like_node [OF assms(1)]) (use after_send_keeps [OF assms(6)] in simp)
  have "j_relay j \<noteq> Unsent" "j_node j \<noteq> 0"
    using cluster_okD(1) [OF assms(2-4)] assms(5) by (simp_all add: journey_ok_def)
  then show "leader_reply (j\<lparr>j_front := Some q, j_relay := relay\<rparr>) = leader_reply j"
    using assms(7) by (auto simp: leader_reply_def split: relay.split)
qed (use assms(3,4) in \<open>simp_all add: set_node_def\<close>)

lemma journeys_set_node [simp]: "fw_journeys (set_node W n s) = fw_journeys W"
  by (simp add: set_node_def)

lemma cluster_step_mimics:
  assumes "cluster_step parse never_promotes clk W W'" "cluster_ok W" "looks_like W R"
  shows "mimics clk R W'"
  using assms
proof (induction rule: cluster_step.induct)
  case (tick W t)
  then have "run_step single_Apply clk R (R\<lparr>r_now := t\<rparr>)"
    by (intro run_step.tick) (simp_all add: looks_like_def)
  then show ?case by (rule mimics_step) (use tick in \<open>simp add: looks_like_def\<close>)
next
  case (issue now_r W n req p)
  let ?a = "\<lparr>a_process = p, a_request = req, a_invoke = now_r, a_applied = None, a_op = None\<rparr>"
  have "run_step single_Apply clk R (R\<lparr>r_attempts := r_attempts R @ [?a]\<rparr>)"
    by (rule run_step.start) (use issue in \<open>simp_all add: looks_like_def\<close>)
  then show ?case
    by (rule mimics_step)
      (use issue in \<open>simp add: looks_like_def row_like_def leader_reply_def list_all2_appendI\<close>)
next
  case (arrive i W j)
  note d = cluster_okD [OF arrive(5,1,2)]
  show ?case
    by (rule mimics_still, rule looks_like_hop [OF arrive(6,1,2)])
      (use d(1) arrive(3) in \<open>simp_all add: journey_ok_def leader_reply_def\<close>)
next
  case (role i W j req q)
  note d = cluster_okD [OF role(5,1,2)]
  show ?case
    by (rule mimics_still, rule looks_like_hop [OF role(6,1,2)])
      (use d(1,4) role(3,4) in \<open>auto simp: journey_ok_def leader_reply_def read_role_def asks_def split: option.split\<close>)
next
  case (local i W j req r d')
  note d = cluster_okD [OF local(5,1,2)]
  have f: "req = j_request j" "j_relay j = Unsent" "j_node j = 0" "may_arrive (j_op j)"
    using d(1) local(3) by (simp_all add: journey_ok_def)
  obtain resp where resp: "r = Inr resp" using single_Apply_OK [OF local(4)] by blast
  have "fw_nodes W \<noteq> []" using local(5) by (simp add: cluster_ok_def)
  from mimics_apply [OF local(6,1,2) this] show ?case
    unfolding f(3) using f resp local(3,4) by (simp add: leader_reply_def)
next
  case (relay_arrives i W j)
  show ?case
    by (rule mimics_still, rule looks_like_hop [OF relay_arrives(5,1,2)])
      (use relay_arrives(3) in \<open>simp_all add: leader_reply_def\<close>)
next
  case (relay_role i W j req)
  note d = cluster_okD [OF relay_role(4,1,2)]
  show ?case
    by (rule mimics_still, rule looks_like_hop [OF relay_role(5,1,2)])
      (use relay_role(3) d(6) in \<open>simp_all add: leader_reply_def read_role_def\<close>)
next
  case (relay_local i W j req r d')
  note d = cluster_okD [OF relay_local(5,1,2)]
  have none: "leader_reply j = None" using relay_local(3) by (simp add: leader_reply_def)
  have f: "req = j_request j" using d(1) relay_local(3) by (simp add: journey_ok_def)
  have live: "may_arrive (j_op j)" by (rule relay_pending(1) [OF d(1) _ none]) (use relay_local(3) in simp)
  obtain resp where resp: "r = Inr resp" using single_Apply_OK [OF relay_local(4)] by blast
  have "fw_nodes W \<noteq> []" using relay_local(5) by (simp add: cluster_ok_def)
  from mimics_apply [OF relay_local(6,1,2) this none live] show ?case
    using f resp relay_local(4) by (simp add: leader_reply_def)
next
  case (leader_answers i W j req c pr resp b s q)
  from mimics_answer [OF leader_answers(7,6,1,2,3,5), of "j_relay j"] show ?case by (simp only: keep_relay simp_thms)
next
  case (no_answer i W j req c pr te s q)
  from mimics_answer [OF no_answer(7,6,1,2,3,5), of "j_relay j"] show ?case by (simp only: keep_relay simp_thms)
next
  case (dial_refused i W j req c pr te s q)
  from mimics_answer [OF dial_refused(8,7,1,2,3,6), of Unsent] dial_refused(4) show ?case by simp
next
  case (cache i W j req resp s)
  with cluster_okD(1) [OF cache(5,1,2)] show ?case by (simp add: journey_ok_def)
next
  case (configure cfg n W err s)
  show ?case
    by (rule mimics_still, rule looks_like_node [OF configure(6)])
      (use forward_Configure_keeps [OF configure(4,2)] in simp)
next
  case (answered i W j resp b now_r)
  note d = cluster_okD [OF answered(6,1,2)]
  have now: "r_now R = fw_now W" using answered(7) by (simp add: looks_like_def)
  show ?case
  proof (cases "p_OK resp")
    case True
    then have served: "leader_reply j = Some resp" using d(1) answered(4) by (simp add: journey_ok_def)
    show ?thesis
    proof (rule mimics_conclude [OF answered(7,1,2)])
      fix a assume a: "i < length (r_attempts R)" "a = r_attempts R ! i" "row_like j a"
      then obtain t where "a_applied a = Some (resp, t)" using served by (auto simp: row_like_def)
      with a answered(3,5) now show "run_step single_Apply clk R (set_attempt R i (finish clk a now_r (Inr resp)))"
        by (intro run_step.answered) (auto simp: row_like_def)
    qed
  next
    case False
    then have unserved: "leader_reply j = None"
      using d(1) answered(4) by (simp add: journey_ok_def leader_reply_def)
    show ?thesis
      unfolding conclude_declined [OF False]
    proof (rule mimics_conclude [OF answered(7,1,2)])
      fix a assume "i < length (r_attempts R)" "a = r_attempts R ! i" "row_like j a"
      then show "run_step single_Apply clk R
          (set_attempt R i (finish clk a now_r (Inl \<lparr>te_NeverSent = True, te_Err = p_Err resp\<rparr>)))"
        using unserved answered(3,5) now by (intro run_step.refused) (auto simp: row_like_def)
    qed
  qed
next
  case (lost i W j te now_r)
  have "r_now R = fw_now W" using lost(7) by (simp add: looks_like_def)
  with lost(3-5) show ?case
    by (intro mimics_conclude [OF lost(7,1,2)] run_step.lost) (auto simp: row_like_def)
next
  case (refused i W j te now_r)
  note d = cluster_okD [OF refused(7,1,2)]
  have "r_now R = fw_now W" using refused(8) by (simp add: looks_like_def)
  moreover have "leader_reply j = None" using d(1) refused(4) by (simp add: journey_ok_def leader_reply_def)
  ultimately show ?case
    using refused(3,5,6)
    by (intro mimics_conclude [OF refused(8,1,2)] run_step.refused) (auto simp: row_like_def)
qed

lemma cluster_refines:
  assumes "cluster_reach parse never_promotes clk (forward_start parse addr n) W" "addr \<noteq> []"
  shows "cluster_ok W \<and> (\<exists>R. run_reach single_Apply clk Map.empty R \<and> looks_like W R)"
  using assms(1)
proof (induction rule: cluster_reach.induct)
  case init
  show ?case
    by (intro conjI exI [of _ "run_init Map.empty"] cluster_ok_start [OF assms(2)] looks_like_start run_reach.init)
next
  case (step W W')
  then obtain R where R: "cluster_ok W" "run_reach single_Apply clk Map.empty R" "looks_like W R" by blast
  from cluster_step_mimics [OF step(2) R(1,3)]
  obtain R' where "R' = R \<or> run_step single_Apply clk R R'" "looks_like W' R'" by (auto simp: mimics_def)
  moreover have "run_reach single_Apply clk Map.empty R'" if "run_step single_Apply clk R R'"
    by (rule run_reach.step [OF R(2) that])
  ultimately show ?case using R(2) cluster_ok_step [OF step(2) R(1)] by metis
qed

lemma looks_like_history:
  assumes "looks_like W R"
  shows "run_history R = cluster_history W" "run_over R \<longleftrightarrow> cluster_over W"
proof -
  have "list_all2 (\<lambda>j a. a_op a = j_op j) (fw_journeys W) (r_attempts R)"
    using assms by (auto simp: looks_like_def row_like_def elim!: list_all2_mono)
  then have maps: "map a_op (r_attempts R) = map j_op (fw_journeys W)"
    by (induction rule: list_all2_induct) simp_all
  have "map f (map a_op (r_attempts R)) = map f (map j_op (fw_journeys W))" for f :: "Op option \<Rightarrow> 'z"
    by (simp only: maps)
  then have ops: "map (\<lambda>a. f (a_op a)) (r_attempts R) = map (\<lambda>j. f (j_op j)) (fw_journeys W)" for f :: "Op option \<Rightarrow> 'z"
    by (simp add: comp_def)
  show "run_history R = cluster_history W"
    by (simp only: run_history_def cluster_history_def ops)
  have "(\<forall>x \<in> set (map a_op (r_attempts R)). x \<noteq> None) \<longleftrightarrow> (\<forall>x \<in> set (map j_op (fw_journeys W)). x \<noteq> None)"
    by (simp only: maps)
  then show "run_over R \<longleftrightarrow> cluster_over W" by (simp add: run_over_def cluster_over_def)
qed

lemma forward_cluster_run:
  assumes "cluster_reach parse never_promotes clk (forward_start parse addr n) W" "cluster_over W" "addr \<noteq> []"
  obtains R where "run_reach single_Apply clk Map.empty R" "run_over R" "run_history R = cluster_history W"
  using cluster_refines [OF assms(1,3)] assms(2) looks_like_history by blast

end
