(* ===== verification/Forward_Samples.thy ===== *)
theory Forward_Samples
  imports Forward_Run Run_Samples
begin

text \<open>
  Two small runs against the forwarding store, and an interpreter that plays a list of cues as steps
  of the cluster, so that a run is a list to evaluate. In \<open>plain_run\<close> a follower loses contact, and
  the write it passed on is read later. In \<open>split_run\<close> the same follower was told to promote itself.
\<close>

datatype cue =
    Tick int
  | Issue int nat Request
  | Arrive nat
  | Role nat
  | Apply_here nat
  | Relay_arrive nat
  | Relay_role nat
  | Relay_apply nat
  | Leader_reply nat
  | Give_up nat TransportError
  | Serve nat
  | Reconfigure nat Config
  | Reply nat
  | Client_gives_up nat TransportError

definition at_node :: "forward_cluster \<Rightarrow> nat \<Rightarrow> (journey \<Rightarrow> forward \<Rightarrow> (forward \<times> journey) option) \<Rightarrow> forward_cluster option" where
  "at_node W i f =
     (if i < length (fw_journeys W)
      then let j = fw_journeys W ! i in
        map_option (\<lambda>(s, j'). move (set_node W (j_node j) s) i j') (f j (node_of W j))
      else None)"

definition on_way :: "forward_cluster \<Rightarrow> nat \<Rightarrow> (journey \<Rightarrow> journey option) \<Rightarrow> forward_cluster option" where
  "on_way W i f =
     (if i < length (fw_journeys W) then map_option (move W i) (f (fw_journeys W ! i)) else None)"

fun play_cue :: "(string \<Rightarrow> url option) \<Rightarrow> Clock \<Rightarrow> forward_cluster \<Rightarrow> cue \<Rightarrow> forward_cluster option" where
  "play_cue parse clk W (Tick t) =
     (if fw_now W \<le> t \<and> t + ck_granularity clk < max_int64 then Some (W\<lparr>fw_now := t\<rparr>) else None)"
| "play_cue parse clk W (Issue p n req) =
     (if 0 \<le> fw_now W \<and> n < length (fw_nodes W) \<and> q_Kind req \<in> {Read, Write, CAS} \<and> q_Key req \<noteq> []
      then Some (W\<lparr>fw_journeys := fw_journeys W @ [\<lparr>j_process = p, j_request = req, j_invoke = fw_now W,
        j_node = n, j_front = None, j_relay = Unsent, j_op = None\<rparr>]\<rparr>) else None)"
| "play_cue parse clk W (Arrive i) =
     on_way W i (\<lambda>j. if j_front j = None \<and> may_arrive (j_op j) then Some (j\<lparr>j_front := Some (Begun (j_request j))\<rparr>) else None)"
| "play_cue parse clk W (Role i) =
     on_way W i (\<lambda>j. case j_front j of
       Some (Begun req) \<Rightarrow> (let q = read_role (node_of W j) req in
         Some (j\<lparr>j_front := Some q, j_relay := asks q\<rparr>))
     | _ \<Rightarrow> None)"
| "play_cue parse clk W (Apply_here i) =
     at_node W i (\<lambda>j s. case j_front j of
       Some (Local req) \<Rightarrow> (case single_Apply (fs_local s) req of (r, d) \<Rightarrow>
         Some (s\<lparr>fs_local := d\<rparr>, j\<lparr>j_front := Some (Answer r False)\<rparr>))
     | _ \<Rightarrow> None)"
| "play_cue parse clk W (Relay_arrive i) =
     on_way W i (\<lambda>j. if j_relay j = Sending then Some (j\<lparr>j_relay := Reached (Begun (j_request j))\<rparr>) else None)"
| "play_cue parse clk W (Relay_role i) =
     on_way W i (\<lambda>j. case j_relay j of
       Reached (Begun req) \<Rightarrow> Some (j\<lparr>j_relay := Reached (read_role (fw_nodes W ! 0) req)\<rparr>) | _ \<Rightarrow> None)"
| "play_cue parse clk W (Relay_apply i) =
     (if i < length (fw_journeys W)
      then let j = fw_journeys W ! i in
        (case j_relay j of
           Reached (Local req) \<Rightarrow> (case single_Apply (fs_local (fw_nodes W ! 0)) req of (r, d) \<Rightarrow>
             Some (move (set_node W 0 ((fw_nodes W ! 0)\<lparr>fs_local := d\<rparr>)) i (j\<lparr>j_relay := Reached (Answer r False)\<rparr>)))
         | _ \<Rightarrow> None)
      else None)"
| "play_cue parse clk W (Leader_reply i) =
     at_node W i (\<lambda>j s. case (j_front j, j_relay j) of
       (Some (Sent req c pr), Reached (Answer (Inr resp) _)) \<Rightarrow>
         (case after_send req c pr (Inr resp) s of (s', q) \<Rightarrow> Some (s', j\<lparr>j_front := Some q\<rparr>))
     | _ \<Rightarrow> None)"
| "play_cue parse clk W (Give_up i te) =
     at_node W i (\<lambda>j s. case j_front j of
       Some (Sent req c pr) \<Rightarrow> (if te_NeverSent te then None else
         (case after_send req c pr (Inl te) s of (s', q) \<Rightarrow> Some (s', j\<lparr>j_front := Some q\<rparr>)))
     | _ \<Rightarrow> None)"
| "play_cue parse clk W (Serve i) =
     at_node W i (\<lambda>j s. case j_front j of
       Some (Serving req) \<Rightarrow> (case serveFromCache req s of (resp, s') \<Rightarrow>
         Some (s', j\<lparr>j_front := Some (Answer (Inr resp) True)\<rparr>))
     | _ \<Rightarrow> None)"
| "play_cue parse clk W (Reconfigure n cfg) =
     (if n < length (fw_nodes W) \<and> cf_Leader cfg = None
      then Some (set_node W n (snd (forward_Configure parse cfg (fw_nodes W ! n)))) else None)"
| "play_cue parse clk W (Reply i) =
     on_way W i (\<lambda>j. case j_front j of
       Some (Answer (Inr resp) _) \<Rightarrow> (if j_op j = None then Some (conclude clk j (fw_now W) (Inr resp)) else None)
     | _ \<Rightarrow> None)"
| "play_cue parse clk W (Client_gives_up i te) =
     on_way W i (\<lambda>j. if j_op j = None \<and> \<not> te_NeverSent te then Some (conclude clk j (fw_now W) (Inl te)) else None)"

definition cue_allowed :: "(Config \<Rightarrow> bool) \<Rightarrow> cue \<Rightarrow> bool" where
  "cue_allowed allowed c = (case c of Reconfigure _ cfg \<Rightarrow> allowed cfg | _ \<Rightarrow> True)"

text \<open>What a cue plays is a step.\<close>

lemma play_cue_step:
  assumes "play_cue parse clk W c = Some W'" "cue_allowed allowed c" "0 < ck_granularity clk"
  shows "cluster_step parse allowed clk W W'"
proof -
  have now: "reading clk (fw_now W) (fw_now W)" using assms(3) by (simp add: reading_def)
  note simps = on_way_def at_node_def Let_def cue_allowed_def
  note splits = if_splits option.splits request_state.splits sum.splits relay.splits prod.splits
  show ?thesis
  proof (cases c)
    case Tick with assms(1) show ?thesis by (auto split: if_splits intro: cluster_step.tick)
  next
    case Issue with assms(1) now show ?thesis by (auto split: if_splits intro: cluster_step.issue)
  next
    case Arrive with assms(1) show ?thesis by (auto simp: simps split: if_splits intro: cluster_step.arrive)
  next
    case Role with assms(1) show ?thesis by (auto simp: simps split: splits intro: cluster_step.role)
  next
    case Apply_here with assms(1) show ?thesis by (auto simp: simps split: splits intro: cluster_step.local)
  next
    case Relay_arrive with assms(1) show ?thesis by (auto simp: simps split: if_splits intro: cluster_step.relay_arrives)
  next
    case Relay_role with assms(1) show ?thesis by (auto simp: simps split: splits intro: cluster_step.relay_role)
  next
    case Relay_apply with assms(1) show ?thesis by (auto simp: simps split: splits intro: cluster_step.relay_local)
  next
    case Leader_reply with assms(1) show ?thesis by (auto simp: simps split: splits intro: cluster_step.leader_answers)
  next
    case Give_up with assms(1) show ?thesis by (auto simp: simps split: splits intro: cluster_step.no_answer)
  next
    case Serve with assms(1) show ?thesis by (auto simp: simps split: splits intro: cluster_step.cache)
  next
    case (Reconfigure n cfg)
    obtain err s where "forward_Configure parse cfg (fw_nodes W ! n) = (err, s)" by fastforce
    with Reconfigure assms(1,2) show ?thesis
      by (auto simp: simps split: if_splits intro: cluster_step.configure)
  next
    case Reply with assms(1) now show ?thesis by (auto simp: simps split: splits intro: cluster_step.answered)
  next
    case Client_gives_up with assms(1) now show ?thesis by (auto simp: simps split: if_splits intro: cluster_step.lost)
  qed
qed

fun play :: "(string \<Rightarrow> url option) \<Rightarrow> Clock \<Rightarrow> forward_cluster \<Rightarrow> cue list \<Rightarrow> forward_cluster option" where
  "play parse clk W [] = Some W"
| "play parse clk W (c # cs) = (case play_cue parse clk W c of None \<Rightarrow> None | Some W' \<Rightarrow> play parse clk W' cs)"

lemma play_reach:
  assumes "play parse clk W cs = Some W'" "\<forall>c \<in> set cs. cue_allowed allowed c" "0 < ck_granularity clk"
    and "cluster_reach parse allowed clk W0 W"
  shows "cluster_reach parse allowed clk W0 W'"
  using assms
proof (induction cs arbitrary: W)
  case Nil
  then show ?case by simp
next
  case (Cons c cs)
  from Cons.prems(1) obtain V where V: "play_cue parse clk W c = Some V" "play parse clk V cs = Some W'"
    by (auto split: option.splits)
  have "cluster_step parse allowed clk W V"
    using play_cue_step [OF V(1) _ Cons.prems(3)] Cons.prems(2) by simp
  with Cons.IH [OF V(2)] Cons.prems cluster_reach.step show ?case by force
qed

definition at_host :: "string \<Rightarrow> url option" where
  "at_host raw = Some \<lparr>u_Scheme = ''http'', u_Host = drop 7 raw, u_hasUser = False, u_Path = [], u_RawQuery = [],
     u_Fragment = []\<rparr>"

abbreviation two_nodes :: forward_cluster where
  "two_nodes \<equiv> forward_start at_host ''l:1'' 1"

text \<open>The follower passes a write on, never hears back and answers 504; the leader has it all the same.\<close>

definition plain_cues :: "cue list" where
  "plain_cues = [Issue 0 1 sample_write, Arrive 0, Role 0, Relay_arrive 0, Give_up 0 timed_out,
     Relay_role 0, Client_gives_up 0 timed_out, Relay_apply 0, Issue 1 0 sample_read, Arrive 1, Role 1,
     Apply_here 1, Reply 1]"

definition plain_run :: forward_cluster where
  "plain_run = the (play at_host sample_clock two_nodes plain_cues)"

text \<open>The follower promotes itself at the first failure, and serves a read from its empty cache.\<close>

definition promote_now :: Config where
  "promote_now = \<lparr>cf_Leader = None, cf_Peers = None, cf_Sync = None, cf_Promote = Some True, cf_PromoteAfter = Some 1\<rparr>"

definition split_cues :: "cue list" where
  "split_cues = [Reconfigure 1 promote_now, Tick 1, Issue 0 0 sample_write, Arrive 0, Role 0, Apply_here 0, Reply 0,
     Tick 3, Issue 1 1 sample_read, Arrive 1, Role 1, Give_up 1 timed_out, Serve 1, Reply 1]"

definition split_run :: forward_cluster where
  "split_run = the (play at_host sample_clock two_nodes split_cues)"

lemmas play_defs = forward_start_def NewForwardStore_def NewClient_def peerBase_def has_prefix_def at_host_def
  sample_write_def sample_read_def sample_clock_def timed_out_def promote_now_def on_way_def at_node_def
  move_def set_node_def read_role_def asks_def after_send_def forwardFailed_def serveFromCache_def
  forward_Configure_def single_Apply_def single_get_def conclude_def may_arrive_def reply_defs
  defaultPromoteAfter_def InitialValue_def Do_record_def Completion_def wrap64_def Let_def Pending_def max_int64_def

lemma plain_run_plays: "play at_host sample_clock two_nodes plain_cues = Some plain_run"
  unfolding plain_run_def plain_cues_def by (simp add: play_defs)

lemma split_run_plays: "play at_host sample_clock two_nodes split_cues = Some split_run"
  unfolding split_run_def split_cues_def by (simp add: play_defs)

lemma sample_tick: "0 < ck_granularity sample_clock"
  by (simp add: sample_clock_def)

lemma plain_run_reach: "cluster_reach at_host never_promotes sample_clock two_nodes plain_run"
  by (rule play_reach [OF plain_run_plays _ sample_tick cluster_reach.init])
    (simp add: plain_cues_def cue_allowed_def)

lemma split_run_reach: "cluster_reach at_host (\<lambda>cfg. cfg = promote_now) sample_clock two_nodes split_run"
  by (rule play_reach [OF split_run_plays _ sample_tick cluster_reach.init])
    (simp add: split_cues_def cue_allowed_def)

lemma plain_run_history: "cluster_history plain_run = run_history sample_run"
  unfolding sample_run_history plain_run_def plain_cues_def
  by (simp add: play_defs cluster_history_def SortByInvoke_def stable_sort_def invoke_less_def)

lemma split_run_history: "cluster_history split_run =
    [\<lparr>Process = 0, Key = ''k0'', OpKind = Write, Value = 7, From = 0, To = 0, Observed = 0, Swapped = False,
       Outcome = OK, Invoke = 1, Complete = 2, Err = []\<rparr>,
     \<lparr>Process = 1, Key = ''k0'', OpKind = Read, Value = 0, From = 0, To = 0, Observed = 0, Swapped = False,
       Outcome = OK, Invoke = 3, Complete = 4, Err = []\<rparr>]"
  unfolding split_run_def split_cues_def
  by (simp add: play_defs cluster_history_def SortByInvoke_def stable_sort_def invoke_less_def)

lemma plain_run_over: "cluster_over plain_run"
  unfolding plain_run_def plain_cues_def by (simp add: play_defs cluster_over_def)

lemma split_run_over: "cluster_over split_run"
  unfolding split_run_def split_cues_def by (simp add: play_defs cluster_over_def)

lemma split_run_valid: "valid_history (cluster_history split_run)" "before_pending (cluster_history split_run)"
  by (simp_all add: split_run_history valid_defs before_pending_def int64_op_def Pending_def max_int64_def min_int64_def)

text \<open>The read misses a write that had completed.\<close>

lemma split_run_fails:
  "''k0'' \<in> set (Keys (DropFailed (cluster_history split_run)))"
  "\<not> linearizable CASRegister (ByKey (DropFailed (cluster_history split_run)) ''k0'')"
proof -
  show "''k0'' \<in> set (Keys (DropFailed (cluster_history split_run)))"
    by (simp add: split_run_history DropFailed_eq)
  let ?h = "ByKey (DropFailed (cluster_history split_run)) ''k0''"
  obtain a b where ab: "?h = [a, b]" "precedes a b" "replay CASRegister (m_Init CASRegister) [a, b] = None"
    by (simp add: split_run_history DropFailed_eq ByKey_eq precedes_def CASRegister_def CASRegister_Step_def)
  show "\<not> linearizable CASRegister ?h" using linearizable_pair [OF _ ab(2), of CASRegister] ab(1,3) by auto
qed

end
