(* ===== verification/Gossip_Samples.thy ===== *)
theory Gossip_Samples
  imports Gossip_Settle Forward_Samples
begin

text \<open>
  Small runs against two gossiping nodes, and an interpreter that plays a list of beats as steps of
  the cluster. \<open>hasty_run\<close> replicates in the background, \<open>cut_run\<close> loses a synchronous post,
  \<open>rival_run\<close> sends two compare-and-swaps at once, and \<open>control_sample\<close> does none of the three.
\<close>

datatype beat =
    Time int
  | Ask int nat Request
  | Apply_at nat int64
  | Hand nat
  | Work nat nat nat
  | Deliver nat
  | Return nat
  | Post_fails nat
  | Answer_call nat

fun play_beat ::
  "(string \<Rightarrow> nat option) \<Rightarrow> Clock \<Rightarrow> int64 \<Rightarrow> (gossip \<Rightarrow> bool) \<Rightarrow> bool \<Rightarrow> gossip \<Rightarrow> beat \<Rightarrow> gossip option" where
  "play_beat home clk latest ready rough W (Time t) =
     (if gs_now W \<le> t \<and> t + ck_granularity clk < max_int64 then Some (W\<lparr>gs_now := t\<rparr>) else None)"
| "play_beat home clk latest ready rough W (Ask p n req) =
     (if ready W \<and> 0 \<le> gs_now W \<and> n < length (gs_nodes W) \<and> q_Kind req \<in> {Read, Write, CAS} \<and> q_Key req \<noteq> []
      then Some (W\<lparr>gs_calls := gs_calls W @ [\<lparr>gc_process = p, gc_request = req, gc_invoke = gs_now W,
        gc_node = n, gc_phase = Arriving, gc_update = None, gc_op = None\<rparr>]\<rparr>) else None)"
| "play_beat home clk latest ready rough W (Apply_at i stamp) =
     (if i < length (gs_calls W) \<and> min_int64 \<le> stamp \<and> stamp \<le> latest
      then let c = gs_calls W ! i in
        if gc_phase c = Arriving \<and> still_sent (gc_op c)
        then (case quorum_Apply stamp (gc_request c) (gs_nodes W ! gc_node c) of (resp, r, s) \<Rightarrow>
          Some (put_call (put_node W (gc_node c) s) i
            (c\<lparr>gc_phase := (case r of None \<Rightarrow> Replied resp | Some x \<Rightarrow> Handing resp x),
               gc_update := map_option (\<lambda>(k, sy, u). u) r\<rparr>)))
        else None
      else None)"
| "play_beat home clk latest ready rough W (Hand i) =
     (if i < length (gs_calls W)
      then let c = gs_calls W ! i in
        (case gc_phase c of
           Handing resp r \<Rightarrow> (case replicate_update r (gs_nodes W ! gc_node c) of (ps, s) \<Rightarrow>
             Some (launch (Caller i) ps (put_call (put_node W (gc_node c) s) i (c\<lparr>gc_phase := Replied resp\<rparr>))))
         | _ \<Rightarrow> None)
      else None)"
| "play_beat home clk latest ready rough W (Work n k i) =
     (if n < length (gs_nodes W)
      then let s = gs_nodes W ! n in
        if k < length (qn_fans s) \<and> idle W (Worker n k i)
        then (case pump i (qn_fans s ! k) of (p, f) \<Rightarrow>
          Some (launch (Worker n k i) (case p of None \<Rightarrow> [] | Some x \<Rightarrow> [x])
            (put_node W n (s\<lparr>qn_fans := (qn_fans s)[k := f]\<rparr>))))
        else None
      else None)"
| "play_beat home clk latest ready rough W (Deliver i) =
     (if i < length (gs_posts W)
      then let p = gs_posts W ! i in
        (case home (pt_addr p) of
           Some m \<Rightarrow>
             if \<not> pt_there p \<and> m < length (gs_nodes W)
             then let s = gs_nodes W ! m in
               (case handleReplicate (\<lambda>_. Some (pt_update p)) [] (qn_data s) of (resp, d) \<Rightarrow>
                 Some (put_post (put_node W m (s\<lparr>qn_data := d\<rparr>)) i (p\<lparr>pt_there := True\<rparr>)))
             else None
         | None \<Rightarrow> None)
      else None)"
| "play_beat home clk latest ready rough W (Return i) =
     (if i < length (gs_posts W) \<and> pt_there (gs_posts W ! i)
      then Some (put_post W i ((gs_posts W ! i)\<lparr>pt_back := True\<rparr>)) else None)"
| "play_beat home clk latest ready rough W (Post_fails i) =
     (if rough \<and> i < length (gs_posts W) then Some (put_post W i ((gs_posts W ! i)\<lparr>pt_back := True\<rparr>)) else None)"
| "play_beat home clk latest ready rough W (Answer_call i) =
     (if i < length (gs_calls W) \<and> idle W (Caller i)
      then let c = gs_calls W ! i in
        (case gc_phase c of
           Replied resp \<Rightarrow>
             if gc_op c = None then Some (put_call W i (end_call clk c (gs_now W) (Inr resp))) else None
         | _ \<Rightarrow> None)
      else None)"

text \<open>What a beat plays is a step.\<close>

lemma play_beat_step:
  assumes "play_beat home clk latest ready rough W b = Some W'" "0 < ck_granularity clk"
  shows "gossip_step parse home clk latest ready rough W W'"
proof -
  have now: "reading clk (gs_now W) (gs_now W)" using assms(2) by (simp add: reading_def)
  show ?thesis
  proof (cases b)
    case Time with assms(1) show ?thesis by (auto split: if_splits intro: gossip_step.tick)
  next
    case Ask with assms(1) now show ?thesis by (auto split: if_splits intro: gossip_step.issue)
  next
    case Apply_at with assms(1) show ?thesis
      by (auto simp: Let_def simp del: put_simps split: if_splits prod.splits intro!: gossip_step.apply_op)
  next
    case Hand with assms(1) show ?thesis
      by (auto simp: Let_def split: if_splits prod.splits apply_phase.splits intro: gossip_step.hand)
  next
    case Work with assms(1) show ?thesis
      by (auto simp: Let_def split: if_splits prod.splits intro: gossip_step.work)
  next
    case Deliver with assms(1) show ?thesis
      by (auto simp: Let_def split: if_splits prod.splits option.splits intro: gossip_step.deliver)
  next
    case Return with assms(1) show ?thesis by (auto split: if_splits intro: gossip_step.returned)
  next
    case Post_fails with assms(1) show ?thesis by (auto split: if_splits intro: gossip_step.failed)
  next
    case Answer_call with assms(1) now show ?thesis
      by (auto simp: Let_def split: if_splits apply_phase.splits intro: gossip_step.answered)
  qed
qed

fun play_beats ::
  "(string \<Rightarrow> nat option) \<Rightarrow> Clock \<Rightarrow> int64 \<Rightarrow> (gossip \<Rightarrow> bool) \<Rightarrow> bool \<Rightarrow> gossip \<Rightarrow> beat list \<Rightarrow> gossip option" where
  "play_beats home clk latest ready rough W [] = Some W"
| "play_beats home clk latest ready rough W (b # bs) =
     (case play_beat home clk latest ready rough W b of
        None \<Rightarrow> None | Some W' \<Rightarrow> play_beats home clk latest ready rough W' bs)"

lemma play_beats_reach:
  assumes "play_beats home clk latest ready rough W bs = Some W'" "0 < ck_granularity clk"
    and "gossip_reach parse home clk latest ready rough W0 W"
  shows "gossip_reach parse home clk latest ready rough W0 W'"
  using assms
proof (induction bs arbitrary: W)
  case (Cons b bs)
  from Cons.prems(1) obtain V where V: "play_beat home clk latest ready rough W b = Some V"
    "play_beats home clk latest ready rough V bs = Some W'" by (auto split: option.splits)
  have "gossip_reach parse home clk latest ready rough W0 V"
    by (rule gossip_reach.step [OF Cons.prems(3) play_beat_step [OF V(1) Cons.prems(2)]])
  from Cons.IH [OF V(2) Cons.prems(2) this] show ?case .
qed simp

section \<open>Two nodes\<close>

definition pair_plan :: "(string \<times> string list) list" where
  "pair_plan = [(''n1'', [''b:1'']), (''n2'', [''a:1''])]"

definition pair_home :: "string \<Rightarrow> nat option" where
  "pair_home a = (if a = ''a:1'' then Some 0 else if a = ''b:1'' then Some 1 else None)"

lemma pair_plan_sound: "sound_plan at_host pair_plan" "full_mesh pair_home pair_plan"
proof -
  show "sound_plan at_host pair_plan"
    by (simp add: sound_plan_def pair_plan_def peerBase_def has_prefix_def at_host_def)
  show "full_mesh pair_home pair_plan"
    by (simp add: full_mesh_def pair_plan_def peers_of_def pair_home_def All_less_Suc numeral_2_eq_2)
qed

abbreviation pair_start :: "bool \<Rightarrow> gossip" where
  "pair_start sync \<equiv> gossip_start at_host sync pair_plan"

abbreviation pair_play :: "(gossip \<Rightarrow> bool) \<Rightarrow> bool \<Rightarrow> bool \<Rightarrow> beat list \<Rightarrow> gossip option" where
  "pair_play ready rough sync bs \<equiv> play_beats pair_home sample_clock 9 ready rough (pair_start sync) bs"

text \<open>A write at one node is over before its update leaves; a read at the other misses it.\<close>

definition hasty_beats :: "beat list" where
  "hasty_beats = [Time 1, Ask 0 0 sample_write, Apply_at 0 1, Hand 0, Answer_call 0,
     Time 3, Ask 1 1 sample_read, Apply_at 1 3, Answer_call 1, Work 0 1 0, Deliver 0, Return 0]"

definition hasty_run :: gossip where
  "hasty_run = the (pair_play taking_turns False False hasty_beats)"

text \<open>The write waits for its post, the post is lost, and the write is answered all the same.\<close>

definition cut_beats :: "beat list" where
  "cut_beats = [Time 1, Ask 0 0 sample_write, Apply_at 0 1, Hand 0, Post_fails 0, Answer_call 0,
     Time 3, Ask 1 1 sample_read, Apply_at 1 3, Answer_call 1]"

definition cut_run :: gossip where
  "cut_run = the (pair_play taking_turns True True cut_beats)"

text \<open>Two clients swap the same value at different nodes at the same moment.\<close>

definition swap_to :: "int \<Rightarrow> Request" where
  "swap_to v = \<lparr>q_Kind = CAS, q_Key = ''k0'', q_Value = 0, q_From = 0, q_To = v\<rparr>"

definition rival_beats :: "beat list" where
  "rival_beats = [Time 1, Ask 0 0 (swap_to 7), Ask 1 1 (swap_to 9), Apply_at 0 1, Apply_at 1 1,
     Hand 0, Hand 1, Deliver 0, Deliver 1, Return 0, Return 1, Answer_call 0, Answer_call 1]"

definition rival_run :: gossip where
  "rival_run = the (pair_play (\<lambda>_. True) False True rival_beats)"

text \<open>The control: the post arrives before the write is answered.\<close>

definition control_beats :: "beat list" where
  "control_beats = [Time 1, Ask 0 0 sample_write, Apply_at 0 1, Hand 0, Deliver 0, Return 0, Answer_call 0,
     Time 3, Ask 1 1 sample_read, Apply_at 1 3, Answer_call 1]"

definition control_sample :: gossip where
  "control_sample = the (pair_play taking_turns False True control_beats)"

lemmas beat_defs = gossip_start_def pair_plan_def configured_def quorum_Configure_def NewQuorumStore_def newFanout_def
  fan_close_def peerBase_def has_prefix_def at_host_def sample_write_def sample_read_def swap_to_def sample_clock_def
  taking_turns_def calls_over_def still_sent_def quorum_Apply_def quorum_get_def local_write_def stampFor_def
  replicate_update_def broadcast_def fan_send_def fanoutQueue_def pump_def idle_def handleReplicate_def
  applyReplication_def dominates_def pair_home_def put_call_def put_node_def put_post_def launch_def end_call_def
  Do_record_def Completion_def wrap64_def reply_defs Let_def Pending_def max_int64_def min_int64_def

lemma hasty_run_plays: "pair_play taking_turns False False hasty_beats = Some hasty_run"
  unfolding hasty_run_def hasty_beats_def by (simp add: beat_defs)

lemma cut_run_plays: "pair_play taking_turns True True cut_beats = Some cut_run"
  unfolding cut_run_def cut_beats_def by (simp add: beat_defs)

lemma rival_run_plays: "pair_play (\<lambda>_. True) False True rival_beats = Some rival_run"
  unfolding rival_run_def rival_beats_def by (simp add: beat_defs)

lemma control_sample_plays: "pair_play taking_turns False True control_beats = Some control_sample"
  unfolding control_sample_def control_beats_def by (simp add: beat_defs)

lemma sample_reaches:
  "gossip_reach at_host pair_home sample_clock 9 taking_turns False (pair_start False) hasty_run"
  "gossip_reach at_host pair_home sample_clock 9 taking_turns True (pair_start True) cut_run"
  "gossip_reach at_host pair_home sample_clock 9 (\<lambda>_. True) False (pair_start True) rival_run"
  "gossip_reach at_host pair_home sample_clock 9 taking_turns False (pair_start True) control_sample"
  by (rule play_beats_reach [OF _ sample_tick gossip_reach.init],
      rule hasty_run_plays cut_run_plays rival_run_plays control_sample_plays)+

lemma sample_calls_over: "calls_over hasty_run" "calls_over cut_run" "calls_over rival_run" "calls_over control_sample"
  unfolding hasty_run_def hasty_beats_def cut_run_def cut_beats_def rival_run_def rival_beats_def
    control_sample_def control_beats_def
  by (simp_all add: beat_defs)

section \<open>What the clients recorded\<close>

text \<open>With no budget \<open>Check\<close> answers not linearizable, whatever its seed and its clock.\<close>

definition caught :: "History \<Rightarrow> bool" where
  "caught h \<longleftrightarrow> (\<forall>seed late. \<exists>r. Check seed CASRegister no_limits late h = Some (Ret (Inr r)) \<and>
     r_Verdict r = NotLinearizable)"

lemma stale_histories:
  "gossip_history hasty_run = cluster_history split_run" "gossip_history cut_run = cluster_history split_run"
  unfolding split_run_history hasty_run_def hasty_beats_def cut_run_def cut_beats_def
  by (simp_all add: beat_defs gossip_history_def SortByInvoke_def stable_sort_def invoke_less_def)

lemma rival_history: "gossip_history rival_run =
    [\<lparr>Process = 0, Key = ''k0'', OpKind = CAS, Value = 0, From = 0, To = 7, Observed = 0, Swapped = True,
       Outcome = OK, Invoke = 1, Complete = 2, Err = []\<rparr>,
     \<lparr>Process = 1, Key = ''k0'', OpKind = CAS, Value = 0, From = 0, To = 9, Observed = 0, Swapped = True,
       Outcome = OK, Invoke = 1, Complete = 2, Err = []\<rparr>]"
  unfolding rival_run_def rival_beats_def
  by (simp add: beat_defs gossip_history_def SortByInvoke_def stable_sort_def invoke_less_def)

lemma control_history: "gossip_history control_sample =
    [\<lparr>Process = 0, Key = ''k0'', OpKind = Write, Value = 7, From = 0, To = 0, Observed = 0, Swapped = False,
       Outcome = OK, Invoke = 1, Complete = 2, Err = []\<rparr>,
     \<lparr>Process = 1, Key = ''k0'', OpKind = Read, Value = 0, From = 0, To = 0, Observed = 7, Swapped = False,
       Outcome = OK, Invoke = 3, Complete = 4, Err = []\<rparr>]"
  unfolding control_sample_def control_beats_def
  by (simp add: beat_defs gossip_history_def SortByInvoke_def stable_sort_def invoke_less_def)

lemma gossip_samples_valid:
  "valid_history (gossip_history rival_run)" "before_pending (gossip_history rival_run)"
  "valid_history (gossip_history control_sample)" "before_pending (gossip_history control_sample)"
  by (simp_all add: rival_history control_history valid_defs before_pending_def int64_op_def Pending_def
      max_int64_def min_int64_def)

text \<open>Whichever swap comes first, the other finds another value.\<close>

lemma rival_run_fails:
  "''k0'' \<in> set (Keys (DropFailed (gossip_history rival_run)))"
  "\<not> linearizable CASRegister (ByKey (DropFailed (gossip_history rival_run)) ''k0'')"
proof -
  show "''k0'' \<in> set (Keys (DropFailed (gossip_history rival_run)))" by (simp add: rival_history DropFailed_eq)
  let ?h = "ByKey (DropFailed (gossip_history rival_run)) ''k0''"
  obtain a b where ab: "?h = [a, b]" "replay CASRegister (m_Init CASRegister) [a, b] = None"
    "replay CASRegister (m_Init CASRegister) [b, a] = None"
    by (simp add: rival_history DropFailed_eq ByKey_eq CASRegister_def CASRegister_Step_def InitialValue_def Let_def)
  show "\<not> linearizable CASRegister ?h"
  proof
    assume "linearizable CASRegister ?h"
    then obtain \<sigma> s where \<sigma>: "mset \<sigma> = mset [a, b]" "replay CASRegister (m_Init CASRegister) \<sigma> = Some s"
      unfolding ab(1) by (auto simp: linearizable_def linearization_def)
    then have "\<sigma> = [a, b] \<or> \<sigma> = [b, a]" by (intro mset_pair)
    with \<sigma>(2) ab(2,3) show False by auto
  qed
qed

lemma control_sample_calls: "length (gs_calls control_sample) = 2"
  unfolding control_sample_def control_beats_def by (simp add: beat_defs)

lemma hasty_run_calls: "length (gs_calls hasty_run) = 2"
  unfolding hasty_run_def hasty_beats_def by (simp add: beat_defs)

lemma hasty_run_spread: "spread pair_home hasty_run"
  unfolding hasty_run_def hasty_beats_def
  by (simp add: beat_defs spread_def seen_def set_made All_less_Suc numeral_2_eq_2)

section \<open>An update still in its queue\<close>

definition queued_run :: gossip where
  "queued_run = the (pair_play taking_turns False False (take 5 hasty_beats))"

lemma queued_run_plays: "pair_play taking_turns False False (take 5 hasty_beats) = Some queued_run"
  unfolding queued_run_def hasty_beats_def by (simp add: beat_defs)

lemma queued_run_reach: "gossip_reach at_host pair_home sample_clock 9 taking_turns False (pair_start False) queued_run"
  by (rule play_beats_reach [OF queued_run_plays sample_tick gossip_reach.init])

lemma queued_run_state:
  "length (gs_calls queued_run) = 1" "qn_data (gs_nodes queued_run ! 1) = Map.empty"
  "merged queued_run ''k0'' = Some \<lparr>qe_value = 7, qe_stamp = 1, qe_node = ''n1''\<rparr>"
  unfolding queued_run_def hasty_beats_def
  by (simp_all add: beat_defs merged_def made_def List.map_filter_def take_update_eq entry_of_def)

lemma pair_addresses_lead: "addresses_lead pair_home pair_plan"
  by (simp add: addresses_lead_def pair_plan_def peers_of_def pair_home_def All_less_Suc Ex_less_Suc numeral_2_eq_2)

end
