(* ===== verification/Kv_Admin.thy ===== *)
theory Kv_Admin
  imports Quorum_Store Go_Text
begin

text \<open>
  The administrative side of a node: the endpoints beside \<open>/kv\<close> and the announcement of an address
  (\<open>internal/kv/server.go\<close>), and the client calls that reach them (\<open>internal/kv/client.go\<close>). The
  JSON codec, \<open>net.SplitHostPort\<close> and \<open>net.ParseIP\<close> are arguments.
\<close>

section \<open>Endpoints\<close>

datatype admin_reply = HealthReply bool string | AdminDecision Response

definition handleHealth :: "string \<Rightarrow> nat \<times> admin_reply" where
  "handleHealth sid = (200, HealthReply True sid)"

definition handleConfigure ::
  "(string \<Rightarrow> Config option) \<Rightarrow> ('e \<Rightarrow> string) \<Rightarrow> (Config \<Rightarrow> 'st \<Rightarrow> 'e option \<times> 'st) \<Rightarrow> 'st \<Rightarrow> string \<Rightarrow>
   (nat \<times> admin_reply) \<times> 'st" where
  "handleConfigure parse complaint configure st body =
     (case parse (take maxRequestBytes body) of
        None \<Rightarrow> ((200, AdminDecision (Declined ''malformed configuration'')), st)
      | Some cfg \<Rightarrow>
          (case configure cfg st of
             (Some e, st') \<Rightarrow> ((200, AdminDecision (Declined (complaint e))), st')
           | (None, st') \<Rightarrow>
               ((200, AdminDecision \<lparr>p_OK = True, p_Value = None, p_Swapped = None, p_Err = []\<rparr>), st')))"

text \<open>
  The routes of \<open>NewServer\<close> and of a store that is a \<open>Router\<close>; a pattern for \<open>GET\<close> takes \<open>HEAD\<close> as
  well. Anything else is the library's 404, or 405 where only the method is wrong.
\<close>

datatype endpoint = HandleKV | HandleHealth | HandleConfigure | HandleReplicate

definition routes :: "bool \<Rightarrow> (string \<times> string \<times> endpoint) list" where
  "routes router =
     [(''POST'', ''/kv'', HandleKV), (''GET'', ''/health'', HandleHealth), (''POST'', ''/configure'', HandleConfigure)] @
     (if router then [(''POST'', ''/replicate'', HandleReplicate)] else [])"

definition route :: "bool \<Rightarrow> string \<Rightarrow> string \<Rightarrow> nat + endpoint" where
  "route router verb path =
     (case find (\<lambda>(v, p, e). p = path \<and> (v = verb \<or> v = ''GET'' \<and> verb = ''HEAD'')) (routes router) of
        Some (v, p, e) \<Rightarrow> Inr e
      | None \<Rightarrow> Inl (if path \<in> (fst \<circ> snd) ` set (routes router) then 405 else 404))"

section \<open>Log fields\<close>

definition describe_response :: "Response \<Rightarrow> string" where
  "describe_response r =
     (case p_Value r of
        Some v \<Rightarrow> ''value='' @ show_int v
      | None \<Rightarrow> (case p_Swapped r of Some b \<Rightarrow> ''swapped='' @ (if b then ''true'' else ''false'') | None \<Rightarrow> []))"

definition derefOr :: "string option \<Rightarrow> string \<Rightarrow> string" where
  "derefOr s fallback = (case s of None \<Rightarrow> fallback | Some v \<Rightarrow> if v = [] then ''(self)'' else v)"

definition peersOf :: "Config \<Rightarrow> string" where
  "peersOf cfg =
     (case cf_Peers cfg of None \<Rightarrow> ''(unchanged)'' | Some ps \<Rightarrow> ''['' @ Join '' '' ps @ '']'')"

section \<open>The address\<close>

text \<open>\<open>loopback\<close> is \<open>None\<close> where the host is not an address.\<close>

definition exposureWarning :: "(string \<Rightarrow> string option) \<Rightarrow> (string \<Rightarrow> bool option) \<Rightarrow> string \<Rightarrow> string" where
  "exposureWarning splitHost loopback addr =
     (let host = (case splitHost addr of None \<Rightarrow> addr | Some h \<Rightarrow> h) in
      if loopback host = Some True then []
      else ''warning: this node is listening on '' @ addr @ '', so it is reachable from the network. '' @
        ''It is a test fixture with no authentication: anyone who can reach it can POST /configure '' @
        ''and make it send requests to any host they name. Use -addr 127.0.0.1:0 unless you meant this.'')"

text \<open>The one line a node writes to its standard output, and where the server may be asked what.\<close>

definition announcement_line :: "string \<Rightarrow> string" where
  "announcement_line addr = ''listening '' @ addr @ [CHR 0x0A]"

definition Serve_check :: "string option \<Rightarrow> string option" where
  "Serve_check ln = (case ln of None \<Rightarrow> Some ''serve before listen'' | Some _ \<Rightarrow> None)"

definition Server_Addr :: "string option \<Rightarrow> string" where
  "Server_Addr ln = (case ln of None \<Rightarrow> [] | Some a \<Rightarrow> a)"

text \<open>\<open>Shutdown\<close> closes the store whatever became of the listener, and reports the first error.\<close>

definition Shutdown :: "string option \<Rightarrow> ('st \<Rightarrow> string option \<times> 'st) \<Rightarrow> 'st \<Rightarrow> string option \<times> 'st" where
  "Shutdown http_err close st =
     (case close st of (cerr, st') \<Rightarrow> (case http_err of Some e \<Rightarrow> (Some e, st') | None \<Rightarrow> (cerr, st')))"

section \<open>The client calls\<close>

datatype admin_error =
    Refused peer_error
  | Unreachable string
  | AdminStatus string nat
  | AdminUnparseable string string
  | AdminDeclined string string

definition postJSON ::
  "(string \<Rightarrow> Response option) \<Rightarrow> Client \<Rightarrow> string \<Rightarrow> exchange \<Rightarrow> admin_error option" where
  "postJSON parse c path x =
     (case cl_refuse c of
        Some e \<Rightarrow> Some (Refused e)
      | None \<Rightarrow>
          (case x of
             BuildFailed e \<Rightarrow> Some (Unreachable e)
           | DoFailed e \<Rightarrow> Some (Unreachable (ne_msg e))
           | ReadFailed e \<Rightarrow> Some (Unreachable e)
           | Answered status raw \<Rightarrow>
               let raw = take maxRequestBytes raw in
               if status \<noteq> 200 then Some (AdminStatus path status)
               else case parse raw of
                 None \<Rightarrow> Some (AdminUnparseable path (truncate_body raw))
               | Some out \<Rightarrow> if \<not> p_OK out then Some (AdminDeclined path (p_Err out)) else None))"

definition Client_Configure :: "(string \<Rightarrow> Response option) \<Rightarrow> Client \<Rightarrow> exchange \<Rightarrow> admin_error option" where
  "Client_Configure parse c x = postJSON parse c ''/configure'' x"

definition Health :: "(string \<Rightarrow> string option) \<Rightarrow> Client \<Rightarrow> exchange \<Rightarrow> admin_error + string" where
  "Health parse_id c x =
     (case cl_refuse c of
        Some e \<Rightarrow> Inl (Refused e)
      | None \<Rightarrow>
          (case x of
             BuildFailed e \<Rightarrow> Inl (Unreachable e)
           | DoFailed e \<Rightarrow> Inl (Unreachable (ne_msg e))
           | ReadFailed e \<Rightarrow> Inl (Unreachable e)
           | Answered status raw \<Rightarrow>
               let raw = take maxRequestBytes raw in
               if status \<noteq> 200 then Inl (AdminStatus ''health'' status)
               else case parse_id raw of
                 None \<Rightarrow> Inl (AdminUnparseable ''health'' (truncate_body raw))
               | Some sid \<Rightarrow> Inr sid))"

section \<open>Both sides together\<close>

text \<open>Each call of the client meets its handler; a replication sent to a store that is no router is refused by status.\<close>

lemma client_routes:
  "route router ''POST'' ''/kv'' = Inr HandleKV" "route router ''POST'' ''/configure'' = Inr HandleConfigure"
  "route router ''GET'' ''/health'' = Inr HandleHealth"
  "route router ''POST'' ''/replicate'' = (if router then Inr HandleReplicate else Inl 404)"
  by (simp_all add: route_def routes_def)

lemma replication_unrouted:
  assumes "cl_refuse c = None" and "route False ''POST'' ''/replicate'' = Inl status"
  shows "postJSON parse c ''/replicate'' (Answered status raw) = Some (AdminStatus ''/replicate'' 404)"
  using assms by (simp add: postJSON_def client_routes)

text \<open>A caller of \<open>Configure\<close> that is told nothing went wrong spoke to a node that took the configuration.\<close>

lemma Configure_accepted:
  assumes "handleConfigure parse complaint configure st body = ((status, AdminDecision resp), st')"
    and "Client_Configure parse_reply c (Answered status raw) = None"
    and "parse_reply (take maxRequestBytes raw) = Some resp"
  shows "\<exists>cfg. parse (take maxRequestBytes body) = Some cfg \<and> configure cfg st = (None, st')"
  using assms
  by (auto simp: handleConfigure_def Client_Configure_def postJSON_def Let_def Declined_def
      split: option.splits prod.splits if_splits)

text \<open>A configuration the gossiping store refuses may still have switched its mode: a node that is shutting down refuses last.\<close>

lemma quorum_Configure_refused:
  assumes "quorum_Configure parse cfg s = (Some e, s')"
  shows "s' = s \<or> (e = ShuttingDown \<and> qn_closed s \<and> (\<exists>b. cf_Sync cfg = Some b \<and> s' = s\<lparr>qn_sync := b\<rparr>))"
  using assms by (auto simp: quorum_Configure_def Let_def split: option.splits if_splits)

lemma refused_configuration_switches_mode:
  assumes "qn_closed s"
  shows "quorum_Configure parse \<lparr>cf_Leader = None, cf_Peers = Some [], cf_Sync = Some (\<not> qn_sync s),
      cf_Promote = None, cf_PromoteAfter = None\<rparr> s = (Some ShuttingDown, s\<lparr>qn_sync := \<not> qn_sync s\<rparr>)"
  using assms by (simp add: quorum_Configure_def Let_def)

text \<open>No warning is printed exactly where the bound host is a loopback address.\<close>

lemma exposureWarning_silent:
  "exposureWarning splitHost loopback addr = [] \<longleftrightarrow>
     loopback (case splitHost addr of None \<Rightarrow> addr | Some h \<Rightarrow> h) = Some True"
  by (simp add: exposureWarning_def Let_def)

text \<open>The line a node announces is one the cluster reads back as the address.\<close>

lemma announcement_read:
  assumes "addr \<noteq> []" and "\<not> is_space (last addr)"
  shows "CutPrefix ''listening '' (TrimSpace (announcement_line addr)) = Some addr"
proof -
  have d: "dropWhile is_space (announcement_line addr) = announcement_line addr"
    by (simp add: announcement_line_def is_space_def)
  have "dropWhile is_space (rev (announcement_line addr)) = rev (''listening '' @ addr)"
    using assms by (cases addr rule: rev_cases) (auto simp: announcement_line_def is_space_def)
  then have "TrimSpace (announcement_line addr) = ''listening '' @ addr"
    unfolding TrimSpace_def TrimRight_by_def d by (simp only: rev_rev_ident)
  then show ?thesis by (simp add: CutPrefix_Some)
qed

end
