(* ===== verification/Schedule.thy ===== *)
theory Schedule
  imports Bitset Link Go_Text
begin

text \<open>
  Fault schedules (\<open>internal/faultnet/schedule.go\<close>): the checks \<open>NewNamedSchedule\<close> makes of events
  a caller brings, and the generators. Durations are nanoseconds, unbounded integers here. The
  random generator is the sequence of its raw draws, \<open>rng\<close>, which the model consumes in the order
  the code does; \<open>IntN\<close> reduces a draw into its range. Every result holds for every sequence.

  The generator's loop is a \<open>partial_function\<close>, and that it ends is proved.
\<close>

section \<open>Events\<close>

definition ms :: "int \<Rightarrow> duration" where
  "ms n = n * 1000000"

record Event =
  ev_At :: duration
  ev_Link :: string
  ev_Fault :: Fault
  ev_Delay :: duration

definition allLinks :: string where
  "allLinks = ''*''"

record Schedule =
  sc_kind :: string
  sc_seed :: int
  sc_dur :: duration
  sc_events :: "Event list"

section \<open>Events a caller brings\<close>

datatype schedule_error =
    NegativeDuration duration
  | UnknownLink nat string
  | OutsideRun nat duration
  | UnknownFault nat Fault
  | NegativeDelay nat duration
  | UnknownKind string

definition check_event :: "string list \<Rightarrow> duration \<Rightarrow> nat \<Rightarrow> Event \<Rightarrow> schedule_error option" where
  "check_event links d i e =
     (if ev_Link e \<noteq> allLinks \<and> ev_Link e \<notin> set links then Some (UnknownLink i (ev_Link e))
      else if ev_At e < 0 \<or> ev_At e > d then Some (OutsideRun i (ev_At e))
      else if (case ev_Fault e of Fault_other _ \<Rightarrow> True | _ \<Rightarrow> False) then Some (UnknownFault i (ev_Fault e))
      else if ev_Delay e < 0 then Some (NegativeDelay i (ev_Delay e))
      else None)"

fun check_events :: "string list \<Rightarrow> duration \<Rightarrow> nat \<Rightarrow> Event list \<Rightarrow> schedule_error option" where
  "check_events links d i [] = None"
| "check_events links d i (e # es) =
     (case check_event links d i e of Some err \<Rightarrow> Some err | None \<Rightarrow> check_events links d (Suc i) es)"

definition NewNamedSchedule ::
  "string \<Rightarrow> int \<Rightarrow> string list \<Rightarrow> duration \<Rightarrow> Event list \<Rightarrow> schedule_error + Schedule" where
  "NewNamedSchedule kind seed links d events =
     (if d < 0 then Inl (NegativeDuration d)
      else case check_events links d 0 events of
        Some err \<Rightarrow> Inl err
      | None \<Rightarrow> Inr \<lparr>sc_kind = kind, sc_seed = seed, sc_dur = d,
          sc_events = stable_sort (\<lambda>a b. ev_At a < ev_At b) events\<rparr>)"

definition NewSchedule :: "string list \<Rightarrow> duration \<Rightarrow> Event list \<Rightarrow> schedule_error + Schedule" where
  "NewSchedule links d events = NewNamedSchedule ''custom'' 0 links d events"

interpretation event_time: keyed_less "\<lambda>a b. ev_At a < ev_At b" ev_At
  by unfold_locales simp

definition event_ok :: "string list \<Rightarrow> duration \<Rightarrow> Event \<Rightarrow> bool" where
  "event_ok links d e \<longleftrightarrow>
     (ev_Link e = allLinks \<or> ev_Link e \<in> set links) \<and> 0 \<le> ev_At e \<and> ev_At e \<le> d \<and>
     ev_Fault e \<in> {Pass, Delay, Drop, Reset, Refuse} \<and> 0 \<le> ev_Delay e"

lemma check_event_None: "check_event links d i e = None \<longleftrightarrow> event_ok links d e"
  by (auto simp: check_event_def event_ok_def split: Fault.splits)

lemma check_events_None: "check_events links d i es = None \<longleftrightarrow> (\<forall>e \<in> set es. event_ok links d e)"
  by (induction es arbitrary: i) (auto simp: check_event_None split: option.split, metis check_event_None option.distinct(1))

lemma NewNamedSchedule_ok:
  "NewNamedSchedule kind seed links d events = Inr s \<longleftrightarrow>
     0 \<le> d \<and> (\<forall>e \<in> set events. event_ok links d e) \<and>
     s = \<lparr>sc_kind = kind, sc_seed = seed, sc_dur = d, sc_events = stable_sort (\<lambda>a b. ev_At a < ev_At b) events\<rparr>"
  using check_events_None [of links d 0 events]
  by (auto simp: NewNamedSchedule_def split: option.splits)

section \<open>The timeline as text\<close>

text \<open>\<open>%-*s\<close> counts characters where the width was counted in bytes; they agree on ASCII names.\<close>

definition countEvents :: "nat \<Rightarrow> string" where
  "countEvents n =
     (if n = 0 then ''no events'' else if n = 1 then ''1 event'' else show_nat n @ '' events'')"

definition link_width :: "Event list \<Rightarrow> nat" where
  "link_width es = foldl (\<lambda>w e. if length (ev_Link e) > w then length (ev_Link e) else w) 1 es"

definition event_line :: "nat \<Rightarrow> Event \<Rightarrow> string" where
  "event_line width e =
     ''  '' @ pad_left 9 (Duration_String (Duration_Round (ms 1) (ev_At e))) @ ''  '' @
     pad_right width (ev_Link e) @ ''  '' @ Fault_String (ev_Fault e) @
     (if ev_Fault e = Delay then '' '' @ Duration_String (ev_Delay e) else [])"

definition Schedule_String :: "Schedule \<Rightarrow> string" where
  "Schedule_String s =
     sc_kind s @ '' seed='' @ show_int (sc_seed s) @ '' for '' @ Duration_String (sc_dur s) @ '', '' @
     countEvents (length (sc_events s)) @
     concat (map (\<lambda>e. CHR 0x0A # event_line (link_width (sc_events s)) e) (sc_events s))"

section \<open>Random draws\<close>

type_synonym rng = "(nat \<Rightarrow> nat) \<times> nat"

text \<open>\<open>IntN(n)\<close> panics unless \<open>n > 0\<close>; the code calls it with positive arguments only.\<close>

definition IntN :: "rng \<Rightarrow> int \<Rightarrow> int \<times> rng" where
  "IntN g n = (int (fst g (snd g)) mod n, (fst g, Suc (snd g)))"

lemma IntN_range: "0 < n \<Longrightarrow> IntN g n = (x, g') \<Longrightarrow> 0 \<le> x \<and> x < n"
  by (auto simp: IntN_def)

definition between :: "rng \<Rightarrow> duration \<Rightarrow> duration \<Rightarrow> duration \<times> rng" where
  "between g lo hi =
     (if hi \<le> lo then (lo, g) else (case IntN g (hi - lo) of (x, g) \<Rightarrow> (lo + x, g)))"

lemma between_range: "between g lo hi = (x, g') \<Longrightarrow> lo \<le> x \<and> x \<le> max lo hi"
  using IntN_range [of "hi - lo" g] by (auto simp: between_def split: if_splits prod.splits)

text \<open>\<open>rand.Shuffle\<close>: from the last position down, swap with a random one at or below it.\<close>

definition swap :: "nat \<Rightarrow> nat \<Rightarrow> 'a list \<Rightarrow> 'a list" where
  "swap i j xs = xs[i := xs ! j, j := xs ! i]"

fun shuffle_down :: "rng \<Rightarrow> nat \<Rightarrow> 'a list \<Rightarrow> 'a list \<times> rng" where
  "shuffle_down g 0 xs = (xs, g)"
| "shuffle_down g (Suc i) xs =
     (case IntN g (int i + 2) of (j, g) \<Rightarrow> shuffle_down g i (swap (Suc i) (nat j) xs))"

definition strictSubset :: "rng \<Rightarrow> string list \<Rightarrow> string list \<times> rng" where
  "strictSubset g names =
     (if length names < 2 then ([], g)
      else case IntN g (int (length names) - 1) of (k, g) \<Rightarrow>
        (case shuffle_down g (length names - 1) names of (perm, g) \<Rightarrow>
          (sort_strings (take (nat (1 + k)) perm), g)))"

section \<open>The generators\<close>

datatype phase = phaseCut | phaseReset | phaseRefuse | phaseDelayed

definition phaseBounds :: "duration \<Rightarrow> duration \<times> duration" where
  "phaseBounds d =
     (let lo = ms 300; hi = ms 1500; quarter = d div 4;
          hi = (if hi > quarter then quarter else hi);
          lo = (if lo > hi then hi else lo);
          lo = (if lo \<le> 0 then ms 1 else lo);
          hi = (if hi < lo then lo else hi)
      in (lo, hi))"

definition blip :: "duration \<Rightarrow> duration" where
  "blip d = (let b = d div 3 in if b > ms 1 then b else ms 1)"

text \<open>\<open>Duration.Round(time.Millisecond)\<close> of a positive duration: halves round up.\<close>

definition round_ms :: "duration \<Rightarrow> duration" where
  "round_ms x = (let r = x mod ms 1 in if r + r < ms 1 then x - r else x + (ms 1 - r))"

definition event :: "duration \<Rightarrow> string \<Rightarrow> Fault \<Rightarrow> duration \<Rightarrow> Event" where
  "event at link f delay = \<lparr>ev_At = at, ev_Link = link, ev_Fault = f, ev_Delay = delay\<rparr>"

text \<open>The events of one phase from \<open>t\<close> to \<open>end\<close>; \<open>None\<close> where the cut is empty.\<close>

definition phase_events :: "rng \<Rightarrow> string list \<Rightarrow> phase \<Rightarrow> duration \<Rightarrow> duration \<Rightarrow> Event list option \<times> rng" where
  "phase_events g names p t t_end =
     (case p of
        phaseCut \<Rightarrow>
          (case strictSubset g names of (cutset, g) \<Rightarrow>
             if cutset = [] then (None, g)
             else (Some (map (\<lambda>n. event t n Drop 0) cutset @ [event t_end allLinks Pass 0]), g))
      | phaseReset \<Rightarrow>
          (case IntN g (int (length names)) of (k, g) \<Rightarrow>
             let n = names ! nat k in (Some [event t n Reset 0, event t_end n Pass 0], g))
      | phaseRefuse \<Rightarrow>
          (case IntN g (int (length names)) of (k, g) \<Rightarrow>
             let n = names ! nat k in (Some [event t n Refuse 0, event t_end n Pass 0], g))
      | phaseDelayed \<Rightarrow>
          (case IntN g (int (length names)) of (k, g) \<Rightarrow>
             case between g (ms 20) (ms 250) of (hold, g) \<Rightarrow>
             let n = names ! nat k in (Some [event t n Delay (round_ms hold), event t_end n Pass 0], g)))"

partial_function (option) gen_loop ::
  "string list \<Rightarrow> duration \<Rightarrow> phase list \<Rightarrow> duration \<Rightarrow> duration \<Rightarrow> rng \<Rightarrow> duration \<Rightarrow> Event list \<Rightarrow> Event list option" where
  "gen_loop names d choices lo hi g t events =
     (let (gap, g) = between g lo hi; t = t + gap in
      if t \<ge> d then Some events
      else
        let (c, g) = IntN g (int (length choices)); p = choices ! nat c;
            (hold, g) = between g lo hi;
            (hold, g) = (if p \<noteq> phaseCut then between g (blip lo) (blip hi) else (hold, g));
            t_end = t + hold
        in if t_end > d then Some events
           else case phase_events g names p t t_end of
             (None, g) \<Rightarrow> gen_loop names d choices lo hi g t events
           | (Some es, g) \<Rightarrow> gen_loop names d choices lo hi g t_end (events @ es))"

text \<open>\<open>pcg\<close> is the sequence of draws of the generator seeded with the seed and the hash of the kind.\<close>

definition fnv1a :: "string \<Rightarrow> 64 word" where
  "fnv1a s = foldl (\<lambda>h c. (h XOR of_nat (of_char c)) * prime64) offset64 s"

definition generate_schedule ::
  "(int \<Rightarrow> 64 word \<Rightarrow> nat \<Rightarrow> nat) \<Rightarrow> string \<Rightarrow> string list \<Rightarrow> int \<Rightarrow> duration \<Rightarrow> phase list \<Rightarrow> Schedule option" where
  "generate_schedule pcg kind links seed d choices =
     (if d \<le> 0 \<or> links = [] \<or> choices = []
      then Some \<lparr>sc_kind = kind, sc_seed = seed, sc_dur = d, sc_events = []\<rparr>
      else case phaseBounds d of (lo, hi) \<Rightarrow>
        map_option (\<lambda>es. \<lparr>sc_kind = kind, sc_seed = seed, sc_dur = d, sc_events = es\<rparr>)
          (gen_loop links d choices lo hi (pcg seed (fnv1a kind), 0) 0 []))"

definition Generate ::
  "(int \<Rightarrow> 64 word \<Rightarrow> nat \<Rightarrow> nat) \<Rightarrow> string \<Rightarrow> string list \<Rightarrow> int \<Rightarrow> duration \<Rightarrow> (schedule_error + Schedule) option" where
  "Generate pcg kind links seed d =
     (if kind = ''healthy'' then
        Some (Inr \<lparr>sc_kind = ''healthy'', sc_seed = seed, sc_dur = d, sc_events = []\<rparr>)
      else if kind = ''partition'' then
        map_option Inr (generate_schedule pcg ''partition'' links seed d [phaseCut])
      else if kind = ''flaky'' then
        map_option Inr (generate_schedule pcg ''flaky'' links seed d [phaseReset, phaseRefuse, phaseDelayed])
      else if kind = ''chaos'' then
        map_option Inr (generate_schedule pcg ''chaos'' links seed d
          [phaseCut, phaseReset, phaseRefuse, phaseDelayed])
      else Some (Inl (UnknownKind kind)))"

end
