(* ===== verification/Schedule_Correct.thy ===== *)
theory Schedule_Correct
  imports Schedule
begin

text \<open>
  What the generators promise. A generated schedule's events are well formed and in time order, they
  leave the network whole, they never cut every link at once, and the loop that lays them out ends
  for every sequence of random draws.
\<close>

section \<open>The weather\<close>

text \<open>The fault on each link after a sequence of events, from a network that passes everything.\<close>

definition apply_event :: "Event \<Rightarrow> (string \<Rightarrow> Fault) \<Rightarrow> string \<Rightarrow> Fault" where
  "apply_event e w = (if ev_Link e = allLinks then (\<lambda>_. ev_Fault e) else w(ev_Link e := ev_Fault e))"

definition weather :: "Event list \<Rightarrow> (string \<Rightarrow> Fault) \<Rightarrow> string \<Rightarrow> Fault" where
  "weather es w = fold apply_event es w"

abbreviation calm :: "string \<Rightarrow> Fault" where
  "calm \<equiv> (\<lambda>_. Pass)"

lemma weather_simps [simp]:
  "weather [] w = w" "weather (e # es) w = weather es (apply_event e w)"
  "weather (es @ fs) w = weather fs (weather es w)"
  by (simp_all add: weather_def)

lemma weather_cut:
  "allLinks \<notin> set ns \<Longrightarrow>
     weather (map (\<lambda>n. event t n f 0) ns) w = (\<lambda>l. if l \<in> set ns then f else w l)"
  by (induction ns arbitrary: w) (auto simp: apply_event_def event_def fun_eq_iff)

section \<open>The random draws\<close>

lemma mset_swap: "i < length xs \<Longrightarrow> j < length xs \<Longrightarrow> mset (swap i j xs) = mset xs"
  by (simp add: swap_def mset_swap)

lemma shuffle_down_mset:
  "i < length xs \<Longrightarrow> shuffle_down g i xs = (ys, g') \<Longrightarrow> mset ys = mset xs"
proof (induction g i xs arbitrary: ys g' rule: shuffle_down.induct)
  case (1 g xs)
  then show ?case by simp
next
  case (2 g i xs)
  obtain j h where j: "IntN g (int i + 2) = (j, h)" by (meson surj_pair)
  with IntN_range [of "int i + 2" g j h] have r: "0 \<le> j" "j < int i + 2" by auto
  with 2(2) have l: "nat j < length xs" by linarith
  from 2(3) j have "shuffle_down h i (swap (Suc i) (nat j) xs) = (ys, g')" by simp
  with 2(1) [OF j [symmetric], of ys g'] 2(2) have "mset ys = mset (swap (Suc i) (nat j) xs)"
    by (simp add: swap_def)
  with 2(2) l show ?case by (simp add: mset_swap)
qed

lemma strictSubset_some:
  assumes "strictSubset g names = (ns, g')" and "2 \<le> length names"
  shows "ns \<noteq> []" and "length ns < length names" and "mset ns \<subseteq># mset names"
proof -
  obtain k h where k: "IntN g (int (length names) - 1) = (k, h)" by (meson surj_pair)
  obtain ys h' where y: "shuffle_down h (length names - 1) names = (ys, h')" by (meson surj_pair)
  from IntN_range [OF _ k] assms(2) have r: "0 \<le> k" "k < int (length names) - 1" by auto
  have m: "mset ys = mset names" using shuffle_down_mset [OF _ y] assms(2) by fastforce
  then have l: "length ys = length names" by (rule mset_eq_length)
  from assms k y have ns: "ns = sort_strings (take (nat (1 + k)) ys)"
    by (simp add: strictSubset_def)
  from r have "nat (1 + k) \<le> length names" by linarith
  with ns l have len: "length ns = nat (1 + k)" by (simp add: min_absorb2)
  with r show "ns \<noteq> []" by force
  from len r show "length ns < length names" by simp
  have "mset (take (nat (1 + k)) ys) \<subseteq># mset ys"
    by (metis append_take_drop_id mset_append mset_subset_eq_add_left)
  with m ns show "mset ns \<subseteq># mset names" by simp
qed

lemma strictSubset_none: "length names < 2 \<Longrightarrow> strictSubset g names = ([], g)"
  by (simp add: strictSubset_def)

text \<open>With distinct links a cut leaves at least one link alone, and cuts only links of the run.\<close>

lemma strictSubset_spares:
  assumes "strictSubset g names = (ns, g')" and "ns \<noteq> []" and "distinct names"
  shows "set ns \<subset> set names"
proof -
  from assms(1,2) have l2: "2 \<le> length names"
    using strictSubset_none [of names g] by (cases "length names < 2") auto
  note S = strictSubset_some [OF assms(1) l2]
  from S(3) have sub: "set ns \<subseteq> set names" by (metis mset_subset_eqD set_mset_mset subsetI)
  moreover have "card (set ns) \<le> length ns" by (rule card_length)
  with S(2) assms(3) have "card (set ns) < card (set names)" by (simp add: distinct_card)
  ultimately show ?thesis by auto
qed

section \<open>One phase\<close>

text \<open>
  A phase is sound when its events belong to the run, lie in its span in time order, and heal what
  they break, sparing a link throughout.
\<close>

definition spares :: "string list \<Rightarrow> Event list \<Rightarrow> bool" where
  "spares names es \<longleftrightarrow> (\<forall>n. \<exists>l \<in> set names. weather (take n es) calm l \<noteq> Drop)"

text \<open>An event that addresses every link heals it.\<close>

definition heals_all :: "Event \<Rightarrow> bool" where
  "heals_all e \<longleftrightarrow> (ev_Link e = allLinks \<longrightarrow> ev_Fault e = Pass)"

definition in_span :: "string list \<Rightarrow> duration \<Rightarrow> duration \<Rightarrow> Event \<Rightarrow> bool" where
  "in_span names t t_end e \<longleftrightarrow>
     (ev_Link e = allLinks \<or> ev_Link e \<in> set names) \<and> t \<le> ev_At e \<and> ev_At e \<le> t_end \<and>
     ev_Fault e \<in> {Pass, Delay, Drop, Reset, Refuse} \<and> 0 \<le> ev_Delay e \<and> heals_all e"

definition timeline :: "string list \<Rightarrow> duration \<Rightarrow> duration \<Rightarrow> Event list \<Rightarrow> bool" where
  "timeline names t t_end es \<longleftrightarrow>
     (\<forall>e \<in> set es. in_span names t t_end e) \<and> sorted (map ev_At es) \<and> weather es calm = calm"

definition phase_ok :: "string list \<Rightarrow> duration \<Rightarrow> duration \<Rightarrow> Event list \<Rightarrow> bool" where
  "phase_ok names t t_end es \<longleftrightarrow> timeline names t t_end es \<and> spares names es"

lemma in_span_widen: "in_span names b c e \<Longrightarrow> a \<le> b \<Longrightarrow> c \<le> d \<Longrightarrow> in_span names a d e"
  by (auto simp: in_span_def)

lemma spares_append:
  "spares names es \<Longrightarrow> weather es calm = calm \<Longrightarrow> spares names fs \<Longrightarrow> spares names (es @ fs)"
proof (unfold spares_def, rule allI)
  fix n
  assume a: "\<forall>n. \<exists>l \<in> set names. weather (take n es) calm l \<noteq> Drop" "weather es calm = calm"
    and b: "\<forall>n. \<exists>l \<in> set names. weather (take n fs) calm l \<noteq> Drop"
  show "\<exists>l \<in> set names. weather (take n (es @ fs)) calm l \<noteq> Drop"
  proof (cases "n \<le> length es")
    case True
    with a(1) show ?thesis by simp
  next
    case False
    with a(2) b show ?thesis by simp
  qed
qed

lemma timeline_append:
  assumes "timeline names a b es" and "timeline names c d fs" and "a \<le> b" "b \<le> c" "c \<le> d"
  shows "timeline names a d (es @ fs)"
proof -
  from assms(1,3-5) have 1: "\<forall>e \<in> set es. in_span names a d e"
    unfolding timeline_def by (meson in_span_widen order_refl order_trans)
  from assms(2-5) have 2: "\<forall>e \<in> set fs. in_span names a d e"
    unfolding timeline_def by (meson in_span_widen order_refl order_trans)
  have "ev_At x \<le> ev_At y" if "x \<in> set es" "y \<in> set fs" for x y
  proof -
    from assms(1,2) that have "ev_At x \<le> b" "c \<le> ev_At y" by (auto simp: timeline_def in_span_def)
    with assms(4) show ?thesis by simp
  qed
  with assms(1,2) 1 2 show ?thesis
    unfolding timeline_def by (auto simp: sorted_append)
qed

lemma phase_ok_append:
  assumes "phase_ok names a b es" and "phase_ok names c d fs" and "a \<le> b" "b \<le> c" "c \<le> d"
  shows "phase_ok names a d (es @ fs)"
  using assms timeline_append spares_append unfolding phase_ok_def by (metis timeline_def)

lemma timeline_Nil [simp]: "timeline names a b []"
  by (simp add: timeline_def)

lemma phase_ok_Nil: "names \<noteq> [] \<Longrightarrow> phase_ok names a b []"
  by (auto simp: phase_ok_def spares_def neq_Nil_conv)

lemma round_ms_pos: "0 \<le> x \<Longrightarrow> 0 \<le> round_ms x"
proof -
  assume "0 \<le> x"
  then have "x mod ms 1 \<le> x" by (simp add: ms_def zmod_le_nonneg_dividend)
  moreover have "x mod ms 1 < ms 1" by (simp add: ms_def)
  ultimately show ?thesis using \<open>0 \<le> x\<close> by (simp add: round_ms_def Let_def)
qed

text \<open>A single link broken and mended.\<close>

lemma blip_ok:
  assumes "n \<in> set names" and "allLinks \<notin> set names" and "t \<le> t_end" and "f \<in> {Delay, Reset, Refuse}" and "0 \<le> delay"
  shows "phase_ok names t t_end [event t n f delay, event t_end n Pass 0]"
proof -
  have "weather (take k [event t n f delay, event t_end n Pass 0]) calm n \<noteq> Drop" for k
    using assms(4) by (cases k; cases "k - 1") (auto simp: apply_event_def event_def)
  then have "spares names [event t n f delay, event t_end n Pass 0]"
    using assms(1) by (auto simp: spares_def)
  then show ?thesis using assms
    by (auto simp: phase_ok_def timeline_def in_span_def heals_all_def apply_event_def event_def fun_eq_iff)
qed

lemma cut_ok:
  assumes "set ns \<subset> set names" and "allLinks \<notin> set names" and "t \<le> t_end"
  shows "phase_ok names t t_end (map (\<lambda>n. event t n Drop 0) ns @ [event t_end allLinks Pass 0])"
proof -
  from assms(1,2) have a: "allLinks \<notin> set ns" by auto
  from assms(1) obtain l where l: "l \<in> set names" "l \<notin> set ns" by auto
  have "weather (take k (map (\<lambda>n. event t n Drop 0) ns @ [event t_end allLinks Pass 0])) calm l \<noteq> Drop" for k
  proof -
    have "allLinks \<notin> set (take k ns)" "l \<notin> set (take k ns)" using a l(2) by (meson in_set_takeD)+
    then have "weather (map (\<lambda>n. event t n Drop 0) (take k ns)) calm l = Pass" by (simp add: weather_cut)
    then show ?thesis
      by (cases "k - length ns") (auto simp: take_map apply_event_def event_def)
  qed
  then have "spares names (map (\<lambda>n. event t n Drop 0) ns @ [event t_end allLinks Pass 0])"
    using l(1) by (auto simp: spares_def)
  moreover have "sorted (map ev_At (map (\<lambda>n. event t n Drop 0) ns @ [event t_end allLinks Pass 0]))"
    using assms(3) by (simp add: sorted_append event_def o_def map_replicate_const)
  ultimately show ?thesis using assms
    by (auto simp: phase_ok_def timeline_def in_span_def heals_all_def apply_event_def event_def fun_eq_iff)
qed

lemma phase_events_ok:
  assumes "phase_events g names p t t_end = (Some es, g')" and "names \<noteq> []" and "distinct names"
    and "allLinks \<notin> set names" and "t \<le> t_end"
  shows "phase_ok names t t_end es"
proof -
  have pick: "names ! nat k \<in> set names" if "IntN g (int (length names)) = (k, h)" for k h
    using IntN_range [OF _ that] assms(2) by (auto intro!: nth_mem)
  show ?thesis
  proof (cases p)
    case phaseCut
    obtain ns h where ns: "strictSubset g names = (ns, h)" by (meson surj_pair)
    with assms(1) phaseCut have "ns \<noteq> []" and es: "es = map (\<lambda>n. event t n Drop 0) ns @ [event t_end allLinks Pass 0]"
      by (auto simp: phase_events_def split: if_splits)
    with strictSubset_spares [OF ns _ assms(3)] assms(4,5) show ?thesis by (simp add: cut_ok)
  next
    case phaseReset
    with assms(1) pick assms(4,5) show ?thesis
      by (auto simp: phase_events_def Let_def intro!: blip_ok split: prod.splits)
  next
    case phaseRefuse
    with assms(1) pick assms(4,5) show ?thesis
      by (auto simp: phase_events_def Let_def intro!: blip_ok split: prod.splits)
  next
    case phaseDelayed
    obtain k h where k: "IntN g (int (length names)) = (k, h)" by (meson surj_pair)
    obtain d h' where d: "between h (ms 20) (ms 250) = (d, h')" by (meson surj_pair)
    from between_range [OF d] have "0 \<le> round_ms d" by (intro round_ms_pos) (simp add: ms_def)
    with assms(1) phaseDelayed k d pick [OF k] assms(4,5) show ?thesis
      by (auto simp: phase_events_def Let_def intro!: blip_ok)
  qed
qed

text \<open>The faults the phases of a list bring, and that each brings one.\<close>

definition phase_fault :: "phase \<Rightarrow> Fault" where
  "phase_fault p = (case p of phaseCut \<Rightarrow> Drop | phaseReset \<Rightarrow> Reset | phaseRefuse \<Rightarrow> Refuse | phaseDelayed \<Rightarrow> Delay)"

definition faults_from :: "phase list \<Rightarrow> Event list \<Rightarrow> bool" where
  "faults_from choices es \<longleftrightarrow> (\<forall>e \<in> set es. ev_Fault e \<in> insert Pass (phase_fault ` set choices))"

lemma phase_events_faults:
  assumes "phase_events g names p t t_end = (Some es, g')"
  shows "\<forall>e \<in> set es. ev_Fault e \<in> {Pass, phase_fault p}" and "\<exists>e \<in> set es. ev_Fault e \<noteq> Pass"
proof -
  show "\<forall>e \<in> set es. ev_Fault e \<in> {Pass, phase_fault p}"
    using assms by (cases p) (auto simp: phase_events_def phase_fault_def event_def Let_def split: prod.splits if_splits)
  show "\<exists>e \<in> set es. ev_Fault e \<noteq> Pass"
    using assms by (cases p) (auto simp: phase_events_def event_def ex_in_conv Let_def split: prod.splits if_splits)
qed

lemma phase_events_None: "phase_events g names p t t_end = (None, g') \<Longrightarrow> length names < 2"
  using strictSubset_some(1)
  by (cases p) (fastforce simp: phase_events_def Let_def not_less split: prod.splits if_splits)+

section \<open>The loop\<close>

lemma phaseBounds_pos: "0 < fst (phaseBounds d)"
  by (simp add: phaseBounds_def ms_def Let_def)

lemma blip_mono: "x \<le> y \<Longrightarrow> blip x \<le> blip y"
  using zdiv_mono1 [of x y 3] by (auto simp: blip_def Let_def)

text \<open>From 4 ms on a whole number of the longest phases fits the run, blips included.\<close>

lemma phaseBounds_fit:
  assumes "phaseBounds d = (lo, hi)"
  shows "lo \<le> hi" and "ms 4 \<le> d \<Longrightarrow> 2 * max hi (blip hi) \<le> d"
  using assms by (auto simp: phaseBounds_def blip_def ms_def Let_def max_def split: if_splits)

lemma blip_pos: "0 < blip x"
  by (simp add: blip_def ms_def Let_def)

lemma gen_loop_ok:
  assumes "names \<noteq> []" and "distinct names" and "allLinks \<notin> set names" and "0 < lo"
    and "phase_ok names 0 t events" and "0 \<le> t" and "t \<le> d" and "choices \<noteq> []"
  shows "\<exists>es. gen_loop names d choices lo hi g t events = Some es \<and> phase_ok names 0 d es \<and>
    (\<exists>more_events. es = events @ more_events \<and> faults_from choices more_events \<and>
      (t + 2 * max hi (blip hi) \<le> d \<and> lo \<le> hi \<and> 2 \<le> length names \<longrightarrow> (\<exists>e \<in> set more_events. ev_Fault e \<noteq> Pass)))"
  using assms(5-7)
proof (induction "nat (d - t)" arbitrary: t events g rule: less_induct)
  case less
  obtain gap g1 where gap: "between g lo hi = (gap, g1)" by (meson surj_pair)
  from between_range [OF gap] assms(4) have gap0: "0 < gap" by simp
  obtain c g2 where c: "IntN g1 (int (length choices)) = (c, g2)" by (meson surj_pair)
  obtain h0 g3 where h0: "between g2 lo hi = (h0, g3)" by (meson surj_pair)
  define p where "p = choices ! nat c"
  obtain hold g4 where hold: "(if p \<noteq> phaseCut then between g3 (blip lo) (blip hi) else (h0, g3)) = (hold, g4)"
    by (meson surj_pair)
  from hold between_range [OF h0] between_range [of g3 "blip lo" "blip hi" hold g4] blip_pos [of lo] assms(4)
  have hold0: "0 < hold" by (auto split: if_splits)
  have fits_in: "gap + hold \<le> 2 * max hi (blip hi)" "0 < max hi (blip hi)" if "lo \<le> hi"
    using that hold between_range [OF gap] between_range [OF h0] between_range [of g3 "blip lo" "blip hi" hold g4]
      blip_mono [OF that] blip_pos [of hi] by (auto split: if_splits)
  have p_in: "p \<in> set choices"
    using IntN_range [OF _ c] assms(8) unfolding p_def by (auto intro!: nth_mem)
  note step = gen_loop.simps [of names d choices lo hi g t events] gap c h0 hold p_def [symmetric] Let_def
  have widen: "phase_ok names 0 d events"
    using phase_ok_append [OF less.prems(1) phase_ok_Nil [OF assms(1), of t d]] less.prems by simp
  consider (late) "d \<le> t + gap" | (over) "t + gap < d" "d < t + gap + hold"
    | (fits) "t + gap < d" "t + gap + hold \<le> d" by linarith
  then show ?case
  proof cases
    case late
    with widen fits_in hold0 show ?thesis by (auto simp: step faults_from_def)
  next
    case over
    with widen fits_in show ?thesis by (auto simp: step faults_from_def)
  next
    case fits
    obtain r g5 where r: "phase_events g4 names p (t + gap) (t + gap + hold) = (r, g5)" by (meson surj_pair)
    show ?thesis
    proof (cases r)
      case None
      have "phase_ok names 0 (t + gap) events"
        using phase_ok_append [OF less.prems(1) phase_ok_Nil [OF assms(1), of t "t + gap"]] less.prems gap0 by simp
      from less.hyps [OF _ this] gap0 fits less.prems None r phase_events_None [OF r [unfolded None]] show ?thesis
        by (fastforce simp: step)
    next
      case (Some es)
      from phase_events_ok [OF r [unfolded Some] assms(1-3)] hold0
      have "phase_ok names (t + gap) (t + gap + hold) es" by simp
      then have "phase_ok names 0 (t + gap + hold) (events @ es)"
        using phase_ok_append [OF less.prems(1)] less.prems gap0 hold0 by simp
      from less.hyps [OF _ this, of g5] gap0 hold0 fits less.prems obtain fs more_events
        where fs: "gen_loop names d choices lo hi g5 (t + gap + hold) (events @ es) = Some fs" "phase_ok names 0 d fs"
          "fs = (events @ es) @ more_events" "faults_from choices more_events" by auto
      note F = phase_events_faults [OF r [unfolded Some]]
      have "faults_from choices (es @ more_events)"
        using F(1) p_in fs(4) by (auto simp: faults_from_def)
      moreover have "gen_loop names d choices lo hi g t events = Some fs"
        using fs(1) fits Some r by (simp add: step)
      ultimately show ?thesis
        using fs(2,3) F(2) by (intro exI [of _ fs] conjI exI [of _ "es @ more_events"]) auto
    qed
  qed
qed

definition schedule_ok :: "string list \<Rightarrow> Schedule \<Rightarrow> bool" where
  "schedule_ok links s \<longleftrightarrow>
     (\<forall>e \<in> set (sc_events s). event_ok links (sc_dur s) e) \<and> sorted (map ev_At (sc_events s)) \<and>
     (\<forall>e \<in> set (sc_events s). heals_all e) \<and> weather (sc_events s) calm = calm \<and> (links \<noteq> [] \<longrightarrow> spares links (sc_events s))"

lemma schedule_ok_empty: "schedule_ok links \<lparr>sc_kind = k, sc_seed = seed, sc_dur = d, sc_events = []\<rparr>"
  by (auto simp: schedule_ok_def spares_def neq_Nil_conv)

lemma generate_schedule_ok:
  assumes "distinct links" and "allLinks \<notin> set links"
  shows "\<exists>s. generate_schedule pcg kind links seed d choices = Some s \<and> schedule_ok links s \<and>
    sc_kind s = kind \<and> sc_seed s = seed \<and> sc_dur s = d \<and> faults_from choices (sc_events s) \<and>
    (ms 4 \<le> d \<and> 2 \<le> length links \<and> choices \<noteq> [] \<longrightarrow> (\<exists>e \<in> set (sc_events s). ev_Fault e \<noteq> Pass))"
proof (cases "d \<le> 0 \<or> links = [] \<or> choices = []")
  case True
  then show ?thesis by (auto simp: generate_schedule_def schedule_ok_empty faults_from_def ms_def)
next
  case False
  obtain lo hi where b: "phaseBounds d = (lo, hi)" by (meson surj_pair)
  with phaseBounds_pos [of d] have "0 < lo" by simp
  from gen_loop_ok [OF _ assms this phase_ok_Nil, of 0 d choices hi "(pcg seed (fnv1a kind), 0)"] False
  obtain es where es: "gen_loop links d choices lo hi (pcg seed (fnv1a kind), 0) 0 [] = Some es"
    "phase_ok links 0 d es" "faults_from choices es"
    "2 * max hi (blip hi) \<le> d \<and> lo \<le> hi \<and> 2 \<le> length links \<longrightarrow> (\<exists>e \<in> set es. ev_Fault e \<noteq> Pass)" by auto
  let ?s = "\<lparr>sc_kind = kind, sc_seed = seed, sc_dur = d, sc_events = es\<rparr>"
  have "schedule_ok links ?s"
    using es(2) by (auto simp: schedule_ok_def phase_ok_def timeline_def in_span_def event_ok_def)
  with False b es phaseBounds_fit [OF b] show ?thesis
    by (intro exI [of _ ?s]) (simp add: generate_schedule_def)
qed

text \<open>The generators by name, and the faults each may bring.\<close>

definition known_kinds :: "(string \<times> Fault set) list" where
  "known_kinds =
     [(''healthy'', {}), (''partition'', {Drop}), (''flaky'', {Reset, Refuse, Delay}),
      (''chaos'', {Drop, Reset, Refuse, Delay})]"

lemma Generate_unknown: "kind \<notin> fst ` set known_kinds \<Longrightarrow> Generate pcg kind links seed d = Some (Inl (UnknownKind kind))"
  by (simp add: known_kinds_def Generate_def)

lemma Generate_ok:
  assumes "distinct links" and "allLinks \<notin> set links" and "(kind, faults) \<in> set known_kinds"
  shows "\<exists>s. Generate pcg kind links seed d = Some (Inr s) \<and> schedule_ok links s \<and>
    sc_kind s = kind \<and> sc_seed s = seed \<and> sc_dur s = d \<and>
    (\<forall>e \<in> set (sc_events s). ev_Fault e \<in> insert Pass faults) \<and>
    (ms 4 \<le> d \<and> 2 \<le> length links \<and> faults \<noteq> {} \<longrightarrow> (\<exists>e \<in> set (sc_events s). ev_Fault e \<noteq> Pass))"
proof -
  note g = generate_schedule_ok [OF assms(1,2), of pcg _ seed d]
  from assms(3) consider "kind = ''healthy'' \<and> faults = {}" | "kind = ''partition'' \<and> faults = {Drop}"
    | "kind = ''flaky'' \<and> faults = {Reset, Refuse, Delay}" | "kind = ''chaos'' \<and> faults = {Drop, Reset, Refuse, Delay}"
    by (auto simp: known_kinds_def)
  then show ?thesis
  proof cases
    case 1
    then show ?thesis using schedule_ok_empty [of links "''healthy''" seed d] by (simp add: Generate_def)
  next
    case 2
    with g [of "''partition''" "[phaseCut]"] show ?thesis
      by (auto simp: Generate_def faults_from_def phase_fault_def)
  next
    case 3
    with g [of "''flaky''" "[phaseReset, phaseRefuse, phaseDelayed]"] show ?thesis
      by (auto simp: Generate_def faults_from_def phase_fault_def)
  next
    case 4
    with g [of "''chaos''" "[phaseCut, phaseReset, phaseRefuse, phaseDelayed]"] show ?thesis
      by (auto simp: Generate_def faults_from_def phase_fault_def)
  qed
qed

text \<open>A generated schedule is one \<open>NewNamedSchedule\<close> takes, and takes unchanged.\<close>

lemma schedule_ok_accepted:
  assumes "schedule_ok links s" and "0 \<le> sc_dur s"
  shows "NewNamedSchedule (sc_kind s) (sc_seed s) links (sc_dur s) (sc_events s) = Inr s"
  using assms event_time.sort_by_id [of "sc_events s"]
  by (auto simp: NewNamedSchedule_ok schedule_ok_def)

end
