(* ===== verification/Go_Float.thy ===== *)
theory Go_Float
  imports Complex_Main "HOL-Library.Log_Nat"
begin

text \<open>
  \<open>float64\<close> arithmetic as far as the program uses it: conversions from integers, one division and
  one multiplication of values that are not negative, and the truncation of the result. A double is
  the rational it stands for; every operation is the exact one followed by \<open>f64\<close>, the rounding of
  IEEE 754 to 53 significant bits, ties to even. The values are far from the limits of the exponent,
  which is left out.
\<close>

definition two_power :: "int \<Rightarrow> rat" where
  "two_power e = (if 0 \<le> e then 2 ^ nat e else 1 / 2 ^ nat (- e))"

text \<open>The binary exponent of a positive rational, from the lengths of its two parts.\<close>

definition log_floor :: "rat \<Rightarrow> int" where
  "log_floor x =
     (case quotient_of x of (p, q) \<Rightarrow>
        let k = bitlen p - bitlen q in if two_power k \<le> x then k else k - 1)"

definition round_even :: "rat \<Rightarrow> int" where
  "round_even x =
     (let n = \<lfloor>x\<rfloor>; r = x - of_int n
      in if r < 1 / 2 then n else if r > 1 / 2 then n + 1 else if even n then n else n + 1)"

definition f64 :: "rat \<Rightarrow> rat" where
  "f64 x =
     (if x \<le> 0 then 0
      else let e = log_floor x - 52 in of_int (round_even (x / two_power e)) * two_power e)"

section \<open>Rounding to an integer\<close>

lemma round_even_bounds: "\<lfloor>x\<rfloor> \<le> round_even x \<and> round_even x \<le> \<lfloor>x\<rfloor> + 1"
  by (simp add: round_even_def Let_def)

lemma round_even_of_int [simp]: "round_even (of_int n) = n"
  by (simp add: round_even_def)

lemma round_even_near: "\<bar>of_int (round_even x) - x\<bar> \<le> 1 / 2"
proof -
  have "of_int \<lfloor>x\<rfloor> \<le> x" "x < of_int \<lfloor>x\<rfloor> + 1" by linarith+
  then show ?thesis unfolding round_even_def Let_def abs_le_iff by (simp split: if_split del: of_int_floor_le)
qed

lemma round_even_mono:
  assumes "x \<le> y"
  shows "round_even x \<le> round_even y"
proof (cases "\<lfloor>x\<rfloor> = \<lfloor>y\<rfloor>")
  case True
  with assms show ?thesis by (auto simp: round_even_def Let_def)
next
  case False
  with floor_mono [OF assms] have "\<lfloor>x\<rfloor> + 1 \<le> \<lfloor>y\<rfloor>" by simp
  with round_even_bounds [of x] round_even_bounds [of y] show ?thesis by linarith
qed

section \<open>The exponent\<close>

lemma two_power_pos [simp]: "0 < two_power e"
  by (simp add: two_power_def)

lemma two_power_ge [simp]: "0 \<le> two_power e" "\<not> two_power e < 0" "two_power e \<noteq> 0"
  using two_power_pos [of e] by (auto simp del: two_power_pos)

lemma two_power_Suc: "two_power (e + 1) = 2 * two_power e"
proof (cases "0 \<le> e")
  case True
  then show ?thesis by (simp add: two_power_def nat_add_distrib)
next
  case False
  then have "nat (- e) = Suc (nat (- (e + 1)))" by simp
  with False show ?thesis by (simp add: two_power_def)
qed

lemma two_power_add_nat: "two_power (e + int n) = 2 ^ n * two_power e"
proof (induction n)
  case (Suc n)
  have "two_power (e + int (Suc n)) = two_power (e + int n + 1)" by (simp add: algebra_simps)
  with Suc show ?case by (simp add: two_power_Suc)
qed simp

lemma two_power_split: "e \<le> f \<Longrightarrow> two_power f = 2 ^ nat (f - e) * two_power e"
  using two_power_add_nat [of e "nat (f - e)"] by simp

lemma two_power_mono: "e \<le> f \<Longrightarrow> two_power e \<le> two_power f"
  by (simp add: two_power_split mult_le_cancel_right1)

lemma two_power_int: "0 \<le> e \<Longrightarrow> two_power e = of_int (2 ^ nat e)"
  by (simp add: two_power_def)

lemma bitlen_range:
  assumes "0 < n"
  shows "two_power (bitlen n - 1) \<le> of_int n" and "of_int n < two_power (bitlen n)"
proof -
  have b: "0 < bitlen n" using assms bitlen_nonneg [of n] bitlen_eq_zero_iff [of n] by linarith
  from bitlen_bounds [OF assms] have "2 ^ nat (bitlen n - 1) \<le> n" "n < 2 ^ nat (bitlen n)" by auto
  then have "rat_of_int (2 ^ nat (bitlen n - 1)) \<le> of_int n" "rat_of_int n < of_int (2 ^ nat (bitlen n))"
    by (simp_all only: of_int_le_iff of_int_less_iff)
  with b show "two_power (bitlen n - 1) \<le> of_int n" "of_int n < two_power (bitlen n)"
    by (simp_all add: two_power_def)
qed

lemma two_power_diff: "two_power (a - b) * two_power b = two_power a"
proof (cases "0 \<le> b")
  case True
  with two_power_add_nat [of "a - b" "nat b"] show ?thesis by (simp add: two_power_def)
next
  case False
  with two_power_add_nat [of a "nat (- b)"] show ?thesis by (simp add: two_power_def)
qed

lemma log_floor_range:
  assumes "0 < x"
  shows "two_power (log_floor x) \<le> x" and "x < two_power (log_floor x + 1)"
proof -
  obtain p q where pq: "quotient_of x = (p, q)" by (meson surj_pair)
  have q: "0 < q" using quotient_of_denom_pos [OF pq] .
  have x: "x = of_int p / of_int q" using quotient_of_div [OF pq] .
  with assms q have p: "0 < p" by (simp add: zero_less_divide_iff)
  let ?k = "bitlen p - bitlen q"
  have up: "x < two_power (?k + 1)"
  proof -
    have "of_int p < two_power (bitlen p)" by (rule bitlen_range(2) [OF p])
    also have "\<dots> = two_power (?k + 1) * two_power (bitlen q - 1)"
      using two_power_diff [of "bitlen p" "bitlen q - 1"] by (simp add: algebra_simps)
    also have "\<dots> \<le> two_power (?k + 1) * of_int q"
      using bitlen_range(1) [OF q] by (intro mult_left_mono) (simp_all add: less_imp_le)
    finally show ?thesis using q by (simp add: x divide_less_eq)
  qed
  have low: "two_power (?k - 1) < x"
  proof -
    have "two_power (?k - 1) * of_int q < two_power (?k - 1) * two_power (bitlen q)"
      using bitlen_range(2) [OF q] by (intro mult_strict_left_mono) simp_all
    also have "\<dots> = two_power (bitlen p - 1)"
      using two_power_diff [of "bitlen p - 1" "bitlen q"] by (simp add: algebra_simps)
    also have "\<dots> \<le> of_int p" by (rule bitlen_range(1) [OF p])
    finally show ?thesis using q by (simp add: x less_divide_eq)
  qed
  from up low show "two_power (log_floor x) \<le> x" "x < two_power (log_floor x + 1)"
    by (auto simp: log_floor_def pq Let_def not_le)
qed

lemma log_floor_mono:
  assumes "0 < x" and "x \<le> y"
  shows "log_floor x \<le> log_floor y"
proof (rule ccontr)
  assume "\<not> log_floor x \<le> log_floor y"
  then have "two_power (log_floor y + 1) \<le> two_power (log_floor x)" by (intro two_power_mono) simp
  moreover from assms have "0 < y" by simp
  ultimately show False using log_floor_range(1) [OF assms(1)] log_floor_range(2) [OF \<open>0 < y\<close>] assms(2)
    by linarith
qed

section \<open>Rounding to a double\<close>

lemma f64_bounds:
  assumes "0 < x"
  shows "two_power (log_floor x) \<le> f64 x" and "f64 x \<le> two_power (log_floor x + 1)"
proof -
  let ?e = "log_floor x - 52"
  let ?y = "x / two_power ?e"
  have a: "two_power (log_floor x) = of_int (2 ^ 52) * two_power ?e"
    using two_power_add_nat [of ?e 52] by simp
  have b: "two_power (log_floor x + 1) = of_int (2 ^ 53) * two_power ?e"
    using two_power_add_nat [of ?e 53] by (simp add: algebra_simps)
  have "of_int (2 ^ 52) \<le> ?y" "?y \<le> of_int (2 ^ 53)"
    using log_floor_range [OF assms] unfolding a b by (simp_all add: field_simps)
  then have r: "2 ^ 52 \<le> round_even ?y" "round_even ?y \<le> 2 ^ 53"
    using round_even_mono round_even_of_int by metis+
  have f: "f64 x = of_int (round_even ?y) * two_power ?e"
    using assms by (simp add: f64_def Let_def)
  have "of_int (2 ^ 52) \<le> rat_of_int (round_even ?y)" "rat_of_int (round_even ?y) \<le> of_int (2 ^ 53)"
    using r by (simp_all only: of_int_le_iff)
  from mult_right_mono [OF this(1) two_power_ge(1)] mult_right_mono [OF this(2) two_power_ge(1)]
  show "two_power (log_floor x) \<le> f64 x" "f64 x \<le> two_power (log_floor x + 1)"
    unfolding f a b .
qed

lemma f64_nonneg [simp]: "0 \<le> f64 x"
proof (cases "0 < x")
  case True
  from f64_bounds(1) [OF this] show ?thesis by (rule order_trans [rotated]) (simp add: less_imp_le)
qed (simp add: f64_def)

lemma f64_mono:
  assumes "x \<le> y"
  shows "f64 x \<le> f64 y"
proof (cases "0 < x")
  case False
  then have "f64 x = 0" by (simp add: f64_def)
  then show ?thesis by simp
next
  case True
  with assms have y: "0 < y" by simp
  show ?thesis
  proof (cases "log_floor x = log_floor y")
    case eq: True
    have "round_even (x / two_power (log_floor x - 52)) \<le> round_even (y / two_power (log_floor x - 52))"
      using assms by (intro round_even_mono divide_right_mono) (simp_all add: less_imp_le)
    with True y eq show ?thesis
      by (simp add: f64_def Let_def mult_le_cancel_right)
  next
    case False
    with log_floor_mono [OF True assms] have "log_floor x + 1 \<le> log_floor y" by simp
    then have "two_power (log_floor x + 1) \<le> two_power (log_floor y)" by (rule two_power_mono)
    with f64_bounds(2) [OF True] f64_bounds(1) [OF y] show ?thesis by linarith
  qed
qed

text \<open>An integer of at most 53 bits is a double.\<close>

lemma f64_of_int:
  assumes "0 \<le> n" and "n < 2 ^ 53"
  shows "f64 (of_int n) = of_int n"
proof (cases "n = 0")
  case True
  then show ?thesis by (simp add: f64_def)
next
  case False
  with assms have p: "0 < rat_of_int n" by simp
  let ?e = "log_floor (rat_of_int n) - 52"
  have "?e \<le> 0"
  proof (rule ccontr)
    assume "\<not> ?e \<le> 0"
    then have "two_power 53 \<le> two_power (log_floor (rat_of_int n))" by (intro two_power_mono) simp
    with log_floor_range(1) [OF p] have "rat_of_int (2 ^ 53) \<le> of_int n" by (simp add: two_power_def)
    with assms show False by (simp only: of_int_le_iff)
  qed
  then have t: "two_power ?e = 1 / 2 ^ nat (- ?e)" by (auto simp: two_power_def)
  then have "rat_of_int n / two_power ?e = of_int (n * 2 ^ nat (- ?e))" by simp
  then have "round_even (rat_of_int n / two_power ?e) = n * 2 ^ nat (- ?e)"
    by (simp only: round_even_of_int)
  with p t show ?thesis by (simp add: f64_def Let_def)
qed

section \<open>A fraction of a width\<close>

text \<open>\<open>int(float64(a) / float64(b) * float64(w))\<close>, which truncates.\<close>

definition scaled :: "int \<Rightarrow> int \<Rightarrow> int \<Rightarrow> int" where
  "scaled a b w = \<lfloor>f64 (f64 (f64 (of_int a) / f64 (of_int b)) * f64 (of_int w))\<rfloor>"

lemma scaled_mono:
  assumes "a \<le> a'"
  shows "scaled a b w \<le> scaled a' b w"
proof -
  have "rat_of_int a \<le> of_int a'" using assms by simp
  then have "f64 (of_int a) \<le> f64 (of_int a')" by (rule f64_mono)
  then have "f64 (f64 (of_int a) / f64 (of_int b)) \<le> f64 (f64 (of_int a') / f64 (of_int b))"
    by (intro f64_mono [OF divide_right_mono] f64_nonneg)
  then show ?thesis
    unfolding scaled_def by (intro floor_mono f64_mono [OF mult_right_mono] f64_nonneg)
qed

lemma scaled_nonneg: "0 \<le> scaled a b w"
  by (simp add: scaled_def)

lemma scaled_le:
  assumes "a \<le> b" and "0 \<le> w" and "w < 2 ^ 53"
  shows "scaled a b w \<le> w"
proof -
  have "f64 (of_int a) \<le> f64 (of_int b)" using assms(1) by (intro f64_mono) simp
  then have "f64 (of_int a) / f64 (of_int b) \<le> of_int 1"
    using f64_nonneg [of "of_int b"] by (simp add: divide_le_eq leD)
  then have "f64 (f64 (of_int a) / f64 (of_int b)) \<le> f64 (of_int 1)" by (rule f64_mono)
  also have "\<dots> = of_int 1" by (rule f64_of_int) simp_all
  finally have "f64 (f64 (of_int a) / f64 (of_int b)) * f64 (of_int w) \<le> of_int 1 * f64 (of_int w)"
    by (rule mult_right_mono) simp
  then have "f64 (f64 (of_int a) / f64 (of_int b)) * f64 (of_int w) \<le> of_int w"
    by (simp only: f64_of_int [OF assms(2,3)] of_int_1 mult_1)
  then have "f64 (f64 (f64 (of_int a) / f64 (of_int b)) * f64 (of_int w)) \<le> f64 (of_int w)"
    by (rule f64_mono)
  also have "\<dots> = of_int w" by (rule f64_of_int [OF assms(2,3)])
  finally show ?thesis unfolding scaled_def by (simp add: floor_le_iff less_le_trans)
qed

section \<open>How far off a fraction is\<close>

text \<open>Rounding moves a value by half a unit in its last place at most.\<close>

definition half_ulp :: rat where
  "half_ulp = 1 / 2 ^ 53"

lemma half_ulp_range: "0 < half_ulp" "half_ulp \<le> 1 / 8"
  by (simp_all add: half_ulp_def)

lemma f64_near:
  assumes "0 \<le> x"
  shows "x * (1 - half_ulp) \<le> f64 x" and "f64 x \<le> x * (1 + half_ulp)"
proof -
  have "\<bar>f64 x - x\<bar> \<le> x * half_ulp"
  proof (cases "x = 0")
    case True
    then show ?thesis by (simp add: f64_def)
  next
    case False
    with assms have x: "0 < x" by simp
    define p where "p = two_power (log_floor x - 52)"
    have p: "0 < p" by (simp add: p_def)
    have "two_power (log_floor x) = 2 ^ 52 * p"
      using two_power_add_nat [of "log_floor x - 52" 52] by (simp add: p_def)
    with log_floor_range(1) [OF x] have "p * (1 / 2) \<le> x * half_ulp" by (simp add: half_ulp_def field_simps)
    moreover have "f64 x - x = (of_int (round_even (x / p)) - x / p) * p"
      using x p by (simp add: f64_def p_def [symmetric] Let_def left_diff_distrib)
    then have "\<bar>f64 x - x\<bar> \<le> p * (1 / 2)"
      using mult_right_mono [OF round_even_near [of "x / p"], of p] p by (simp add: abs_mult mult.commute)
    ultimately show ?thesis by linarith
  qed
  then show "x * (1 - half_ulp) \<le> f64 x" "f64 x \<le> x * (1 + half_ulp)"
    by (simp_all add: abs_le_iff algebra_simps)
qed

text \<open>A chain of roundings: the factors of one step after another.\<close>

lemma near_step:
  assumes "0 \<le> x" "x * (1 - m * half_ulp) \<le> y" "y \<le> x * (1 + n * half_ulp)" "0 \<le> m" "0 \<le> n" "n \<le> 7" "0 \<le> y"
  shows "x * (1 - (m + 1) * half_ulp) \<le> f64 y" and "f64 y \<le> x * (1 + (n + 2) * half_ulp)"
proof -
  note u = half_ulp_range
  have "1 - (m + 1) * half_ulp \<le> (1 - m * half_ulp) * (1 - half_ulp)"
    using assms(4) u by (simp add: algebra_simps)
  then have "x * (1 - (m + 1) * half_ulp) \<le> x * ((1 - m * half_ulp) * (1 - half_ulp))"
    using assms(1) by (rule mult_left_mono)
  also have "\<dots> \<le> y * (1 - half_ulp)"
    using mult_right_mono [OF assms(2), of "1 - half_ulp"] u by (simp add: mult.assoc)
  also have "\<dots> \<le> f64 y" by (rule f64_near(1) [OF assms(7)])
  finally show "x * (1 - (m + 1) * half_ulp) \<le> f64 y" .
  have "n * half_ulp \<le> 7 * (1 / 8)" using assms(5,6) u by (intro mult_mono) simp_all
  then have "n * half_ulp * half_ulp \<le> 1 * half_ulp" using u by (intro mult_right_mono) simp_all
  then have "(1 + n * half_ulp) * (1 + half_ulp) \<le> 1 + (n + 2) * half_ulp" by (simp add: algebra_simps)
  then have "x * ((1 + n * half_ulp) * (1 + half_ulp)) \<le> x * (1 + (n + 2) * half_ulp)"
    using assms(1) by (rule mult_left_mono)
  moreover have "y * (1 + half_ulp) \<le> x * ((1 + n * half_ulp) * (1 + half_ulp))"
    using mult_right_mono [OF assms(3), of "1 + half_ulp"] u by (simp add: mult.assoc)
  ultimately show "f64 y \<le> x * (1 + (n + 2) * half_ulp)" using f64_near(2) [OF assms(7)] by linarith
qed

text \<open>On a width of a page the fraction computed is the exact one to within two.\<close>

lemma scaled_near:
  assumes "0 \<le> a" and "a \<le> b" and "0 < b" and "0 \<le> w" and "w \<le> 2 ^ 20"
  shows "\<bar>rat_of_int (scaled a b w) - of_int a * of_int w / of_int b\<bar> < 2"
proof -
  note u = half_ulp_range
  let ?a = "rat_of_int a" and ?b = "rat_of_int b" and ?w = "rat_of_int w"
  let ?x = "?a / ?b"
  have ab: "0 \<le> ?a" "0 < ?b" "0 \<le> ?w" using assms by simp_all
  have x: "0 \<le> ?x" "?x \<le> 1" using assms by simp_all
  note A = f64_near [OF ab(1)]
  note B = f64_near [OF less_imp_le [OF ab(2)]]
  have B0: "0 < f64 ?b" using B(1) ab(2) u by (intro less_le_trans [OF _ B(1)] mult_pos_pos) simp_all
  define q where "q = f64 ?a / f64 ?b"
  have q0: "0 \<le> q" using B0 by (simp add: q_def)
  have "?x * (1 - 2 * half_ulp) * f64 ?b \<le> ?x * (1 - 2 * half_ulp) * (?b * (1 + half_ulp))"
    using B(2) x u by (intro mult_left_mono mult_nonneg_nonneg) simp_all
  also have "\<dots> = ?a * ((1 - 2 * half_ulp) * (1 + half_ulp))" using ab by simp
  also have "\<dots> \<le> ?a * (1 - half_ulp)" using ab u by (intro mult_left_mono) (simp_all add: algebra_simps)
  also have "\<dots> \<le> f64 ?a" by (rule A(1))
  finally have low: "?x * (1 - 2 * half_ulp) \<le> q" using B0 by (simp add: q_def le_divide_eq)
  have "f64 ?a \<le> ?a * (1 + half_ulp)" by (rule A(2))
  also have "\<dots> \<le> ?a * ((1 + 3 * half_ulp) * (1 - half_ulp))"
    using ab u mult_right_mono [OF u(2), of half_ulp] by (intro mult_left_mono) (simp_all add: algebra_simps)
  also have "\<dots> = ?x * (1 + 3 * half_ulp) * (?b * (1 - half_ulp))" using ab by simp
  also have "\<dots> \<le> ?x * (1 + 3 * half_ulp) * f64 ?b"
    using B(1) x u by (intro mult_left_mono mult_nonneg_nonneg) simp_all
  finally have up: "q \<le> ?x * (1 + 3 * half_ulp)" using B0 by (simp add: q_def divide_le_eq)
  have w: "f64 ?w = ?w" by (rule f64_of_int) (use assms(4,5) in simp_all)
  note Q = near_step [OF x(1) low up _ _ _ q0, simplified]
  define y where "y = f64 q * ?w"
  define z where "z = ?x * ?w"
  have y: "z * (1 - 3 * half_ulp) \<le> y" "y \<le> z * (1 + 5 * half_ulp)" "0 \<le> y"
    using mult_right_mono [OF Q(1) ab(3)] mult_right_mono [OF Q(2) ab(3)] ab(3)
    by (simp_all add: y_def z_def algebra_simps)
  have z0: "0 \<le> z" unfolding z_def using x ab(3) by (intro mult_nonneg_nonneg)
  have "?w \<le> of_int (2 ^ 20)" using assms(5) by (simp only: of_int_le_iff)
  then have z1: "z \<le> 2 ^ 20" unfolding z_def using mult_mono [OF x(2) _ _ ab(3), of "2 ^ 20"] by simp
  note R = near_step [OF z0 y(1,2) _ _ _ y(3), simplified]
  have "z * (7 * half_ulp) \<le> 2 ^ 20 * (7 * half_ulp)"
    using z1 u by (intro mult_right_mono) simp_all
  then have small: "z * (7 * half_ulp) < 1 / 2" by (simp add: half_ulp_def)
  have "z * (4 * half_ulp) \<le> z * (7 * half_ulp)" using z0 u by (intro mult_left_mono) simp_all
  moreover note R [unfolded right_diff_distrib distrib_left mult_1_right]
  ultimately have "z - 1 / 2 < f64 y" "f64 y < z + 1 / 2" using small by linarith+
  moreover have "of_int (scaled a b w) \<le> f64 y" "f64 y < of_int (scaled a b w) + 1"
    unfolding scaled_def w q_def [symmetric] y_def [symmetric] by linarith+
  moreover have "z = of_int a * of_int w / of_int b" by (simp add: z_def)
  ultimately show ?thesis by linarith
qed

end
