(* ===== verification/Report.thy ===== *)
theory Report
  imports Checker Schedule_Correct Go_Float "HOL-Library.AList"
begin

text \<open>
  What the HTML report draws (\<open>internal/report/report.go\<close>): which operations, where their bars and
  the bands of the network cuts lie, and what their labels say. The page itself is \<open>Report_Page\<close>. The
  checker's model leaves out how long a check took, so a verdict's \<open>Elapsed\<close> is a field of the input;
  the reason of a verdict is kept in the form the checker's model gives it.

  Instants are \<open>int64\<close> and the differences wrap around. The fractions of the plot are computed in
  \<open>float64\<close>, as \<open>Go_Float\<close> rounds them.
\<close>

section \<open>Data\<close>

record Input =
  in_Title :: string
  in_Verdict :: Result
  in_Elapsed :: duration
  in_History :: History
  in_Faults :: "Event list"
  in_ProcessNode :: "int \<Rightarrow> string option"
  in_MaxOps :: int
  in_Summary :: string

definition defaultMaxOps :: int where
  "defaultMaxOps = 250"

record row =
  rw_Y :: int
  rw_X :: int
  rw_W :: int
  rw_Label :: string
  rw_Detail :: string
  rw_Class :: string
  rw_Culprit :: bool
  rw_Pending :: bool
  rw_TextX :: int
  rw_TextAnchor :: string
  rw_LaneLabel :: string
  rw_ResultLabel :: string

record faultBand =
  fb_X :: int
  fb_W :: int
  fb_Label :: string
  fb_Class :: string

record tick =
  tk_X :: int
  tk_Label :: string

record pageData =
  pd_Title :: string
  pd_Verdict :: string
  pd_Class :: string
  pd_Reason :: result_reason
  pd_Summary :: string
  pd_Stats :: "(string \<times> string) list"
  pd_Rows :: "row list"
  pd_Bands :: "faultBand list"
  pd_Ticks :: "tick list"
  pd_Width :: int
  pd_Height :: int
  pd_PlotLeft :: int
  pd_Drawn :: nat
  pd_Total :: nat
  pd_Rewritten :: nat
  pd_Truncated :: bool
  pd_Note :: string
  pd_Key :: string
  pd_Legend :: "(string \<times> string) list"

definition plotLeft :: int where "plotLeft = 148"
definition plotRight :: int where "plotRight = 32"
definition pageWidth :: int where "pageWidth = 1180"
definition rowHeight :: int where "rowHeight = 19"
definition topPad :: int where "topPad = 34"

lemmas page_defs = plotLeft_def plotRight_def pageWidth_def

section \<open>The time axis\<close>

fun span_loop :: "int64 \<Rightarrow> int64 \<Rightarrow> History \<Rightarrow> int64 \<times> int64" where
  "span_loop lo hi [] = (lo, hi)"
| "span_loop lo hi (op # ops) =
     (let lo = (if Invoke op < lo then Invoke op else lo);
          hi = (if Complete op \<noteq> Pending \<and> Complete op > hi then Complete op else hi);
          hi = (if Invoke op > hi then Invoke op else hi)
      in span_loop lo hi ops)"

definition span :: "History \<Rightarrow> int64 \<times> int64" where
  "span ops = (case ops of [] \<Rightarrow> (0, 1) | op # _ \<Rightarrow> span_loop (Invoke op) 0 ops)"

definition plotW :: int where
  "plotW = pageWidth - plotLeft - plotRight"

definition scale :: "int64 \<Rightarrow> int64 \<Rightarrow> int64 \<Rightarrow> int" where
  "scale lo hi t =
     (if t = Pending then plotLeft + plotW
      else if t \<le> lo then plotLeft
      else if t \<ge> hi then plotLeft + plotW
      else plotLeft + scaled (wrap64 (t - lo)) (wrap64 (hi - lo)) plotW)"

text \<open>The division of \<open>int64\<close> values truncates towards zero.\<close>

definition quotient :: "int \<Rightarrow> int \<Rightarrow> int" where
  "quotient a b = (if a < 0 then - ((- a) div b) else a div b)"

definition tick_at :: "int64 \<Rightarrow> int64 \<Rightarrow> nat \<Rightarrow> int64" where
  "tick_at lo hi i = wrap64 (lo + quotient (wrap64 (wrap64 (hi - lo) * int i)) 8)"

definition ticks :: "int64 \<Rightarrow> int64 \<Rightarrow> tick list" where
  "ticks lo hi =
     map (\<lambda>i. let t = tick_at lo hi i in
       \<lparr>tk_X = scale lo hi t, tk_Label = Duration_String (Duration_Round (ms 1) t)\<rparr>) [0..<9]"

section \<open>Bands\<close>

definition everyLink :: string where
  "everyLink = ''*''"

definition band :: "duration \<Rightarrow> duration \<Rightarrow> int64 \<Rightarrow> int64 \<Rightarrow> faultBand option" where
  "band a b lo hi =
     (if b \<le> lo \<or> a \<ge> hi then None
      else
        let x0 = scale lo hi a; x1 = scale lo hi b; x1 = (if x1 - x0 < 2 then x0 + 2 else x1)
        in Some \<lparr>fb_X = x0, fb_W = x1 - x0,
             fb_Label = ''cut '' @ Duration_String (Duration_Round (ms 1) a), fb_Class = ''band''\<rparr>)"

text \<open>The variables \<open>bands\<close> keeps; \<open>down\<close> is the map from a link to whether it is cut.\<close>

record band_state =
  bn_down :: "(string \<times> bool) list"
  bn_open :: bool
  bn_openAt :: duration
  bn_out :: "faultBand list"

definition countDown :: "(string \<times> bool) list \<Rightarrow> nat" where
  "countDown down = length (filter snd down)"

definition closeBand :: "int64 \<Rightarrow> int64 \<Rightarrow> duration \<Rightarrow> band_state \<Rightarrow> band_state" where
  "closeBand lo hi b S =
     (case band (bn_openAt S) b lo hi of
        Some x \<Rightarrow> S\<lparr>bn_out := bn_out S @ [x], bn_open := False\<rparr>
      | None \<Rightarrow> S\<lparr>bn_open := False\<rparr>)"

definition event_down :: "Event \<Rightarrow> (string \<times> bool) list \<Rightarrow> (string \<times> bool) list" where
  "event_down e down =
     (let down = (if ev_Link e = everyLink then [] else down)
      in AList.update (ev_Link e) (ev_Fault e \<noteq> Pass) down)"

definition band_event :: "int64 \<Rightarrow> int64 \<Rightarrow> Event \<Rightarrow> band_state \<Rightarrow> band_state" where
  "band_event lo hi e S =
     (let S = S\<lparr>bn_down := event_down e (bn_down S)\<rparr>
      in if \<not> bn_open S \<and> countDown (bn_down S) > 0 then S\<lparr>bn_open := True, bn_openAt := ev_At e\<rparr>
         else if bn_open S \<and> countDown (bn_down S) = 0 then closeBand lo hi (ev_At e) S
         else S)"

definition bands :: "Event list \<Rightarrow> int64 \<Rightarrow> int64 \<Rightarrow> faultBand list" where
  "bands events lo hi =
     (if events = [] then []
      else
        let S = fold (band_event lo hi) (stable_sort (\<lambda>a b. ev_At a < ev_At b) events)
              \<lparr>bn_down = [], bn_open = False, bn_openAt = 0, bn_out = []\<rparr>;
            S = (if bn_open S then closeBand lo hi hi S else S)
        in bn_out S)"

section \<open>Labels\<close>

fun outcomeClass :: "Outcome \<Rightarrow> string" where
  "outcomeClass OK = ''ok''"
| "outcomeClass Fail = ''fail''"
| "outcomeClass _ = ''info''"

fun verdictClass :: "Verdict \<Rightarrow> string" where
  "verdictClass Linearizable = ''good''"
| "verdictClass NotLinearizable = ''bad''"
| "verdictClass _ = ''unsure''"

text \<open>The arrow of a compare-and-swap is three bytes of UTF-8.\<close>

definition right_arrow :: string where
  "right_arrow = [char_of (226 :: nat), char_of (134 :: nat), char_of (146 :: nat)]"

definition describe :: "Op \<Rightarrow> string" where
  "describe op =
     (case OpKind op of
        Read \<Rightarrow> ''read '' @ Key op
      | Write \<Rightarrow> ''write '' @ Key op @ '' = '' @ show_int (Value op)
      | CAS \<Rightarrow> ''cas '' @ Key op @ '': '' @ show_int (From op) @ '' '' @ right_arrow @ '' '' @ show_int (To op)
      | k \<Rightarrow> Kind_String k)"

definition result_label :: "Op \<Rightarrow> string" where
  "result_label op =
     (if Outcome op = Info then ''no answer''
      else if Outcome op = Fail then ''refused''
      else if OpKind op = Read then ''= '' @ show_int (Observed op)
      else if OpKind op = CAS \<and> Swapped op then ''swapped''
      else if OpKind op = CAS then ''not swapped''
      else ''ok'')"

definition lane :: "Op \<Rightarrow> (int \<Rightarrow> string option) \<Rightarrow> string" where
  "lane op who =
     (case who (Process op) of
        Some n \<Rightarrow> ''p'' @ show_int (Process op) @ '' @ '' @ n
      | None \<Rightarrow> ''p'' @ show_int (Process op))"

definition detail :: "Op \<Rightarrow> (int \<Rightarrow> string option) \<Rightarrow> string" where
  "detail op who =
     (let end_label = (if Outcome op = Info then ''never'' else Duration_String (Duration_Round 1000 (Complete op)));
          s = lane op who @ ''  '' @ describe op @ ''  invoked '' @
            Duration_String (Duration_Round 1000 (Invoke op)) @ '', answered '' @ end_label @ '', '' @ result_label op
      in if Err op \<noteq> [] then s @ ''  ('' @ Err op @ '')'' else s)"

definition orDefault :: "string \<Rightarrow> string \<Rightarrow> string" where
  "orDefault s def = (if TrimSpace s = [] then def else s)"

section \<open>The page\<close>

type_synonym opKey = "int \<times> int64 \<times> string"

definition keyOf :: "Op \<Rightarrow> opKey" where
  "keyOf op = (Process op, Invoke op, Key op)"

text \<open>The operations to show and the note on them: the counterexample, the failing key, or everything.\<close>

definition minimal_note :: string where
  "minimal_note = ''the minimal failing truncation: every operation up to the moment the violation became unavoidable, '' @
     ''with anything still in flight at that moment drawn as unanswered, because that is all the client knew then''"

definition shown_ops :: "Input \<Rightarrow> History \<times> string" where
  "shown_ops inp =
     (let ops = r_Ops (in_Verdict inp); key = r_Key (in_Verdict inp);
          (shown, note) =
            (if ops \<noteq> [] then (ops, minimal_note)
             else if key \<noteq> [] then (ByKey (in_History inp) key, ''every operation on the key the checker reported'')
             else (in_History inp, ''the whole recorded history''))
      in if shown = [] then (in_History inp, ''the whole recorded history'') else (shown, note))"

definition max_ops :: "Input \<Rightarrow> int" where
  "max_ops inp = (if in_MaxOps inp \<le> 0 then defaultMaxOps else in_MaxOps inp)"

text \<open>The operations drawn: those shown, sorted, and of these the last \<open>max_ops\<close>.\<close>

definition drawn_ops :: "Input \<Rightarrow> History" where
  "drawn_ops inp =
     (let shown = SortByInvoke (fst (shown_ops inp))
      in if int (length shown) > max_ops inp then drop (length shown - nat (max_ops inp)) shown else shown)"

definition window :: "History \<Rightarrow> int64 \<times> int64" where
  "window shown = (case span shown of (lo, hi) \<Rightarrow> (lo, if hi \<le> lo then wrap64 (lo + 1) else hi))"

definition build_row :: "Input \<Rightarrow> int64 \<Rightarrow> int64 \<Rightarrow> nat \<Rightarrow> Op \<Rightarrow> row" where
  "build_row inp lo hi i op =
     (let x0 = scale lo hi (Invoke op); x1 = scale lo hi (Complete op);
          x1 = (if x1 - x0 < 3 then x0 + 3 else x1);
          culprit = (case r_Culprit (in_Verdict inp) of None \<Rightarrow> False | Some c \<Rightarrow> keyOf op = keyOf c);
          fits = x1 + 180 < pageWidth - plotRight
      in \<lparr>rw_Y = topPad + int i * rowHeight, rw_X = x0, rw_W = x1 - x0, rw_Label = describe op,
           rw_Detail = detail op (in_ProcessNode inp),
           rw_Class = outcomeClass (Outcome op) @ (if culprit then '' culprit'' else []),
           rw_Culprit = culprit, rw_Pending = (Outcome op = Info),
           rw_TextX = (if fits then x1 + 6 else x0 - 6),
           rw_TextAnchor = (if fits then ''start'' else ''end''),
           rw_LaneLabel = lane op (in_ProcessNode inp), rw_ResultLabel = result_label op\<rparr>)"

definition build_rows :: "Input \<Rightarrow> int64 \<Rightarrow> int64 \<Rightarrow> History \<Rightarrow> row list" where
  "build_rows inp lo hi shown = map (\<lambda>(i, op). build_row inp lo hi i op) (zip [0..<length shown] shown)"

definition legend :: "(string \<times> string) list" where
  "legend = [(''ok'', ''completed''), (''info'', ''indeterminate: no answer came back''),
     (''fail'', ''definitely did not happen''), (''culprit'', ''the operation the search could not place''),
     (''band'', ''network cut'')]"

definition build :: "Input \<Rightarrow> pageData" where
  "build inp =
     (let (all_shown, note) = shown_ops inp; total = length all_shown; shown = drawn_ops inp;
          truncated = (r_Ops (in_Verdict inp) \<noteq> []); h = in_History inp; (lo, hi) = window shown;
          (ok, failed, info) = Counts h
      in \<lparr>pd_Title = orDefault (in_Title inp) ''Splitbrain report'',
           pd_Verdict = ToUpper (Verdict_String (r_Verdict (in_Verdict inp))),
           pd_Class = verdictClass (r_Verdict (in_Verdict inp)), pd_Reason = r_Reason (in_Verdict inp),
           pd_Summary = in_Summary inp,
           pd_Stats = [(''operations recorded'', show_nat (length h)), (''operations drawn'', show_nat (length shown)),
             (''completed'', show_nat ok), (''indeterminate'', show_nat info), (''definitely failed'', show_nat failed),
             (''keys'', show_nat (length (Keys h))), (''model states explored'', show_int (r_Visits (in_Verdict inp))),
             (''checking time'', Duration_String (Duration_Round (ms 1) (in_Elapsed inp))),
             (''fault events'', show_nat (length (in_Faults inp)))],
           pd_Rows = build_rows inp lo hi shown, pd_Bands = bands (in_Faults inp) lo hi, pd_Ticks = ticks lo hi,
           pd_Width = pageWidth, pd_Height = topPad + int (length shown) * rowHeight + 28, pd_PlotLeft = plotLeft,
           pd_Drawn = length shown, pd_Total = total,
           pd_Rewritten = (if truncated then length (filter (\<lambda>op. Outcome op = Info) shown) else 0),
           pd_Truncated = truncated,
           pd_Note = (if int total > max_ops inp
             then note @ ''; showing the last '' @ show_int (max_ops inp) @ '' of '' @ show_nat total @ '' for legibility''
             else note),
           pd_Key = r_Key (in_Verdict inp), pd_Legend = legend\<rparr>)"

end
