(* ===== verification/Report_Correct.thy ===== *)
theory Report_Correct
  imports Report
begin

text \<open>
  What a reader may conclude from a report. The bands cover exactly the moments at which a link was
  not passing, so long as only heals address every link at once; every bar and band lies on the
  plot; and the drawing keeps the order of the instants.
\<close>

section \<open>The moments of the cuts\<close>

text \<open>The intervals \<open>bands\<close> closes, before they are drawn; \<open>op\<close> is the one that is open.\<close>

fun cut_intervals ::
  "(string \<times> bool) list \<Rightarrow> duration option \<Rightarrow> Event list \<Rightarrow> int64 \<Rightarrow> (duration \<times> duration) list" where
  "cut_intervals down opened [] hi = (case opened of None \<Rightarrow> [] | Some a \<Rightarrow> [(a, hi)])"
| "cut_intervals down opened (e # es) hi =
     (let down = event_down e down
      in case opened of
           None \<Rightarrow>
             if countDown down > 0 then cut_intervals down (Some (ev_At e)) es hi
             else cut_intervals down None es hi
         | Some a \<Rightarrow>
             if countDown down = 0 then (a, ev_At e) # cut_intervals down None es hi
             else cut_intervals down (Some a) es hi)"

definition cuts_of :: "Event list \<Rightarrow> int64 \<Rightarrow> (duration \<times> duration) list" where
  "cuts_of events hi = cut_intervals [] None (stable_sort (\<lambda>a b. ev_At a < ev_At b) events) hi"

definition opened_of :: "band_state \<Rightarrow> duration option" where
  "opened_of S = (if bn_open S then Some (bn_openAt S) else None)"

definition drawn_of :: "int64 \<Rightarrow> int64 \<Rightarrow> (duration \<times> duration) list \<Rightarrow> faultBand list" where
  "drawn_of lo hi = List.map_filter (\<lambda>(a, b). band a b lo hi)"

lemma drawn_of_simps [simp]:
  "drawn_of lo hi [] = []"
  "drawn_of lo hi ((a, b) # xs) = (case band a b lo hi of Some x \<Rightarrow> x # drawn_of lo hi xs | None \<Rightarrow> drawn_of lo hi xs)"
  by (simp_all add: drawn_of_def List.map_filter_simps split: option.split)

lemma closeBand_sel:
  "bn_out (closeBand lo hi b S) = bn_out S @ drawn_of lo hi [(bn_openAt S, b)]"
  "bn_down (closeBand lo hi b S) = bn_down S" "bn_open (closeBand lo hi b S) = False"
  by (simp_all add: closeBand_def split: option.split)

lemma band_event_intervals:
  "drawn_of lo hi (cut_intervals (bn_down S) (opened_of S) (e # es) hi) =
     drop (length (bn_out S)) (bn_out (band_event lo hi e S)) @
     drawn_of lo hi (cut_intervals (bn_down (band_event lo hi e S)) (opened_of (band_event lo hi e S)) es hi) \<and>
   take (length (bn_out S)) (bn_out (band_event lo hi e S)) = bn_out S"
  by (simp add: band_event_def opened_of_def Let_def closeBand_sel split: option.split)

lemma bands_intervals:
  "bn_out (let S = fold (band_event lo hi) es S in if bn_open S then closeBand lo hi hi S else S) =
     bn_out S @ drawn_of lo hi (cut_intervals (bn_down S) (opened_of S) es hi)"
proof (induction es arbitrary: S)
  case Nil
  then show ?case by (simp add: Let_def opened_of_def closeBand_sel)
next
  case (Cons e es)
  let ?S = "band_event lo hi e S"
  have "bn_out ?S = bn_out S @ drop (length (bn_out S)) (bn_out ?S)"
    using band_event_intervals [of lo hi S e es] by (metis append_take_drop_id)
  with Cons [of ?S] band_event_intervals [of lo hi S e es] show ?case by simp
qed

lemma bands_drawn: "bands events lo hi = drawn_of lo hi (cuts_of events hi)"
  using bands_intervals [of lo hi "stable_sort (\<lambda>a b. ev_At a < ev_At b) events"
      "\<lparr>bn_down = [], bn_open = False, bn_openAt = 0, bn_out = []\<rparr>"]
  by (simp add: bands_def cuts_of_def opened_of_def stable_sort_def Let_def)

section \<open>The map of what is down\<close>

text \<open>The map tells of every link whether the weather on it is bad.\<close>

definition tracks :: "(string \<times> bool) list \<Rightarrow> (string \<Rightarrow> Fault) \<Rightarrow> bool" where
  "tracks down w \<longleftrightarrow> distinct (map fst down) \<and> (\<forall>l. map_of down l = Some True \<longleftrightarrow> w l \<noteq> Pass)"

abbreviation heals_only :: "Event list \<Rightarrow> bool" where
  "heals_only es \<equiv> (\<forall>e \<in> set es. heals_all e)"

lemma tracks_count: "tracks down w \<Longrightarrow> 0 < countDown down \<longleftrightarrow> (\<exists>l. w l \<noteq> Pass)"
proof -
  assume tr: "tracks down w"
  have "0 < countDown down \<longleftrightarrow> (\<exists>l. (l, True) \<in> set down)"
    by (force simp: countDown_def filter_empty_conv)
  also have "\<dots> \<longleftrightarrow> (\<exists>l. map_of down l = Some True)"
    using tr map_of_eq_Some_iff [of down] unfolding tracks_def by blast
  also have "\<dots> \<longleftrightarrow> (\<exists>l. w l \<noteq> Pass)"
    using tr unfolding tracks_def by blast
  finally show ?thesis .
qed

lemma tracks_event:
  assumes "tracks down w" and "heals_all e"
  shows "tracks (event_down e down) (apply_event e w)"
  using assms
  by (auto simp: heals_all_def tracks_def event_down_def apply_event_def everyLink_def allLinks_def update_conv'
      distinct_update)

section \<open>The bands are the cuts\<close>

lemma cut_intervals_from:
  assumes "(a, b) \<in> set (cut_intervals down opened es hi)"
  shows "opened = Some a \<or> (\<exists>e \<in> set es. a = ev_At e)"
  using assms
  by (induction down opened es hi rule: cut_intervals.induct)
    (auto simp: Let_def split: option.splits if_splits)

lemma cut_intervals_covers:
  assumes "tracks down w" and "heals_only es" and "sorted (map ev_At es)"
    and "opened = None \<longleftrightarrow> (\<forall>l. w l = Pass)"
    and "\<And>a. opened = Some a \<Longrightarrow> a \<le> t" and "t < hi"
  shows "(\<exists>(a, b) \<in> set (cut_intervals down opened es hi). a \<le> t \<and> t < b) \<longleftrightarrow>
    (\<exists>l. weather (filter (\<lambda>e. ev_At e \<le> t) es) w l \<noteq> Pass)"
  using assms
proof (induction es arbitrary: down w opened)
  case Nil
  then show ?case by (auto split: option.split)
next
  case (Cons e es)
  let ?down = "event_down e down" and ?w = "apply_event e w"
  have tr: "tracks ?down ?w" using Cons.prems(1,2) by (intro tracks_event) simp_all
  note count = tracks_count [OF tr]
  have h: "heals_only es" "sorted (map ev_At es)" using Cons.prems(2,3) by simp_all
  note IH = Cons.IH [OF tr h, of _, OF _ _ Cons.prems(6)]
  show ?case
  proof (cases "ev_At e \<le> t")
    case True
    define R where "R \<longleftrightarrow> (\<exists>l. weather (filter (\<lambda>e. ev_At e \<le> t) es) ?w l \<noteq> Pass)"
    have f: "(\<exists>l. weather (filter (\<lambda>e. ev_At e \<le> t) (e # es)) w l \<noteq> Pass) \<longleftrightarrow> R"
      using True by (simp add: R_def)
    note IH = IH [folded R_def]
    show ?thesis
    proof (cases opened)
      case None
      then show ?thesis
        using IH [of None] IH [of "Some (ev_At e)"] True count unfolding f by (simp add: Let_def)
    next
      case (Some a)
      then show ?thesis
        using IH [of None] IH [of "Some a"] Cons.prems(5) True count unfolding f by (auto simp: Let_def)
    qed
  next
    case False
    then have late: "\<And>d. d \<in> set (e # es) \<Longrightarrow> \<not> ev_At d \<le> t" using Cons.prems(3) by auto
    then have f: "filter (\<lambda>e. ev_At e \<le> t) (e # es) = []" "filter (\<lambda>e. ev_At e \<le> t) es = []"
      by (simp_all add: filter_empty_conv)
    show ?thesis
    proof (cases opened)
      case None
      have "(a, b) \<in> set (cut_intervals down opened (e # es) hi) \<Longrightarrow> \<not> a \<le> t" for a b
        using cut_intervals_from [of a b down opened "e # es" hi] None late by auto
      with None Cons.prems(4) show ?thesis unfolding f by auto
    next
      case (Some a)
      with Cons.prems(4) have "\<exists>l. w l \<noteq> Pass" by auto
      moreover have "\<exists>(a, b) \<in> set (cut_intervals down opened (e # es) hi). a \<le> t \<and> t < b"
        using Some IH [of "Some a"] Cons.prems(5) False count unfolding f by (auto simp: Let_def)
      ultimately show ?thesis unfolding f by simp
    qed
  qed
qed

theorem cuts_cover:
  assumes "heals_only events" and "t < hi"
  shows "(\<exists>(a, b) \<in> set (cuts_of events hi). a \<le> t \<and> t < b) \<longleftrightarrow>
    (\<exists>l. weather (filter (\<lambda>e. ev_At e \<le> t) (stable_sort (\<lambda>a b. ev_At a < ev_At b) events)) calm l \<noteq> Pass)"
  unfolding cuts_of_def
proof (rule cut_intervals_covers)
  show "tracks [] calm" by (simp add: tracks_def)
  show "heals_only (stable_sort (\<lambda>a b. ev_At a < ev_At b) events)" using assms(1) by simp
  show "sorted (map ev_At (stable_sort (\<lambda>a b. ev_At a < ev_At b) events))" by (rule event_time.sorted_sort_by)
qed (use assms(2) in auto)

text \<open>An interval is drawn exactly where part of it lies strictly inside the window.\<close>

lemma drawn_of_iff:
  "x \<in> set (drawn_of lo hi cs) \<longleftrightarrow> (\<exists>(a, b) \<in> set cs. band a b lo hi = Some x)"
  by (force simp: drawn_of_def List.map_filter_def)

lemma band_drawn: "band a b lo hi \<noteq> None \<longleftrightarrow> lo < b \<and> a < hi"
  by (simp add: band_def Let_def not_le)

section \<open>The geometry\<close>

lemma plotW_range: "0 \<le> plotW" "plotW < 2 ^ 53"
  by (simp_all add: plotW_def page_defs)

lemma wrap64_diff: "0 \<le> lo \<Longrightarrow> lo \<le> t \<Longrightarrow> t \<le> max_int64 \<Longrightarrow> wrap64 (t - lo) = t - lo"
  by (intro wrap64_id) (auto simp: min_int64_def)

lemma scale_range:
  assumes "0 \<le> lo" and "hi \<le> max_int64"
  shows "plotLeft \<le> scale lo hi t" and "scale lo hi t \<le> plotLeft + plotW"
proof -
  have "lo < t \<Longrightarrow> t < hi \<Longrightarrow> scaled (wrap64 (t - lo)) (wrap64 (hi - lo)) plotW \<le> plotW"
    using assms plotW_range by (intro scaled_le) (simp_all add: wrap64_diff)
  then show "scale lo hi t \<le> plotLeft + plotW" using plotW_range by (simp add: scale_def)
  show "plotLeft \<le> scale lo hi t"
    using plotW_range scaled_nonneg [of "wrap64 (t - lo)" "wrap64 (hi - lo)" plotW] by (simp add: scale_def)
qed

lemma scale_mono:
  assumes "0 \<le> lo" and "hi \<le> max_int64" and "t \<le> u" and "u \<le> Pending"
  shows "scale lo hi t \<le> scale lo hi u"
proof (cases "lo < t \<and> u < hi")
  case True
  with assms have "scaled (wrap64 (t - lo)) (wrap64 (hi - lo)) plotW \<le> scaled (wrap64 (u - lo)) (wrap64 (hi - lo)) plotW"
    by (intro scaled_mono) (simp add: wrap64_diff)
  with True assms show ?thesis by (simp add: scale_def Pending_def)
next
  case False
  then consider "t \<le> lo \<and> t \<noteq> Pending" | "u = Pending" | "hi \<le> u \<and> u \<noteq> Pending \<and> lo < u" | "t = Pending" | "u \<le> lo"
    by linarith
  then show ?thesis
    using assms scale_range [OF assms(1,2), of t] scale_range [OF assms(1,2), of u]
    by cases (auto simp: scale_def)
qed

text \<open>Inside the window the axis is linear: an instant is drawn where it lies, to within two pixels.\<close>

lemma scale_near:
  assumes "0 \<le> lo" and "hi \<le> max_int64" and "lo < hi" and "lo \<le> t" and "t \<le> hi"
  shows "\<bar>rat_of_int (scale lo hi t - plotLeft) - of_int (t - lo) * of_int plotW / of_int (hi - lo)\<bar> < 2"
proof -
  have w: "0 \<le> plotW" "plotW \<le> 2 ^ 20" by (simp_all add: plotW_def page_defs)
  consider "t = hi" | "t = lo" "t \<noteq> hi" | "lo < t" "t < hi" using assms by linarith
  then show ?thesis
  proof cases
    case 1
    with assms(3) show ?thesis by (simp add: scale_def)
  next
    case 2
    with assms(2,5) show ?thesis by (simp add: scale_def Pending_def)
  next
    case 3
    then have "scale lo hi t - plotLeft = scaled (t - lo) (hi - lo) plotW"
      using assms by (simp add: scale_def wrap64_diff Pending_def)
    with scaled_near [of "t - lo" "hi - lo" plotW] 3 w show ?thesis by simp
  qed
qed

section \<open>Where the bands are drawn\<close>

text \<open>Some link is not passing at an instant of the run.\<close>

definition cut_at :: "Event list \<Rightarrow> duration \<Rightarrow> bool" where
  "cut_at faults t \<longleftrightarrow>
     (\<exists>l. weather (filter (\<lambda>e. ev_At e \<le> t) (stable_sort (\<lambda>a b. ev_At a < ev_At b) faults)) calm l \<noteq> Pass)"

lemma cut_intervals_to:
  assumes "(a, b) \<in> set (cut_intervals down opened es hi)"
  shows "b = hi \<or> (\<exists>e \<in> set es. b = ev_At e)"
  using assms
  by (induction down opened es hi rule: cut_intervals.induct)
    (auto simp: Let_def split: option.splits if_splits)

lemma cuts_of_to: "(a, b) \<in> set (cuts_of faults hi) \<Longrightarrow> b = hi \<or> (\<exists>e \<in> set faults. b = ev_At e)"
  using cut_intervals_to by (fastforce simp: cuts_of_def)

lemma band_sel:
  assumes "band a b lo hi = Some x"
  shows "fb_X x = scale lo hi a" and "fb_X x + fb_W x = max (scale lo hi b) (scale lo hi a + 2)"
  using assms by (auto simp: band_def Let_def split: if_splits)

text \<open>A cut of the window is under a band, at its place on the axis.\<close>

lemma cut_is_banded:
  assumes heals: "heals_only faults" and range: "0 \<le> lo" "hi \<le> max_int64" "\<forall>e \<in> set faults. ev_At e \<le> max_int64"
    and t: "lo \<le> t" "t < hi" and cut: "cut_at faults t"
  shows "\<exists>x \<in> set (bands faults lo hi). fb_X x \<le> scale lo hi t \<and> scale lo hi t \<le> fb_X x + fb_W x"
proof -
  from cuts_cover [OF heals t(2)] cut obtain a b
    where ab: "(a, b) \<in> set (cuts_of faults hi)" "a \<le> t" "t < b" unfolding cut_at_def by blast
  with t have "lo < b \<and> a < hi" by linarith
  then obtain x where x: "band a b lo hi = Some x" using band_drawn [of a b lo hi] by blast
  have "b \<le> Pending" using cuts_of_to [OF ab(1)] range by (auto simp: Pending_def)
  then have "scale lo hi a \<le> scale lo hi t" "scale lo hi t \<le> scale lo hi b"
    using ab(2,3) by (intro scale_mono [OF range(1,2)]; simp)+
  with band_sel [OF x] have "fb_X x \<le> scale lo hi t" "scale lo hi t \<le> fb_X x + fb_W x" by simp_all
  moreover have "x \<in> set (bands faults lo hi)"
    unfolding bands_drawn drawn_of_iff using ab(1) x by blast
  ultimately show ?thesis by blast
qed

text \<open>And a band runs from where a cut begins to where it ends, two pixels at least.\<close>

lemma band_is_cut:
  assumes heals: "heals_only faults" and x: "x \<in> set (bands faults lo hi)"
  shows "\<exists>a b. a < hi \<and> lo < b \<and> (\<forall>t. a \<le> t \<and> t < b \<and> t < hi \<longrightarrow> cut_at faults t) \<and>
    fb_X x = scale lo hi a \<and> fb_X x + fb_W x = max (scale lo hi b) (scale lo hi a + 2)"
proof -
  from x obtain a b where ab: "(a, b) \<in> set (cuts_of faults hi)" "band a b lo hi = Some x"
    unfolding bands_drawn drawn_of_iff by blast
  from ab(2) have "lo < b \<and> a < hi" using band_drawn [of a b lo hi] by simp
  moreover have "cut_at faults t" if "a \<le> t" "t < b" "t < hi" for t
    using cuts_cover [OF heals that(3)] ab(1) that(1,2) unfolding cut_at_def by blast
  ultimately show ?thesis using band_sel [OF ab(2)] by (intro exI [of _ a] exI [of _ b]) simp
qed

section \<open>The rows\<close>

definition on_axis :: "History \<Rightarrow> bool" where
  "on_axis ops \<longleftrightarrow> (\<forall>op \<in> set ops. 0 \<le> Invoke op \<and> Invoke op \<le> max_int64 \<and> Complete op \<le> Pending)"

lemma on_axis_valid: "valid_history h \<Longrightarrow> \<forall>op \<in> set h. int64_op op \<Longrightarrow> on_axis h"
  by (auto simp: on_axis_def valid_history_def wf_op_def int64_op_def Pending_def)

lemma span_loop_range:
  assumes "span_loop lo hi ops = (lo', hi')" and "on_axis ops" and "0 \<le> lo" and "hi \<le> max_int64"
  shows "0 \<le> lo' \<and> lo' \<le> lo \<and> hi \<le> hi' \<and> hi' \<le> max_int64 \<and>
    (\<forall>op \<in> set ops. lo' \<le> Invoke op \<and> Invoke op \<le> hi' \<and> (Complete op \<noteq> Pending \<longrightarrow> Complete op \<le> hi'))"
  using assms
proof (induction lo hi ops rule: span_loop.induct)
  case (2 lo hi op ops)
  let ?lo = "if Invoke op < lo then Invoke op else lo"
  let ?h = "if Complete op \<noteq> Pending \<and> Complete op > hi then Complete op else hi"
  let ?hi = "if Invoke op > ?h then Invoke op else ?h"
  have ax: "on_axis ops" "0 \<le> Invoke op" "Invoke op \<le> max_int64" "Complete op \<le> Pending"
    using 2(3) by (auto simp: on_axis_def)
  have l: "0 \<le> ?lo" using ax 2(4) by simp
  have h: "?hi \<le> max_int64" using ax 2(5) by (simp add: Pending_def)
  have "span_loop ?lo ?hi ops = (lo', hi')" using 2(2) by (simp add: Let_def)
  from "2.IH" [OF refl refl refl this ax(1) l h]
  show ?case by (auto split: if_splits)
qed simp

lemma window_range:
  assumes "window ops = (lo, hi)" and "on_axis ops"
  shows "0 \<le> lo" and "hi \<le> max_int64"
proof -
  have "0 \<le> lo \<and> hi \<le> max_int64"
  proof (cases ops)
    case Nil
    with assms(1) show ?thesis by (auto simp: window_def span_def max_int64_def)
  next
    case (Cons op ops')
    obtain l h where s: "span ops = (l, h)" by (meson surj_pair)
    then have "span_loop (Invoke op) 0 ops = (l, h)" by (simp add: span_def Cons)
    moreover have "0 \<le> Invoke op" using assms(2) by (simp add: on_axis_def Cons)
    ultimately have "0 \<le> l" "h \<le> max_int64"
      using span_loop_range [OF _ assms(2)] by (auto simp: max_int64_def)
    with assms(1) s wrap64_bounds show ?thesis by (auto simp: window_def split: if_splits)
  qed
  then show "0 \<le> lo" "hi \<le> max_int64" by auto
qed

lemma build_row_sel:
  "rw_X (build_row inp lo hi i op) = scale lo hi (Invoke op)"
  "rw_W (build_row inp lo hi i op) = max 3 (scale lo hi (Complete op) - scale lo hi (Invoke op))"
  "rw_Y (build_row inp lo hi i op) = topPad + int i * rowHeight"
  "rw_Pending (build_row inp lo hi i op) \<longleftrightarrow> Outcome op = Info"
  by (simp_all add: build_row_def Let_def max_def)

lemma build_rows_nth:
  "length (build_rows inp lo hi ops) = length ops"
  "i < length ops \<Longrightarrow> build_rows inp lo hi ops ! i = build_row inp lo hi i (ops ! i)"
  by (simp_all add: build_rows_def)

lemma row_on_plot:
  assumes "0 \<le> lo" and "hi \<le> max_int64"
  shows "plotLeft \<le> rw_X (build_row inp lo hi i op)" and "3 \<le> rw_W (build_row inp lo hi i op)"
    and "rw_X (build_row inp lo hi i op) + rw_W (build_row inp lo hi i op) \<le> plotLeft + plotW + 3"
  using scale_range [OF assms, of "Invoke op"] scale_range [OF assms, of "Complete op"]
  by (auto simp: build_row_sel)

text \<open>An operation that was over when another began is drawn to its left, unless it is at its least width.\<close>

lemma rows_in_order:
  assumes "0 \<le> lo" and "hi \<le> max_int64" and "Complete p \<le> Invoke q" and "Invoke q \<le> max_int64"
    and "Invoke p \<le> Complete p"
  shows "rw_X (build_row inp lo hi i p) \<le> rw_X (build_row inp lo hi j q) \<and>
    (rw_X (build_row inp lo hi i p) + rw_W (build_row inp lo hi i p) \<le> rw_X (build_row inp lo hi j q) \<or>
     rw_W (build_row inp lo hi i p) = 3)"
proof -
  have "scale lo hi (Complete p) \<le> scale lo hi (Invoke q)"
    using assms by (intro scale_mono) (simp_all add: Pending_def)
  moreover have "scale lo hi (Invoke p) \<le> scale lo hi (Complete p)"
    using assms by (intro scale_mono) (simp_all add: Pending_def)
  ultimately show ?thesis by (auto simp: build_row_sel)
qed

section \<open>What is drawn\<close>

lemma max_ops_pos: "0 < max_ops inp"
  by (simp add: max_ops_def defaultMaxOps_def)

lemma drawn_ops_suffix:
  "drawn_ops inp =
     drop (length (fst (shown_ops inp)) - nat (max_ops inp)) (SortByInvoke (fst (shown_ops inp)))"
  using max_ops_pos [of inp] by (auto simp: drawn_ops_def Let_def)

lemma drawn_ops_length: "int (length (drawn_ops inp)) = min (int (length (fst (shown_ops inp)))) (max_ops inp)"
  using max_ops_pos [of inp] by (auto simp: drawn_ops_suffix min_def)

lemma set_drawn_ops: "set (drawn_ops inp) \<subseteq> set (fst (shown_ops inp))"
  unfolding drawn_ops_suffix using set_drop_subset by fastforce

lemma drawn_ops_latest:
  assumes "mset (fst (shown_ops inp)) = mset (drawn_ops inp) + M" and "x \<in># M" and "y \<in> set (drawn_ops inp)"
  shows "Invoke x \<le> Invoke y"
proof -
  let ?s = "SortByInvoke (fst (shown_ops inp))"
  let ?n = "length (fst (shown_ops inp)) - nat (max_ops inp)"
  have "mset (take ?n ?s) + mset (drop ?n ?s) = mset (fst (shown_ops inp))"
    by (simp flip: mset_append)
  with assms(1) have "M = mset (take ?n ?s)"
    unfolding drawn_ops_suffix by (simp add: add.commute)
  with assms(2) have x: "x \<in> set (take ?n ?s)" by simp
  have y: "y \<in> set (drop ?n ?s)" using assms(3) by (simp add: drawn_ops_suffix)
  have "sorted (map Invoke (take ?n ?s @ drop ?n ?s))"
    unfolding append_take_drop_id by (rule SortByInvoke_sorted)
  then have "\<forall>a \<in> set (map Invoke (take ?n ?s)). \<forall>b \<in> set (map Invoke (drop ?n ?s)). a \<le> b"
    unfolding map_append sorted_append by (rule conjunct2 [OF conjunct2])
  with x y show ?thesis by (simp only: set_map ball_simps)
qed

lemma build_sel:
  assumes "window (drawn_ops inp) = (lo, hi)"
  shows "pd_Rows (build inp) = build_rows inp lo hi (drawn_ops inp)"
    and "pd_Bands (build inp) = bands (in_Faults inp) lo hi"
    and "pd_Drawn (build inp) = length (drawn_ops inp)"
    and "pd_Total (build inp) = length (fst (shown_ops inp))"
    and "pd_Truncated (build inp) \<longleftrightarrow> r_Ops (in_Verdict inp) \<noteq> []"
    and "pd_Rewritten (build inp) =
      (if r_Ops (in_Verdict inp) \<noteq> [] then length (filter (\<lambda>op. Outcome op = Info) (drawn_ops inp)) else 0)"
  using assms by (simp_all add: build_def Let_def split: prod.splits)

lemma on_axis_drawn:
  assumes "on_axis (in_History inp)" and "on_axis (r_Ops (in_Verdict inp))"
  shows "on_axis (drawn_ops inp)"
proof -
  have "set (fst (shown_ops inp)) \<subseteq> set (in_History inp) \<union> set (r_Ops (in_Verdict inp))"
    by (auto simp: shown_ops_def Let_def ByKey_eq split: if_splits)
  with set_drawn_ops [of inp] assms show ?thesis unfolding on_axis_def by blast
qed

section \<open>Where the bands and the network part\<close>

text \<open>
  A cut of every link that is healed link by link stays drawn to the end of the window: the entry
  for \<open>*\<close> is cleared by another event on \<open>*\<close> only.
\<close>

lemma star_cut_never_closes:
  "cuts_of [event 0 ''*'' Drop 0, event 10 ''c0'' Pass 0, event 20 ''c1'' Pass 0] hi = [(0, hi)] \<and>
   (\<forall>l \<in> {''c0'', ''c1''}. weather [event 0 ''*'' Drop 0, event 10 ''c0'' Pass 0, event 20 ''c1'' Pass 0] calm l = Pass)"
  by (simp add: cuts_of_def stable_sort_def event_def event_down_def countDown_def everyLink_def
      apply_event_def allLinks_def Let_def)

text \<open>A link that only holds its traffic back is drawn as a cut.\<close>

lemma delay_drawn_as_cut: "cuts_of [event 0 ''c0'' Delay 1000000, event 10 ''c0'' Pass 0] hi = [(0, 10)]"
  by (simp add: cuts_of_def stable_sort_def event_def event_down_def countDown_def everyLink_def Let_def)

end
