(* ===== verification/Nemesis.thy ===== *)
theory Nemesis
  imports Schedule_Correct
begin

text \<open>
  The nemesis (\<open>internal/faultnet/nemesis.go\<close>): it walks a schedule's events and puts each one into
  force on the links it holds, and it heals on the way out. Links are held by name; two names never
  share one link. When each event fires is the wall clock's business: a run is given the moments at
  which events really landed, and stops where its context ended. \<open>reclaim\<close> says whether a listener
  that had been given up could be bound again.
\<close>

record Nemesis =
  nm_links :: "string \<Rightarrow> Link option"
  nm_sched :: "Schedule option"
  nm_started :: bool
  nm_applied :: "Event list"

definition NewNemesis :: "(string \<Rightarrow> Link option) \<Rightarrow> Schedule option \<Rightarrow> Nemesis" where
  "NewNemesis links s = \<lparr>nm_links = links, nm_sched = s, nm_started = False, nm_applied = []\<rparr>"

definition applyTo :: "bool \<Rightarrow> Event \<Rightarrow> Link \<Rightarrow> Link" where
  "applyTo reclaim e l = Set reclaim (ev_Fault e) (if ev_Fault e = Delay then SetDelay (ev_Delay e) l else l)"

definition nemesis_apply :: "bool \<Rightarrow> Event \<Rightarrow> duration \<Rightarrow> Nemesis \<Rightarrow> Nemesis" where
  "nemesis_apply reclaim e at n =
     (if ev_Link e = allLinks then
        n\<lparr>nm_links := (\<lambda>name. map_option (applyTo reclaim e) (nm_links n name)),
          nm_applied := nm_applied n @ [e\<lparr>ev_At := at\<rparr>]\<rparr>
      else case nm_links n (ev_Link e) of
        None \<Rightarrow> n
      | Some l \<Rightarrow>
          n\<lparr>nm_links := (nm_links n)(ev_Link e \<mapsto> applyTo reclaim e l),
            nm_applied := nm_applied n @ [e\<lparr>ev_At := at\<rparr>]\<rparr>)"

definition Heal :: "bool \<Rightarrow> duration \<Rightarrow> Nemesis \<Rightarrow> Nemesis" where
  "Heal reclaim since n =
     n\<lparr>nm_links := (\<lambda>name. map_option (Set reclaim Pass) (nm_links n name)),
       nm_applied := nm_applied n @ [event (if nm_started n then since else 0) allLinks Pass 0]\<rparr>"

text \<open>
  The loop over the events. The moments are those at which the events landed; when they run out the
  context was done first and the rest of the schedule is skipped.
\<close>

fun run_events :: "bool \<Rightarrow> Event list \<Rightarrow> duration list \<Rightarrow> Nemesis \<Rightarrow> Nemesis" where
  "run_events reclaim (e # es) (at # ats) n = run_events reclaim es ats (nemesis_apply reclaim e at n)"
| "run_events reclaim _ _ n = n"

definition nemesis_Run :: "bool \<Rightarrow> duration list \<Rightarrow> duration \<Rightarrow> Nemesis \<Rightarrow> Nemesis" where
  "nemesis_Run reclaim ats since n =
     Heal reclaim since
       (case nm_sched n of
          None \<Rightarrow> n
        | Some s \<Rightarrow> run_events reclaim (sc_events s) ats (n\<lparr>nm_started := True\<rparr>))"

section \<open>What a run does to the links\<close>

lemma applyTo_fault: "l_fault (applyTo k e l) = (if l_closed l then l_fault l else ev_Fault e)"
  by (simp add: applyTo_def Set_fault SetDelay_def)

lemma Set_closed [simp]: "l_closed (Set k f l) = l_closed l"
  by (cases f) (auto simp: link_ops)

lemma applyTo_closed [simp]: "l_closed (applyTo k e l) = l_closed l"
  by (simp add: applyTo_def SetDelay_def)

text \<open>The delay is in force before the link starts delaying.\<close>

lemma applyTo_delay:
  "ev_Fault e = Delay \<Longrightarrow> \<not> l_closed l \<Longrightarrow> l_fault (applyTo k e l) = Delay \<and> l_delay (applyTo k e l) = ev_Delay e"
  by (simp add: applyTo_def link_ops)

text \<open>A nemesis's links follow the weather of the events that fired.\<close>

definition follows :: "Nemesis \<Rightarrow> (string \<Rightarrow> Fault) \<Rightarrow> bool" where
  "follows n w \<longleftrightarrow> (\<forall>name l. nm_links n name = Some l \<longrightarrow> \<not> l_closed l \<and> l_fault l = w name)"

lemma apply_follows: "follows n w \<Longrightarrow> follows (nemesis_apply k e at n) (apply_event e w)"
  by (auto simp: follows_def nemesis_apply_def apply_event_def applyTo_fault split: option.splits if_splits)

lemma run_events_follows:
  "follows n w \<Longrightarrow> follows (run_events k es ats n) (weather (take (length ats) es) w)"
  by (induction k es ats n arbitrary: w rule: run_events.induct) (auto simp: apply_follows)

lemma Heal_follows: "follows n w \<Longrightarrow> follows (Heal k t n) calm"
  by (auto simp: follows_def Heal_def Set_fault)

lemma dom_nemesis_apply: "dom (nm_links (nemesis_apply k e at n)) = dom (nm_links n)"
  by (auto simp: nemesis_apply_def split: option.splits if_splits)

lemma dom_run_events: "dom (nm_links (run_events k es ats n)) = dom (nm_links n)"
  by (induction k es ats n rule: run_events.induct) (auto simp: dom_nemesis_apply)

lemma dom_Heal: "dom (nm_links (Heal k t n)) = dom (nm_links n)"
  by (auto simp: Heal_def)

lemma run_healed:
  assumes "follows n w"
  shows "follows (nemesis_Run k ats since n) calm" and "dom (nm_links (nemesis_Run k ats since n)) = dom (nm_links n)"
proof -
  have s: "follows (n\<lparr>nm_started := True\<rparr>) w" using assms by (simp add: follows_def)
  show "follows (nemesis_Run k ats since n) calm"
    using assms run_events_follows [OF s] by (auto simp: nemesis_Run_def split: option.splits intro: Heal_follows)
  show "dom (nm_links (nemesis_Run k ats since n)) = dom (nm_links n)"
    by (simp add: nemesis_Run_def dom_Heal dom_run_events split: option.splits)
qed

lemma run_listens:
  assumes "follows n w" and "nm_links (nemesis_Run True ats since n) name = Some l"
  shows "listening l"
proof -
  let ?m = "case nm_sched n of None \<Rightarrow> n
    | Some s \<Rightarrow> run_events True (sc_events s) ats (n\<lparr>nm_started := True\<rparr>)"
  have s: "follows (n\<lparr>nm_started := True\<rparr>) w" using assms by (simp add: follows_def)
  have "\<exists>w'. follows ?m w'"
    using assms(1) run_events_follows [OF s] by (auto split: option.splits)
  then have open_links: "\<And>l. nm_links ?m name = Some l \<Longrightarrow> \<not> l_closed l" by (auto simp: follows_def)
  from assms(2) obtain l0 where "nm_links ?m name = Some l0" and "l = Set True Pass l0"
    by (auto simp: nemesis_Run_def Heal_def)
  with open_links [of l0] show ?thesis by (simp add: Set_listens)
qed

text \<open>
  What a run records: the events that fired and named a link it holds, in order, at the moments they
  landed, and the closing heal.
\<close>

definition held :: "Nemesis \<Rightarrow> Event \<Rightarrow> bool" where
  "held n e \<longleftrightarrow> ev_Link e = allLinks \<or> ev_Link e \<in> dom (nm_links n)"

definition landed :: "Event \<times> duration \<Rightarrow> Event" where
  "landed p = (fst p)\<lparr>ev_At := snd p\<rparr>"

lemma applied_apply:
  "nm_applied (nemesis_apply k e at n) = nm_applied n @ (if held n e then [landed (e, at)] else [])"
  by (auto simp: nemesis_apply_def held_def landed_def split: option.splits)

lemma held_apply: "held (nemesis_apply k e at n) = held n"
  by (simp add: held_def dom_nemesis_apply fun_eq_iff)

lemma applied_run_events:
  "nm_applied (run_events k es ats n) =
     nm_applied n @ map landed (filter (\<lambda>p. held n (fst p)) (zip es ats))"
  by (induction k es ats n rule: run_events.induct) (auto simp: applied_apply held_apply)

lemma started_apply: "nm_started (nemesis_apply k e at n) = nm_started n"
  by (simp add: nemesis_apply_def split: option.splits)

lemma started_run_events: "nm_started (run_events k es ats n) = nm_started n"
  by (induction k es ats n rule: run_events.induct) (auto simp: started_apply)

lemma run_applied:
  assumes "nm_sched n = Some s"
  shows "nm_applied (nemesis_Run k ats since n) =
    nm_applied n @ map landed (filter (\<lambda>p. held n (fst p)) (zip (sc_events s) ats)) @ [event since allLinks Pass 0]"
  using assms by (simp add: nemesis_Run_def Heal_def applied_run_events started_run_events held_def)

end
