(* ===== verification/Topology.thy ===== *)
theory Topology
  imports Nemesis
begin

text \<open>
  The proxied hops of a cluster and the node-level partitions laid over them
  (\<open>internal/harness/topology.go\<close>): one link in front of each node, one for each ordered pair of
  nodes. A partition cuts the peer links that cross its boundary; the timeline is built from random
  draws and handed to \<open>NewNamedSchedule\<close>, which the proofs show never refuses it.
\<close>

section \<open>Building a topology\<close>

record Topology =
  t_client :: "Link list"
  t_peer :: "((nat \<times> nat) \<times> Link) list"
  t_names :: "string list"

definition clientLinkName :: "nat \<Rightarrow> string" where
  "clientLinkName node = ''c'' @ show_nat node"

definition peerLinkName :: "nat \<Rightarrow> nat \<Rightarrow> string" where
  "peerLinkName i j = ''p'' @ show_nat i @ ''-'' @ show_nat j"

datatype topology_error = ClientLink nat link_error | PeerLink nat nat link_error

fun build_clients :: "(string \<Rightarrow> bool) \<Rightarrow> nat \<Rightarrow> string list \<Rightarrow> Topology \<Rightarrow> topology_error + Topology" where
  "build_clients listens i [] t = Inr t"
| "build_clients listens i (addr # addrs) t =
     (let name = clientLinkName i in
      case NewLink name addr (listens name) of
        Inl err \<Rightarrow> Inl (ClientLink i err)
      | Inr l \<Rightarrow> build_clients listens (Suc i) addrs
          (t\<lparr>t_client := t_client t @ [l], t_names := t_names t @ [name]\<rparr>))"

fun build_peers :: "(string \<Rightarrow> bool) \<Rightarrow> string list \<Rightarrow> (nat \<times> nat) list \<Rightarrow> Topology \<Rightarrow> topology_error + Topology" where
  "build_peers listens addrs [] t = Inr t"
| "build_peers listens addrs ((i, j) # ps) t =
     (if i = j then build_peers listens addrs ps t
      else let name = peerLinkName i j in
        case NewLink name (addrs ! j) (listens name) of
          Inl err \<Rightarrow> Inl (PeerLink i j err)
        | Inr l \<Rightarrow> build_peers listens addrs ps
            (t\<lparr>t_peer := t_peer t @ [((i, j), l)], t_names := t_names t @ [name]\<rparr>))"

text \<open>
  \<open>Topology.Close\<close> closes every link. A nil receiver has no links to read: the first field access
  panics, which is \<open>None\<close>.
\<close>

definition Topology_Close :: "Topology option \<Rightarrow> Topology option" where
  "Topology_Close t =
     (case t of
        None \<Rightarrow> None
      | Some t \<Rightarrow> Some (t\<lparr>t_client := map Close (t_client t), t_peer := map (\<lambda>(k, l). (k, Close l)) (t_peer t)\<rparr>))"

text \<open>
  \<open>BuildTopology\<close>. Its failing returns set the named result \<open>t\<close> to nil, and the deferred call then
  closes that \<open>t\<close>. The outer option is the panic.
\<close>

definition build_return :: "topology_error + Topology \<Rightarrow> (topology_error + Topology) option" where
  "build_return made =
     (case made of
        Inr t \<Rightarrow> Some (Inr (t\<lparr>t_names := sort_strings (t_names t)\<rparr>))
      | Inl err \<Rightarrow> (case Topology_Close None of None \<Rightarrow> None | Some _ \<Rightarrow> Some (Inl err)))"

definition BuildTopology :: "(string \<Rightarrow> bool) \<Rightarrow> string list \<Rightarrow> bool \<Rightarrow> (topology_error + Topology) option" where
  "BuildTopology listens addrs peers =
     build_return
       (case build_clients listens 0 addrs \<lparr>t_client = [], t_peer = [], t_names = []\<rparr> of
          Inl err \<Rightarrow> Inl err
        | Inr t \<Rightarrow>
            if peers
            then build_peers listens addrs (List.product [0..<length addrs] [0..<length addrs]) t
            else Inr t)"

definition Nodes :: "Topology \<Rightarrow> nat" where
  "Nodes t = length (t_client t)"

text \<open>
  The address of a link is a port the kernel chose: \<open>addr\<close> gives it for the link's name. An index out
  of range panics, which is \<open>None\<close>.
\<close>

definition ClientAddr :: "(string \<Rightarrow> string) \<Rightarrow> Topology \<Rightarrow> nat \<Rightarrow> string option" where
  "ClientAddr addr t i = (if i < length (t_client t) then Some (addr (l_name (t_client t ! i))) else None)"

definition PeerAddr :: "(string \<Rightarrow> string) \<Rightarrow> Topology \<Rightarrow> nat \<Rightarrow> nat \<Rightarrow> string option" where
  "PeerAddr addr t i j =
     (case map_of (t_peer t) (i, j) of
        Some l \<Rightarrow> Some (addr (l_name l))
      | None \<Rightarrow> ClientAddr addr t j)"

definition Links :: "Topology \<Rightarrow> string \<Rightarrow> Link option" where
  "Links t =
     map_of (map (\<lambda>((i, j), l). (peerLinkName i j, l)) (t_peer t) @
       zip (map clientLinkName [0..<length (t_client t)]) (t_client t))"

definition Topology_Stats :: "Topology \<Rightarrow> string \<Rightarrow> LinkStats option" where
  "Topology_Stats t = (\<lambda>name. map_option Stats (Links t name))"

section \<open>Cuts and heals\<close>

definition by_link :: "Event \<Rightarrow> Event \<Rightarrow> bool" where
  "by_link a b \<longleftrightarrow> ev_Link a < ev_Link b"

interpretation link_order: keyed_less by_link ev_Link
  by unfold_locales (simp add: by_link_def)

definition CutEvents :: "Topology \<Rightarrow> duration \<Rightarrow> nat list \<Rightarrow> Fault \<Rightarrow> Event list" where
  "CutEvents t at isolated f =
     stable_sort by_link
       (map (\<lambda>((i, j), l). event at (peerLinkName i j) f 0)
         (filter (\<lambda>((i, j), l). (i \<in> set isolated) \<noteq> (j \<in> set isolated)) (t_peer t)))"

definition CutClientEvents :: "Topology \<Rightarrow> duration \<Rightarrow> nat list \<Rightarrow> Fault \<Rightarrow> Event list" where
  "CutClientEvents t at isolated f =
     stable_sort by_link
       (map (\<lambda>n. event at (clientLinkName n) f 0) (filter (\<lambda>n. n < length (t_client t)) isolated))"

definition HealEvents :: "Topology \<Rightarrow> duration \<Rightarrow> Event list" where
  "HealEvents t at = map (\<lambda>n. event at n Pass 0) (t_names t)"

section \<open>Partition timelines\<close>

definition jitter :: "rng \<Rightarrow> duration \<Rightarrow> duration \<Rightarrow> duration \<times> rng" where
  "jitter g lo hi = (if hi \<le> lo then (lo, g) else (case IntN g (hi - lo + 1) of (x, g) \<Rightarrow> (lo + x, g)))"

fun choose_nodes :: "rng \<Rightarrow> nat list \<Rightarrow> nat list \<times> rng" where
  "choose_nodes g [] = ([], g)"
| "choose_nodes g (i # is) =
     (case IntN g 2 of (b, g) \<Rightarrow>
      case choose_nodes g is of (chosen, g) \<Rightarrow> (if b = 1 then i # chosen else chosen, g))"

partial_function (option) subset_loop :: "rng \<Rightarrow> nat \<Rightarrow> (nat list \<times> rng) option" where
  "subset_loop g n =
     (case choose_nodes g [0..<n] of (chosen, g) \<Rightarrow>
        if 0 < length chosen \<and> length chosen < n then Some (chosen, g) else subset_loop g n)"

definition randomProperSubset :: "rng \<Rightarrow> nat \<Rightarrow> (nat list \<times> rng) option" where
  "randomProperSubset g n = (if n < 2 then Some ([], g) else subset_loop g n)"

partial_function (option) partition_loop ::
  "Topology \<Rightarrow> duration \<Rightarrow> duration \<Rightarrow> Fault \<Rightarrow> rng \<Rightarrow> duration \<Rightarrow> Event list \<Rightarrow> Event list option" where
  "partition_loop t d tail_len f g now events =
     (if \<not> now < d - tail_len then Some events
      else case randomProperSubset g (Nodes t) of
        None \<Rightarrow> None
      | Some (isolated, g) \<Rightarrow>
          let (cutFor, g) = jitter g (ms 300) (ms 1200);
              cutFor = (if now + cutFor > d - tail_len then d - tail_len - now else cutFor)
          in if cutFor \<le> 0 then Some events
             else
               let events = events @ CutEvents t now isolated f;
                   (strand, g) = (if length isolated \<ge> 2
                     then (case IntN g 3 of (x, g) \<Rightarrow> (x = 0, g)) else (False, g));
                   events = (if strand then events @ CutClientEvents t now (take 1 isolated) f else events);
                   events = events @ HealEvents t (now + cutFor);
                   (gap, g) = jitter g (ms 200) (ms 900)
               in partition_loop t d tail_len f g (now + (cutFor + gap)) events)"

partial_function (option) single_loop ::
  "string \<Rightarrow> duration \<Rightarrow> Fault \<Rightarrow> rng \<Rightarrow> duration \<Rightarrow> Event list \<Rightarrow> Event list option" where
  "single_loop name tail_at f g now events =
     (if \<not> now < tail_at then Some events
      else
        let (cutFor, g) = jitter g (ms 200) (ms 700);
            cutFor = (if now + cutFor > tail_at then tail_at - now else cutFor);
            events = events @ [event now name f 0, event (now + cutFor) name Pass 0];
            (gap, g) = jitter g (ms 200) (ms 900)
        in single_loop name tail_at f g (now + (cutFor + gap)) events)"

text \<open>\<open>d / 8\<close> truncates toward zero; a run length is never negative where these are called.\<close>

definition singleNodeSchedule ::
  "(nat \<Rightarrow> nat) \<Rightarrow> string list \<Rightarrow> int \<Rightarrow> duration \<Rightarrow> Fault \<Rightarrow> (schedule_error + Schedule) option" where
  "singleNodeSchedule draws names seed d f =
     map_option (\<lambda>events. NewNamedSchedule ''partition'' seed names d
         (events @ [event (d - d div 8) (names ! 0) Pass 0]))
       (single_loop (names ! 0) (d - d div 8) f (draws, 0) (d div 8) [])"

definition PartitionSchedule ::
  "(int \<Rightarrow> 64 word \<Rightarrow> nat \<Rightarrow> nat) \<Rightarrow> Topology \<Rightarrow> int \<Rightarrow> duration \<Rightarrow> Fault \<Rightarrow> (schedule_error + Schedule) option" where
  "PartitionSchedule pcg t seed d f =
     (if Nodes t < 2 then singleNodeSchedule (pcg seed 0x5EED) (t_names t) seed d f
      else map_option (\<lambda>events. NewNamedSchedule ''partition'' seed (t_names t) d
             (events @ HealEvents t (d - d div 8)))
           (partition_loop t d (d div 8) f (pcg seed 0x5EED, 0) (d div 8) []))"

section \<open>Names\<close>

lemma clientLinkName_inj: "clientLinkName a = clientLinkName b \<Longrightarrow> a = b"
  by (auto simp: clientLinkName_def dest: show_nat_inj)

lemma no_dash: "CHR ''-'' \<notin> set (show_nat n)"
proof
  assume "CHR ''-'' \<in> set (show_nat n)"
  then obtain d where "d < 10" "CHR ''-'' = digit d" using digit_set by blast
  then have "(of_char (CHR ''-'') :: nat) = of_char (digit d)" by simp
  with \<open>d < 10\<close> show False by (simp add: digit_def)
qed

lemma split_dash:
  "c \<notin> set xs \<Longrightarrow> c \<notin> set ys \<Longrightarrow> xs @ c # us = ys @ c # vs \<Longrightarrow> xs = ys \<and> us = vs"
proof (induction xs arbitrary: ys)
  case Nil
  then show ?case by (cases ys) auto
next
  case (Cons a xs)
  then show ?case by (cases ys) auto
qed

lemma peerLinkName_inj: "peerLinkName a b = peerLinkName c d \<Longrightarrow> a = c \<and> b = d"
proof -
  assume "peerLinkName a b = peerLinkName c d"
  then have "show_nat a @ CHR ''-'' # show_nat b = show_nat c @ CHR ''-'' # show_nat d"
    by (simp add: peerLinkName_def)
  from split_dash [OF no_dash no_dash this] show ?thesis by (blast dest: show_nat_inj)
qed

lemma names_eq [simp]:
  "clientLinkName a = clientLinkName b \<longleftrightarrow> a = b"
  "peerLinkName a b = peerLinkName c d \<longleftrightarrow> a = c \<and> b = d"
  using clientLinkName_inj peerLinkName_inj by blast+

lemma names_apart [simp]:
  "clientLinkName i \<noteq> peerLinkName j k" "peerLinkName j k \<noteq> clientLinkName i"
  "clientLinkName i \<noteq> allLinks" "peerLinkName j k \<noteq> allLinks"
  by (auto simp: clientLinkName_def peerLinkName_def allLinks_def)

section \<open>What was built\<close>

text \<open>The names of a topology are those of its links, each once.\<close>

definition topology_ok :: "Topology \<Rightarrow> bool" where
  "topology_ok t \<longleftrightarrow>
     mset (t_names t) = mset (map clientLinkName [0..<Nodes t]) + mset (map (\<lambda>(i, j). peerLinkName i j) (map fst (t_peer t))) \<and>
     distinct (map fst (t_peer t))"

lemma build_clients_names:
  "build_clients listens i addrs t = Inr t' \<Longrightarrow> length (t_client t) = i \<Longrightarrow>
     length (t_client t') = i + length addrs \<and> t_peer t' = t_peer t \<and>
     t_names t' = t_names t @ map clientLinkName [i..<i + length addrs]"
proof (induction listens i addrs t rule: build_clients.induct)
  case (2 listens i addr addrs t)
  from 2(2) obtain l where l: "NewLink (clientLinkName i) addr (listens (clientLinkName i)) = Inr l"
    and r: "build_clients listens (Suc i) addrs
      (t\<lparr>t_client := t_client t @ [l], t_names := t_names t @ [clientLinkName i]\<rparr>) = Inr t'"
    by (auto simp: Let_def split: sum.splits)
  have u: "[i..<i + length (addr # addrs)] = i # [Suc i..<Suc i + length addrs]"
    by (simp only: length_Cons add_Suc_right add_Suc) (simp add: upt_rec)
  from 2(1) [OF refl l r] 2(3) show ?case unfolding u by simp
qed simp

lemma build_peers_names:
  "build_peers listens addrs ps t = Inr t' \<Longrightarrow>
     t_client t' = t_client t \<and>
     map fst (t_peer t') = map fst (t_peer t) @ filter (\<lambda>(i, j). i \<noteq> j) ps \<and>
     t_names t' = t_names t @ map (\<lambda>(i, j). peerLinkName i j) (filter (\<lambda>(i, j). i \<noteq> j) ps)"
proof (induction listens addrs ps t rule: build_peers.induct)
  case (2 listens addrs i j ps t)
  then show ?case by (auto simp: Let_def split: sum.splits if_splits)
qed simp

lemma BuildTopology_ok:
  assumes "BuildTopology listens addrs peers = Some (Inr t)"
  shows "topology_ok t" and "Nodes t = length addrs"
    and "map fst (t_peer t) = (if peers
      then filter (\<lambda>(i, j). i \<noteq> j) (List.product [0..<length addrs] [0..<length addrs]) else [])"
proof -
  let ?e = "\<lparr>t_client = [], t_peer = [], t_names = []\<rparr>"
  let ?ps = "List.product [0..<length addrs] [0..<length addrs]"
  from assms obtain c where c: "build_clients listens 0 addrs ?e = Inr c"
    by (auto simp: BuildTopology_def build_return_def Topology_Close_def split: sum.splits)
  note C = build_clients_names [OF c]
  have "topology_ok t \<and> Nodes t = length addrs \<and> map fst (t_peer t) = (if peers
      then filter (\<lambda>(i, j). i \<noteq> j) ?ps else [])"
  proof (cases peers)
    case False
    with assms c have "t = c\<lparr>t_names := sort_strings (t_names c)\<rparr>" by (simp add: BuildTopology_def build_return_def)
    with C False show ?thesis by (simp add: topology_ok_def Nodes_def)
  next
    case True
    with assms c obtain p where p: "build_peers listens addrs ?ps c = Inr p"
      and t: "t = p\<lparr>t_names := sort_strings (t_names p)\<rparr>"
      by (auto simp: BuildTopology_def build_return_def Topology_Close_def split: sum.splits)
    have "distinct (filter (\<lambda>(i, j). i \<noteq> j) ?ps)" by (simp add: distinct_product)
    with build_peers_names [OF p] C t True show ?thesis
      by (simp add: topology_ok_def Nodes_def del: List.product.simps map_map)
  qed
  then show "topology_ok t" "Nodes t = length addrs"
    "map fst (t_peer t) = (if peers then filter (\<lambda>(i, j). i \<noteq> j) ?ps else [])" by auto
qed

text \<open>Each link has the name of its hop and leads to the node at the hop's end.\<close>

definition links_lead :: "string list \<Rightarrow> Topology \<Rightarrow> bool" where
  "links_lead addrs t \<longleftrightarrow>
     (\<forall>((i, j), l) \<in> set (t_peer t). l_name l = peerLinkName i j \<and> l_target l = addrs ! j) \<and>
     (\<forall>i < length (t_client t). l_name (t_client t ! i) = clientLinkName i \<and> l_target (t_client t ! i) = addrs ! i)"

lemma NewLink_sel: "NewLink name target up = Inr l \<Longrightarrow> l_name l = name \<and> l_target l = target"
  by (auto simp: NewLink_def split: if_splits)

lemma build_clients_lead:
  "build_clients listens i addrs t = Inr t' \<Longrightarrow> length (t_client t) = i \<Longrightarrow> length all = i + length addrs \<Longrightarrow>
     drop i all = addrs \<Longrightarrow> links_lead all t \<Longrightarrow> links_lead all t'"
proof (induction listens i addrs t rule: build_clients.induct)
  case (2 listens i a addrs t)
  from 2(2) obtain l where l: "NewLink (clientLinkName i) a (listens (clientLinkName i)) = Inr l"
    and r: "build_clients listens (Suc i) addrs
      (t\<lparr>t_client := t_client t @ [l], t_names := t_names t @ [clientLinkName i]\<rparr>) = Inr t'"
    by (auto simp: Let_def split: sum.splits)
  from 2(4,5) have "all ! i = a" "drop (Suc i) all = addrs"
    by (metis nth_via_drop, metis drop_Suc list.sel(3) tl_drop)
  with 2(1) [OF refl l r] 2(3,4,6) NewLink_sel [OF l] show ?case
    by (auto simp: links_lead_def nth_append less_Suc_eq)
qed simp

lemma build_peers_lead:
  "build_peers listens addrs ps t = Inr t' \<Longrightarrow> links_lead addrs t \<Longrightarrow> links_lead addrs t'"
proof (induction listens addrs ps t rule: build_peers.induct)
  case (2 listens addrs i j ps t)
  show ?case
  proof (cases "i = j")
    case True
    with 2 show ?thesis by simp
  next
    case False
    with 2(3) obtain l where l: "NewLink (peerLinkName i j) (addrs ! j) (listens (peerLinkName i j)) = Inr l"
      and r: "build_peers listens addrs ps
        (t\<lparr>t_peer := t_peer t @ [((i, j), l)], t_names := t_names t @ [peerLinkName i j]\<rparr>) = Inr t'"
      by (auto simp: Let_def split: sum.splits)
    have "links_lead addrs (t\<lparr>t_peer := t_peer t @ [((i, j), l)], t_names := t_names t @ [peerLinkName i j]\<rparr>)"
      using 2(4) NewLink_sel [OF l] by (auto simp: links_lead_def)
    with 2(2) [OF False refl l r] show ?thesis .
  qed
qed simp

lemma BuildTopology_lead:
  assumes "BuildTopology listens addrs peers = Some (Inr t)"
  shows "links_lead addrs t"
proof -
  let ?e = "\<lparr>t_client = [], t_peer = [], t_names = []\<rparr>"
  from assms obtain c where c: "build_clients listens 0 addrs ?e = Inr c"
    by (auto simp: BuildTopology_def build_return_def Topology_Close_def split: sum.splits)
  have "links_lead addrs c"
    by (rule build_clients_lead [OF c]) (simp_all add: links_lead_def)
  moreover have "links_lead addrs (p\<lparr>t_names := ns\<rparr>) = links_lead addrs p" for p :: Topology and ns
    by (simp add: links_lead_def)
  ultimately show ?thesis
    using c assms build_peers_lead
    by (auto simp: BuildTopology_def build_return_def Topology_Close_def split: sum.splits if_splits)
qed

lemma PeerAddr_link:
  assumes "BuildTopology listens addrs True = Some (Inr t)" and "i < length addrs" "j < length addrs" "i \<noteq> j"
  shows "PeerAddr addr t i j = Some (addr (peerLinkName i j))" and "(i, j) \<in> fst ` set (t_peer t)"
proof -
  have k: "set (map fst (t_peer t)) = {(i, j). i < length addrs \<and> j < length addrs \<and> i \<noteq> j}"
    using BuildTopology_ok(3) [OF assms(1)] by auto
  with assms(2-4) show m: "(i, j) \<in> fst ` set (t_peer t)" by auto
  then obtain l where l: "map_of (t_peer t) (i, j) = Some l"
    by (metis map_of_eq_None_iff not_None_eq)
  with BuildTopology_lead [OF assms(1)] have "l_name l = peerLinkName i j"
    by (auto simp: links_lead_def dest!: map_of_SomeD)
  with l show "PeerAddr addr t i j = Some (addr (peerLinkName i j))" by (simp add: PeerAddr_def)
qed

lemma topology_names:
  assumes "topology_ok t"
  shows "set (t_names t) = clientLinkName ` {..<Nodes t} \<union> (\<lambda>(i, j). peerLinkName i j) ` fst ` set (t_peer t)"
    and "distinct (t_names t)" and "allLinks \<notin> set (t_names t)"
proof -
  let ?cs = "map clientLinkName [0..<Nodes t]"
  let ?ps = "map (\<lambda>(i, j). peerLinkName i j) (map fst (t_peer t))"
  from assms have m: "mset (t_names t) = mset (?cs @ ?ps)"
    by (simp add: topology_ok_def del: map_map)
  then have s: "set (t_names t) = set ?cs \<union> set ?ps" by (metis set_append mset_eq_setD)
  then show "set (t_names t) = clientLinkName ` {..<Nodes t} \<union> (\<lambda>(i, j). peerLinkName i j) ` fst ` set (t_peer t)"
    by (simp add: lessThan_atLeast0 image_image)
  from s show "allLinks \<notin> set (t_names t)" by (auto dest: sym)
  have "distinct ?cs" by (auto simp: distinct_map inj_on_def dest: clientLinkName_inj)
  moreover from assms have "distinct ?ps"
    by (subst distinct_map) (auto simp: topology_ok_def inj_on_def dest: peerLinkName_inj)
  moreover have "set ?cs \<inter> set ?ps = {}" by auto
  ultimately have "distinct (?cs @ ?ps)" by (simp only: distinct_append)
  with m show "distinct (t_names t)" by (metis mset_eq_imp_distinct_iff)
qed

text \<open>Every name a schedule may use is a link the nemesis holds.\<close>

lemma dom_Links:
  assumes "topology_ok t"
  shows "dom (Links t) = set (t_names t)"
proof -
  have m: "map fst (map (\<lambda>((i, j), l). (peerLinkName i j, l)) (t_peer t) @
      zip (map clientLinkName [0..<length (t_client t)]) (t_client t)) =
    map (\<lambda>(i, j). peerLinkName i j) (map fst (t_peer t)) @ map clientLinkName [0..<Nodes t]"
    by (simp add: Nodes_def case_prod_beta)
  have "dom (Links t) = set (map (\<lambda>(i, j). peerLinkName i j) (map fst (t_peer t)) @ map clientLinkName [0..<Nodes t])"
    unfolding Links_def dom_map_of_conv_image_fst set_map [symmetric] m ..
  then show ?thesis
    unfolding topology_names(1) [OF assms] by (auto simp: image_image)
qed

end
