(* ===== verification/Partition_Correct.thy ===== *)
theory Partition_Correct
  imports Topology
begin

text \<open>
  What the partition timelines promise, for every sequence of draws that does not withhold a proper
  subset of the nodes for ever: they are built, \<open>NewNamedSchedule\<close> takes them, every event belongs
  to the run and falls between the warm-up and the tail, the network is whole at the end, and at no
  moment is every client cut off.
\<close>

section \<open>Cuts\<close>

lemma CutEvents_iff:
  "e \<in> set (CutEvents t at isolated f) \<longleftrightarrow>
     (\<exists>i j. (i, j) \<in> fst ` set (t_peer t) \<and> (i \<in> set isolated) \<noteq> (j \<in> set isolated) \<and>
        e = event at (peerLinkName i j) f 0)"
  by (auto simp: CutEvents_def image_iff Bex_def)

lemma CutClientEvents_iff:
  "e \<in> set (CutClientEvents t at isolated f) \<longleftrightarrow>
     (\<exists>n. n \<in> set isolated \<and> n < Nodes t \<and> e = event at (clientLinkName n) f 0)"
  by (auto simp: CutClientEvents_def Nodes_def)

lemma weather_quiet:
  "(\<forall>e \<in> set es. ev_Link e \<noteq> allLinks \<and> (ev_Link e = l \<longrightarrow> ev_Fault e = Pass)) \<Longrightarrow> w l = Pass \<Longrightarrow>
     weather es w l = Pass"
  by (induction es arbitrary: w) (auto simp: apply_event_def)

text \<open>
  A cut is exactly its boundary: after it, a link of the topology is broken when it joins the two
  sides, and every client link still passes.
\<close>

lemma weather_CutEvents:
  assumes "topology_ok t" and "(i, j) \<in> fst ` set (t_peer t)"
  shows "weather (CutEvents t at isolated f) calm (peerLinkName i j) =
    (if (i \<in> set isolated) \<noteq> (j \<in> set isolated) then f else Pass)"
proof -
  have g: "weather es w l = f"
    if "\<forall>e \<in> set es. ev_Link e \<noteq> allLinks \<and> ev_Fault e = f" and "l \<in> ev_Link ` set es \<or> w l = f" for es w l
    using that by (induction es arbitrary: w) (auto simp: apply_event_def)
  show ?thesis
  proof (cases "(i \<in> set isolated) \<noteq> (j \<in> set isolated)")
    case True
    have "event at (peerLinkName i j) f 0 \<in> set (CutEvents t at isolated f)"
      using assms(2) True unfolding CutEvents_iff by blast
    then have "peerLinkName i j \<in> ev_Link ` set (CutEvents t at isolated f)"
      by (rule rev_image_eqI) (simp add: event_def)
    then have "weather (CutEvents t at isolated f) calm (peerLinkName i j) = f"
      by (intro g disjI1) (auto simp: CutEvents_iff event_def)
    with True show ?thesis by simp
  next
    case False
    then have "weather (CutEvents t at isolated f) calm (peerLinkName i j) = Pass"
      by (intro weather_quiet) (auto simp: CutEvents_iff event_def dest: peerLinkName_inj)
    with False show ?thesis by simp
  qed
qed

lemma weather_CutEvents_client: "weather (CutEvents t at isolated f) calm (clientLinkName n) = Pass"
  by (rule weather_quiet) (auto simp: CutEvents_iff event_def dest: sym)

section \<open>A cut and its heal\<close>

definition cuts_in :: "string set \<Rightarrow> Fault \<Rightarrow> duration \<Rightarrow> Event list \<Rightarrow> bool" where
  "cuts_in N f at es \<longleftrightarrow> (\<forall>e \<in> set es. \<exists>n \<in> N. e = event at n f 0)"

lemma cuts_sorted: "cuts_in N f at es \<Longrightarrow> map ev_At es = replicate (length es) at"
  by (induction es) (auto simp: cuts_in_def event_def)

lemma cut_heal_timeline:
  assumes "cuts_in N f at es" and "N \<subseteq> set names" and "allLinks \<notin> set names" and "at \<le> t_end"
    and "f \<in> {Pass, Delay, Drop, Reset, Refuse}"
  shows "timeline names at t_end (es @ map (\<lambda>n. event t_end n Pass 0) names)"
proof -
  from assms(1-3) have away: "\<forall>e \<in> set es. ev_Link e \<noteq> allLinks \<and> ev_Link e \<in> set names"
    by (fastforce simp: cuts_in_def event_def)
  have "weather es calm l = Pass" if "l \<notin> set names" for l
    using away that by (intro weather_quiet) auto
  with assms(3) have "weather (es @ map (\<lambda>n. event t_end n Pass 0) names) calm = calm"
    by (simp add: weather_cut fun_eq_iff)
  moreover have "sorted (map ev_At (es @ map (\<lambda>n. event t_end n Pass 0) names))"
    using cuts_sorted [OF assms(1)] assms(4)
    by (auto simp: sorted_append event_def o_def map_replicate_const)
  moreover from assms have "\<forall>e \<in> set es. in_span names at t_end e"
    by (force simp: cuts_in_def in_span_def heals_all_def event_def)
  ultimately show ?thesis using assms(4)
    by (auto simp: timeline_def in_span_def heals_all_def event_def)
qed

lemma cut_heal_spares:
  assumes "cuts_in N f at es" and "c \<in> set names" and "c \<notin> N" and "allLinks \<notin> N" and "allLinks \<notin> set names"
  shows "spares names (es @ map (\<lambda>n. event t_end n Pass 0) names)"
proof -
  have "weather (take k (es @ map (\<lambda>n. event t_end n Pass 0) names)) calm c = Pass" for k
  proof (rule weather_quiet)
    have "\<forall>e \<in> set (es @ map (\<lambda>n. event t_end n Pass 0) names).
        ev_Link e \<noteq> allLinks \<and> (ev_Link e = c \<longrightarrow> ev_Fault e = Pass)"
      using assms by (auto simp: cuts_in_def event_def)
    then show "\<forall>e \<in> set (take k (es @ map (\<lambda>n. event t_end n Pass 0) names)).
        ev_Link e \<noteq> allLinks \<and> (ev_Link e = c \<longrightarrow> ev_Fault e = Pass)"
      by (meson in_set_takeD)
  qed simp
  with assms(2) show ?thesis unfolding spares_def by (metis Fault.distinct(3))
qed

section \<open>Who can still be asked\<close>

text \<open>
  While the clients of one node are stranded all the others reach theirs, and on the stranded node's
  side of the cut there is another node.
\<close>

definition observed :: "Topology \<Rightarrow> (string \<Rightarrow> Fault) \<Rightarrow> bool" where
  "observed t w \<longleftrightarrow>
     (\<forall>i < Nodes t. w (clientLinkName i) \<noteq> Pass \<longrightarrow>
        (\<forall>j < Nodes t. j \<noteq> i \<longrightarrow> w (clientLinkName j) = Pass) \<and>
        (\<exists>j < Nodes t. j \<noteq> i \<and> w (peerLinkName i j) = Pass \<and> w (peerLinkName j i) = Pass))"

definition always_observed :: "Topology \<Rightarrow> Event list \<Rightarrow> bool" where
  "always_observed t es \<longleftrightarrow> (\<forall>n. observed t (weather (take n es) calm))"

lemma always_observed_append:
  assumes "always_observed t es" and "weather es calm = calm" and "always_observed t fs"
  shows "always_observed t (es @ fs)"
  unfolding always_observed_def
proof
  fix n
  show "observed t (weather (take n (es @ fs)) calm)"
    using assms by (cases "n \<le> length es") (simp_all add: always_observed_def)
qed

lemma always_observed_Nil: "always_observed t []"
  by (simp add: always_observed_def observed_def)

lemma weather_take_quiet:
  assumes "\<forall>e \<in> set es. ev_Link e \<noteq> allLinks \<and> (ev_Link e = l \<longrightarrow> ev_Fault e = Pass)"
  shows "weather (take n es) calm l = Pass"
  by (rule weather_quiet) (use assms in \<open>auto dest: in_set_takeD\<close>)

text \<open>A cut that strands nobody, or the first of several nodes that are cut off together.\<close>

lemma cut_heal_observed:
  assumes t: "topology_ok t" and iso: "distinct isolated" "set isolated \<subseteq> {..<Nodes t}"
    and strand: "strand \<Longrightarrow> 2 \<le> length isolated"
    and es: "es = CutEvents t at isolated f @ (if strand then CutClientEvents t at (take 1 isolated) f else [])"
  shows "always_observed t (es @ HealEvents t t_end)"
proof -
  let ?es = "es @ HealEvents t t_end"
  have names: "ev_Link e \<noteq> allLinks" if "e \<in> set ?es" for e
    using that topology_names(3) [OF t] unfolding es HealEvents_def
    by (auto simp: CutEvents_iff CutClientEvents_iff event_def split: if_splits)
  have client: "weather (take n ?es) calm (clientLinkName i) = Pass" if "\<not> strand \<or> i \<notin> set (take 1 isolated)" for n i
    using that names unfolding es HealEvents_def
    by (intro weather_take_quiet)
      (fastforce simp: CutEvents_iff CutClientEvents_iff event_def split: if_splits)
  have peer: "weather (take n ?es) calm (peerLinkName i j) = Pass" if "i \<in> set isolated" "j \<in> set isolated" for n i j
    using that names unfolding es HealEvents_def
    by (intro weather_take_quiet)
      (fastforce simp: CutEvents_iff CutClientEvents_iff event_def split: if_splits)
  show ?thesis
    unfolding always_observed_def observed_def
  proof (intro allI impI)
    fix n i
    assume "i < Nodes t" and bad: "weather (take n ?es) calm (clientLinkName i) \<noteq> Pass"
    from bad client have s: "strand" and i: "i \<in> set (take 1 isolated)" by blast+
    then obtain j xs where x: "isolated = i # j # xs"
      using strand by (cases isolated; cases "tl isolated") auto
    with iso have "i \<noteq> j" "j < Nodes t" by auto
    moreover have "weather (take n ?es) calm (clientLinkName k) = Pass" if "k \<noteq> i" for k
      using that x by (intro client) simp
    moreover have "weather (take n ?es) calm (peerLinkName i j) = Pass" "weather (take n ?es) calm (peerLinkName j i) = Pass"
      by (intro peer; simp add: x)+
    ultimately show "(\<forall>k < Nodes t. k \<noteq> i \<longrightarrow> weather (take n ?es) calm (clientLinkName k) = Pass) \<and>
        (\<exists>j < Nodes t. j \<noteq> i \<and> weather (take n ?es) calm (peerLinkName i j) = Pass \<and>
          weather (take n ?es) calm (peerLinkName j i) = Pass)"
      by blast
  qed
qed

lemma heal_observed: "topology_ok t \<Longrightarrow> always_observed t (HealEvents t at)"
  using cut_heal_observed [of t "[]" False "[]" at Pass at]
  by (simp add: CutEvents_def filter_False split_beta stable_sort_def)

text \<open>A moment at which some of the nodes, not all, are cut off from the others, and only they.\<close>

definition cut_off :: "Topology \<Rightarrow> Fault \<Rightarrow> Event list \<Rightarrow> bool" where
  "cut_off t f es \<longleftrightarrow>
     (\<exists>n isolated. isolated \<noteq> [] \<and> set isolated \<subset> {..<Nodes t} \<and>
        (\<forall>(i, j) \<in> fst ` set (t_peer t). weather (take n es) calm (peerLinkName i j) =
           (if (i \<in> set isolated) \<noteq> (j \<in> set isolated) then f else Pass)))"

lemma cut_off_extend:
  assumes "weather events calm = calm" and "topology_ok t" and "isolated \<noteq> []" and "set isolated \<subset> {..<Nodes t}"
  shows "cut_off t f (events @ (CutEvents t at isolated f @ rest) @ rest')"
proof -
  let ?n = "length events + length (CutEvents t at isolated f)"
  have "weather (take ?n (events @ (CutEvents t at isolated f @ rest) @ rest')) calm =
      weather (CutEvents t at isolated f) calm"
    using assms(1) by simp
  moreover have "\<forall>(i, j) \<in> fst ` set (t_peer t). weather (CutEvents t at isolated f) calm (peerLinkName i j) =
      (if (i \<in> set isolated) \<noteq> (j \<in> set isolated) then f else Pass)"
  proof
    fix p
    assume p: "p \<in> fst ` set (t_peer t)"
    obtain i j where "p = (i, j)" by fastforce
    with weather_CutEvents [OF assms(2)] p
    show "case p of (i, j) \<Rightarrow> weather (CutEvents t at isolated f) calm (peerLinkName i j) =
        (if (i \<in> set isolated) \<noteq> (j \<in> set isolated) then f else Pass)" by simp
  qed
  ultimately show ?thesis
    using assms(3,4) unfolding cut_off_def by (intro exI [of _ ?n] exI [of _ isolated]) simp
qed

lemma cut_off_append: "cut_off t f es \<Longrightarrow> cut_off t f (es @ rest)"
proof -
  assume "cut_off t f es"
  then obtain n isolated where "isolated \<noteq> []" "set isolated \<subset> {..<Nodes t}"
    "\<forall>(i, j) \<in> fst ` set (t_peer t). weather (take n es) calm (peerLinkName i j) =
       (if (i \<in> set isolated) \<noteq> (j \<in> set isolated) then f else Pass)"
    unfolding cut_off_def by blast
  moreover have "take (min n (length es)) (es @ rest) = take n es" by (simp add: min_def)
  ultimately show ?thesis
    unfolding cut_off_def by (intro exI [of _ "min n (length es)"] exI [of _ isolated]) simp
qed

section \<open>Drawing a proper subset\<close>

lemma choose_nodes_result:
  "choose_nodes g is = (chosen, g') \<Longrightarrow>
     set chosen \<subseteq> set is \<and> length chosen \<le> length is \<and> (distinct is \<longrightarrow> distinct chosen) \<and>
     g' = (fst g, snd g + length is) \<and>
     ((\<exists>a < length is. fst g (snd g + a) mod 2 = 1) \<longrightarrow> chosen \<noteq> []) \<and>
     ((\<exists>a < length is. fst g (snd g + a) mod 2 \<noteq> 1) \<longrightarrow> length chosen < length is)"
proof (induction "is" arbitrary: g chosen g')
  case Nil
  then show ?case by (auto simp: prod_eq_iff)
next
  case (Cons i "is")
  let ?g = "(fst g, Suc (snd g))"
  obtain ch h where ch: "choose_nodes ?g is = (ch, h)" by (meson surj_pair)
  have odd: "(int (fst g (snd g)) mod 2 = 1) = (fst g (snd g) mod 2 = 1)" by presburger
  from Cons.prems ch have c: "chosen = (if fst g (snd g) mod 2 = 1 then i # ch else ch)" and g': "g' = h"
    by (auto simp: IntN_def odd split: if_splits)
  have sp: "(\<exists>a < length (i # is). P (snd g + a)) \<longleftrightarrow> P (snd g) \<or> (\<exists>a < length is. P (Suc (snd g) + a))" for P
    by (auto simp: less_Suc_eq_0_disj)
  show ?case
    unfolding sp [of "\<lambda>k. fst g k mod 2 = 1"] sp [of "\<lambda>k. fst g k mod 2 \<noteq> 1"] c g'
    using Cons.IH [OF ch] by auto
qed

text \<open>Some aligned window of \<open>n\<close> draws, from every point on, holds both a one and a zero.\<close>

definition mixed :: "(nat \<Rightarrow> nat) \<Rightarrow> nat \<Rightarrow> bool" where
  "mixed draws n \<longleftrightarrow>
     (\<forall>k. \<exists>m. (\<exists>a < n. draws (k + m * n + a) mod 2 = 1) \<and> (\<exists>a < n. draws (k + m * n + a) mod 2 \<noteq> 1))"

lemma subset_loop_returns:
  assumes "(\<exists>a < n. draws (k + m * n + a) mod 2 = 1) \<and> (\<exists>a < n. draws (k + m * n + a) mod 2 \<noteq> 1)"
  shows "\<exists>chosen k'. subset_loop (draws, k) n = Some (chosen, (draws, k')) \<and> chosen \<noteq> [] \<and>
    length chosen < n \<and> set chosen \<subseteq> {..<n} \<and> distinct chosen"
  using assms
proof (induction m arbitrary: k)
  case 0
  obtain ch h where ch: "choose_nodes (draws, k) [0..<n] = (ch, h)" by (meson surj_pair)
  note R = choose_nodes_result [OF ch]
  from 0 R have "ch \<noteq> []" "length ch < n" by auto
  with R ch show ?case by (simp add: subset_loop.simps [of _ n]) (auto simp: lessThan_atLeast0)
next
  case (Suc m)
  obtain ch h where ch: "choose_nodes (draws, k) [0..<n] = (ch, h)" by (meson surj_pair)
  note R = choose_nodes_result [OF ch]
  from Suc.prems have "(\<exists>a < n. draws ((k + n) + m * n + a) mod 2 = 1) \<and> (\<exists>a < n. draws ((k + n) + m * n + a) mod 2 \<noteq> 1)"
    by (simp add: algebra_simps)
  from Suc.IH [OF this] R ch show ?case
    by (simp add: subset_loop.simps [of "(draws, k)" n]) (auto simp: lessThan_atLeast0)
qed

lemma randomProperSubset_returns:
  assumes "mixed draws n" and "2 \<le> n"
  shows "\<exists>chosen k'. randomProperSubset (draws, k) n = Some (chosen, (draws, k')) \<and> chosen \<noteq> [] \<and>
    length chosen < n \<and> set chosen \<subseteq> {..<n} \<and> distinct chosen"
proof -
  from assms(1) obtain i
    where "(\<exists>a < n. draws (k + i * n + a) mod 2 = 1) \<and> (\<exists>a < n. draws (k + i * n + a) mod 2 \<noteq> 1)"
    unfolding mixed_def by blast
  from subset_loop_returns [OF this] assms(2) show ?thesis by (simp add: randomProperSubset_def)
qed

lemma IntN_draws: "IntN g n = (x, g') \<Longrightarrow> fst g' = fst g"
  by (auto simp: IntN_def)

lemma jitter_result: "jitter g lo hi = (x, g') \<Longrightarrow> lo \<le> x \<and> fst g' = fst g"
  using IntN_range [of "hi - lo + 1" g "x - lo" g'] by (auto simp: jitter_def IntN_def split: if_splits)

section \<open>The loops\<close>

lemma partition_phase:
  assumes t: "topology_ok t" and n: "2 \<le> Nodes t" and iso: "length isolated < Nodes t"
    and f: "f \<in> {Drop, Refuse}" and le: "at \<le> t_end"
    and es: "es = CutEvents t at isolated f @ (if strand then CutClientEvents t at (take 1 isolated) f else [])"
  shows "phase_ok (t_names t) at t_end (es @ HealEvents t t_end)"
proof -
  note N = topology_names [OF t]
  define strand_set where "strand_set = set (take 1 isolated)"
  have "card strand_set \<le> 1" unfolding strand_set_def by (cases isolated) auto
  then have "\<not> {..<Nodes t} \<subseteq> strand_set"
    using n card_mono [of strand_set "{..<Nodes t}"] by (force simp: strand_set_def)
  then obtain c where c: "c < Nodes t" "c \<notin> strand_set" by auto
  define cut_names where "cut_names = set (t_names t) - {clientLinkName c}"
  have "cuts_in cut_names f at es"
    unfolding cuts_in_def es cut_names_def N(1) using c(2)
    by (auto simp: CutEvents_iff CutClientEvents_iff strand_set_def dest: clientLinkName_inj split: if_splits) force+
  moreover have "cut_names \<subseteq> set (t_names t)" "clientLinkName c \<notin> cut_names" "allLinks \<notin> cut_names"
    using N(3) by (auto simp: cut_names_def)
  moreover have "clientLinkName c \<in> set (t_names t)" using c(1) N(1) by auto
  ultimately show ?thesis
    using cut_heal_timeline [of cut_names f at es] cut_heal_spares [of cut_names f at es] N(3) le f
    by (auto simp: phase_ok_def HealEvents_def)
qed

lemma partition_loop_ok:
  assumes t: "topology_ok t" and n: "2 \<le> Nodes t" and f: "f \<in> {Drop, Refuse}"
    and m: "mixed draws (Nodes t)" and "lo \<le> u" "u \<le> now" "u \<le> d - tl_len"
    and "phase_ok (t_names t) lo u events"
  shows "\<exists>es. partition_loop t d tl_len f (draws, k) now events = Some es \<and>
    (\<exists>v. u \<le> v \<and> v \<le> d - tl_len \<and> phase_ok (t_names t) lo v es) \<and>
    (always_observed t events \<longrightarrow> always_observed t es) \<and> (\<exists>more_events. es = events @ more_events) \<and>
    (now < d - tl_len \<longrightarrow> cut_off t f es)"
  using assms(5-8)
proof (induction "nat (d - tl_len - now)" arbitrary: now events k u rule: less_induct)
  case less
  note step = partition_loop.simps [of t d tl_len f "(draws, k)" now events]
  show ?case
  proof (cases "now < d - tl_len")
    case False
    with less.prems show ?thesis by (auto simp: step)
  next
    case True
    obtain isolated k1 where iso: "randomProperSubset (draws, k) (Nodes t) = Some (isolated, (draws, k1))"
        "isolated \<noteq> []" "length isolated < Nodes t" "set isolated \<subseteq> {..<Nodes t}" "distinct isolated"
      using randomProperSubset_returns [OF m n, of k] by blast
    obtain c0 g2 where c0: "jitter (draws, k1) (ms 300) (ms 1200) = (c0, g2)" by (meson surj_pair)
    define c where "c = (if now + c0 > d - tl_len then d - tl_len - now else c0)"
    obtain strand g3 where strand: "(if length isolated \<ge> 2 then (case IntN g2 3 of (x, g) \<Rightarrow> (x = 0, g)) else (False, g2)) = (strand, g3)"
      by (meson surj_pair)
    obtain gap g4 where gap: "jitter g3 (ms 200) (ms 900) = (gap, g4)" by (meson surj_pair)
    note J = jitter_result [OF c0] jitter_result [OF gap]
    from strand have two: "strand \<Longrightarrow> 2 \<le> length isolated" by (auto split: if_splits)
    from strand have "fst g3 = fst g2" by (auto simp: IntN_def split: if_splits)
    with J obtain k4 where k4: "g4 = (draws, k4)" by (metis fst_conv prod.collapse)
    from J True have pos: "0 < c" "now + c \<le> d - tl_len" "0 < gap" by (auto simp: c_def ms_def)
    define es where "es = CutEvents t now isolated f @ (if strand then CutClientEvents t now (take 1 isolated) f else [])"
    have "phase_ok (t_names t) now (now + c) (es @ HealEvents t (now + c))"
      using partition_phase [OF t n iso(3) f _ es_def] pos by simp
    then have p: "phase_ok (t_names t) lo (now + c) (events @ (es @ HealEvents t (now + c)))"
      using phase_ok_append [OF less.prems(4)] less.prems pos by simp
    have obs: "always_observed t (es @ HealEvents t (now + c))"
      by (rule cut_heal_observed [OF t iso(5,4) two es_def])
    have calm: "weather events calm = calm" using less.prems(4) by (simp add: phase_ok_def timeline_def)
    have "card (set isolated) < Nodes t" using card_length [of isolated] iso(3) by linarith
    then have "set isolated \<noteq> {..<Nodes t}" by force
    with iso(4) have proper: "set isolated \<subset> {..<Nodes t}" by blast
    have run: "partition_loop t d tl_len f (draws, k) now events =
        partition_loop t d tl_len f (draws, k4) (now + (c + gap)) (events @ (es @ HealEvents t (now + c)))"
      using True pos(1) by (simp add: step iso(1) c0 c_def [symmetric] strand gap k4 es_def Let_def)
    have le: "nat (d - tl_len - (now + (c + gap))) < nat (d - tl_len - now)" "lo \<le> now + c"
      "now + c \<le> now + (c + gap)" using less.prems pos True by auto
    from less.hyps [OF le pos(2) p, of k4] obtain r v more_events where
      q: "partition_loop t d tl_len f (draws, k4) (now + (c + gap)) (events @ (es @ HealEvents t (now + c))) = Some r" and
      r: "now + c \<le> v" "v \<le> d - tl_len" "phase_ok (t_names t) lo v r"
      "r = (events @ (es @ HealEvents t (now + c))) @ more_events"
      "always_observed t (events @ (es @ HealEvents t (now + c))) \<longrightarrow> always_observed t r" by blast
    have "cut_off t f r"
      using cut_off_extend [OF calm t iso(2) proper] unfolding r(4) es_def by simp
    moreover have "always_observed t events \<longrightarrow> always_observed t r"
      using r(5) always_observed_append [OF _ calm obs] by blast
    moreover have "u \<le> v" using r(1) less.prems pos by linarith
    moreover have "\<exists>more_events. r = events @ more_events" unfolding r(4) append_assoc by blast
    ultimately show ?thesis using q r(2,3) unfolding run by blast
  qed
qed

lemma timeline_events_ok:
  "timeline names a b es \<Longrightarrow> 0 \<le> a \<Longrightarrow> b \<le> d \<Longrightarrow> e \<in> set es \<Longrightarrow> event_ok names d e"
  by (force simp: timeline_def in_span_def event_ok_def)

lemma PartitionSchedule_ok:
  assumes t: "topology_ok t" and n: "2 \<le> Nodes t" and f: "f \<in> {Drop, Refuse}"
    and m: "mixed (pcg seed 0x5EED) (Nodes t)" and d: "0 \<le> d"
  shows "\<exists>s. PartitionSchedule pcg t seed d f = Some (Inr s) \<and> schedule_ok (t_names t) s \<and> sc_dur s = d \<and>
    always_observed t (sc_events s) \<and> (0 < d \<longrightarrow> cut_off t f (sc_events s)) \<and>
    (\<forall>e \<in> set (sc_events s). d div 8 \<le> ev_At e \<and> ev_At e \<le> d - d div 8)"
proof -
  from n have "clientLinkName 0 \<in> set (t_names t)" unfolding topology_names(1) [OF t] by simp
  then have names: "t_names t \<noteq> []" by auto
  have e: "0 \<le> d div 8" "d div 8 \<le> d - d div 8" using d by linarith+
  obtain es v where es: "partition_loop t d (d div 8) f (pcg seed 0x5EED, 0) (d div 8) [] = Some es"
    and v: "d div 8 \<le> v" "v \<le> d - d div 8" and p: "phase_ok (t_names t) (d div 8) v es"
    and o: "always_observed t es" and c: "d div 8 < d - d div 8 \<longrightarrow> cut_off t f es"
    using partition_loop_ok [OF t n f m order_refl order_refl e(2) phase_ok_Nil [OF names]] always_observed_Nil [of t]
    by blast
  let ?es = "es @ HealEvents t (d - d div 8)"
  have sp: "spares (t_names t) ([] @ map (\<lambda>n. event (d - d div 8) n Pass 0) (t_names t))"
    by (rule cut_heal_spares [of "{}" Pass "d - d div 8" "[]" "clientLinkName 0"])
      (use \<open>clientLinkName 0 \<in> set (t_names t)\<close> topology_names(3) [OF t] in \<open>auto simp: cuts_in_def\<close>)
  have "phase_ok (t_names t) (d - d div 8) (d - d div 8) ([] @ HealEvents t (d - d div 8))"
    using cut_heal_timeline [of "{}" Pass _ "[]"] sp topology_names(3) [OF t]
    by (simp add: phase_ok_def HealEvents_def cuts_in_def)
  then have q: "phase_ok (t_names t) (d div 8) (d - d div 8) ?es"
    using phase_ok_append [OF p, of "d - d div 8" "d - d div 8" "HealEvents t (d - d div 8)"] v by simp
  let ?s = "\<lparr>sc_kind = ''partition'', sc_seed = seed, sc_dur = d, sc_events = ?es\<rparr>"
  from q have ok: "schedule_ok (t_names t) ?s"
    using e timeline_events_ok [of "t_names t" "d div 8" "d - d div 8" ?es d]
    by (auto simp: phase_ok_def timeline_def schedule_ok_def in_span_def)
  from schedule_ok_accepted [OF ok] d n es
  have "PartitionSchedule pcg t seed d f = Some (Inr ?s)" by (simp add: PartitionSchedule_def)
  moreover have "always_observed t ?es"
    using always_observed_append [OF o _ heal_observed [OF t]] p by (simp add: phase_ok_def timeline_def)
  moreover have "0 < d \<longrightarrow> cut_off t f ?es"
  proof
    assume "0 < d"
    then have "d div 8 < d - d div 8" by linarith
    with c show "cut_off t f ?es" by (simp add: cut_off_append)
  qed
  ultimately show ?thesis using ok q by (auto simp: phase_ok_def timeline_def in_span_def)
qed

lemma single_phase:
  assumes "name \<in> set names" and "name \<noteq> allLinks" and "at \<le> t_end" and "f \<in> {Pass, Delay, Drop, Reset, Refuse}"
  shows "timeline names at t_end [event at name f 0, event t_end name Pass 0]"
  using assms by (auto simp: timeline_def in_span_def heals_all_def apply_event_def event_def fun_eq_iff)

lemma single_loop_ok:
  assumes "name \<in> set names" and "name \<noteq> allLinks" and "f \<in> {Drop, Refuse}"
    and "lo \<le> u" "u \<le> now" "u \<le> T" and "timeline names lo u events"
  shows "\<exists>es v. single_loop name T f (draws, k) now events = Some es \<and>
    u \<le> v \<and> v \<le> T \<and> timeline names lo v es"
  using assms(4-7)
proof (induction "nat (T - now)" arbitrary: now events k u rule: less_induct)
  case less
  note step = single_loop.simps [of name T f "(draws, k)" now events]
  show ?case
  proof (cases "now < T")
    case False
    with less.prems show ?thesis by (auto simp: step)
  next
    case True
    obtain c0 g2 where c0: "jitter (draws, k) (ms 200) (ms 700) = (c0, g2)" by (meson surj_pair)
    define c where "c = (if now + c0 > T then T - now else c0)"
    obtain gap g4 where gap: "jitter g2 (ms 200) (ms 900) = (gap, g4)" by (meson surj_pair)
    note J = jitter_result [OF c0] jitter_result [OF gap]
    then obtain k4 where k4: "g4 = (draws, k4)" by (metis fst_conv prod.collapse)
    from J True have pos: "0 < c" "now + c \<le> T" "0 < gap" by (auto simp: c_def ms_def)
    let ?es = "[event now name f 0, event (now + c) name Pass 0]"
    have "timeline names now (now + c) ?es"
      using assms(3) pos(1) by (intro single_phase [OF assms(1,2)]) auto
    then have p: "timeline names lo (now + c) (events @ ?es)"
      using timeline_append [OF less.prems(4)] less.prems pos by simp
    have "single_loop name T f (draws, k) now events =
        single_loop name T f (draws, k4) (now + (c + gap)) (events @ ?es)"
      using True by (simp add: step c0 c_def [symmetric] gap k4 Let_def)
    moreover have "nat (T - (now + (c + gap))) < nat (T - now)" "lo \<le> now + c"
      "now + c \<le> now + (c + gap)" using less.prems pos True by auto
    note less.hyps [OF this pos(2) p, of k4]
    ultimately obtain r v where "single_loop name T f (draws, k) now events = Some r"
      and "now + c \<le> v" "v \<le> T" "timeline names lo v r" by auto
    moreover from this(2) less.prems pos have "u \<le> v" by linarith
    ultimately show ?thesis by blast
  qed
qed

lemma singleNodeSchedule_ok:
  assumes "names \<noteq> []" and "allLinks \<notin> set names" and f: "f \<in> {Drop, Refuse}" and d: "0 \<le> d"
  shows "\<exists>s. singleNodeSchedule draws names seed d f = Some (Inr s) \<and>
    timeline names (d div 8) (d - d div 8) (sc_events s)"
proof -
  have e: "0 \<le> d div 8" "d div 8 \<le> d - d div 8" using d by linarith+
  have name: "names ! 0 \<in> set names" "names ! 0 \<noteq> allLinks" using assms(1,2) by (cases names; auto)+
  obtain es v where es: "single_loop (names ! 0) (d - d div 8) f (draws, 0) (d div 8) [] = Some es"
    and v: "d div 8 \<le> v" "v \<le> d - d div 8" and p: "timeline names (d div 8) v es"
    using single_loop_ok [OF name f order_refl order_refl e(2) timeline_Nil] by blast
  let ?es = "es @ [event (d - d div 8) (names ! 0) Pass 0]"
  have "timeline names (d - d div 8) (d - d div 8) [event (d - d div 8) (names ! 0) Pass 0]"
    using name by (auto simp: timeline_def in_span_def heals_all_def apply_event_def event_def fun_eq_iff)
  then have q: "timeline names (d div 8) (d - d div 8) ?es"
    using timeline_append [OF p, of "d - d div 8" "d - d div 8"] v by simp
  have "NewNamedSchedule ''partition'' seed names d ?es =
      Inr \<lparr>sc_kind = ''partition'', sc_seed = seed, sc_dur = d, sc_events = ?es\<rparr>"
    using timeline_events_ok [OF q, of d] q d e event_time.sort_by_id [of ?es]
    by (auto simp: NewNamedSchedule_ok timeline_def simp del: set_append)
  with es q show ?thesis by (simp add: singleNodeSchedule_def)
qed

section \<open>A topology that cannot be built\<close>

lemma build_return_error: "build_return (Inl err) = None"
  by (simp add: build_return_def Topology_Close_def)

lemma build_return_never_errors: "build_return made \<noteq> Some (Inl err)"
  by (cases made) (auto simp: build_return_def Topology_Close_def)

lemma BuildTopology_never_errors: "BuildTopology listens addrs peers \<noteq> Some (Inl err)"
  unfolding BuildTopology_def by (rule build_return_never_errors)

text \<open>A hop can be opened when its target has an address and its listener a port.\<close>

definition opens :: "(string \<Rightarrow> bool) \<Rightarrow> string \<Rightarrow> string \<Rightarrow> bool" where
  "opens listens name addr \<longleftrightarrow> addr \<noteq> [] \<and> listens name"

lemma NewLink_opens: "(\<exists>l. NewLink name addr (listens name) = Inr l) \<longleftrightarrow> opens listens name addr"
  by (simp add: NewLink_def opens_def)

lemma build_clients_opens:
  "(\<exists>c. build_clients listens k addrs t = Inr c) \<longleftrightarrow> (\<forall>i < length addrs. opens listens (clientLinkName (k + i)) (addrs ! i))"
proof (induction addrs arbitrary: k t)
  case (Cons a addrs)
  have all: "(\<forall>i < length (a # addrs). opens listens (clientLinkName (k + i)) ((a # addrs) ! i)) \<longleftrightarrow>
      opens listens (clientLinkName k) a \<and> (\<forall>i < length addrs. opens listens (clientLinkName (Suc k + i)) (addrs ! i))"
    by (auto simp: less_Suc_eq_0_disj)
  show ?case
    unfolding all NewLink_opens [of _ a, symmetric]
    using Cons.IH by (cases "NewLink (clientLinkName k) a (listens (clientLinkName k))") (simp_all add: Let_def)
qed simp

lemma build_peers_opens:
  "(\<exists>p. build_peers listens addrs ps t = Inr p) \<longleftrightarrow>
     (\<forall>(i, j) \<in> set ps. i \<noteq> j \<longrightarrow> opens listens (peerLinkName i j) (addrs ! j))"
proof (induction listens addrs ps t rule: build_peers.induct)
  case (2 listens addrs i j ps t)
  show ?case
  proof (cases "i = j")
    case False
    with 2(2) [OF False refl] NewLink_opens [of "peerLinkName i j" "addrs ! j" listens] show ?thesis
      by (cases "NewLink (peerLinkName i j) (addrs ! j) (listens (peerLinkName i j))") (simp_all add: Let_def)
  qed (use 2(1) in simp)
qed simp

text \<open>So a topology is built when every hop opens, and every other case is the panic.\<close>

lemma BuildTopology_opens:
  "(\<exists>t. BuildTopology listens addrs peers = Some (Inr t)) \<longleftrightarrow>
     (\<forall>i < length addrs. opens listens (clientLinkName i) (addrs ! i)) \<and>
     (peers \<longrightarrow> (\<forall>i < length addrs. \<forall>j < length addrs. i \<noteq> j \<longrightarrow> opens listens (peerLinkName i j) (addrs ! j)))"
proof -
  let ?e = "\<lparr>t_client = [], t_peer = [], t_names = []\<rparr>"
  let ?ps = "List.product [0..<length addrs] [0..<length addrs]"
  have ret: "(\<exists>t. build_return made = Some (Inr t)) \<longleftrightarrow> (\<exists>t. made = Inr t)" for made
    by (cases made) (auto simp: build_return_def Topology_Close_def)
  show ?thesis
    using build_clients_opens [of listens 0 addrs ?e] build_peers_opens [of listens addrs ?ps]
    unfolding BuildTopology_def ret
    by (cases "build_clients listens 0 addrs ?e") (auto simp del: List.product.simps)
qed

lemma BuildTopology_outcomes:
  "BuildTopology listens addrs peers = None \<longleftrightarrow> \<not> (\<exists>t. BuildTopology listens addrs peers = Some (Inr t))"
proof (cases "BuildTopology listens addrs peers")
  case (Some r)
  show ?thesis
  proof (cases r)
    case (Inl err)
    with BuildTopology_never_errors [of listens addrs peers err] Some show ?thesis by simp
  qed (simp add: Some)
qed simp

text \<open>Counting draws are mixed; any sequence that alternates is.\<close>

lemma mixed_counting:
  assumes n: "2 \<le> n"
  shows "mixed (\<lambda>k. k) n"
  unfolding mixed_def
proof (rule allI, rule exI [of _ 0], rule conjI)
  fix k
  show "\<exists>a < n. (k + 0 * n + a) mod 2 = 1"
    by (rule exI [of _ "if even k then 1 else 0"]) (use n in \<open>auto simp: odd_iff_mod_2_eq_one\<close>)
  show "\<exists>a < n. (k + 0 * n + a) mod 2 \<noteq> 1"
    by (rule exI [of _ "if even k then 0 else 1"]) (use n in \<open>auto simp: odd_iff_mod_2_eq_one\<close>)
qed

end
