(* ===== verification/Cluster.thy ===== *)
theory Cluster
  imports Partition_Correct Forward_Store
begin

text \<open>
  Starting and wiring the processes of a cluster (\<open>internal/cluster/cluster.go\<close>). The operating
  system is an argument: \<open>outcomes\<close> says how each thing asked of it went. What this program has begun
  and not yet ended, processes and temporary directories, is the state \<open>host\<close>, which the operations
  pass on, so that what a failure leaves behind can be told.
\<close>

section \<open>Targets\<close>

type_synonym Target = string

definition Single :: Target where "Single = ''kvsingle''"
definition Forward :: Target where "Forward = ''kvforward''"
definition Quorum :: Target where "Quorum = ''kvquorum''"
definition Sync :: Target where "Sync = ''kvsync''"
definition SplitTarget :: Target where "SplitTarget = ''kvsplit''"

lemmas target_defs = Single_def Forward_def Quorum_def Sync_def SplitTarget_def

definition Targets :: "Target list" where
  "Targets = [Single, Forward, SplitTarget, Sync, Quorum]"

definition binary :: "Target \<Rightarrow> string" where
  "binary t = (if t = Sync then Quorum else if t = SplitTarget then Forward else t)"

definition extraArgs :: "Target \<Rightarrow> string list" where
  "extraArgs t = (if t = Sync then [''-sync''] else if t = SplitTarget then [''-promote''] else [])"

definition Replicated :: "Target \<Rightarrow> bool" where
  "Replicated t \<longleftrightarrow> t \<noteq> Single"

definition NodeCount :: "Target \<Rightarrow> int \<Rightarrow> int" where
  "NodeCount t requested = (if t = Single then 1 else if requested < 2 then 3 else requested)"

definition Target_Valid :: "Target \<Rightarrow> bool" where
  "Target_Valid t \<longleftrightarrow> t \<in> set Targets"

section \<open>Processes\<close>

record Options =
  co_Target :: Target
  co_Nodes :: int
  co_BinDir :: string
  co_Timeout :: duration
  co_StartTimeout :: duration

record Node =
  nd_ID :: string
  nd_Addr :: string
  nd_proc :: nat

record Cluster =
  ct_target :: Target
  ct_nodes :: "Node list"
  ct_tempBin :: string

text \<open>
  What this program still has to see to: the processes it started and has neither told to die nor seen
  end, and the temporary directories it made and has not yet had removed. Whether the operating system
  obeys at once, or at all, is not its state: the errors of \<open>Process.Kill\<close> and \<open>os.RemoveAll\<close> are
  discarded.
\<close>

record host =
  h_running :: "nat list"
  h_next :: nat
  h_dirs :: "string list"

text \<open>
  What the first line of a process's output was, read before the timeout; \<open>FirstLine s e\<close> has the
  error \<open>e\<close> the read ended with. Then one poll of its health endpoint.
\<close>

datatype announcement = FirstLine string bool | Silent | Cancelled

datatype poll = PollCancelled | NoRequest | PollAnswered nat | PollFailed string

datatype launch = NoPipe | NoSpawn | Spawned announcement "poll list"

record outcomes =
  os_moduleRoot :: "string option"
  os_tempDir :: "string option"
  os_goBuild :: bool
  os_stat :: "string \<Rightarrow> bool"
  os_launch :: "nat \<Rightarrow> launch"

datatype cluster_error =
    UnknownTarget Target
  | NoModule
  | NoTempDir
  | BuildFailed Target
  | NoBinary string
  | Unstarted string
  | NoAnnouncement string
  | BadAnnouncement string string
  | SilentNode string
  | StartCancelled
  | Unhealthy string
  | ConfigCount nat nat
  | NotConfigured string

text \<open>\<open>Process.Kill\<close> is called; its error is discarded and the end of the process not awaited.\<close>

definition kill :: "Node \<Rightarrow> host \<Rightarrow> host" where
  "kill n h = h\<lparr>h_running := removeAll (nd_proc n) (h_running h)\<rparr>"

text \<open>
  \<open>stop\<close> closes the process's input and waits for its end, or kills it when it does not listen and then
  waits: when it returns the process has been seen to end.
\<close>

definition stop :: "Node \<Rightarrow> host \<Rightarrow> host" where
  "stop n h = kill n h"

text \<open>
  What \<open>drainStderr\<close> writes of a node's whole output: each line under the node's name, until one does
  not fit the scanner's buffer. What filled the buffer then is gone, and the rest is copied.
\<close>

definition maxLogLine :: nat where
  "maxLogLine = 2 ^ 20"

definition dropCR :: "string \<Rightarrow> string" where
  "dropCR line = (if line \<noteq> [] \<and> last line = CHR 0x0D then butlast line else line)"

function drainStderr :: "string \<Rightarrow> string \<Rightarrow> string" where
  "drainStderr nid s =
     (if s = [] then []
      else
        let line = takeWhile (\<lambda>c. c \<noteq> CHR 0x0A) s in
        if length line \<ge> maxLogLine then
          ''['' @ nid @ ''] this node'' @ [CHR 0x27] @ ''s output can no longer be split into lines (bufio.Scanner: token too long); '' @
          ''the rest is copied through as it arrives'' @ [CHR 0x0A] @ drop maxLogLine s
        else ''['' @ nid @ ''] '' @ dropCR line @ [CHR 0x0A] @ drainStderr nid (drop (Suc (length line)) s))"
  by pat_completeness auto

termination
  by (relation "measure (\<lambda>(nid, s). length s)") auto

declare drainStderr.simps [simp del]

lemma drainStderr_lines:
  assumes "\<forall>l \<in> set ls. CHR 0x0A \<notin> set l \<and> length l < maxLogLine \<and> dropCR l = l"
  shows "drainStderr nid (concat (map (\<lambda>l. l @ [CHR 0x0A]) ls)) = concat (map (\<lambda>l. ''['' @ nid @ ''] '' @ l @ [CHR 0x0A]) ls)"
  using assms
proof (induction ls)
  case Nil
  then show ?case by (simp add: drainStderr.simps)
next
  case (Cons l ls)
  have t: "takeWhile (\<lambda>c. c \<noteq> CHR 0x0A) (l @ CHR 0x0A # rest) = l" for rest
    using Cons.prems by (subst takeWhile_append2) auto
  from Cons show ?case
    by (subst drainStderr.simps) (simp add: t not_le)
qed

text \<open>
  \<open>waitHealthy\<close> polls until its deadline: the list is what the polls before it gave. The result is
  whether the node answered.
\<close>

fun waitHealthy :: "poll list \<Rightarrow> bool" where
  "waitHealthy [] = False"
| "waitHealthy (p # ps) =
     (case p of
        PollCancelled \<Rightarrow> False
      | NoRequest \<Rightarrow> False
      | PollAnswered status \<Rightarrow> if status = 200 then True else waitHealthy ps
      | PollFailed _ \<Rightarrow> waitHealthy ps)"

definition node_args :: "string \<Rightarrow> Options \<Rightarrow> string list" where
  "node_args nid opt =
     [''-addr'', ''127.0.0.1:0'', ''-id'', nid, ''-timeout'', Duration_String (co_Timeout opt)] @ extraArgs (co_Target opt)"

definition startNode :: "string \<Rightarrow> launch \<Rightarrow> host \<Rightarrow> (cluster_error + Node) \<times> host" where
  "startNode nid l h =
     (case l of
        NoPipe \<Rightarrow> (Inl (Unstarted nid), h)
      | NoSpawn \<Rightarrow> (Inl (Unstarted nid), h)
      | Spawned a polls \<Rightarrow>
          let node = \<lparr>nd_ID = nid, nd_Addr = [], nd_proc = h_next h\<rparr>;
              h = h\<lparr>h_running := h_next h # h_running h, h_next := Suc (h_next h)\<rparr>
          in case a of
               Silent \<Rightarrow> (Inl (SilentNode nid), kill node h)
             | Cancelled \<Rightarrow> (Inl StartCancelled, kill node h)
             | FirstLine s failed \<Rightarrow>
                 let line = TrimSpace s in
                 if failed \<and> line = [] then (Inl (NoAnnouncement nid), kill node h)
                 else case CutPrefix ''listening '' line of
                   None \<Rightarrow> (Inl (BadAnnouncement nid line), kill node h)
                 | Some addr \<Rightarrow>
                     let node = node\<lparr>nd_Addr := TrimSpace addr\<rparr> in
                     if \<not> waitHealthy polls then (Inl (Unhealthy nid), kill node h)
                     else (Inr node, h))"

fun startNodes :: "(nat \<Rightarrow> launch) \<Rightarrow> nat \<Rightarrow> nat \<Rightarrow> Cluster \<Rightarrow> host \<Rightarrow> (cluster_error option \<times> Cluster) \<times> host" where
  "startNodes launches i 0 c h = ((None, c), h)"
| "startNodes launches i (Suc k) c h =
     (case startNode (''n'' @ show_nat i) (launches i) h of
        (Inl e, h) \<Rightarrow> ((Some e, c), h)
      | (Inr node, h) \<Rightarrow> startNodes launches (Suc i) k (c\<lparr>ct_nodes := ct_nodes c @ [node]\<rparr>) h)"

text \<open>
  \<open>moduleRoot\<close> climbs from the working directory to the nearest one holding a module; a directory is
  its path's elements, deepest first, and the root's parent is itself. Its answer, or the lack of a
  working directory, is what \<open>os_moduleRoot\<close> holds.
\<close>

fun moduleRoot :: "(string list \<Rightarrow> bool) \<Rightarrow> string list \<Rightarrow> string list option" where
  "moduleRoot hasModule [] = (if hasModule [] then Some [] else None)"
| "moduleRoot hasModule (d # parent) = (if hasModule (d # parent) then Some (d # parent) else moduleRoot hasModule parent)"

lemma moduleRoot_nearest:
  "moduleRoot hasModule dir = Some root \<longleftrightarrow>
     hasModule root \<and> (\<exists>below. dir = below @ root \<and> (\<forall>i < length below. \<not> hasModule (drop i dir)))"
proof (induction hasModule dir rule: moduleRoot.induct)
  case (1 hasModule)
  then show ?case by auto
next
  case (2 hasModule d parent)
  show ?case
  proof (cases "hasModule (d # parent)")
    case True
    show ?thesis
    proof
      assume "moduleRoot hasModule (d # parent) = Some root"
      with True show "hasModule root \<and> (\<exists>below. d # parent = below @ root \<and> (\<forall>i < length below. \<not> hasModule (drop i (d # parent))))"
        by (auto intro!: exI [of _ "[]"])
    next
      assume "hasModule root \<and> (\<exists>below. d # parent = below @ root \<and> (\<forall>i < length below. \<not> hasModule (drop i (d # parent))))"
      then obtain below where b: "d # parent = below @ root" "\<forall>i < length below. \<not> hasModule (drop i (d # parent))" by blast
      with True have "length below = 0" by (metis drop0 length_greater_0_conv list.size(3))
      then have "below = []" by simp
      with True b(1) [symmetric] show "moduleRoot hasModule (d # parent) = Some root" by simp
    qed
  next
    case False
    have "(\<exists>below. d # parent = below @ root \<and> (\<forall>i < length below. \<not> hasModule (drop i (d # parent)))) \<longleftrightarrow>
        (\<exists>below. parent = below @ root \<and> (\<forall>i < length below. \<not> hasModule (drop i parent)))" if "hasModule root"
    proof
      assume "\<exists>below. d # parent = below @ root \<and> (\<forall>i < length below. \<not> hasModule (drop i (d # parent)))"
      then obtain below where b: "d # parent = below @ root" "\<forall>i < length below. \<not> hasModule (drop i (d # parent))" by blast
      with False that obtain below' where "below = d # below'" by (cases below) auto
      with b show "\<exists>below. parent = below @ root \<and> (\<forall>i < length below. \<not> hasModule (drop i parent))"
        by (intro exI [of _ below']) fastforce
    next
      assume "\<exists>below. parent = below @ root \<and> (\<forall>i < length below. \<not> hasModule (drop i parent))"
      then obtain below where b: "parent = below @ root" "\<forall>i < length below. \<not> hasModule (drop i parent)" by blast
      with False show "\<exists>below. d # parent = below @ root \<and> (\<forall>i < length below. \<not> hasModule (drop i (d # parent)))"
        by (intro exI [of _ "d # below"]) (auto simp: less_Suc_eq_0_disj)
    qed
    with 2 [OF False] False show ?thesis by auto
  qed
qed

text \<open>\<open>os.RemoveAll\<close> is called; its error is discarded.\<close>

definition removeDir :: "string \<Rightarrow> host \<Rightarrow> host" where
  "removeDir d h = h\<lparr>h_dirs := removeAll d (h_dirs h)\<rparr>"

definition buildBinaries :: "outcomes \<Rightarrow> Target \<Rightarrow> host \<Rightarrow> (cluster_error + string) \<times> host" where
  "buildBinaries os t h =
     (case os_moduleRoot os of
        None \<Rightarrow> (Inl NoModule, h)
      | Some root \<Rightarrow>
          (case os_tempDir os of
             None \<Rightarrow> (Inl NoTempDir, h)
           | Some dir \<Rightarrow>
               let h = h\<lparr>h_dirs := dir # h_dirs h\<rparr> in
               if \<not> os_goBuild os then (Inl (BuildFailed t), removeDir dir h) else (Inr dir, h)))"

text \<open>\<open>Close\<close> does its work once, and nothing on a nil cluster.\<close>

definition Cluster_Close :: "Cluster option \<Rightarrow> host \<Rightarrow> host" where
  "Cluster_Close c h =
     (case c of
        None \<Rightarrow> h
      | Some c \<Rightarrow>
          let h = fold stop (ct_nodes c) h
          in if ct_tempBin c \<noteq> [] then removeDir (ct_tempBin c) h else h)"

text \<open>
  \<open>Start\<close>, without \<open>exeName\<close>. A failing return closes the cluster made so far; the deferred call
  holds the variable \<open>c\<close> and not the result.
\<close>

definition start_on :: "outcomes \<Rightarrow> Options \<Rightarrow> string \<Rightarrow> Cluster \<Rightarrow> host \<Rightarrow> (cluster_error option \<times> Cluster) \<times> host" where
  "start_on os opt binDir c h =
     (let bin = binDir @ ''/'' @ binary (co_Target opt) in
      if \<not> os_stat os bin then ((Some (NoBinary bin), c), h)
      else startNodes (os_launch os) 0 (nat (NodeCount (co_Target opt) (co_Nodes opt))) c h)"

definition Start :: "outcomes \<Rightarrow> Options \<Rightarrow> host \<Rightarrow> (cluster_error + Cluster) \<times> host" where
  "Start os opt h =
     (if \<not> Target_Valid (co_Target opt) then (Inl (UnknownTarget (co_Target opt)), h)
      else
        let opt = opt\<lparr>co_Timeout := (if co_Timeout opt \<le> 0 then ms 250 else co_Timeout opt),
              co_StartTimeout := (if co_StartTimeout opt \<le> 0 then ms 20000 else co_StartTimeout opt)\<rparr>;
            c = \<lparr>ct_target = co_Target opt, ct_nodes = [], ct_tempBin = []\<rparr>;
            ((err, c), h) =
              (if co_BinDir opt = [] then
                 (case buildBinaries os (co_Target opt) h of
                    (Inl e, h) \<Rightarrow> ((Some e, c), h)
                  | (Inr dir, h) \<Rightarrow> start_on os opt dir (c\<lparr>ct_tempBin := dir\<rparr>) h)
               else start_on os opt (co_BinDir opt) c h)
        in case err of
             Some e \<Rightarrow> (Inl e, Cluster_Close (Some c) h)
           | None \<Rightarrow> (Inr c, h))"

definition Addrs :: "Cluster \<Rightarrow> string list" where
  "Addrs c = map nd_Addr (ct_nodes c)"

text \<open>An error is the refusal of a machine policy by its message.\<close>

definition PolicyBlocked :: "string \<Rightarrow> bool" where
  "PolicyBlocked message = Contains message ''Application Control policy''"

section \<open>Configuration\<close>

record NodeConfig =
  nc_Leader :: string
  nc_Peers :: "string list"

definition blank :: NodeConfig where
  "blank = \<lparr>nc_Leader = [], nc_Peers = []\<rparr>"

text \<open>\<open>omitempty\<close> leaves an empty field out, and the node reads a missing one as not mentioned.\<close>

definition on_the_wire :: "NodeConfig \<Rightarrow> Config" where
  "on_the_wire nc =
     \<lparr>cf_Leader = (if nc_Leader nc = [] then None else Some (nc_Leader nc)),
      cf_Peers = (if nc_Peers nc = [] then None else Some (nc_Peers nc)),
      cf_Sync = None, cf_Promote = None, cf_PromoteAfter = None\<rparr>"

text \<open>How posting one configuration went: no answer, or a status and the body's \<open>ok\<close>, if it could be read.\<close>

datatype posted = PostFailed | Posted nat "bool option"

fun configure_nodes :: "(Node \<times> posted) list \<Rightarrow> cluster_error option" where
  "configure_nodes [] = None"
| "configure_nodes ((n, r) # rs) =
     (case r of
        PostFailed \<Rightarrow> Some (NotConfigured (nd_ID n))
      | Posted status ack \<Rightarrow>
          if status \<noteq> 200 then Some (NotConfigured (nd_ID n))
          else if ack = Some True then configure_nodes rs
          else Some (NotConfigured (nd_ID n)))"

definition Cluster_Configure :: "(nat \<Rightarrow> Config \<Rightarrow> posted) \<Rightarrow> Cluster \<Rightarrow> NodeConfig list \<Rightarrow> cluster_error option" where
  "Cluster_Configure post c cfg =
     (if length cfg \<noteq> length (ct_nodes c) then Some (ConfigCount (length cfg) (length (ct_nodes c)))
      else configure_nodes
        (map (\<lambda>i. (ct_nodes c ! i, post i (on_the_wire (cfg ! i)))) [0..<length (ct_nodes c)]))"

definition DefaultConfig :: "Cluster \<Rightarrow> (nat \<Rightarrow> nat \<Rightarrow> string) \<Rightarrow> NodeConfig list" where
  "DefaultConfig c peerAddr =
     (let n = length (ct_nodes c) in
      if ct_target c = Forward \<or> ct_target c = SplitTarget then
        map (\<lambda>i. if 1 \<le> i then blank\<lparr>nc_Leader := peerAddr i 0\<rparr> else blank) [0..<n]
      else if ct_target c = Quorum \<or> ct_target c = Sync then
        map (\<lambda>i. blank\<lparr>nc_Peers := map (peerAddr i) (filter (\<lambda>j. i \<noteq> j) [0..<n])\<rparr>) [0..<n]
      else replicate n blank)"

section \<open>Nothing is left running\<close>

definition host_ok :: "host \<Rightarrow> bool" where
  "host_ok h \<longleftrightarrow> (\<forall>p \<in> set (h_running h). p < h_next h)"

definition same_host :: "host \<Rightarrow> host \<Rightarrow> bool" where
  "same_host h h' \<longleftrightarrow> set (h_running h') = set (h_running h) \<and> set (h_dirs h') = set (h_dirs h)"

lemma stop_sel [simp]:
  "h_running (kill n h) = removeAll (nd_proc n) (h_running h)" "h_dirs (kill n h) = h_dirs h" "h_next (kill n h) = h_next h"
  "stop n h = kill n h"
  by (simp_all add: kill_def stop_def)

lemma removeDir_sel [simp]:
  "h_dirs (removeDir d h) = removeAll d (h_dirs h)" "h_running (removeDir d h) = h_running h" "h_next (removeDir d h) = h_next h"
  by (simp_all add: removeDir_def)

lemma fold_stop:
  "set (h_running (fold stop ns h)) = set (h_running h) - nd_proc ` set ns \<and>
   h_dirs (fold stop ns h) = h_dirs h \<and> h_next (fold stop ns h) = h_next h"
  by (induction ns arbitrary: h) auto

lemma Cluster_Close_sel:
  "set (h_running (Cluster_Close (Some c) h)) = set (h_running h) - nd_proc ` set (ct_nodes c)"
  "set (h_dirs (Cluster_Close (Some c) h)) = set (h_dirs h) - (if ct_tempBin c = [] then {} else {ct_tempBin c})"
  using fold_stop [of "ct_nodes c" h] by (simp_all add: Cluster_Close_def Let_def)

text \<open>A node that starts is one new process with an address; one that fails leaves none.\<close>

lemma announced_addr:
  assumes "CutPrefix ''listening '' (TrimSpace s) = Some addr"
  shows "TrimSpace addr \<noteq> []"
proof -
  from assms have t: "TrimSpace s = ''listening '' @ addr" by (simp add: CutPrefix_Some)
  with TrimSpace_last [of s] have l: "\<not> is_space (last (''listening '' @ addr))" by simp
  then have "addr \<noteq> []" by (auto simp: is_space_def)
  with l have "\<not> is_space (last addr)" by simp
  with \<open>addr \<noteq> []\<close> show ?thesis unfolding TrimSpace_Nil using last_in_set by blast
qed

lemma startNode_ok:
  assumes "startNode nid l h = (r, h')" and "host_ok h"
  shows "host_ok h'" and "h_dirs h' = h_dirs h"
    and "r = Inl e \<Longrightarrow> set (h_running h') = set (h_running h)"
    and "r = Inr n \<Longrightarrow> set (h_running h') = insert (nd_proc n) (set (h_running h)) \<and>
      nd_proc n \<notin> set (h_running h) \<and> nd_ID n = nid \<and> nd_Addr n \<noteq> []"
  using assms
  by (auto simp: startNode_def host_ok_def Let_def announced_addr less_SucI
      split: launch.splits announcement.splits if_splits option.splits)

lemma startNodes_ok:
  assumes "startNodes launches i k c h = ((err, c'), h')" and "host_ok h"
  shows "\<exists>new. ct_nodes c' = ct_nodes c @ new \<and> ct_tempBin c' = ct_tempBin c \<and> ct_target c' = ct_target c \<and>
    h_dirs h' = h_dirs h \<and> host_ok h' \<and> set (h_running h') = set (h_running h) \<union> nd_proc ` set new \<and>
    nd_proc ` set new \<inter> set (h_running h) = {} \<and> (\<forall>n \<in> set new. nd_Addr n \<noteq> []) \<and>
    (err = None \<longrightarrow> map nd_ID new = map (\<lambda>j. ''n'' @ show_nat j) [i..<i + k])"
  using assms
proof (induction k arbitrary: i c h)
  case 0
  then show ?case by auto
next
  case (Suc k)
  obtain r h1 where r: "startNode (''n'' @ show_nat i) (launches i) h = (r, h1)" by (meson surj_pair)
  note one = startNode_ok [OF r Suc.prems(2)]
  show ?case
  proof (cases r)
    case (Inl e)
    with Suc.prems(1) r have "err = Some e" "c' = c" "h' = h1" by auto
    with one Inl show ?thesis by auto
  next
    case (Inr n)
    with Suc.prems(1) r have "startNodes launches (Suc i) k (c\<lparr>ct_nodes := ct_nodes c @ [n]\<rparr>) h1 = ((err, c'), h')"
      by simp
    from Suc.IH [OF this one(1)] obtain new where new: "ct_nodes c' = (ct_nodes c @ [n]) @ new"
      "ct_tempBin c' = ct_tempBin c" "ct_target c' = ct_target c" "h_dirs h' = h_dirs h1" "host_ok h'"
      "set (h_running h') = set (h_running h1) \<union> nd_proc ` set new"
      "nd_proc ` set new \<inter> set (h_running h1) = {}" "\<forall>n \<in> set new. nd_Addr n \<noteq> []"
      "err = None \<longrightarrow> map nd_ID new = map (\<lambda>j. ''n'' @ show_nat j) [Suc i..<Suc i + k]"
      by auto
    have "[i..<i + Suc k] = i # [Suc i..<Suc i + k]" by (simp add: upt_conv_Cons)
    with new one(2,4) Inr show ?thesis by (intro exI [of _ "n # new"]) auto
  qed
qed

lemma start_on_ok:
  assumes "start_on os opt dir c h = ((err, c'), h')" and "host_ok h" and "ct_nodes c = []"
  shows "set (h_running h') = set (h_running h) \<union> nd_proc ` set (ct_nodes c')"
    and "nd_proc ` set (ct_nodes c') \<inter> set (h_running h) = {}" and "h_dirs h' = h_dirs h"
    and "ct_tempBin c' = ct_tempBin c" and "ct_target c' = ct_target c" and "\<forall>n \<in> set (ct_nodes c'). nd_Addr n \<noteq> []"
    and "err = None \<Longrightarrow> map nd_ID (ct_nodes c') =
      map (\<lambda>j. ''n'' @ show_nat j) [0..<nat (NodeCount (co_Target opt) (co_Nodes opt))]"
  using assms startNodes_ok [of "os_launch os" 0 "nat (NodeCount (co_Target opt) (co_Nodes opt))" c h err c' h']
  by (auto simp: start_on_def Let_def split: if_splits)

text \<open>Process numbers are never used again.\<close>

lemma startNode_next: "startNode nid l h = (r, h') \<Longrightarrow> h_next h \<le> h_next h'"
  by (auto simp: startNode_def Let_def split: launch.splits announcement.splits option.splits if_splits)

lemma startNodes_next: "startNodes launches i k c h = (r, h') \<Longrightarrow> h_next h \<le> h_next h'"
proof (induction launches i k c h rule: startNodes.induct)
  case (2 launches i k c h)
  obtain n h1 where n: "startNode (''n'' @ show_nat i) (launches i) h = (n, h1)" by (meson surj_pair)
  with startNode_next [OF n] 2 show ?case by (cases n) fastforce+
qed simp

lemma Close_next [simp]: "h_next (Cluster_Close c h) = h_next h"
  using fold_stop by (cases c) (simp_all add: Cluster_Close_def Let_def)

lemma Start_next: "Start os opt h = (r, h') \<Longrightarrow> h_next h \<le> h_next h'"
  by (fastforce simp: Start_def start_on_def buildBinaries_def Let_def dest: startNodes_next
      split: if_splits option.splits sum.splits prod.splits)

theorem Start_ok:
  assumes "Start os opt h = (r, h')" and "host_ok h"
    and "\<forall>dir. os_tempDir os = Some dir \<longrightarrow> dir \<noteq> [] \<and> dir \<notin> set (h_dirs h)"
  shows "r = Inl e \<Longrightarrow> same_host h h'"
    and "r = Inr c \<Longrightarrow> same_host h (Cluster_Close (Some c) h') \<and> ct_target c = co_Target opt \<and>
      map nd_ID (ct_nodes c) = map (\<lambda>j. ''n'' @ show_nat j) [0..<nat (NodeCount (co_Target opt) (co_Nodes opt))] \<and>
      (\<forall>n \<in> set (ct_nodes c). nd_Addr n \<noteq> [])"
proof -
  let ?opt = "opt\<lparr>co_Timeout := (if co_Timeout opt \<le> 0 then ms 250 else co_Timeout opt),
      co_StartTimeout := (if co_StartTimeout opt \<le> 0 then ms 20000 else co_StartTimeout opt)\<rparr>"
  let ?c = "\<lparr>ct_target = co_Target opt, ct_nodes = [], ct_tempBin = []\<rparr>"
  have o: "co_Target ?opt = co_Target opt" "co_Nodes ?opt = co_Nodes opt" "co_BinDir ?opt = co_BinDir opt" by simp_all
  consider (bad) "\<not> Target_Valid (co_Target opt)"
    | (given) "Target_Valid (co_Target opt)" "co_BinDir opt \<noteq> []"
    | (unbuilt) e1 h1 where "Target_Valid (co_Target opt)" "co_BinDir opt = []"
        "buildBinaries os (co_Target opt) h = (Inl e1, h1)"
    | (built) dir h1 where "Target_Valid (co_Target opt)" "co_BinDir opt = []"
        "buildBinaries os (co_Target opt) h = (Inr dir, h1)"
    by (metis old.sum.exhaust surj_pair)
  then have "(r = Inl e \<longrightarrow> same_host h h') \<and>
    (r = Inr c \<longrightarrow> same_host h (Cluster_Close (Some c) h') \<and> ct_target c = co_Target opt \<and>
      map nd_ID (ct_nodes c) = map (\<lambda>j. ''n'' @ show_nat j) [0..<nat (NodeCount (co_Target opt) (co_Nodes opt))] \<and>
      (\<forall>n \<in> set (ct_nodes c). nd_Addr n \<noteq> []))"
  proof cases
    case bad
    with assms(1) show ?thesis by (auto simp: Start_def same_host_def)
  next
    case given
    obtain err c1 h1 where s: "start_on os ?opt (co_BinDir opt) ?c h = ((err, c1), h1)" by (metis surj_pair)
    note S = start_on_ok [OF s assms(2)]
    from assms(1) given s have "(r, h') = (case err of Some e \<Rightarrow> (Inl e, Cluster_Close (Some c1) h1) | None \<Rightarrow> (Inr c1, h1))"
      by (simp add: Start_def Let_def)
    with S show ?thesis
      by (cases err) (auto simp: same_host_def Cluster_Close_sel)
  next
    case unbuilt
    then have "same_host h h1 \<and> h_running h1 = h_running h"
      using assms(3) by (auto simp: buildBinaries_def same_host_def Let_def split: option.splits if_splits)
    moreover from assms(1) unbuilt have "r = Inl e1" "h' = Cluster_Close (Some ?c) h1"
      by (simp_all add: Start_def Let_def)
    ultimately show ?thesis by (auto simp: same_host_def Cluster_Close_sel)
  next
    case built
    then have d: "dir \<noteq> []" "dir \<notin> set (h_dirs h)" "h1 = h\<lparr>h_dirs := dir # h_dirs h\<rparr>"
      using assms(3) by (auto simp: buildBinaries_def Let_def split: option.splits if_splits)
    with assms(2) have h1: "host_ok h1" by (simp add: host_ok_def)
    obtain err c2 h2 where s: "start_on os ?opt dir (?c\<lparr>ct_tempBin := dir\<rparr>) h1 = ((err, c2), h2)" by (metis surj_pair)
    note S = start_on_ok [OF s h1]
    from assms(1) built s have "(r, h') = (case err of Some e \<Rightarrow> (Inl e, Cluster_Close (Some c2) h2) | None \<Rightarrow> (Inr c2, h2))"
      by (simp add: Start_def Let_def)
    with S d show ?thesis
      by (cases err) (auto simp: same_host_def Cluster_Close_sel)
  qed
  then show "r = Inl e \<Longrightarrow> same_host h h'"
    and "r = Inr c \<Longrightarrow> same_host h (Cluster_Close (Some c) h') \<and> ct_target c = co_Target opt \<and>
      map nd_ID (ct_nodes c) = map (\<lambda>j. ''n'' @ show_nat j) [0..<nat (NodeCount (co_Target opt) (co_Nodes opt))] \<and>
      (\<forall>n \<in> set (ct_nodes c). nd_Addr n \<noteq> [])"
    by auto
qed

section \<open>Every hop goes through a proxy\<close>

definition addresses :: "NodeConfig \<Rightarrow> string set" where
  "addresses nc = (if nc_Leader nc = [] then {} else {nc_Leader nc}) \<union> set (nc_Peers nc)"

text \<open>\<open>t.PeerAddr\<close> as \<open>DefaultConfig\<close> is handed it; an index out of range would have panicked.\<close>

definition peer_addr :: "(string \<Rightarrow> string) \<Rightarrow> Topology \<Rightarrow> nat \<Rightarrow> nat \<Rightarrow> string" where
  "peer_addr addr t i j = the (PeerAddr addr t i j)"

lemma DefaultConfig_length [simp]: "length (DefaultConfig c peerAddr) = length (ct_nodes c)"
  by (simp add: DefaultConfig_def Let_def)

lemma DefaultConfig_addresses:
  assumes "i < length (ct_nodes c)" and "a \<in> addresses (DefaultConfig c peerAddr ! i)"
  shows "\<exists>j < length (ct_nodes c). j \<noteq> i \<and> a = peerAddr i j"
proof -
  from assms have "a = peerAddr i 0 \<and> 1 \<le> i \<or> (\<exists>j < length (ct_nodes c). j \<noteq> i \<and> a = peerAddr i j)"
    by (auto simp: DefaultConfig_def addresses_def blank_def Let_def split: if_splits)
  then show ?thesis
  proof
    assume "a = peerAddr i 0 \<and> 1 \<le> i"
    with assms(1) have "0 < length (ct_nodes c) \<and> 0 \<noteq> i \<and> a = peerAddr i 0" by auto
    then show ?thesis by blast
  qed
qed

lemma DefaultConfig_wires:
  assumes "i < length (ct_nodes c)" and "\<And>j. peerAddr i j \<noteq> []"
  shows "ct_target c = Forward \<or> ct_target c = SplitTarget \<Longrightarrow>
      on_the_wire (DefaultConfig c peerAddr ! i) =
        \<lparr>cf_Leader = (if i = 0 then None else Some (peerAddr i 0)), cf_Peers = None, cf_Sync = None,
          cf_Promote = None, cf_PromoteAfter = None\<rparr>"
    and "ct_target c = Quorum \<or> ct_target c = Sync \<Longrightarrow> 2 \<le> length (ct_nodes c) \<Longrightarrow>
      on_the_wire (DefaultConfig c peerAddr ! i) =
        \<lparr>cf_Leader = None, cf_Peers = Some (map (peerAddr i) (filter (\<lambda>j. i \<noteq> j) [0..<length (ct_nodes c)])),
          cf_Sync = None, cf_Promote = None, cf_PromoteAfter = None\<rparr>"
proof -
  assume q: "ct_target c = Quorum \<or> ct_target c = Sync" and n: "2 \<le> length (ct_nodes c)"
  have "\<exists>j \<in> set [0..<length (ct_nodes c)]. i \<noteq> j"
    using n by (intro bexI [of _ "if i = 0 then 1 else 0"]) auto
  then have "filter (\<lambda>j. i \<noteq> j) [0..<length (ct_nodes c)] \<noteq> []" by (auto simp: filter_empty_conv)
  moreover have "\<not> (ct_target c = Forward \<or> ct_target c = SplitTarget)" using q by (auto simp: target_defs)
  ultimately show "on_the_wire (DefaultConfig c peerAddr ! i) =
        \<lparr>cf_Leader = None, cf_Peers = Some (map (peerAddr i) (filter (\<lambda>j. i \<noteq> j) [0..<length (ct_nodes c)])),
          cf_Sync = None, cf_Promote = None, cf_PromoteAfter = None\<rparr>"
    using q assms(1) by (simp add: DefaultConfig_def Let_def on_the_wire_def blank_def)
qed (use assms in \<open>auto simp: DefaultConfig_def Let_def on_the_wire_def blank_def\<close>)

text \<open>
  The addresses the nodes of a replicated target are given are those of peer links, and a partition
  puts its fault on exactly the ones that cross it.
\<close>

lemma configured_hops:
  assumes "BuildTopology listens (Addrs c) True = Some (Inr t)" and "i < length (ct_nodes c)"
    and "a \<in> addresses (DefaultConfig c (peer_addr addr t) ! i)"
  shows "\<exists>j l. j < length (ct_nodes c) \<and> j \<noteq> i \<and> ((i, j), l) \<in> set (t_peer t) \<and> a = addr (l_name l) \<and>
    l_target l = Addrs c ! j \<and> Links t (l_name l) = Some l \<and>
    weather (CutEvents t at isolated f) calm (l_name l) = (if (i \<in> set isolated) \<noteq> (j \<in> set isolated) then f else Pass)"
proof -
  have n: "length (Addrs c) = length (ct_nodes c)" by (simp add: Addrs_def)
  from DefaultConfig_addresses [OF assms(2,3)] obtain j where j: "j < length (ct_nodes c)" "j \<noteq> i"
    and a: "a = peer_addr addr t i j" by auto
  with assms(1,2) n PeerAddr_link(1) [OF assms(1), of i j addr] PeerAddr_link(2) [OF assms(1), of i j]
  have k: "a = addr (peerLinkName i j)" "(i, j) \<in> fst ` set (t_peer t)" by (auto simp: peer_addr_def)
  then obtain l where l: "((i, j), l) \<in> set (t_peer t)" by auto
  with BuildTopology_lead [OF assms(1)] have nm: "l_name l = peerLinkName i j" "l_target l = Addrs c ! j"
    by (auto simp: links_lead_def)
  note ok = BuildTopology_ok(1) [OF assms(1)]
  have d: "distinct (map fst (map (\<lambda>((i, j), l). (peerLinkName i j, l)) (t_peer t)))"
  proof -
    have "map fst (map (\<lambda>((i, j), l). (peerLinkName i j, l)) (t_peer t)) = map (\<lambda>(i, j). peerLinkName i j) (map fst (t_peer t))"
      by (simp only: map_map o_def case_prod_beta fst_conv)
    moreover have "distinct (map (\<lambda>(i, j). peerLinkName i j) (map fst (t_peer t)))"
      using ok by (subst distinct_map) (auto simp: topology_ok_def inj_on_def)
    ultimately show ?thesis by (simp only:)
  qed
  have "(peerLinkName i j, l) \<in> set (map (\<lambda>((i, j), l). (peerLinkName i j, l)) (t_peer t))"
    using l by force
  with d have "map_of (map (\<lambda>((i, j), l). (peerLinkName i j, l)) (t_peer t)) (peerLinkName i j) = Some l"
    by (rule map_of_is_SomeI)
  then have "Links t (l_name l) = Some l" by (simp add: Links_def nm map_add_Some_iff)
  with j k l nm weather_CutEvents [OF ok k(2)] show ?thesis by metis
qed

end
