(* ===== verification/Harness.thy ===== *)
theory Harness
  imports Partition_Correct Kv_Protocol
begin

text \<open>
  The harness (\<open>internal/harness/harness.go\<close>): the configuration and its checks, the schedule of a
  run, the operation generator, and the books \<open>Run\<close> keeps while its clients work: which process
  issues the next operation, which processes are retired, and how many operations were begun.
\<close>

section \<open>Configuration\<close>

record Config =
  cfg_Clients :: int
  cfg_Keys :: int
  cfg_Duration :: duration
  cfg_MaxOps :: int
  cfg_OpTimeout :: duration
  cfg_ThinkMax :: duration
  cfg_ThinkMaxSet :: bool
  cfg_ValueMax :: int
  cfg_Faults :: string
  cfg_Seed :: int
  cfg_Quiesce :: duration
  cfg_QuiesceSet :: bool
  cfg_KeepAlive :: bool

definition WithDefaults :: "Config \<Rightarrow> Config" where
  "WithDefaults c =
     c\<lparr>cfg_Clients := (if cfg_Clients c = 0 then 6 else cfg_Clients c),
       cfg_Keys := (if cfg_Keys c = 0 then 4 else cfg_Keys c),
       cfg_Duration := (if cfg_Duration c = 0 then ms 8000 else cfg_Duration c),
       cfg_OpTimeout := (if cfg_OpTimeout c = 0 then ms 400 else cfg_OpTimeout c),
       cfg_ThinkMax := (if cfg_ThinkMax c = 0 \<and> \<not> cfg_ThinkMaxSet c then ms 8 else cfg_ThinkMax c),
       cfg_ValueMax := (if cfg_ValueMax c = 0 then 1000000 else cfg_ValueMax c),
       cfg_Faults := (if cfg_Faults c = [] then ''partition'' else cfg_Faults c),
       cfg_Quiesce := (if cfg_Quiesce c = 0 \<and> \<not> cfg_QuiesceSet c then ms 750 else cfg_Quiesce c)\<rparr>"

definition MinValueMax :: int where
  "MinValueMax = 2"

datatype config_error =
    NegativeSetting string duration
  | FewClients int
  | FewKeys int
  | SmallDomain int
  | NegativeCap int

fun first_negative :: "(string \<times> duration) list \<Rightarrow> config_error option" where
  "first_negative [] = None"
| "first_negative ((name, v) # rest) = (if v < 0 then Some (NegativeSetting name v) else first_negative rest)"

definition Config_Validate :: "Config \<Rightarrow> config_error option" where
  "Config_Validate c =
     (case first_negative [(''duration'', cfg_Duration c), (''op-timeout'', cfg_OpTimeout c),
         (''think'', cfg_ThinkMax c), (''quiesce'', cfg_Quiesce c)] of
        Some err \<Rightarrow> Some err
      | None \<Rightarrow>
          if cfg_Clients c < 1 then Some (FewClients (cfg_Clients c))
          else if cfg_Keys c < 1 then Some (FewKeys (cfg_Keys c))
          else if cfg_ValueMax c < MinValueMax then Some (SmallDomain (cfg_ValueMax c))
          else if cfg_MaxOps c < 0 then Some (NegativeCap (cfg_MaxOps c))
          else None)"

lemma WithDefaults_sel:
  "cfg_Clients (WithDefaults c) = (if cfg_Clients c = 0 then 6 else cfg_Clients c)"
  "cfg_Keys (WithDefaults c) = (if cfg_Keys c = 0 then 4 else cfg_Keys c)"
  "cfg_Duration (WithDefaults c) = (if cfg_Duration c = 0 then ms 8000 else cfg_Duration c)"
  "cfg_OpTimeout (WithDefaults c) = (if cfg_OpTimeout c = 0 then ms 400 else cfg_OpTimeout c)"
  "cfg_ThinkMax (WithDefaults c) = (if cfg_ThinkMax c = 0 \<and> \<not> cfg_ThinkMaxSet c then ms 8 else cfg_ThinkMax c)"
  "cfg_ValueMax (WithDefaults c) = (if cfg_ValueMax c = 0 then 1000000 else cfg_ValueMax c)"
  "cfg_Faults (WithDefaults c) = (if cfg_Faults c = [] then ''partition'' else cfg_Faults c)"
  "cfg_Quiesce (WithDefaults c) = (if cfg_Quiesce c = 0 \<and> \<not> cfg_QuiesceSet c then ms 750 else cfg_Quiesce c)"
  "cfg_MaxOps (WithDefaults c) = cfg_MaxOps c" "cfg_Seed (WithDefaults c) = cfg_Seed c"
  "cfg_ThinkMaxSet (WithDefaults c) = cfg_ThinkMaxSet c" "cfg_QuiesceSet (WithDefaults c) = cfg_QuiesceSet c"
  "cfg_KeepAlive (WithDefaults c) = cfg_KeepAlive c"
  unfolding WithDefaults_def by (simp_all split del: if_split)

lemma WithDefaults_idem: "WithDefaults (WithDefaults c) = WithDefaults c"
  by (rule Config.equality) (simp_all add: WithDefaults_sel ms_def)

lemma first_negative_None: "first_negative xs = None \<longleftrightarrow> (\<forall>x \<in> set xs. 0 \<le> snd x)"
  by (induction xs rule: first_negative.induct) auto

lemma Config_Validate_None:
  "Config_Validate c = None \<longleftrightarrow>
     0 \<le> cfg_Duration c \<and> 0 \<le> cfg_OpTimeout c \<and> 0 \<le> cfg_ThinkMax c \<and> 0 \<le> cfg_Quiesce c \<and>
     1 \<le> cfg_Clients c \<and> 1 \<le> cfg_Keys c \<and> 2 \<le> cfg_ValueMax c \<and> 0 \<le> cfg_MaxOps c"
proof -
  let ?xs = "[(''duration'', cfg_Duration c), (''op-timeout'', cfg_OpTimeout c),
    (''think'', cfg_ThinkMax c), (''quiesce'', cfg_Quiesce c)]"
  have "Config_Validate c = None \<longleftrightarrow> first_negative ?xs = None \<and>
      1 \<le> cfg_Clients c \<and> 1 \<le> cfg_Keys c \<and> 2 \<le> cfg_ValueMax c \<and> 0 \<le> cfg_MaxOps c"
    unfolding Config_Validate_def MinValueMax_def
    by (cases "first_negative ?xs") (simp_all add: not_less)
  then show ?thesis unfolding first_negative_None by simp
qed

text \<open>A configuration is refused after the defaults exactly where a caller chose something impossible.\<close>

lemma default_positive: "0 < b \<Longrightarrow> 0 \<le> (if (a :: int) = 0 then b else a) \<longleftrightarrow> 0 \<le> a"
  "0 < b \<Longrightarrow> 0 \<le> (if (a :: int) = 0 \<and> s then b else a) \<longleftrightarrow> 0 \<le> a"
  "1 \<le> b \<Longrightarrow> 1 \<le> (if (a :: int) = 0 then b else a) \<longleftrightarrow> 0 \<le> a"
  by auto

lemma Validate_WithDefaults:
  "Config_Validate (WithDefaults c) = None \<longleftrightarrow>
     0 \<le> cfg_Duration c \<and> 0 \<le> cfg_OpTimeout c \<and> 0 \<le> cfg_ThinkMax c \<and> 0 \<le> cfg_Quiesce c \<and>
     0 \<le> cfg_Clients c \<and> 0 \<le> cfg_Keys c \<and> (cfg_ValueMax c = 0 \<or> 2 \<le> cfg_ValueMax c) \<and> 0 \<le> cfg_MaxOps c"
  unfolding Config_Validate_None WithDefaults_sel by (simp add: default_positive ms_def del: split_paired_All)

section \<open>Keys and the schedule of a run\<close>

definition run_keys :: "nat \<Rightarrow> string list" where
  "run_keys n = map (\<lambda>i. ''k'' @ show_nat i) [0..<n]"

lemma run_keys_distinct: "distinct (run_keys n)"
  by (auto simp: run_keys_def distinct_map inj_on_def dest: show_nat_inj)

datatype run_error = BadConfig config_error | BadSchedule schedule_error | EmptyTopology | TooFewPerNode int nat

definition BuildSchedule ::
  "(int \<Rightarrow> 64 word \<Rightarrow> nat \<Rightarrow> nat) \<Rightarrow> Topology \<Rightarrow> Config \<Rightarrow> (run_error + Schedule) option" where
  "BuildSchedule pcg t cfg =
     (let cfg = WithDefaults cfg;
          wrap = map_option (\<lambda>r. case r of Inl e \<Rightarrow> Inl (BadSchedule e) | Inr s \<Rightarrow> Inr s)
      in case Config_Validate cfg of
           Some e \<Rightarrow> Some (Inl (BadConfig e))
         | None \<Rightarrow>
             if cfg_Faults cfg = ''none'' then
               Some (Inr \<lparr>sc_kind = ''healthy'', sc_seed = cfg_Seed cfg, sc_dur = cfg_Duration cfg, sc_events = []\<rparr>)
             else if cfg_Faults cfg = ''partition'' then
               wrap (PartitionSchedule pcg t (cfg_Seed cfg) (cfg_Duration cfg) Drop)
             else if cfg_Faults cfg = ''refuse'' then
               wrap (PartitionSchedule pcg t (cfg_Seed cfg) (cfg_Duration cfg) Refuse)
             else wrap (Generate pcg (cfg_Faults cfg) (t_names t) (cfg_Seed cfg) (cfg_Duration cfg)))"

text \<open>What \<open>Run\<close> checks before it starts anything.\<close>

definition run_checks :: "Topology option \<Rightarrow> Config \<Rightarrow> run_error option" where
  "run_checks t cfg =
     (let cfg = WithDefaults cfg in
      case Config_Validate cfg of
        Some e \<Rightarrow> Some (BadConfig e)
      | None \<Rightarrow>
          (case t of
             None \<Rightarrow> Some EmptyTopology
           | Some t \<Rightarrow>
               if Nodes t = 0 then Some EmptyTopology
               else if cfg_Clients cfg < int (Nodes t) then Some (TooFewPerNode (cfg_Clients cfg) (Nodes t))
               else None))"

text \<open>Clients are spread round-robin, so with the checks passed no node is left without one.\<close>

definition client_node :: "Topology \<Rightarrow> nat \<Rightarrow> nat" where
  "client_node t i = i mod Nodes t"

lemma every_node_has_a_client:
  "run_checks (Some t) cfg = None \<Longrightarrow> n < Nodes t \<Longrightarrow>
     \<exists>i. int i < cfg_Clients (WithDefaults cfg) \<and> client_node t i = n"
  by (rule exI [of _ n])
    (auto simp: run_checks_def client_node_def Let_def split: option.splits if_splits)

section \<open>Generating operations\<close>

partial_function (option) other_value :: "rng \<Rightarrow> int \<Rightarrow> int \<Rightarrow> (int \<times> rng) option" where
  "other_value g valueMax v =
     (case IntN g valueMax of (x, g) \<Rightarrow>
        if 1 + x = v then other_value g valueMax v else Some (1 + x, g))"

definition generate_op ::
  "rng \<Rightarrow> string list \<Rightarrow> (string \<Rightarrow> int option) \<Rightarrow> int \<Rightarrow> (Request \<times> rng) option" where
  "generate_op g keys believed valueMax =
     (let (k, g) = IntN g (int (length keys)); key = keys ! nat k; (n, g) = IntN g 100 in
      if n < 35 then Some (\<lparr>q_Kind = Read, q_Key = key, q_Value = 0, q_From = 0, q_To = 0\<rparr>, g)
      else if n < 70 then
        (case IntN g valueMax of (x, g) \<Rightarrow>
           Some (\<lparr>q_Kind = Write, q_Key = key, q_Value = 1 + x, q_From = 0, q_To = 0\<rparr>, g))
      else
        let (from_v, g) = (case believed key of
              None \<Rightarrow> IntN g valueMax
            | Some b \<Rightarrow> (case IntN g 10 of (x, g) \<Rightarrow> if x = 0 then IntN g valueMax else (b, g)))
        in map_option (\<lambda>(to, g). (\<lparr>q_Kind = CAS, q_Key = key, q_Value = 0, q_From = from_v, q_To = to\<rparr>, g))
             (other_value g valueMax from_v))"

text \<open>No value is drawn for ever: from every point some later draw differs from it.\<close>

definition varied :: "(nat \<Rightarrow> nat) \<Rightarrow> int \<Rightarrow> bool" where
  "varied draws n \<longleftrightarrow> (\<forall>k v. \<exists>j. int (draws (k + j)) mod n \<noteq> v)"

lemma varied_counting: "2 \<le> n \<Longrightarrow> varied (\<lambda>k. k) n"
  unfolding varied_def
proof (intro allI)
  fix k :: nat and v :: int
  assume n: "2 \<le> n"
  have "int k mod n \<noteq> (int k + 1) mod n"
  proof
    assume "int k mod n = (int k + 1) mod n"
    then have "n dvd int k - (int k + 1)" by (simp add: mod_eq_dvd_iff)
    then have "n dvd 1" by simp
    with n show False by auto
  qed
  then have "int (k + 0) mod n \<noteq> v \<or> int (k + 1) mod n \<noteq> v" by (auto simp: add.commute)
  then show "\<exists>j. int (k + j) mod n \<noteq> v" by blast
qed

lemma other_bound: "0 < n \<Longrightarrow> 1 + int (draws k) mod n \<le> n"
  using pos_mod_bound [of n "int (draws k)"] by linarith

lemma other_value_returns:
  assumes "int (draws (k + j)) mod n \<noteq> v - 1" and "0 < n"
  shows "\<exists>to k'. other_value (draws, k) n v = Some (to, (draws, k')) \<and> to \<noteq> v \<and> 1 \<le> to \<and> to \<le> n"
  using assms(1)
proof (induction j arbitrary: k)
  case 0
  with other_bound [OF assms(2), of draws k] show ?case using assms(2)
    by (auto simp: other_value.simps [of "(draws, k)" n] IntN_def)
next
  case (Suc j)
  show ?case
  proof (cases "1 + int (draws k) mod n = v")
    case True
    from Suc.IH [of "Suc k"] Suc.prems True show ?thesis
      by (simp add: other_value.simps [of "(draws, k)" n] IntN_def)
  next
    case False
    with other_bound [OF assms(2), of draws k] show ?thesis using assms(2)
      by (auto simp: other_value.simps [of "(draws, k)" n] IntN_def)
  qed
qed

definition request_in :: "string list \<Rightarrow> int \<Rightarrow> Request \<Rightarrow> bool" where
  "request_in keys valueMax r \<longleftrightarrow> q_Key r \<in> set keys \<and> q_Kind r \<in> {Read, Write, CAS} \<and>
     (q_Kind r = Write \<longrightarrow> 1 \<le> q_Value r \<and> q_Value r \<le> valueMax) \<and>
     (q_Kind r = CAS \<longrightarrow> q_To r \<noteq> q_From r \<and> 1 \<le> q_To r \<and> q_To r \<le> valueMax)"

text \<open>
  What a compare-and-swap expects is the value its client last saw, or one drawn from the domain with
  the initial zero; and a field its kind has no use for is zero.
\<close>

definition expects :: "(string \<Rightarrow> int option) \<Rightarrow> int \<Rightarrow> Request \<Rightarrow> bool" where
  "expects believed valueMax r \<longleftrightarrow>
     (q_Kind r = CAS \<longrightarrow> believed (q_Key r) = Some (q_From r) \<or> 0 \<le> q_From r \<and> q_From r < valueMax) \<and>
     (q_Kind r \<noteq> Write \<longrightarrow> q_Value r = 0) \<and> (q_Kind r \<noteq> CAS \<longrightarrow> q_From r = 0 \<and> q_To r = 0)"

lemma generate_op_ok:
  assumes "varied draws valueMax" and "keys \<noteq> []" and "0 < valueMax"
  shows "\<exists>r k'. generate_op (draws, k) keys believed valueMax = Some (r, (draws, k')) \<and> request_in keys valueMax r \<and>
    expects believed valueMax r"
proof -
  let ?key = "keys ! nat (int (draws k) mod int (length keys))"
  have key: "?key \<in> set keys"
    using assms(2) by (intro nth_mem) (simp add: nat_less_iff)
  have ret: "\<exists>to k'. other_value (draws, i) valueMax v = Some (to, (draws, k')) \<and> to \<noteq> v \<and> 1 \<le> to \<and> to \<le> valueMax" for i v
  proof -
    from assms(1) obtain j where "int (draws (i + j)) mod valueMax \<noteq> v - 1" unfolding varied_def by blast
    then show ?thesis using assms(3) by (rule other_value_returns)
  qed
  let ?n = "int (draws (Suc k)) mod 100"
  consider "?n < 35" | "35 \<le> ?n" "?n < 70" | "70 \<le> ?n" by linarith
  then show ?thesis
  proof cases
    case 1
    then show ?thesis by (simp add: generate_op_def IntN_def request_in_def expects_def key)
  next
    case 2
    with other_bound [OF assms(3), of draws "Suc (Suc k)"] assms(3) show ?thesis
      by (simp add: generate_op_def IntN_def request_in_def expects_def key)
  next
    case 3
    define p where "p = (case believed ?key of
        None \<Rightarrow> IntN (draws, Suc (Suc k)) valueMax
      | Some b \<Rightarrow> (case IntN (draws, Suc (Suc k)) 10 of (x, g) \<Rightarrow> if x = 0 then IntN g valueMax else (b, g)))"
    have "fst (snd p) = draws \<and> (believed ?key = Some (fst p) \<or> 0 \<le> fst p \<and> fst p < valueMax)"
      unfolding p_def using assms(3) by (cases "believed ?key") (auto simp: IntN_def)
    then obtain v i where p: "p = (v, (draws, i))" and v: "believed ?key = Some v \<or> 0 \<le> v \<and> v < valueMax"
      by (cases p) auto
    from ret [of i v] obtain to k' where o: "other_value (draws, i) valueMax v = Some (to, (draws, k'))"
      and "to \<noteq> v" "1 \<le> to" "to \<le> valueMax" by blast
    have g0: "IntN (draws, k) (int (length keys)) = (int (draws k) mod int (length keys), (draws, Suc k))"
      and g1: "IntN (draws, Suc k) 100 = (?n, (draws, Suc (Suc k)))" by (simp_all add: IntN_def)
    from 3 p [unfolded p_def] o
    have "generate_op (draws, k) keys believed valueMax =
        Some (\<lparr>q_Kind = CAS, q_Key = ?key, q_Value = 0, q_From = v, q_To = to\<rparr>, (draws, k'))"
      by (simp only: generate_op_def g0 g1 Let_def prod.case) simp
    with \<open>to \<noteq> v\<close> \<open>1 \<le> to\<close> \<open>to \<le> valueMax\<close> key v show ?thesis by (simp add: request_in_def expects_def)
  qed
qed

text \<open>What the draws decide: the mix of the kinds, and how often a client trusts what it last saw.\<close>

lemma generate_op_draws:
  assumes "generate_op (draws, k) keys believed valueMax = Some (r, g)"
  shows "q_Key r = keys ! (draws k mod length keys)"
    and "q_Kind r = (if draws (Suc k) mod 100 < 35 then Read else if draws (Suc k) mod 100 < 70 then Write else CAS)"
    and "q_Kind r = CAS \<Longrightarrow> believed (q_Key r) = Some b \<Longrightarrow> draws (Suc (Suc k)) mod 10 \<noteq> 0 \<Longrightarrow> q_From r = b"
proof -
  let ?n = "int (draws (Suc k)) mod 100" and ?key = "keys ! (draws k mod length keys)"
  have key: "keys ! nat (int (draws k) mod int (length keys)) = ?key" by (simp flip: of_nat_mod)
  have i: "?n < 35 \<longleftrightarrow> draws (Suc k) mod 100 < 35" "?n < 70 \<longleftrightarrow> draws (Suc k) mod 100 < 70"
    "int (draws (Suc (Suc k))) mod 10 = 0 \<longleftrightarrow> draws (Suc (Suc k)) mod 10 = 0"
  proof -
    have m: "int x mod 100 = int (x mod 100)" "int x mod 10 = int (x mod 10)" for x by (simp_all add: zmod_int)
    show "?n < 35 \<longleftrightarrow> draws (Suc k) mod 100 < 35" "?n < 70 \<longleftrightarrow> draws (Suc k) mod 100 < 70"
      "int (draws (Suc (Suc k))) mod 10 = 0 \<longleftrightarrow> draws (Suc (Suc k)) mod 10 = 0"
      unfolding m by (simp_all only: of_nat_less_numeral_iff of_nat_eq_0_iff)
  qed
  define p where "p = (case believed ?key of
      None \<Rightarrow> IntN (draws, Suc (Suc k)) valueMax
    | Some b \<Rightarrow> (case IntN (draws, Suc (Suc k)) 10 of (x, g) \<Rightarrow> if x = 0 then IntN g valueMax else (b, g)))"
  have "(if ?n < 35 then Some (\<lparr>q_Kind = Read, q_Key = ?key, q_Value = 0, q_From = 0, q_To = 0\<rparr>, (draws, Suc (Suc k)))
      else if ?n < 70 then
        (case IntN (draws, Suc (Suc k)) valueMax of (x, g) \<Rightarrow>
           Some (\<lparr>q_Kind = Write, q_Key = ?key, q_Value = 1 + x, q_From = 0, q_To = 0\<rparr>, g))
      else (case p of (v, h) \<Rightarrow>
        map_option (\<lambda>(to, g). (\<lparr>q_Kind = CAS, q_Key = ?key, q_Value = 0, q_From = v, q_To = to\<rparr>, g))
          (other_value h valueMax v))) = Some (r, g)"
    using assms
    unfolding generate_op_def IntN_def [of "(draws, k)"] IntN_def [of "(draws, Suc k)"] Let_def prod.case
      fst_conv snd_conv key p_def .
  moreover have "fst p = b" if "believed ?key = Some b" "draws (Suc (Suc k)) mod 10 \<noteq> 0"
    using that i(3) by (simp add: p_def IntN_def)
  ultimately show "q_Key r = ?key"
    "q_Kind r = (if draws (Suc k) mod 100 < 35 then Read else if draws (Suc k) mod 100 < 70 then Write else CAS)"
    "q_Kind r = CAS \<Longrightarrow> believed (q_Key r) = Some b \<Longrightarrow> draws (Suc (Suc k)) mod 10 \<noteq> 0 \<Longrightarrow> q_From r = b"
    unfolding i(1,2) by (auto split: if_splits prod.splits)
qed

text \<open>A domain of one value is an impossible one: a client that believes it never finds another.\<close>

lemma other_value_none: "other_value g 1 1 = None"
proof (rule ccontr)
  assume "other_value g 1 1 \<noteq> None"
  then obtain y where "other_value g 1 1 = Some y" by blast
  moreover have "n = 1 \<longrightarrow> v \<noteq> 1" if "other_value h n v = Some z" for h n v z
    using that by (rule other_value.raw_induct [rotated]) (auto simp: IntN_def split: if_splits)
  ultimately show False by blast
qed

section \<open>The books of a run\<close>

datatype stage = Idle | Passed | Busy

record client_state =
  cl_proc :: int
  cl_node :: string
  cl_believed :: "string \<Rightarrow> int option"
  cl_stage :: stage

record books =
  b_next :: int
  b_count :: int
  b_nodes :: "int \<Rightarrow> string option"
  b_ops :: "Op list"
  b_clients :: "client_state list"

definition new_client :: "int \<Rightarrow> string \<Rightarrow> client_state" where
  "new_client p node = \<lparr>cl_proc = p, cl_node = node, cl_believed = Map.empty, cl_stage = Idle\<rparr>"

definition open_books :: "nat \<Rightarrow> nat \<Rightarrow> books" where
  "open_books nodes clients =
     \<lparr>b_next = int clients, b_count = 0,
      b_nodes = map_of (map (\<lambda>i. (int i, clientLinkName (i mod nodes))) [0..<clients]), b_ops = [],
      b_clients = map (\<lambda>i. new_client (int i) (clientLinkName (i mod nodes))) [0..<clients]\<rparr>"

text \<open>What a client takes from an operation's result into its next one.\<close>

definition believe :: "Op \<Rightarrow> (string \<Rightarrow> int option) \<Rightarrow> string \<Rightarrow> int option" where
  "believe op m =
     (if Outcome op = Info then m(Key op := None)
      else if Outcome op = OK \<and> OpKind op = Read then m(Key op \<mapsto> Observed op)
      else if Outcome op = OK \<and> OpKind op = Write then m(Key op \<mapsto> Value op)
      else if Outcome op = OK \<and> OpKind op = CAS \<and> Swapped op then m(Key op \<mapsto> To op)
      else m)"

text \<open>Recording an operation; an indeterminate one retires the process that issued it.\<close>

definition record_op :: "nat \<Rightarrow> Op \<Rightarrow> books \<Rightarrow> books" where
  "record_op i op b =
     (let c = (b_clients b ! i)\<lparr>cl_believed := believe op (cl_believed (b_clients b ! i)), cl_stage := Idle\<rparr>;
          b = b\<lparr>b_ops := b_ops b @ [op]\<rparr>
      in if Outcome op = Info then
           b\<lparr>b_next := b_next b + 1, b_nodes := (b_nodes b)(b_next b + 1 \<mapsto> cl_node c),
             b_clients := (b_clients b)[i := c\<lparr>cl_proc := b_next b + 1\<rparr>]\<rparr>
         else b\<lparr>b_clients := (b_clients b)[i := c]\<rparr>)"

text \<open>
  A client looks at the operation count, begins an operation, and records it. The look and the count
  are two atomic operations. \<open>settles\<close> is the quiescent phase opening a client with a fresh process;
  its reads are not counted.
\<close>

inductive book_step :: "int \<Rightarrow> books \<Rightarrow> books \<Rightarrow> bool" for maxOps where
  looks: "i < length (b_clients b) \<Longrightarrow> cl_stage (b_clients b ! i) = Idle \<Longrightarrow>
    \<not> (maxOps > 0 \<and> b_count b \<ge> maxOps) \<Longrightarrow>
    book_step maxOps b (b\<lparr>b_clients := (b_clients b)[i := (b_clients b ! i)\<lparr>cl_stage := Passed\<rparr>]\<rparr>)"
| begins: "i < length (b_clients b) \<Longrightarrow> cl_stage (b_clients b ! i) = Passed \<Longrightarrow>
    book_step maxOps b (b\<lparr>b_count := b_count b + 1,
      b_clients := (b_clients b)[i := (b_clients b ! i)\<lparr>cl_stage := Busy\<rparr>]\<rparr>)"
| records: "i < length (b_clients b) \<Longrightarrow> cl_stage (b_clients b ! i) = Busy \<Longrightarrow>
    Process op = cl_proc (b_clients b ! i) \<Longrightarrow> book_step maxOps b (record_op i op b)"

inductive settle_step :: "books \<Rightarrow> books \<Rightarrow> bool" where
  settles: "settle_step b (b\<lparr>b_next := b_next b + 1, b_nodes := (b_nodes b)(b_next b + 1 \<mapsto> node),
      b_clients := b_clients b @ [new_client (b_next b + 1) node]\<rparr>)"
| reads: "i < length (b_clients b) \<Longrightarrow> Process op = cl_proc (b_clients b ! i) \<Longrightarrow>
    settle_step b (record_op i op b)"

definition run_books :: "nat \<Rightarrow> nat \<Rightarrow> int \<Rightarrow> books \<Rightarrow> bool" where
  "run_books nodes clients maxOps b \<longleftrightarrow>
     (\<exists>b0. (book_step maxOps)\<^sup>*\<^sup>* (open_books nodes clients) b0 \<and> settle_step\<^sup>*\<^sup>* b0 b)"

text \<open>Once a process has an indeterminate operation it issues no other.\<close>

fun retires :: "Op list \<Rightarrow> bool" where
  "retires [] = True"
| "retires (op # ops) \<longleftrightarrow> (Outcome op = Info \<longrightarrow> Process op \<notin> Process ` set ops) \<and> retires ops"

lemma retires_append:
  "retires (xs @ ys) \<longleftrightarrow> retires xs \<and> retires ys \<and>
     (\<forall>x \<in> set xs. Outcome x = Info \<longrightarrow> Process x \<notin> Process ` set ys)"
  by (induction xs) auto

definition procs :: "client_state list \<Rightarrow> int set" where
  "procs cs = set (map cl_proc cs)"

definition books_inv :: "books \<Rightarrow> bool" where
  "books_inv b \<longleftrightarrow>
     distinct (map cl_proc (b_clients b)) \<and>
     procs (b_clients b) \<union> Process ` set (b_ops b) \<subseteq> {..b_next b} \<inter> dom (b_nodes b) \<and>
     (\<forall>op \<in> set (b_ops b). Outcome op = Info \<longrightarrow> Process op \<notin> procs (b_clients b)) \<and>
     retires (b_ops b)"

lemma books_inv_open: "books_inv (open_books nodes clients)"
  by (auto simp: books_inv_def open_books_def new_client_def distinct_map inj_on_def o_def procs_def
    dom_map_of_conv_image_fst image_image)

lemma same_procs:
  assumes "i < length cs" and "cl_proc c = cl_proc (cs ! i)"
  shows "map cl_proc (cs[i := c]) = map cl_proc cs" and "procs (cs[i := c]) = procs cs"
proof -
  show m: "map cl_proc (cs[i := c]) = map cl_proc cs"
    using assms by (simp add: map_update list_update_same_conv)
  show "procs (cs[i := c]) = procs cs" unfolding procs_def m ..
qed

lemma books_inv_stage:
  assumes "books_inv b" and "i < length (b_clients b)"
  shows "books_inv (b\<lparr>b_count := n, b_clients := (b_clients b)[i := (b_clients b ! i)\<lparr>cl_stage := s\<rparr>]\<rparr>)"
  using assms by (simp add: books_inv_def same_procs)

lemma new_procs:
  assumes "i < length cs" and "distinct (map cl_proc cs)" and "n \<notin> procs cs"
  shows "procs (cs[i := c\<lparr>cl_proc := n\<rparr>]) = insert n (procs cs - {cl_proc (cs ! i)})"
    and "distinct (map cl_proc (cs[i := c\<lparr>cl_proc := n\<rparr>]))"
  using assms set_update_distinct [of "map cl_proc cs" i n] distinct_list_update [of "map cl_proc cs" n i]
  by (auto simp: procs_def map_update simp del: set_map)

lemma books_inv_record:
  assumes inv_b: "books_inv b" and i: "i < length (b_clients b)" and p: "Process op = cl_proc (b_clients b ! i)"
  shows "books_inv (record_op i op b)"
proof -
  have c: "Process op \<in> procs (b_clients b)" using i p by (simp add: procs_def)
  with inv_b have ret: "retires (b_ops b @ [op])" by (auto simp: books_inv_def retires_append)
  show ?thesis
  proof (cases "Outcome op = Info")
    case False
    with inv_b ret c i show ?thesis by (auto simp: books_inv_def record_op_def Let_def same_procs)
  next
    case True
    have fresh: "b_next b + 1 \<notin> procs (b_clients b)" using inv_b by (force simp: books_inv_def)
    from inv_b have d: "distinct (map cl_proc (b_clients b))" by (simp add: books_inv_def)
    note N = new_procs [OF i d fresh]
    have old: "Process x \<noteq> b_next b + 1" if "x \<in> set (b_ops b)" for x
      using inv_b that by (force simp: books_inv_def)
    from inv_b ret c True show ?thesis
      unfolding books_inv_def record_op_def Let_def
      by (auto simp: N p [symmetric] dest: old)
  qed
qed

lemma books_inv_book_step: "book_step maxOps b b' \<Longrightarrow> books_inv b \<Longrightarrow> books_inv b'"
proof (induction rule: book_step.induct)
  case (looks i b)
  then show ?case by (simp add: books_inv_def same_procs)
qed (auto intro: books_inv_stage books_inv_record)

lemma books_inv_settle_step: "settle_step b b' \<Longrightarrow> books_inv b \<Longrightarrow> books_inv b'"
proof (induction rule: settle_step.induct)
  case (settles b node)
  have p: "procs (b_clients b @ [new_client (b_next b + 1) node]) = insert (b_next b + 1) (procs (b_clients b))"
    by (simp add: procs_def new_client_def)
  have "x \<noteq> b_next b + 1" if "x \<in> procs (b_clients b) \<union> Process ` set (b_ops b)" for x
    using settles that by (force simp: books_inv_def)
  then have "b_next b + 1 \<notin> procs (b_clients b)" and "b_next b + 1 \<notin> Process ` set (b_ops b)" by blast+
  then have d: "b_next b + 1 \<notin> cl_proc ` set (b_clients b)" by (simp add: procs_def)
  from settles \<open>b_next b + 1 \<notin> Process ` set (b_ops b)\<close> show ?case
    unfolding books_inv_def by (simp add: p) (auto simp: new_client_def d)
qed (auto intro: books_inv_record)

lemma run_books_inv:
  assumes "run_books nodes clients maxOps b"
  shows "books_inv b"
proof -
  from assms obtain b0 where b0: "(book_step maxOps)\<^sup>*\<^sup>* (open_books nodes clients) b0"
    and b: "settle_step\<^sup>*\<^sup>* b0 b" unfolding run_books_def by blast
  from b0 have "books_inv b0"
    by (induction rule: rtranclp_induct) (auto intro: books_inv_open books_inv_book_step)
  with b show ?thesis by (induction rule: rtranclp_induct) (auto intro: books_inv_settle_step)
qed

section \<open>The cap\<close>

text \<open>Clients that have looked but not yet begun can carry a run past its cap, one each.\<close>

definition looked :: "books \<Rightarrow> nat" where
  "looked b = length (filter (\<lambda>c. cl_stage c = Passed) (b_clients b))"

definition cap_inv :: "int \<Rightarrow> nat \<Rightarrow> books \<Rightarrow> bool" where
  "cap_inv maxOps n b \<longleftrightarrow> length (b_clients b) = n \<and>
     (0 < maxOps \<longrightarrow> b_count b + int (looked b) \<le> maxOps + int n - 1)"

lemma filter_update:
  "i < length cs \<Longrightarrow>
     length (filter P (cs[i := c])) + (if P (cs ! i) then 1 else 0) = length (filter P cs) + (if P c then 1 else 0)"
proof (induction cs arbitrary: i)
  case (Cons a cs)
  then show ?case by (cases i) (auto split: if_splits)
qed simp

lemma cap_step:
  assumes "book_step maxOps b b'" and "cap_inv maxOps n b"
  shows "cap_inv maxOps n b'"
  using assms(1)
proof (cases rule: book_step.cases)
  case (looks i)
  have "looked b' \<le> n" using assms(2) looks by (simp add: looked_def cap_inv_def) (metis length_filter_le length_list_update)
  with assms(2) looks show ?thesis by (auto simp: cap_inv_def)
next
  case (begins i)
  then have "looked b' + 1 = looked b"
    using filter_update [of i "b_clients b" "\<lambda>c. cl_stage c = Passed" "(b_clients b ! i)\<lparr>cl_stage := Busy\<rparr>"]
    by (simp add: looked_def)
  with assms(2) begins show ?thesis by (auto simp: cap_inv_def)
next
  case (records i op)
  have g: "looked (b\<lparr>b_clients := (b_clients b)[i := c]\<rparr>) = looked b" if "cl_stage c = Idle" for c
    using filter_update [of i "b_clients b" "\<lambda>c. cl_stage c = Passed" c] records that by (simp add: looked_def)
  have "looked b' = looked b" "b_count b' = b_count b" "length (b_clients b') = length (b_clients b)"
    using g records by (auto simp: record_op_def Let_def looked_def)
  with assms(2) show ?thesis by (simp add: cap_inv_def)
qed

lemma run_cap:
  assumes "(book_step maxOps)\<^sup>*\<^sup>* (open_books nodes clients) b" and "0 < clients" and "0 < maxOps"
  shows "b_count b \<le> maxOps + int clients - 1"
proof -
  from assms(1) have "cap_inv maxOps clients b"
  proof (induction rule: rtranclp_induct)
    case base
    from assms(2,3) show ?case
      by (auto simp: cap_inv_def open_books_def looked_def new_client_def filter_map o_def)
  qed (auto intro: cap_step)
  with assms(3) show ?thesis by (auto simp: cap_inv_def)
qed

end
