(* ===== verification/Harness_Run.thy ===== *)
theory Harness_Run
  imports Harness Nemesis Kv_Client Validate Go_Text
begin

text \<open>
  The outer part of \<open>harness.Run\<close> (\<open>internal/harness/harness.go\<close>): its checks, the schedule it hands to
  the nemesis, and the result it puts together when the clients have finished. What the goroutines,
  the network and the wall clock left behind is an argument; the books are those of theory
  \<open>Harness\<close>. The last section asks when the history of a run passes the check it is headed for.
\<close>

section \<open>The result\<close>

record RunResult =
  rr_History :: History
  rr_Schedule :: Schedule
  rr_Applied :: "Event list"
  rr_LinkStats :: "(string \<times> LinkStats) list"
  rr_ProcessNode :: "int \<Rightarrow> string option"
  rr_Clock :: string
  rr_Elapsed :: duration

definition Clock_String :: "Clock \<Rightarrow> string" where
  "Clock_String c = ck_source c @ '', '' @ Duration_String (ck_granularity c) @ '' granularity''"

text \<open>
  What a run leaves: the books, when each event landed, whether listeners could be bound again, when
  the nemesis and then \<open>Run\<close> healed the network, the counters of the links, the clock.
\<close>

record run_end =
  re_books :: books
  re_landed :: "duration list"
  re_reclaim :: bool
  re_ended :: duration
  re_healed :: duration
  re_stats :: "(string \<times> LinkStats) list"
  re_clock :: Clock
  re_elapsed :: duration

definition run_result :: "run_end \<Rightarrow> Schedule \<Rightarrow> Nemesis \<Rightarrow> RunResult" where
  "run_result w sched nem =
     \<lparr>rr_History = SortByInvoke (b_ops (re_books w)), rr_Schedule = sched, rr_Applied = nm_applied nem,
       rr_LinkStats = re_stats w, rr_ProcessNode = b_nodes (re_books w), rr_Clock = Clock_String (re_clock w),
       rr_Elapsed = re_elapsed w\<rparr>"

definition harness_Run ::
  "(int \<Rightarrow> 64 word \<Rightarrow> nat \<Rightarrow> nat) \<Rightarrow> run_end \<Rightarrow> Topology option \<Rightarrow> Config \<Rightarrow> (run_error + RunResult) option" where
  "harness_Run pcg w t cfg =
     (let cfg = WithDefaults cfg in
      case (run_checks t cfg, t) of
        (None, Some t) \<Rightarrow>
          (case BuildSchedule pcg t cfg of
             None \<Rightarrow> None
           | Some (Inl e) \<Rightarrow> Some (Inl e)
           | Some (Inr sched) \<Rightarrow>
               let nem = nemesis_Run (re_reclaim w) (re_landed w) (re_ended w) (NewNemesis (Links t) (Some sched));
                   nem = Heal (re_reclaim w) (re_healed w) nem
               in Some (Inr (run_result w sched nem)))
      | (Some e, _) \<Rightarrow> Some (Inl e)
      | (None, None) \<Rightarrow> Some (Inl EmptyTopology))"

text \<open>The one-line account of a run; the counters are Go's \<open>int64\<close>.\<close>

definition sum_stats :: "(LinkStats \<Rightarrow> int) \<Rightarrow> (string \<times> LinkStats) list \<Rightarrow> int64" where
  "sum_stats f stats = foldl (\<lambda>n (name, s). wrap64 (n + f s)) 0 stats"

definition Run_Summary :: "RunResult \<Rightarrow> string" where
  "Run_Summary r =
     (case Counts (rr_History r) of (ok, fail, info) \<Rightarrow>
        show_nat (length (rr_History r)) @ '' operations in '' @ Duration_String (Duration_Round (ms 1) (rr_Elapsed r)) @
        '': '' @ show_nat ok @ '' ok, '' @ show_nat fail @ '' failed, '' @ show_nat info @ '' indeterminate; '' @
        show_nat (length (Keys (rr_History r))) @ '' keys; '' @ show_nat (length (rr_Applied r)) @ '' fault events; '' @
        show_int (sum_stats st_BytesForward (rr_LinkStats r)) @ '' bytes forwarded, '' @
        show_int (sum_stats st_BytesDropped (rr_LinkStats r)) @ '' dropped; clock '' @ rr_Clock r)"

text \<open>The counters add up to their sum as long as that is a 64-bit number and none is negative.\<close>

lemma sum_stats_exact:
  assumes "\<forall>(name, s) \<in> set stats. 0 \<le> f s" and "(\<Sum>(name, s) \<leftarrow> stats. f s) \<le> max_int64"
  shows "sum_stats f stats = (\<Sum>(name, s) \<leftarrow> stats. f s)"
proof -
  have "foldl (\<lambda>n (name, s). wrap64 (n + f s)) n stats = n + (\<Sum>(name, s) \<leftarrow> stats. f s)"
    if "0 \<le> n" "n + (\<Sum>(name, s) \<leftarrow> stats. f s) \<le> max_int64" for n
    using that assms(1)
  proof (induction stats arbitrary: n)
    case (Cons a stats)
    obtain name s where a: "a = (name, s)" by (cases a)
    have p: "0 \<le> f s" "0 \<le> (\<Sum>(name, s) \<leftarrow> stats. f s)"
      using Cons.prems(3) a by (auto intro!: sum_list_nonneg)
    with Cons.prems a have "wrap64 (n + f s) = n + f s" by (intro wrap64_id) (simp_all add: min_int64_def)
    with Cons.IH [of "n + f s"] Cons.prems p a show ?case by simp
  qed simp
  from this [of 0] assms(2) show ?thesis by (simp add: sum_stats_def)
qed

lemma harness_Run_result:
  assumes "harness_Run pcg w t cfg = Some (Inr r)"
  shows "rr_History r = SortByInvoke (b_ops (re_books w))" "rr_ProcessNode r = b_nodes (re_books w)"
    "\<exists>t'. t = Some t' \<and> run_checks t (WithDefaults cfg) = None \<and>
       BuildSchedule pcg t' (WithDefaults cfg) = Some (Inr (rr_Schedule r))"
    "rr_Applied r \<noteq> [] \<and> ev_Link (last (rr_Applied r)) = allLinks \<and> ev_Fault (last (rr_Applied r)) = Pass"
  using assms
  by (auto simp: harness_Run_def run_result_def Let_def Heal_def event_def split: option.splits sum.splits)

section \<open>The history of a run and its check\<close>

text \<open>One request as a client issued it: the readings around it and what \<open>Send\<close> returned.\<close>

record issued =
  is_proc :: int
  is_req :: Request
  is_inv :: int64
  is_meas :: int64
  is_res :: "TransportError + Response"

definition recorded_op :: "Clock \<Rightarrow> issued \<Rightarrow> Op" where
  "recorded_op clk x = Do_record clk (is_proc x) (is_req x) (is_inv x) (is_meas x) (is_res x)"

text \<open>The readings stay clear of the end of the clock.\<close>

definition timed :: "Clock \<Rightarrow> issued \<Rightarrow> bool" where
  "timed clk x \<longleftrightarrow> 0 \<le> is_inv x \<and> max (is_inv x) (is_meas x) + ck_granularity clk < max_int64"

text \<open>A client sends a request after it has the answer to the one before; a clock never runs back.\<close>

definition in_turn :: "issued list \<Rightarrow> bool" where
  "in_turn = sorted_wrt (\<lambda>x y. is_proc x = is_proc y \<longrightarrow> max (is_inv x) (is_meas x) \<le> is_inv y)"

definition tick_apart :: "Clock \<Rightarrow> issued list \<Rightarrow> bool" where
  "tick_apart clk =
     sorted_wrt (\<lambda>x y. is_proc x = is_proc y \<longrightarrow> max (is_inv x) (is_meas x) + ck_granularity clk \<le> is_inv y)"

lemma retires_sorted:
  "retires ops \<longleftrightarrow> sorted_wrt (\<lambda>a b. Outcome a = Info \<longrightarrow> Process b \<noteq> Process a) ops"
  by (induction ops) (auto simp: image_iff)

lemma recorded_op_wf:
  assumes "timed clk x" and "request_in keys valueMax (is_req x)" and "[] \<notin> set keys" and "0 < ck_granularity clk"
  shows "wf_op (recorded_op clk x)" "int64_op (recorded_op clk x)"
    "Outcome (recorded_op clk x) \<noteq> Info \<Longrightarrow>
       Complete (recorded_op clk x) = max (is_inv x) (is_meas x) + ck_granularity clk"
    "Invoke (recorded_op clk x) < Complete (recorded_op clk x)"
proof -
  have k: "q_Key (is_req x) \<noteq> []" using assms(2,3) by (auto simp: request_in_def)
  have c: "\<not> (q_Kind (is_req x) = CAS \<and> q_From (is_req x) = q_To (is_req x))"
    using assms(2) by (auto simp: request_in_def)
  have t: "0 \<le> is_inv x" "max (is_inv x) (is_meas x) + ck_granularity clk < max_int64"
    using assms(1) by (simp_all add: timed_def)
  note d = Do_wf [OF t(1) k c assms(4) t(2), of "is_proc x" "is_res x"]
  have comp: "Completion clk (is_inv x) (is_meas x) = max (is_inv x) (is_meas x) + ck_granularity clk"
    using t assms(4) by (intro Completion_eq) (simp_all add: min_int64_def)
  have o: "Outcome (recorded_op clk x) \<in> {OK, Fail, Info}"
    by (simp add: recorded_op_def Do_outcome split: sum.split)
  show finished: "Complete (recorded_op clk x) = max (is_inv x) (is_meas x) + ck_granularity clk"
    if "Outcome (recorded_op clk x) \<noteq> Info"
    using that comp by (simp add: recorded_op_def Do_complete)
  show width: "Invoke (recorded_op clk x) < Complete (recorded_op clk x)"
    using d(1) by (simp add: recorded_op_def)
  show "wf_op (recorded_op clk x)"
    using o t(1) k c width d(2,3) by (auto simp: wf_op_def recorded_op_def)
  show "int64_op (recorded_op clk x)"
    using width finished d(3) t
    by (cases "Outcome (recorded_op clk x) = Info")
      (auto simp: int64_op_def recorded_op_def Pending_def min_int64_def max_int64_def)
qed

lemma sorted_wrt_cong_pairs:
  assumes "sorted_wrt Q xs" and "\<And>x y. x \<in> set xs \<Longrightarrow> y \<in> set xs \<Longrightarrow> Q x y \<Longrightarrow> R x y \<longleftrightarrow> S x y"
  shows "sorted_wrt R xs \<longleftrightarrow> sorted_wrt S xs"
  using assms by (fastforce simp: sorted_wrt_iff_nth_less)

text \<open>
  Completions are widened by a tick while the next request of the same client is recorded as read.
  So the history of a run is valid exactly when every client let a tick of the clock pass between an
  answer and its next request; a client that was quicker has its whole history refused.
\<close>

theorem issued_valid:
  assumes "\<forall>x \<in> set xs. timed clk x \<and> request_in keys valueMax (is_req x)" and "[] \<notin> set keys"
    and "0 < ck_granularity clk" and "in_turn xs" and "retires (map (recorded_op clk) xs)"
  shows "Validate (SortByInvoke (map (recorded_op clk) xs)) = None \<longleftrightarrow> tick_apart clk xs"
proof -
  let ?h = "map (recorded_op clk) xs"
  note wf = recorded_op_wf [OF _ _ assms(2,3)]
  have all: "\<forall>op \<in> set ?h. wf_op op \<and> int64_op op" using assms(1) wf by auto
  then have "Validate (SortByInvoke ?h) = None \<longleftrightarrow> valid_history (SortByInvoke ?h)"
    by (intro Validate_None) simp
  also have "\<dots> \<longleftrightarrow> valid_history ?h" by (rule valid_history_perm) simp
  also have "\<dots> \<longleftrightarrow> sorted_wrt (\<lambda>x y. compatible (recorded_op clk x) (recorded_op clk y)) xs"
    using all by (simp add: valid_history_def sorted_wrt_map)
  also have "\<dots> \<longleftrightarrow> tick_apart clk xs"
    unfolding tick_apart_def
  proof (rule sorted_wrt_cong_pairs)
    show "sorted_wrt (\<lambda>x y. (is_proc x = is_proc y \<longrightarrow> max (is_inv x) (is_meas x) \<le> is_inv y) \<and>
        (Outcome (recorded_op clk x) = Info \<longrightarrow> Process (recorded_op clk y) \<noteq> Process (recorded_op clk x))) xs"
      using assms(4,5) by (simp add: in_turn_def retires_sorted sorted_wrt_map sorted_wrt_iff_nth_less)
  next
    fix x y
    assume xy: "x \<in> set xs" "y \<in> set xs" and turn: "(is_proc x = is_proc y \<longrightarrow> max (is_inv x) (is_meas x) \<le> is_inv y) \<and>
        (Outcome (recorded_op clk x) = Info \<longrightarrow> Process (recorded_op clk y) \<noteq> Process (recorded_op clk x))"
    from assms(1) xy have ok: "timed clk x" "timed clk y" "request_in keys valueMax (is_req x)"
      "request_in keys valueMax (is_req y)" by blast+
    have p: "Process (recorded_op clk z) = is_proc z" "Invoke (recorded_op clk z) = is_inv z" for z
      by (simp_all add: recorded_op_def)
    have late: "\<not> answered_before (recorded_op clk y) (recorded_op clk x)" if "is_proc x = is_proc y"
      using that turn wf(4) [OF ok(2,4)] by (auto simp: answered_before_def p)
    have early: "answered_before (recorded_op clk x) (recorded_op clk y) \<longleftrightarrow>
        max (is_inv x) (is_meas x) + ck_granularity clk \<le> is_inv y" if "is_proc x = is_proc y"
      using that turn wf(3) [OF ok(1,3)] by (auto simp: answered_before_def p)
    have "\<not> same_instant (recorded_op clk x) (recorded_op clk y)"
      using wf(4) [OF ok(1,3)] by (auto simp: same_instant_def instantaneous_def)
    with late early show "compatible (recorded_op clk x) (recorded_op clk y) \<longleftrightarrow>
        (is_proc x = is_proc y \<longrightarrow> max (is_inv x) (is_meas x) + ck_granularity clk \<le> is_inv y)"
      by (auto simp: compatible_def p)
  qed
  finally show ?thesis .
qed

lemma run_keys_named: "[] \<notin> set (run_keys n)"
  by (auto simp: run_keys_def)

end
