(* ===== verification/Campaign.thy ===== *)
theory Campaign
  imports Cluster Harness_Run Check_Correct
begin

text \<open>
  One experiment (\<open>internal/campaign/campaign.go\<close>): a cluster, proxies in front of every hop, the
  nodes configured with the proxies' addresses, the run, and the check of its history. Each resource
  is closed on the way out of every return that follows it, a panic of \<open>BuildTopology\<close> included.
  What the clients, the network and the clock made of the run is an argument.
\<close>

record Spec =
  sp_Target :: Target
  sp_Nodes :: int
  sp_BinDir :: string
  sp_NodeTimeout :: duration
  sp_Harness :: Harness.Config
  sp_Checker :: Search.Options
  sp_Model :: "State model option"

record Outcome =
  oc_Run :: RunResult
  oc_Check :: Result
  oc_Addrs :: "string list"
  oc_Links :: "string list"

datatype campaign_error =
    BadTarget Target
  | NoCluster cluster_error
  | NoTopology topology_error
  | NotConfigured cluster_error
  | NoRun run_error
  | NoCheck check_error

text \<open>What the outside answers: the operating system, the ports, the nodes, the run, the clock.\<close>

record world =
  wo_os :: outcomes
  wo_listens :: "string \<Rightarrow> bool"
  wo_addr :: "string \<Rightarrow> string"
  wo_post :: "nat \<Rightarrow> Forward_Store.Config \<Rightarrow> posted"
  wo_pcg :: "int \<Rightarrow> 64 word \<Rightarrow> nat \<Rightarrow> nat"
  wo_end :: "Topology \<Rightarrow> run_end"
  wo_seed :: "State \<Rightarrow> 64 word"
  wo_late :: "nat list \<Rightarrow> bool"

text \<open>The part between the topology and its deferred \<open>Close\<close>.\<close>

definition on_topology :: "world \<Rightarrow> Spec \<Rightarrow> Cluster \<Rightarrow> Topology \<Rightarrow> (campaign_error + Outcome) run" where
  "on_topology w spec c t =
     (case Cluster_Configure (wo_post w) c (DefaultConfig c (peer_addr (wo_addr w) t)) of
        Some e \<Rightarrow> Some (Ret (Inl (NotConfigured e)))
      | None \<Rightarrow>
          (case harness_Run (wo_pcg w) (wo_end w t) (Some t) (sp_Harness spec) of
             None \<Rightarrow> None
           | Some (Inl e) \<Rightarrow> Some (Ret (Inl (NoRun e)))
           | Some (Inr res) \<Rightarrow>
               and_then (Check (wo_seed w) (case sp_Model spec of None \<Rightarrow> CASRegister | Some m \<Rightarrow> m)
                   (sp_Checker spec) (wo_late w) (rr_History res))
                 (\<lambda>checked. case checked of
                    Inl e \<Rightarrow> Some (Ret (Inl (NoCheck e)))
                  | Inr verdict \<Rightarrow> Some (Ret (Inr \<lparr>oc_Run = res, oc_Check = verdict, oc_Addrs = Addrs c, oc_Links = t_names t\<rparr>)))))"

text \<open>The result, the topology as its \<open>Close\<close> left it, and what the operating system still holds.\<close>

definition Once :: "world \<Rightarrow> Spec \<Rightarrow> host \<Rightarrow> (campaign_error + Outcome) run \<times> Topology option \<times> host" where
  "Once w spec h =
     (if \<not> Target_Valid (sp_Target spec) then (Some (Ret (Inl (BadTarget (sp_Target spec)))), None, h)
      else
        let tmo = (if sp_NodeTimeout spec \<le> 0 then ms 250 else sp_NodeTimeout spec) in
        case Start (wo_os w) \<lparr>co_Target = sp_Target spec, co_Nodes = sp_Nodes spec, co_BinDir = sp_BinDir spec,
            co_Timeout = tmo, co_StartTimeout = 0\<rparr> h of
          (Inl e, h) \<Rightarrow> (Some (Ret (Inl (NoCluster e))), None, h)
        | (Inr c, h) \<Rightarrow>
            (case BuildTopology (wo_listens w) (Addrs c) (Replicated (sp_Target spec)) of
               None \<Rightarrow> (Some Panicked, None, Cluster_Close (Some c) h)
             | Some (Inl e) \<Rightarrow> (Some (Ret (Inl (NoTopology e))), None, Cluster_Close (Some c) h)
             | Some (Inr t) \<Rightarrow> (on_topology w spec c t, Topology_Close (Some t), Cluster_Close (Some c) h)))"

definition DroppedBytes :: "Outcome \<Rightarrow> int" where
  "DroppedBytes out = sum_stats st_BytesDropped (rr_LinkStats (oc_Run out))"

definition ForwardedBytes :: "Outcome \<Rightarrow> int" where
  "ForwardedBytes out = sum_stats st_BytesForward (rr_LinkStats (oc_Run out))"

section \<open>What is left behind\<close>

lemma Topology_Close_closes:
  assumes "Topology_Close (Some t) = Some t'"
  shows "\<forall>l \<in> set (t_client t') \<union> snd ` set (t_peer t'). l_closed l"
proof -
  have "l_closed (Close l)" for l
    by (simp add: Close_def tearDownLocked_def)
  with assms show ?thesis by (auto simp: Topology_Close_def)
qed

theorem Once_cleans_up:
  assumes "Once w spec h = (r, t, h')" and "host_ok h"
    and "\<forall>dir. os_tempDir (wo_os w) = Some dir \<longrightarrow> dir \<noteq> [] \<and> dir \<notin> set (h_dirs h)"
  shows "same_host h h'" and "t = Some t' \<Longrightarrow> \<forall>l \<in> set (t_client t') \<union> snd ` set (t_peer t'). l_closed l"
proof -
  let ?opt = "\<lparr>co_Target = sp_Target spec, co_Nodes = sp_Nodes spec, co_BinDir = sp_BinDir spec,
    co_Timeout = (if sp_NodeTimeout spec \<le> 0 then ms 250 else sp_NodeTimeout spec), co_StartTimeout = 0\<rparr>"
  obtain s h1 where s: "Start (wo_os w) ?opt h = (s, h1)" by (meson surj_pair)
  note ok = Start_ok [OF s assms(2,3)]
  show "same_host h h'"
  proof (cases "Target_Valid (sp_Target spec)")
    case False
    with assms(1) show ?thesis by (auto simp: Once_def same_host_def)
  next
    case True
    with assms(1) s ok show ?thesis
      by (cases s) (auto simp: Once_def Let_def split: option.splits sum.splits)
  qed
  show "\<forall>l \<in> set (t_client t') \<union> snd ` set (t_peer t'). l_closed l" if "t = Some t'"
  proof -
    from assms(1) s that obtain t0 where "Topology_Close (Some t0) = Some t'"
      by (cases s) (auto simp: Once_def Let_def split: option.splits sum.splits if_splits)
    then show ?thesis by (rule Topology_Close_closes)
  qed
qed

lemma Once_next: "Once w spec h = (r, t, h') \<Longrightarrow> h_next h \<le> h_next h'"
  by (auto simp: Once_def Let_def dest: Start_next split: if_splits sum.splits option.splits prod.splits)

lemma Once_host_ok:
  assumes "Once w spec h = (r, t, h')" and "host_ok h"
    and "\<forall>dir. os_tempDir (wo_os w) = Some dir \<longrightarrow> dir \<noteq> [] \<and> dir \<notin> set (h_dirs h)"
  shows "host_ok h'"
  using Once_cleans_up(1) [OF assms] Once_next [OF assms(1)] assms(2)
  by (fastforce simp: host_ok_def same_host_def)

text \<open>The verdict an experiment returns is \<open>Check\<close>'s on the history of its run.\<close>

lemma Once_verdict:
  assumes "Once w spec h = (Some (Ret (Inr out)), t, h')"
  shows "Check (wo_seed w) (case sp_Model spec of None \<Rightarrow> CASRegister | Some m \<Rightarrow> m) (sp_Checker spec) (wo_late w)
      (rr_History (oc_Run out)) = Some (Ret (Inr (oc_Check out)))"
  using assms
  by (auto simp: Once_def Let_def on_topology_def and_then_def
      split: if_splits prod.splits sum.splits option.splits ret.splits)

text \<open>The run behind it was one of its configuration, on the proxies of this experiment.\<close>

lemma Once_run:
  assumes "Once w spec h = (Some (Ret (Inr out)), t, h')"
  shows "\<exists>t0. harness_Run (wo_pcg w) (wo_end w t0) (Some t0) (sp_Harness spec) = Some (Inr (oc_Run out)) \<and>
    oc_Links out = t_names t0"
  using assms
  by (auto simp: Once_def Let_def on_topology_def and_then_def
      split: if_splits prod.splits sum.splits option.splits ret.splits)

text \<open>A cluster whose hop cannot be opened takes the program down, after the nodes are stopped.\<close>

lemma Once_panics:
  assumes "Once w spec h = (Some Panicked, None, h')"
    and "\<And>c t. on_topology w spec c t \<noteq> Some Panicked"
  shows "\<exists>c h1. Start (wo_os w) \<lparr>co_Target = sp_Target spec, co_Nodes = sp_Nodes spec, co_BinDir = sp_BinDir spec,
        co_Timeout = (if sp_NodeTimeout spec \<le> 0 then ms 250 else sp_NodeTimeout spec), co_StartTimeout = 0\<rparr> h = (Inr c, h1) \<and>
      BuildTopology (wo_listens w) (Addrs c) (Replicated (sp_Target spec)) = None"
  using assms
  by (auto simp: Once_def Let_def Topology_Close_def split: if_splits prod.splits sum.splits option.splits)

end
