(* ===== verification/Cli.thy ===== *)
theory Cli
  imports Campaign Wire Report
begin

text \<open>
  The command line (\<open>cmd/splitbrain/main.go\<close>): its flags and their checks, what a verdict means for
  the exit status, the commands \<open>check\<close> and \<open>sweep\<close>, and the lines a counterexample is printed in.
  What the files answer is an argument. \<open>Cli_Flags\<close> reads the flags off the arguments.
\<close>

section \<open>Exit status\<close>

datatype failure =
    UnknownExpectation string
  | BadFlag string string string
  | BadRange string
  | FileCount nat
  | NoModel string
  | NoFile string
  | BadHistory load_error
  | NotChecked check_error
  | NoReport string
  | NoSuchTarget string
  | RunFailed campaign_error
  | NoSchedule run_error
  | NoTimeline topology_error
  | Interrupted
  | OnSeed int failure
  | OtherFailure string

datatype cli_error = NoVerdict string | ExpectationFailed string | Failed failure

text \<open>\<open>main\<close> reads the status from the error a command returned.\<close>

definition exit_status :: "cli_error option \<Rightarrow> int" where
  "exit_status err =
     (case err of
        None \<Rightarrow> 0
      | Some (NoVerdict _) \<Rightarrow> 2
      | Some (ExpectationFailed _) \<Rightarrow> 1
      | Some (Failed _) \<Rightarrow> 2)"

record commands =
  cm_run :: "string list \<Rightarrow> cli_error option"
  cm_check :: "string list \<Rightarrow> cli_error option"
  cm_sweep :: "string list \<Rightarrow> cli_error option"
  cm_schedule :: "string list \<Rightarrow> cli_error option"

definition main :: "commands \<Rightarrow> string list \<Rightarrow> int" where
  "main cm args =
     (case args of
        _ # cmd # rest_args \<Rightarrow>
          if cmd = ''run'' then exit_status (cm_run cm rest_args)
          else if cmd = ''check'' then exit_status (cm_check cm rest_args)
          else if cmd = ''sweep'' then exit_status (cm_sweep cm rest_args)
          else if cmd = ''schedule'' then exit_status (cm_schedule cm rest_args)
          else if cmd \<in> {''-h'', ''--help'', ''help''} then 0
          else 2
      | _ \<Rightarrow> 2)"

definition wants :: "string list" where
  "wants = ['''', ''any'', ''linearizable'', ''not-linearizable'', ''not_linearizable'', ''violation'']"

definition budget_note :: string where
  "budget_note = ''no verdict: the search ran out of budget. Raise -max-visits, -max-cache-mb or -timeout, or check fewer operations.''"

definition checkExpectation :: "string \<Rightarrow> Verdict \<Rightarrow> cli_error option" where
  "checkExpectation expect got =
     (let want = ToLower (TrimSpace expect) in
      if want \<notin> set wants then Some (Failed (UnknownExpectation expect))
      else if got = Unknown then Some (NoVerdict budget_note)
      else if want = '''' \<or> want = ''any'' then None
      else if want = ''linearizable'' \<and> got = Linearizable then None
      else if want \<in> {''not-linearizable'', ''not_linearizable'', ''violation''} \<and> got = NotLinearizable then None
      else Some (ExpectationFailed (''expected '' @ want @ '', got '' @ Verdict_String got)))"

definition sweepOutcome :: "string \<Rightarrow> int \<Rightarrow> int \<Rightarrow> int \<Rightarrow> cli_error option" where
  "sweepOutcome expect seeds unknown mismatches =
     (if unknown > 0 then
        Some (NoVerdict (''no verdict on '' @ show_int unknown @ '' of '' @ show_int seeds @
          '' seeds: the search ran out of budget. '' @
          ''Raise -max-visits, -max-cache-mb or -check-timeout, or run fewer operations per seed.''))
      else if mismatches > 0 then
        Some (ExpectationFailed (show_int mismatches @ '' of '' @ show_int seeds @ '' seeds did not match -expect '' @ expect))
      else None)"

section \<open>Flags\<close>

record runFlags =
  rf_target :: string
  rf_nodes :: int
  rf_clients :: int
  rf_keys :: int
  rf_duration :: duration
  rf_maxOps :: int
  rf_opTimeout :: duration
  rf_thinkMax :: duration
  rf_valueMax :: int
  rf_faults :: string
  rf_quiesce :: duration
  rf_keepAlive :: bool
  rf_binDir :: string
  rf_nodeTmo :: duration
  rf_modelName :: string
  rf_maxVisits :: int
  rf_maxCache :: int
  rf_checkTmo :: duration
  rf_expect :: string
  rf_verbose :: bool
  rf_typed :: "string list"

text \<open>The values \<open>register\<close> gives the flags before anything is parsed.\<close>

definition register_flags :: runFlags where
  "register_flags =
     \<lparr>rf_target = ''kvquorum'', rf_nodes = 3, rf_clients = 6, rf_keys = 4, rf_duration = ms 8000, rf_maxOps = 4000,
       rf_opTimeout = ms 400, rf_thinkMax = ms 8, rf_valueMax = 1000000, rf_faults = ''partition'',
       rf_quiesce = ms 750, rf_keepAlive = False, rf_binDir = [], rf_nodeTmo = ms 250,
       rf_modelName = ''cas-register'', rf_maxVisits = 2000000, rf_maxCache = 512, rf_checkTmo = ms 60000,
       rf_expect = ''linearizable'', rf_verbose = False, rf_typed = []\<rparr>"

text \<open>One line of the table in \<open>validate\<close>: the flag, whether its value can mean anything, what it is.\<close>

definition flag_checks :: "runFlags \<Rightarrow> (string \<times> bool \<times> string \<times> string) list" where
  "flag_checks f =
     [(''clients'', rf_clients f \<ge> 1, show_int (rf_clients f),
         ''a run needs at least one client, or nothing issues an operation and the history is empty''),
      (''keys'', rf_keys f \<ge> 1, show_int (rf_keys f),
         ''a run needs at least one register for the clients to share''),
      (''duration'', rf_duration f > 0, Duration_String (rf_duration f), ''a run has to last a positive time''),
      (''op-timeout'', rf_opTimeout f > 0, Duration_String (rf_opTimeout f),
         ''an operation needs a positive timeout, and one well short of -duration''),
      (''value-max'', rf_valueMax f \<ge> MinValueMax, show_int (rf_valueMax f),
         ''it must be at least '' @ show_int MinValueMax @
         '', because a compare-and-swap needs two different values to move between''),
      (''max-ops'', rf_maxOps f \<ge> 0, show_int (rf_maxOps f), ''give a positive number of operations, or 0 for no cap''),
      (''think'', rf_thinkMax f \<ge> 0, Duration_String (rf_thinkMax f),
         ''a pause cannot be negative; 0 is allowed and means no pause at all''),
      (''quiesce'', rf_quiesce f \<ge> 0, Duration_String (rf_quiesce f),
         ''a settling time cannot be negative; 0 is allowed and means the final reads start at once'')]"

definition flags_validate :: "runFlags \<Rightarrow> cli_error option" where
  "flags_validate f =
     (case find (\<lambda>(name, ok, got, want). name \<in> set (rf_typed f) \<and> \<not> ok) (flag_checks f) of
        None \<Rightarrow> None
      | Some (name, ok, got, want) \<Rightarrow> Some (Failed (BadFlag name got want)))"

definition harnessConfig :: "runFlags \<Rightarrow> int \<Rightarrow> Harness.Config" where
  "harnessConfig f seed =
     \<lparr>cfg_Clients = rf_clients f, cfg_Keys = rf_keys f, cfg_Duration = rf_duration f, cfg_MaxOps = rf_maxOps f,
       cfg_OpTimeout = rf_opTimeout f, cfg_ThinkMax = rf_thinkMax f,
       cfg_ThinkMaxSet = (''think'' \<in> set (rf_typed f)), cfg_ValueMax = rf_valueMax f, cfg_Faults = rf_faults f,
       cfg_Seed = seed, cfg_Quiesce = rf_quiesce f, cfg_QuiesceSet = (''quiesce'' \<in> set (rf_typed f)),
       cfg_KeepAlive = rf_keepAlive f\<rparr>"

text \<open>The budget options share one constructor; the shift by 20 bits wraps around.\<close>

definition budget_options :: "int \<Rightarrow> int \<Rightarrow> duration \<Rightarrow> Search.Options" where
  "budget_options visits cache tmo =
     \<lparr>MaxVisits = visits, Timeout = tmo, MaxCacheBytes = wrap64 (cache * 2 ^ 20), Minimize = True, Parallelism = 0\<rparr>"

definition checkerOptions :: "runFlags \<Rightarrow> Search.Options" where
  "checkerOptions f = budget_options (rf_maxVisits f) (rf_maxCache f) (rf_checkTmo f)"

section \<open>Arguments\<close>

definition parseRange :: "string \<Rightarrow> failure + (int \<times> int)" where
  "parseRange s =
     (case Cut CHR ''-'' s of
        None \<Rightarrow> (case Atoi (TrimSpace s) of None \<Rightarrow> Inl (BadRange s) | Some n \<Rightarrow> Inr (n, n))
      | Some (lo, hi) \<Rightarrow>
          (case Atoi (TrimSpace lo) of
             None \<Rightarrow> Inl (BadRange s)
           | Some a \<Rightarrow>
               (case Atoi (TrimSpace hi) of
                  None \<Rightarrow> Inl (BadRange s)
                | Some b \<Rightarrow> if b < a then Inl (BadRange s) else Inr (a, b))))"

text \<open>
  \<open>fs.Parse\<close> takes flags off the front of its arguments until one is not a flag: it changes the
  flags \<open>fs\<close> and leaves the rest.
\<close>

partial_function (option) interleave ::
  "('fs \<Rightarrow> string list \<Rightarrow> 'e + ('fs \<times> string list)) \<Rightarrow> 'fs \<Rightarrow> string list \<Rightarrow> string list \<Rightarrow>
   ('e + ('fs \<times> string list)) option" where
  "interleave parse fs positional args =
     (case parse fs args of
        Inl e \<Rightarrow> Some (Inl e)
      | Inr (fs, rest_args) \<Rightarrow>
          (case rest_args of
             [] \<Rightarrow> Some (Inr (fs, positional))
           | a # others \<Rightarrow> interleave parse fs (positional @ [a]) others))"

definition parseInterleaved ::
  "('fs \<Rightarrow> string list \<Rightarrow> 'e + ('fs \<times> string list)) \<Rightarrow> 'fs \<Rightarrow> string list \<Rightarrow>
   ('e + ('fs \<times> string list)) option" where
  "parseInterleaved parse fs args = interleave parse fs [] args"

section \<open>The command \<open>run\<close>\<close>

text \<open>\<open>oneRun\<close> without what it prints.\<close>

definition oneRun :: "world \<Rightarrow> runFlags \<Rightarrow> int \<Rightarrow> host \<Rightarrow> (failure + Campaign.Outcome) run \<times> host" where
  "oneRun w f seed h =
     (if \<not> Target_Valid (rf_target f) then (Some (Ret (Inl (NoSuchTarget (rf_target f)))), h)
      else case ByName (rf_modelName f) of
        Inl e \<Rightarrow> (Some (Ret (Inl (NoModel (rf_modelName f)))), h)
      | Inr m \<Rightarrow>
          (case Once w \<lparr>sp_Target = rf_target f, sp_Nodes = rf_nodes f, sp_BinDir = rf_binDir f,
              sp_NodeTimeout = rf_nodeTmo f, sp_Harness = harnessConfig f seed, sp_Checker = checkerOptions f,
              sp_Model = Some m\<rparr> h of
             (r, t, h) \<Rightarrow>
               (and_then r (\<lambda>res. case res of
                  Inl e \<Rightarrow> Some (Ret (Inl (RunFailed e)))
                | Inr out \<Rightarrow> Some (Ret (Inr out))), h)))"

record run_files =
  ru_out :: string
  ru_counterexample :: string
  ru_report :: string
  ru_written :: "string \<Rightarrow> bool"

definition cmdRun :: "world \<Rightarrow> runFlags \<Rightarrow> run_files \<Rightarrow> int \<Rightarrow> host \<Rightarrow> cli_error option run \<times> host" where
  "cmdRun w f out seed h =
     (case flags_validate f of
        Some err \<Rightarrow> (Some (Ret (Some err)), h)
      | None \<Rightarrow>
          (case oneRun w f seed h of
             (r, h) \<Rightarrow>
               (and_then r (\<lambda>res. case res of
                  Inl e \<Rightarrow> Some (Ret (Some (Failed e)))
                | Inr oc \<Rightarrow>
                    let fails = (\<lambda>path. path \<noteq> [] \<and> \<not> ru_written out path) in
                    if fails (ru_out out) then Some (Ret (Some (Failed (NoReport (ru_out out)))))
                    else if r_Ops (oc_Check oc) \<noteq> [] \<and> fails (ru_counterexample out)
                    then Some (Ret (Some (Failed (NoReport (ru_counterexample out)))))
                    else if fails (ru_report out) then Some (Ret (Some (Failed (NoReport (ru_report out)))))
                    else Some (Ret (checkExpectation (rf_expect f) (r_Verdict (oc_Check oc))))), h)))"

text \<open>
  The command \<open>schedule\<close> prints a timeline over proxies that lead nowhere. A negative number of nodes
  is the length of a slice, which panics.
\<close>

definition cmdSchedule ::
  "(int \<Rightarrow> 64 word \<Rightarrow> nat \<Rightarrow> nat) \<Rightarrow> (string \<Rightarrow> bool) \<Rightarrow> int \<Rightarrow> Harness.Config \<Rightarrow> (failure + string) run" where
  "cmdSchedule pcg listens n cfg =
     (if n < 0 then Some Panicked
      else case BuildTopology listens (replicate (nat n) ''127.0.0.1:9'') (n > 1) of
        None \<Rightarrow> Some Panicked
      | Some (Inl e) \<Rightarrow> Some (Ret (Inl (NoTimeline e)))
      | Some (Inr t) \<Rightarrow>
          (case BuildSchedule pcg t cfg of
             None \<Rightarrow> None
           | Some (Inl e) \<Rightarrow> Some (Ret (Inl (NoSchedule e)))
           | Some (Inr s) \<Rightarrow>
               Some (Ret (Inr (Schedule_String s @ [CHR 0x0A] @ show_nat (length (sc_events s)) @ '' events'' @ [CHR 0x0A])))))"

section \<open>The command \<open>check\<close>\<close>

record check_flags =
  kf_model :: string
  kf_maxVisits :: int
  kf_maxCache :: int
  kf_timeout :: duration
  kf_expect :: string
  kf_report :: string

text \<open>What the files answer: the lines of the history, and whether the report could be written.\<close>

record files =
  fl_lines :: "string \<Rightarrow> string list option"
  fl_decode :: "string \<Rightarrow> wireOp option"
  fl_written :: bool

definition cmdCheck ::
  "(State \<Rightarrow> 64 word) \<Rightarrow> (nat list \<Rightarrow> bool) \<Rightarrow> files \<Rightarrow> check_flags \<Rightarrow> string list \<Rightarrow> cli_error option run" where
  "cmdCheck seed late io f paths =
     (case paths of
        [path] \<Rightarrow>
          (case ByName (kf_model f) of
             Inl e \<Rightarrow> Some (Ret (Some (Failed (NoModel (kf_model f)))))
           | Inr m \<Rightarrow>
               (case fl_lines io path of
                  None \<Rightarrow> Some (Ret (Some (Failed (NoFile path))))
                | Some text \<Rightarrow>
                    (case Load (fl_decode io) text of
                       Inl e \<Rightarrow> Some (Ret (Some (Failed (BadHistory e))))
                     | Inr h \<Rightarrow>
                         and_then (Check seed m (budget_options (kf_maxVisits f) (kf_maxCache f) (kf_timeout f)) late h)
                           (\<lambda>checked. case checked of
                              Inl e \<Rightarrow> Some (Ret (Some (Failed (NotChecked e))))
                            | Inr r \<Rightarrow>
                                if kf_report f \<noteq> [] \<and> \<not> fl_written io
                                then Some (Ret (Some (Failed (NoReport (kf_report f)))))
                                else Some (Ret (checkExpectation (kf_expect f) (r_Verdict r)))))))
      | _ \<Rightarrow> Some (Ret (Some (Failed (FileCount (length paths))))))"

section \<open>The command \<open>sweep\<close>\<close>

record tally =
  ta_lin :: int
  ta_notLin :: int
  ta_unknown :: int
  ta_mismatches :: int

definition count_verdict :: "Verdict \<Rightarrow> tally \<Rightarrow> tally" where
  "count_verdict v t =
     (case v of
        Linearizable \<Rightarrow> t\<lparr>ta_lin := ta_lin t + 1\<rparr>
      | NotLinearizable \<Rightarrow> t\<lparr>ta_notLin := ta_notLin t + 1\<rparr>
      | _ \<Rightarrow> t\<lparr>ta_unknown := ta_unknown t + 1\<rparr>)"

text \<open>The verdict column's explanation, cut to fit.\<close>

definition sweep_detail :: "Verdict \<Rightarrow> string \<Rightarrow> string" where
  "sweep_detail v why =
     (if v \<noteq> Linearizable then (if length why > 70 then take 67 why @ ''...'' else why) else [])"

text \<open>
  One turn of the loop over the seeds. \<open>cancelled\<close> is the context's answer before each seed, \<open>seedRun\<close>
  what the run on a seed gave.
\<close>

definition sweep_turn ::
  "string \<Rightarrow> bool \<Rightarrow> (int \<Rightarrow> bool) \<Rightarrow> (int \<Rightarrow> failure + Verdict) \<Rightarrow> int \<Rightarrow> tally \<Rightarrow> cli_error + tally" where
  "sweep_turn expect stopEarly cancelled seedRun seed t =
     (if cancelled seed then Inl (Failed Interrupted)
      else case seedRun seed of
        Inl e \<Rightarrow> Inl (Failed (OnSeed seed e))
      | Inr v \<Rightarrow>
          let t = count_verdict v t in
          (case checkExpectation expect v of
             None \<Rightarrow> Inr t
           | Some err \<Rightarrow>
               let t = (case err of NoVerdict _ \<Rightarrow> t | _ \<Rightarrow> t\<lparr>ta_mismatches := ta_mismatches t + 1\<rparr>) in
               if stopEarly then Inl err else Inr t))"

text \<open>The loop; \<open>seed++\<close> wraps around, so it need not end.\<close>

partial_function (option) sweep_loop ::
  "string \<Rightarrow> bool \<Rightarrow> (int \<Rightarrow> bool) \<Rightarrow> (int \<Rightarrow> failure + Verdict) \<Rightarrow> int \<Rightarrow> int \<Rightarrow> tally \<Rightarrow> (cli_error + tally) option" where
  "sweep_loop expect stopEarly cancelled seedRun hi seed t =
     (if hi < seed then Some (Inr t)
      else case sweep_turn expect stopEarly cancelled seedRun seed t of
        Inl err \<Rightarrow> Some (Inl err)
      | Inr t \<Rightarrow> sweep_loop expect stopEarly cancelled seedRun hi (wrap64 (seed + 1)) t)"

definition cmdSweep ::
  "runFlags \<Rightarrow> bool \<Rightarrow> string \<Rightarrow> (int \<Rightarrow> bool) \<Rightarrow> (int \<Rightarrow> failure + Verdict) \<Rightarrow> cli_error option option" where
  "cmdSweep f stopEarly seedsArg cancelled seedRun =
     (case flags_validate f of
        Some err \<Rightarrow> Some (Some err)
      | None \<Rightarrow>
          (case parseRange seedsArg of
             Inl e \<Rightarrow> Some (Some (Failed e))
           | Inr (lo, hi) \<Rightarrow>
               map_option (\<lambda>r. case r of
                   Inl err \<Rightarrow> Some err
                 | Inr t \<Rightarrow> sweepOutcome (rf_expect f) (wrap64 (hi - lo + 1)) (ta_unknown t) (ta_mismatches t))
                 (sweep_loop (rf_expect f) stopEarly cancelled seedRun hi lo
                   \<lparr>ta_lin = 0, ta_notLin = 0, ta_unknown = 0, ta_mismatches = 0\<rparr>)))"

section \<open>Printing\<close>

definition plural_word :: "int \<Rightarrow> string \<Rightarrow> string" where
  "plural_word n word = (if n = 1 then show_int n @ '' '' @ word else show_int n @ '' '' @ word @ ''s'')"

definition indent :: "string \<Rightarrow> string \<Rightarrow> string" where
  "indent s prefix =
     (if s = [] then []
      else Join [CHR 0x0A] (map (\<lambda>l. prefix @ l) (Split (CHR 0x0A) (TrimRight_by (\<lambda>c. c = CHR 0x0A) s))) @ [CHR 0x0A])"

definition dur :: "int64 \<Rightarrow> string" where
  "dur t = Duration_String (Duration_Round (ms 1) t)"

definition completion :: "Op \<Rightarrow> string" where
  "completion op = (if Outcome op = Info then ''-'' else dur (Complete op))"

definition renderOp :: "Op \<Rightarrow> string \<Rightarrow> string" where
  "renderOp op node =
     (let stamp = ''['' @ pad_left 8 (dur (Invoke op)) @ '' '' @ pad_left 8 (completion op) @ '']'';
          who = ''p'' @ show_int (Process op) @ node;
          what = (case OpKind op of
              Read \<Rightarrow> ''read  '' @ Key op
            | Write \<Rightarrow> ''write '' @ Key op @ '' = '' @ show_int (Value op)
            | CAS \<Rightarrow> ''cas   '' @ Key op @ '': '' @ show_int (From op) @ '' -> '' @ show_int (To op)
            | _ \<Rightarrow> []);
          got = (if Outcome op = Info then ''indeterminate: '' @ Err op
            else if Outcome op = Fail then ''failed: '' @ Err op
            else if OpKind op = Read then ''= '' @ show_int (Observed op)
            else if OpKind op = CAS \<and> Swapped op then ''swapped''
            else if OpKind op = CAS then ''not swapped''
            else ''ok'')
      in stamp @ '' '' @ pad_right 10 who @ '' '' @ pad_right 26 what @ '' '' @ got)"

text \<open>The last lines \<open>printVerdict\<close> writes: the counterexample, from its end backwards at most 24 operations.\<close>

definition printed_ops :: "Result \<Rightarrow> (int \<Rightarrow> string option) option \<Rightarrow> string list" where
  "printed_ops r run =
     (if r_Ops r = [] then []
      else
        let n = length (r_Ops r); elided = (if n > 24 then n - 24 else 0)
        in [''  minimal counterexample, '' @ show_nat n @ '' operations:''] @
           (if elided > 0 then [''    ... '' @ show_nat elided @
              '' earlier operations, all consistent; use -report for the whole picture''] else []) @
           map (\<lambda>op. ''    '' @ renderOp op
               (case run of None \<Rightarrow> [] | Some who \<Rightarrow> (case who (Process op) of None \<Rightarrow> [] | Some n \<Rightarrow> CHR ''@'' # n)))
             (drop elided (r_Ops r)))"

end
