(* ===== verification/Printing.thy ===== *)
theory Printing
  imports Cli
begin

text \<open>
  Lines the tools print: the reason of a result as text (\<open>internal/checker/checker.go\<close>), the lines
  \<open>printVerdict\<close> puts before a counterexample, the banners, and the report a run asks for
  (\<open>cmd/splitbrain/main.go\<close>). The elapsed times of a check are arguments.
\<close>

section \<open>Reasons\<close>

definition hex_digit :: "nat \<Rightarrow> char" where
  "hex_digit n = (if n < 10 then digit n else char_of (87 + n))"

text \<open>
  The verb \<open>%q\<close>. Bytes from 128 on are left as they are, which is right for text that is well-formed
  and printable.
\<close>

definition quote_char :: "char \<Rightarrow> string" where
  "quote_char c =
     (let n = (of_char c :: nat); back = CHR 0x5C in
      if c = CHR 0x22 \<or> c = back then [back, c]
      else if n = 7 then [back, CHR ''a''] else if n = 8 then [back, CHR ''b'']
      else if n = 12 then [back, CHR ''f''] else if n = 10 then [back, CHR ''n'']
      else if n = 13 then [back, CHR ''r''] else if n = 9 then [back, CHR ''t'']
      else if n = 11 then [back, CHR ''v'']
      else if n < 32 \<or> n = 127 then [back, CHR ''x'', hex_digit (n div 16), hex_digit (n mod 16)]
      else [c])"

definition quote :: "string \<Rightarrow> string" where
  "quote s = CHR 0x22 # concat (map quote_char s) @ [CHR 0x22]"

definition reason_text :: "reason \<Rightarrow> string" where
  "reason_text r =
     (case r of
        AllLinearize n \<Rightarrow> ''all '' @ plural n ''operation'' @ '' on this key linearize''
      | OverVisits n \<Rightarrow> ''undecided after '' @ show_int n @ '' model transitions, the visit budget''
      | OverTime t \<Rightarrow> ''undecided after '' @ Duration_String t @ '', the time budget''
      | OverMemory n \<Rightarrow> ''undecided after '' @ humanBytes n @ '' of remembered states, the memory budget''
      | WalkedOff \<Rightarrow> ''the search walked off the end of the entry list, which is a bug in the checker''
      | NoOrdering \<Rightarrow> ''no ordering of these operations satisfies the model''
      | Explained s \<Rightarrow> s)"

definition result_text :: "result_reason \<Rightarrow> string" where
  "result_text r =
     (case r of
        Summary s \<Rightarrow> s
      | OnKey k why \<Rightarrow> ''key '' @ quote k @ '': '' @ reason_text why
      | OnKeyNotMinimised k why \<Rightarrow>
          ''key '' @ quote k @ '': '' @ reason_text why @ '' (minimisation ran out of budget)'')"

section \<open>The verdict\<close>

definition key_line :: "(string \<Rightarrow> duration) \<Rightarrow> string \<times> KeyStat \<Rightarrow> string" where
  "key_line took = (\<lambda>(k, st).
     ''  '' @ pad_right 6 k @ '' '' @ pad_left 5 (show_nat (ks_Ops st)) @ '' ops  '' @
     pad_right 18 (Verdict_String (ks_Verdict st)) @ '' '' @ pad_left 8 (show_int (ks_Visits st)) @ '' states  '' @
     Duration_String (Duration_Round (ms 1) (took k)))"

text \<open>
  \<open>printVerdict\<close>, over the keys of the result's map in whatever order the map yields them.
\<close>

definition printVerdict ::
  "(string \<Rightarrow> duration) \<Rightarrow> duration \<Rightarrow> string list \<Rightarrow> Result \<Rightarrow> (int \<Rightarrow> string option) option \<Rightarrow> string list" where
  "printVerdict took elapsed keys r run =
     map (\<lambda>k. key_line took (k, the (r_PerKey r k))) (sort_strings keys) @
     [''verdict: '' @ ToUpper (Verdict_String (r_Verdict r)) @ '' ('' @ show_int (r_Visits r) @ '' states in '' @
       Duration_String (Duration_Round (ms 1) elapsed) @ '')''] @
     (if result_text (r_Reason r) \<noteq> [] then [''  '' @ result_text (r_Reason r)] else []) @
     printed_ops r run"

section \<open>The command \<open>run\<close>\<close>

definition run_banner :: "runFlags \<Rightarrow> int \<Rightarrow> string" where
  "run_banner f seed =
     ''splitbrain run: target='' @ rf_target f @ '' nodes='' @ show_int (NodeCount (rf_target f) (rf_nodes f)) @
     '' clients='' @ show_int (rf_clients f) @ '' keys='' @ show_int (rf_keys f) @ '' faults='' @ rf_faults f @
     '' seed='' @ show_int seed @ '' duration='' @ Duration_String (rf_duration f)"

definition link_line :: "string \<times> LinkStats \<Rightarrow> string" where
  "link_line = (\<lambda>(n, s).
     ''    '' @ pad_right 8 n @ '' accepted='' @ show_int (st_Accepted s) @ '' refused='' @ show_int (st_Refused s) @
     '' reset='' @ show_int (st_ResetConns s) @ '' fwd='' @ show_int (st_BytesForward s) @ ''B back='' @
     show_int (st_BytesBack s) @ ''B dropped='' @ show_int (st_BytesDropped s) @ ''B'')"

definition stats_order :: "(string \<times> LinkStats) list \<Rightarrow> (string \<times> LinkStats) list" where
  "stats_order stats = map (\<lambda>n. (n, the (map_of stats n))) (sort_strings (map fst stats))"

text \<open>What \<open>oneRun\<close> prints of an experiment unless told to be quiet.\<close>

definition run_lines :: "runFlags \<Rightarrow> Campaign.Outcome \<Rightarrow> string list" where
  "run_lines f out =
     [''cluster: '' @ show_nat (length (oc_Addrs out)) @ '' '' @ rf_target f @ '' process(es) on '' @
        Join '', '' (oc_Addrs out),
      ''network: '' @ show_nat (length (oc_Links out)) @ '' links, '' @
        show_nat (length (sc_events (rr_Schedule (oc_Run out)))) @ '' planned fault events''] @
     (if rf_verbose f then
        [indent (Schedule_String (rr_Schedule (oc_Run out))) ''  '' @ ''  per-link traffic:''] @
        map link_line (stats_order (rr_LinkStats (oc_Run out)))
      else []) @
     [''run: '' @ Run_Summary (oc_Run out)]"

text \<open>The report of a run, and that of a file.\<close>

definition run_report :: "runFlags \<Rightarrow> int \<Rightarrow> RunResult \<Rightarrow> Result \<Rightarrow> duration \<Rightarrow> Input" where
  "run_report f seed res verdict elapsed =
     \<lparr>in_Title = rf_target f @ '' under '' @ rf_faults f @ '', seed '' @ show_int seed, in_Verdict = verdict, in_Elapsed = elapsed,
      in_History = rr_History res, in_Faults = rr_Applied res, in_ProcessNode = rr_ProcessNode res, in_MaxOps = 0,
      in_Summary = Run_Summary res\<rparr>"

definition check_banner :: "string \<Rightarrow> string \<Rightarrow> History \<Rightarrow> string" where
  "check_banner base model_name h =
     (case Counts h of (ok, fail, info) \<Rightarrow>
        ''splitbrain check: '' @ base @ '', '' @ plural_word (int (length h)) ''operation'' @ '' across '' @
        plural_word (int (length (Keys h))) ''key'' @ '' ('' @ show_nat ok @ '' ok, '' @ show_nat fail @ '' failed, '' @
        show_nat info @ '' indeterminate), model='' @ model_name)"

definition file_report :: "string \<Rightarrow> string \<Rightarrow> History \<Rightarrow> Result \<Rightarrow> duration \<Rightarrow> Input" where
  "file_report base model_name h verdict elapsed =
     \<lparr>in_Title = base, in_Verdict = verdict, in_Elapsed = elapsed, in_History = h, in_Faults = [], in_ProcessNode = Map.empty, in_MaxOps = 0,
      in_Summary = show_nat (length h) @ '' operations across '' @ show_nat (length (Keys h)) @
        '' keys, checked against the '' @ model_name @ '' model''\<rparr>"

section \<open>What the lines say\<close>

text \<open>A result always has a reason, so the line under the verdict is never missing.\<close>

lemma quote_nonempty [simp]: "quote s \<noteq> []"
  by (simp add: quote_def)

lemma result_text_nonempty: "(\<And>s. r = Summary s \<Longrightarrow> s \<noteq> []) \<Longrightarrow> result_text r \<noteq> []"
  by (cases r) (simp_all add: result_text_def)

text \<open>A key's name can be read back from its quotation, so two keys are never confused in a reason.\<close>

lemma quote_char_plain:
  assumes "32 \<le> (of_char c :: nat)" "(of_char c :: nat) \<noteq> 127" "c \<noteq> CHR 0x22" "c \<noteq> CHR 0x5C"
  shows "quote_char c = [c]"
  using assms by (simp add: quote_char_def Let_def)

lemma quote_plain:
  assumes "\<forall>c \<in> set s. 32 \<le> (of_char c :: nat) \<and> (of_char c :: nat) \<noteq> 127 \<and> c \<noteq> CHR 0x22 \<and> c \<noteq> CHR 0x5C"
  shows "quote s = CHR 0x22 # s @ [CHR 0x22]"
  using assms by (induction s) (auto simp: quote_def quote_char_plain)

text \<open>The lines of the keys come in the order of their names, whatever order the map had.\<close>

lemma printVerdict_order:
  assumes "distinct keys" and "set keys = set keys'" and "distinct keys'"
  shows "printVerdict took elapsed keys r run = printVerdict took elapsed keys' r run"
proof -
  have "mset keys = mset keys'" using assms by (simp add: set_eq_iff_mset_eq_distinct)
  then have "sort keys' = sort_strings keys" "sort keys' = sort_strings keys'"
    by (auto intro!: properties_for_sort sorted_sort_strings)
  then show ?thesis by (simp add: printVerdict_def del: sort_strings_simps)
qed

end
