(* ===== verification/Demo.thy ===== *)
theory Demo
  imports Printing
begin

text \<open>
  The headline demonstration (\<open>tools/demo/main.go\<close>): every store swept over the same partitions, two
  kinds of store swept again on a healthy network, and the assertions made of the counts. The
  experiments are those of theory \<open>Campaign\<close>, one world for each target, fault schedule and seed. What
  is printed to the terminal on the way is left out, the reason given with each store included, but for
  the lines of a sweep's table.
\<close>

section \<open>A sweep\<close>

datatype expectation = mustBeClean | mustBeCaught

record subject =
  su_target :: Target
  su_nodes :: int
  su_expect :: expectation

record sweepResult =
  sr_target :: Target
  sr_faults :: string
  sr_total :: int
  sr_linearizable :: int
  sr_notLinearizable :: int
  sr_unknown :: int
  sr_ops :: int64
  sr_dropped :: int64
  sr_forwarded :: int64
  sr_seedsWithoutDrops :: int
  sr_rows :: "string list"
  sr_firstViolation :: string

datatype demo_error =
    NoTempBin
  | NotBuilt
  | NoOutDir
  | SweepInterrupted
  | SeedFailed Target int campaign_error
  | HistoryUnsaved string
  | SummaryUnsaved

definition trunc :: "string \<Rightarrow> nat \<Rightarrow> string" where
  "trunc s n =
     (let s = map (\<lambda>c. if c = CHR 0x0A then CHR '' '' else c) s in
      if length s \<le> n then s else take (n - 3) s @ ''...'')"

text \<open>What one seed adds to the result.\<close>

definition count_outcome :: "int \<Rightarrow> Campaign.Outcome \<Rightarrow> sweepResult \<Rightarrow> sweepResult" where
  "count_outcome seed out res =
     (let h = rr_History (oc_Run out); (ok, fail, info) = Counts h; r = oc_Check out; why = result_text (r_Reason r);
          res = res\<lparr>sr_ops := wrap64 (sr_ops res + int (length h)),
            sr_dropped := wrap64 (sr_dropped res + DroppedBytes out),
            sr_forwarded := wrap64 (sr_forwarded res + ForwardedBytes out)\<rparr>;
          res = (if DroppedBytes out = 0 then res\<lparr>sr_seedsWithoutDrops := sr_seedsWithoutDrops res + 1\<rparr> else res);
          detail = (if r_Verdict r = Linearizable then [] else trunc why 64);
          res = (case r_Verdict r of
              Linearizable \<Rightarrow> res\<lparr>sr_linearizable := sr_linearizable res + 1\<rparr>
            | NotLinearizable \<Rightarrow>
                res\<lparr>sr_notLinearizable := sr_notLinearizable res + 1,
                  sr_firstViolation := (if sr_firstViolation res = [] then
                    sr_target res @ '' seed '' @ show_int seed @ '', '' @ why else sr_firstViolation res)\<rparr>
            | _ \<Rightarrow> res\<lparr>sr_unknown := sr_unknown res + 1\<rparr>)
      in res\<lparr>sr_rows := sr_rows res @
           [''  '' @ pad_right 6 (show_int seed) @ '' '' @ pad_right 7 (show_nat (length h)) @ '' '' @
            pad_right 6 (show_nat info) @ '' '' @ pad_right 18 (Verdict_String (r_Verdict r)) @ '' '' @
            pad_right 9 (show_int (r_Visits r)) @ '' '' @ detail @ [CHR 0x0A]]\<rparr>)"

definition sweep_line :: "sweepResult \<Rightarrow> string" where
  "sweep_line r =
     ''seeds='' @ show_int (sr_total r) @ '' linearizable='' @ show_int (sr_linearizable r) @ '' not-linearizable='' @
     show_int (sr_notLinearizable r) @ '' unknown='' @ show_int (sr_unknown r) @ '' operations='' @ show_int (sr_ops r) @
     '' forwarded='' @ show_int (sr_forwarded r) @ ''B dropped='' @ show_int (sr_dropped r) @ ''B'' @
     (if sr_faults r \<noteq> ''none'' \<and> sr_seedsWithoutDrops r > 0
      then '' ['' @ show_int (sr_seedsWithoutDrops r) @ '' seed(s) dropped nothing]'' else []) @
     (if sr_firstViolation r \<noteq> [] then [CHR 0x0A] @ ''  first violation: '' @ sr_firstViolation r else [])"

definition sweep_table :: "sweepResult \<Rightarrow> string" where
  "sweep_table r =
     ''  '' @ pad_right 6 ''seed'' @ '' '' @ pad_right 7 ''ops'' @ '' '' @ pad_right 6 ''info'' @ '' '' @
     pad_right 18 ''verdict'' @ '' '' @ pad_right 9 ''states'' @ '' '' @ ''detail'' @ [CHR 0x0A] @ concat (sr_rows r)"

record demo_flags =
  df_seeds :: int
  df_duration :: duration
  df_clients :: int
  df_keys :: int
  df_maxOps :: int
  df_out :: string
  df_control :: bool
  df_allowSkips :: bool

text \<open>The flags as \<open>main\<close> registers them.\<close>

definition demo_defaults :: demo_flags where
  "demo_defaults =
     \<lparr>df_seeds = 5, df_duration = ms 6000, df_clients = 6, df_keys = 4, df_maxOps = 2500, df_out = [],
       df_control = True, df_allowSkips = False\<rparr>"

definition sweep_spec :: "demo_flags \<Rightarrow> Target \<Rightarrow> int \<Rightarrow> string \<Rightarrow> string \<Rightarrow> int \<Rightarrow> Spec" where
  "sweep_spec f target node_count binDir faults seed =
     \<lparr>sp_Target = target, sp_Nodes = node_count, sp_BinDir = binDir, sp_NodeTimeout = 0,
       sp_Harness = \<lparr>cfg_Clients = df_clients f, cfg_Keys = df_keys f, cfg_Duration = df_duration f,
         cfg_MaxOps = df_maxOps f, cfg_OpTimeout = 0, cfg_ThinkMax = 0, cfg_ThinkMaxSet = False, cfg_ValueMax = 0,
         cfg_Faults = faults, cfg_Seed = seed, cfg_Quiesce = 0, cfg_QuiesceSet = False, cfg_KeepAlive = False\<rparr>,
       sp_Checker = \<lparr>MaxVisits = 3000000, Timeout = ms 90000, MaxCacheBytes = 512 * 2 ^ 20, Minimize = True, Parallelism = 0\<rparr>,
       sp_Model = Some CASRegister\<rparr>"

text \<open>
  The outside of a demonstration: a world for each experiment, the context before each seed, how an
  error reads, and how directories and files went.
\<close>

record demo_world =
  dw_os :: outcomes
  dw_on :: "Target \<Rightarrow> string \<Rightarrow> int \<Rightarrow> world"
  dw_cancelled :: "Target \<Rightarrow> string \<Rightarrow> int \<Rightarrow> bool"
  dw_message :: "demo_error \<Rightarrow> string"
  dw_outDir :: bool
  dw_saved :: "string \<Rightarrow> bool"

definition history_name :: "Target \<Rightarrow> string \<Rightarrow> int \<Rightarrow> string" where
  "history_name target faults seed = target @ ''-'' @ faults @ ''-seed'' @ show_int seed @ ''.jsonl''"

fun sweep_seeds ::
  "demo_world \<Rightarrow> demo_flags \<Rightarrow> Target \<Rightarrow> int \<Rightarrow> string \<Rightarrow> string \<Rightarrow> int list \<Rightarrow> sweepResult \<Rightarrow> host \<Rightarrow>
   (demo_error + sweepResult) run \<times> host" where
  "sweep_seeds w f target node_count binDir faults [] res h = (Some (Ret (Inr res)), h)"
| "sweep_seeds w f target node_count binDir faults (seed # seeds) res h =
     (if dw_cancelled w target faults seed then (Some (Ret (Inl SweepInterrupted)), h)
      else case Once (dw_on w target faults seed) (sweep_spec f target node_count binDir faults seed) h of
        (None, t, h) \<Rightarrow> (None, h)
      | (Some Panicked, t, h) \<Rightarrow> (Some Panicked, h)
      | (Some (Ret (Inl e)), t, h) \<Rightarrow> (Some (Ret (Inl (SeedFailed target seed e))), h)
      | (Some (Ret (Inr out)), t, h) \<Rightarrow>
          let res = count_outcome seed out res in
          if df_out f \<noteq> [] \<and> \<not> dw_saved w (history_name target faults seed)
          then (Some (Ret (Inl (HistoryUnsaved (history_name target faults seed)))), h)
          else sweep_seeds w f target node_count binDir faults seeds res h)"

definition no_result :: "Target \<Rightarrow> string \<Rightarrow> int \<Rightarrow> sweepResult" where
  "no_result target faults seeds =
     \<lparr>sr_target = target, sr_faults = faults, sr_total = seeds, sr_linearizable = 0, sr_notLinearizable = 0,
       sr_unknown = 0, sr_ops = 0, sr_dropped = 0, sr_forwarded = 0, sr_seedsWithoutDrops = 0, sr_rows = [],
       sr_firstViolation = []\<rparr>"

definition demo_sweep ::
  "demo_world \<Rightarrow> demo_flags \<Rightarrow> Target \<Rightarrow> int \<Rightarrow> string \<Rightarrow> string \<Rightarrow> host \<Rightarrow> (demo_error + sweepResult) run \<times> host" where
  "demo_sweep w f target node_count binDir faults h =
     sweep_seeds w f target node_count binDir faults [0..df_seeds f - 1] (no_result target faults (df_seeds f)) h"

section \<open>The assertions\<close>

definition subjects :: "subject list" where
  "subjects =
     [\<lparr>su_target = Single, su_nodes = 1, su_expect = mustBeClean\<rparr>,
      \<lparr>su_target = Forward, su_nodes = 3, su_expect = mustBeClean\<rparr>,
      \<lparr>su_target = SplitTarget, su_nodes = 3, su_expect = mustBeCaught\<rparr>,
      \<lparr>su_target = Sync, su_nodes = 3, su_expect = mustBeCaught\<rparr>,
      \<lparr>su_target = Quorum, su_nodes = 3, su_expect = mustBeCaught\<rparr>]"

definition controls :: "(Target \<times> bool) list" where
  "controls = [(SplitTarget, True), (Sync, False), (Quorum, False)]"

definition complaint :: "bool \<Rightarrow> string \<Rightarrow> string list" where
  "complaint b s = (if b then [s] else [])"

definition subject_failures :: "int \<Rightarrow> subject \<Rightarrow> sweepResult \<Rightarrow> string list" where
  "subject_failures seeds s res =
     (let on_seeds = (\<lambda>n. show_int n @ '' of '' @ show_int (sr_total res) @ '' seeds'') in
      (case su_expect s of
         mustBeClean \<Rightarrow>
           complaint (sr_notLinearizable res > 0) (su_target s @ '' was accused on '' @ on_seeds (sr_notLinearizable res) @
             ''; it is correct by construction, so this is a defect in the checker or the harness, not in the store'') @
           complaint (sr_unknown res > 0) (su_target s @ '' exhausted the search budget on '' @ on_seeds (sr_unknown res) @
             ''; an unknown verdict is not a pass'')
       | mustBeCaught \<Rightarrow>
           complaint (sr_notLinearizable res = 0) (su_target s @ '' was never caught across '' @ show_int (sr_total res) @
             '' seeds; either the fault injection stopped working or the checker stopped checking'')) @
      complaint (sr_seedsWithoutDrops res > 0) (su_target s @ '': '' @ on_seeds (sr_seedsWithoutDrops res) @
        '' dropped zero bytes, so their verdicts are about a network that was never broken'') @
      complaint (sr_forwarded res = 0) (su_target s @ '': no bytes ever reached a node'') @
      complaint (sr_ops res < wrap64 (seeds * 20)) (su_target s @ '': only '' @ show_int (sr_ops res) @
        '' operations across '' @ show_int seeds @ '' seeds, which is too few to conclude anything''))"

definition control_failures :: "Target \<Rightarrow> bool \<Rightarrow> sweepResult \<Rightarrow> string list" where
  "control_failures target mustPass res =
     complaint (sr_dropped res \<noteq> 0) (''the healthy control for '' @ target @ '' dropped '' @ show_int (sr_dropped res) @
       '' bytes; it is not a control if the network was broken'') @
     complaint (mustPass \<and> sr_linearizable res \<noteq> sr_total res) (target @ '' was caught on '' @
       show_int (sr_total res - sr_linearizable res) @ '' of '' @ show_int (sr_total res) @
       '' seeds with a healthy network; it is meant to be correct until something cuts the network, '' @
       ''so the comparison with its partitioned run no longer shows that the partition is what found the bug'')"

section \<open>The run\<close>

record demo_books =
  db_failures :: "string list"
  db_skipped :: "string list"
  db_summary :: "string list"

definition skipped_on :: "string \<Rightarrow> string \<Rightarrow> demo_books \<Rightarrow> demo_books" where
  "skipped_on name note b = b\<lparr>db_skipped := db_skipped b @ [name], db_summary := db_summary b @ [note]\<rparr>"

definition asserted_on :: "string list \<Rightarrow> string \<Rightarrow> demo_books \<Rightarrow> demo_books" where
  "asserted_on failed note b = b\<lparr>db_failures := db_failures b @ failed, db_summary := db_summary b @ [note]\<rparr>"

datatype demo_end =
    DemoError demo_error
  | AssertionsFailed "string list"
  | Incomplete "string list"
  | AllHeld

text \<open>
  The loops over the subjects and the controls. A sweep the machine's policy stopped is skipped where
  the flag allows it; any other error ends the demonstration.
\<close>

fun run_subjects ::
  "demo_world \<Rightarrow> demo_flags \<Rightarrow> string \<Rightarrow> subject list \<Rightarrow> demo_books \<Rightarrow> host \<Rightarrow> (demo_error + demo_books) run \<times> host" where
  "run_subjects w f binDir [] b h = (Some (Ret (Inr b)), h)"
| "run_subjects w f binDir (s # ss) b h =
     (case demo_sweep w f (su_target s) (su_nodes s) binDir ''partition'' h of
        (None, h) \<Rightarrow> (None, h)
      | (Some Panicked, h) \<Rightarrow> (Some Panicked, h)
      | (Some (Ret (Inl e)), h) \<Rightarrow>
          if PolicyBlocked (dw_message w e) \<and> df_allowSkips f
          then run_subjects w f binDir ss (skipped_on (su_target s) (su_target s @
            '' partition: SKIPPED, this machine refused to execute the binary ('' @ dw_message w e @ '')'') b) h
          else (Some (Ret (Inl e)), h)
      | (Some (Ret (Inr res)), h) \<Rightarrow>
          run_subjects w f binDir ss (asserted_on (subject_failures (df_seeds f) s res)
            (su_target s @ '' partition: '' @ sweep_line res) b) h)"

fun run_controls ::
  "demo_world \<Rightarrow> demo_flags \<Rightarrow> string \<Rightarrow> (Target \<times> bool) list \<Rightarrow> demo_books \<Rightarrow> host \<Rightarrow> (demo_error + demo_books) run \<times> host" where
  "run_controls w f binDir [] b h = (Some (Ret (Inr b)), h)"
| "run_controls w f binDir ((target, mustPass) # cs) b h =
     (case demo_sweep w f target 3 binDir ''none'' h of
        (None, h) \<Rightarrow> (None, h)
      | (Some Panicked, h) \<Rightarrow> (Some Panicked, h)
      | (Some (Ret (Inl e)), h) \<Rightarrow>
          if PolicyBlocked (dw_message w e) \<and> df_allowSkips f
          then run_controls w f binDir cs (skipped_on (target @ '' (control)'')
            (target @ '' healthy: SKIPPED, this machine refused to execute the binary'') b) h
          else (Some (Ret (Inl e)), h)
      | (Some (Ret (Inr res)), h) \<Rightarrow>
          run_controls w f binDir cs (asserted_on (control_failures target mustPass res)
            (target @ '' healthy: '' @ sweep_line res) b) h)"

definition buildAll :: "outcomes \<Rightarrow> host \<Rightarrow> (demo_error + string) \<times> host" where
  "buildAll os h =
     (case os_tempDir os of
        None \<Rightarrow> (Inl NoTempBin, h)
      | Some dir \<Rightarrow>
          let h = h\<lparr>h_dirs := dir # h_dirs h\<rparr> in
          if \<not> os_goBuild os then (Inl NotBuilt, removeDir dir h) else (Inr dir, h))"

definition assertions :: "demo_world \<Rightarrow> demo_flags \<Rightarrow> demo_books \<Rightarrow> demo_end" where
  "assertions w f b =
     (if df_out f \<noteq> [] \<and> \<not> dw_saved w ''summary.txt'' then DemoError SummaryUnsaved
      else if db_failures b \<noteq> [] then AssertionsFailed (db_failures b)
      else if db_skipped b \<noteq> [] then Incomplete (db_skipped b)
      else AllHeld)"

definition demo_body :: "demo_world \<Rightarrow> demo_flags \<Rightarrow> string \<Rightarrow> host \<Rightarrow> demo_end run \<times> host" where
  "demo_body w f binDir h =
     (if df_out f \<noteq> [] \<and> \<not> dw_outDir w then (Some (Ret (DemoError NoOutDir)), h)
      else case run_subjects w f binDir subjects \<lparr>db_failures = [], db_skipped = [], db_summary = []\<rparr> h of
        (None, h) \<Rightarrow> (None, h)
      | (Some Panicked, h) \<Rightarrow> (Some Panicked, h)
      | (Some (Ret (Inl e)), h) \<Rightarrow> (Some (Ret (DemoError e)), h)
      | (Some (Ret (Inr b)), h) \<Rightarrow>
          if \<not> df_control f then (Some (Ret (assertions w f b)), h)
          else (case run_controls w f binDir controls b h of
            (None, h) \<Rightarrow> (None, h)
          | (Some Panicked, h) \<Rightarrow> (Some Panicked, h)
          | (Some (Ret (Inl e)), h) \<Rightarrow> (Some (Ret (DemoError e)), h)
          | (Some (Ret (Inr b)), h) \<Rightarrow> (Some (Ret (assertions w f b)), h)))"

text \<open>The directory of the binaries is removed on every way out.\<close>

definition demo_run :: "demo_world \<Rightarrow> demo_flags \<Rightarrow> host \<Rightarrow> demo_end run \<times> host" where
  "demo_run w f h =
     (case buildAll (dw_os w) h of
        (Inl e, h) \<Rightarrow> (Some (Ret (DemoError e)), h)
      | (Inr dir, h) \<Rightarrow> (case demo_body w f dir h of (r, h) \<Rightarrow> (r, removeDir dir h)))"

definition demo_status :: "demo_end \<Rightarrow> int" where
  "demo_status r = (case r of DemoError _ \<Rightarrow> 1 | AssertionsFailed _ \<Rightarrow> 1 | Incomplete _ \<Rightarrow> 0 | AllHeld \<Rightarrow> 0)"

end
