(* ===== verification/Cli_Correct.thy ===== *)
theory Cli_Correct
  imports Cli
begin

text \<open>
  What the exit status of a command says. It is read against the checker's verdict for \<open>check\<close>, down
  to the linearizability of the history in the file, and against the verdicts of all seeds for
  \<open>sweep\<close>. The flags a run is given are the ones that were typed.
\<close>

section \<open>One verdict\<close>

definition wanted :: "string \<Rightarrow> string" where
  "wanted expect = ToLower (TrimSpace expect)"

definition known_expectation :: "string \<Rightarrow> bool" where
  "known_expectation expect \<longleftrightarrow> wanted expect \<in> set wants"

definition meets :: "string \<Rightarrow> Verdict \<Rightarrow> bool" where
  "meets expect v \<longleftrightarrow>
     wanted expect \<in> {'''', ''any''} \<or> wanted expect = ''linearizable'' \<and> v = Linearizable \<or>
     wanted expect \<in> {''not-linearizable'', ''not_linearizable'', ''violation''} \<and> v = NotLinearizable"

lemma wants_eq: "set wants = {'''', ''any'', ''linearizable'', ''not-linearizable'', ''not_linearizable'', ''violation''}"
  by (simp add: wants_def)

lemma checkExpectation_cases:
  "checkExpectation expect v =
     (if \<not> known_expectation expect then Some (Failed (UnknownExpectation expect))
      else if v = Unknown then Some (NoVerdict budget_note)
      else if meets expect v then None
      else Some (ExpectationFailed (''expected '' @ wanted expect @ '', got '' @ Verdict_String v)))"
  unfolding checkExpectation_def known_expectation_def meets_def wanted_def Let_def
  by (cases "ToLower (TrimSpace expect) \<in> set wants") (auto simp: wants_eq)

lemma checkExpectation_status:
  "exit_status (checkExpectation expect v) =
     (if \<not> known_expectation expect \<or> v = Unknown then 2 else if meets expect v then 0 else 1)"
  by (simp add: checkExpectation_cases exit_status_def)

section \<open>The command \<open>check\<close>\<close>

text \<open>What \<open>check\<close> looked at: the one file it was given, as a history.\<close>

definition loaded :: "files \<Rightarrow> string list \<Rightarrow> History \<Rightarrow> bool" where
  "loaded io paths h \<longleftrightarrow>
     (\<exists>path text. paths = [path] \<and> fl_lines io path = Some text \<and> Load (fl_decode io) text = Inr h)"

lemma cmdCheck_decided:
  assumes "cmdCheck seed late io f paths = Some (Ret e)" and "exit_status e \<noteq> 2"
  shows "\<exists>m h r. ByName (kf_model f) = Inr m \<and> loaded io paths h \<and>
    Check seed m (budget_options (kf_maxVisits f) (kf_maxCache f) (kf_timeout f)) late h = Some (Ret (Inr r)) \<and>
    e = checkExpectation (kf_expect f) (r_Verdict r)"
  using assms
  by (auto simp: cmdCheck_def loaded_def exit_status_def and_then_def split: list.splits sum.splits option.splits if_splits ret.splits)

text \<open>\<open>check\<close> returns and never panics on files of 64-bit operations none of which is invoked at the last instant.\<close>

lemma cmdCheck_returns:
  assumes "\<And>h. loaded io paths h \<Longrightarrow> (\<forall>op \<in> set h. int64_op op) \<and> before_pending h"
  shows "\<exists>e. cmdCheck seed late io f paths = Some (Ret e)"
proof -
  let ?opt = "budget_options (kf_maxVisits f) (kf_maxCache f) (kf_timeout f)"
  have "\<exists>x. Check seed m ?opt late h = Some (Ret x)" if "ByName name = Inr m" "loaded io paths h" for m h name
  proof (cases "Validate h")
    case None
    then have "valid_history h" using assms [OF that(2)] Validate_None by blast
    with sequential_model.Check_correct [OF ByName_model [OF that(1)] this] assms [OF that(2)] show ?thesis by blast
  next
    case (Some e)
    then show ?thesis by (simp add: Check_def)
  qed
  then show ?thesis
    by (fastforce simp: cmdCheck_def loaded_def and_then_def split: list.splits sum.splits option.splits ret.splits)
qed

theorem cmdCheck_means:
  assumes "cmdCheck seed late io f paths = Some (Ret e)" and "exit_status e \<noteq> 2"
    and "\<And>h. loaded io paths h \<Longrightarrow> (\<forall>op \<in> set h. int64_op op) \<and> before_pending h"
  shows "\<exists>m h r. ByName (kf_model f) = Inr m \<and> loaded io paths h \<and> valid_history h \<and>
    verdict_means m (DropFailed h) r \<and> r_Verdict r \<noteq> Unknown \<and> known_expectation (kf_expect f) \<and>
    exit_status e = (if meets (kf_expect f) (r_Verdict r) then 0 else 1)"
proof -
  from cmdCheck_decided [OF assms(1,2)] obtain m h r where m: "ByName (kf_model f) = Inr m"
    and h: "loaded io paths h"
    and r: "Check seed m (budget_options (kf_maxVisits f) (kf_maxCache f) (kf_timeout f)) late h = Some (Ret (Inr r))"
    and e: "e = checkExpectation (kf_expect f) (r_Verdict r)" by blast
  have "Validate h = None" using r by (auto simp: Check_def split: option.splits)
  with assms(3) [OF h] have v: "valid_history h" "before_pending h" using Validate_None by blast+
  from sequential_model.Check_correct [OF ByName_model [OF m] v] r
  have "verdict_means m (DropFailed h) r" unfolding check_result_ok_def by (metis Inr_inject option.inject ret.inject)
  with m h v e assms(2) show ?thesis by (auto simp: checkExpectation_status split: if_splits)
qed

section \<open>The command \<open>run\<close>\<close>

text \<open>A status other than 2 is the verdict of the checker on the history of the run.\<close>

theorem cmdRun_means:
  assumes "cmdRun w f out seed h = (Some (Ret e), h')" and "exit_status e \<noteq> 2"
  shows "\<exists>m history r. ByName (rf_modelName f) = Inr m \<and>
    Check (wo_seed w) m (checkerOptions f) (wo_late w) history = Some (Ret (Inr r)) \<and> r_Verdict r \<noteq> Unknown \<and>
    known_expectation (rf_expect f) \<and> exit_status e = (if meets (rf_expect f) (r_Verdict r) then 0 else 1)"
proof -
  let ?spec = "\<lambda>m. \<lparr>sp_Target = rf_target f, sp_Nodes = rf_nodes f, sp_BinDir = rf_binDir f,
    sp_NodeTimeout = rf_nodeTmo f, sp_Harness = harnessConfig f seed, sp_Checker = checkerOptions f, sp_Model = Some m\<rparr>"
  have v: "flags_validate f = None"
    using assms by (auto simp: cmdRun_def flags_validate_def exit_status_def split: option.splits prod.splits)
  obtain r0 h0 where o: "oneRun w f seed h = (r0, h0)" by (meson surj_pair)
  with assms v obtain oc where oc: "r0 = Some (Ret (Inr oc))"
    and e: "e = checkExpectation (rf_expect f) (r_Verdict (oc_Check oc))"
    by (auto simp: cmdRun_def and_then_def exit_status_def Let_def split: option.splits ret.splits sum.splits if_splits)
  from o oc obtain m t where m: "ByName (rf_modelName f) = Inr m" and "Once w (?spec m) h = (Some (Ret (Inr oc)), t, h0)"
    by (auto simp: oneRun_def and_then_def split: if_splits sum.splits prod.splits option.splits ret.splits)
  from Once_verdict [OF this(2)]
  have "Check (wo_seed w) m (checkerOptions f) (wo_late w) (rr_History (oc_Run oc)) = Some (Ret (Inr (oc_Check oc)))" by simp
  with m e assms(2) show ?thesis by (auto simp: checkExpectation_status split: if_splits)
qed

text \<open>\<open>run\<close> leaves the machine as it found it.\<close>

theorem cmdRun_cleans_up:
  assumes "cmdRun w f out seed h = (r, h')" and "host_ok h"
    and "\<forall>dir. os_tempDir (wo_os w) = Some dir \<longrightarrow> dir \<noteq> [] \<and> dir \<notin> set (h_dirs h)"
  shows "same_host h h'"
proof (cases "flags_validate f")
  case None
  obtain r0 h0 where o: "oneRun w f seed h = (r0, h0)" by (meson surj_pair)
  with None assms(1) have "h' = h0" by (simp add: cmdRun_def)
  moreover have "same_host h h0"
    using o Once_cleans_up(1) [OF _ assms(2,3)]
    by (auto simp: oneRun_def same_host_def split: if_splits sum.splits prod.splits)
  ultimately show ?thesis by simp
next
  case (Some err)
  with assms(1) show ?thesis by (auto simp: cmdRun_def same_host_def)
qed

text \<open>A timeline that cannot be laid over its proxies takes the command down.\<close>

lemma cmdSchedule_panics: "n < 0 \<Longrightarrow> cmdSchedule pcg listens n cfg = Some Panicked"
  by (simp add: cmdSchedule_def)

section \<open>The command \<open>sweep\<close>\<close>

definition proper :: "Verdict \<Rightarrow> bool" where
  "proper v \<longleftrightarrow> v = Linearizable \<or> v = NotLinearizable \<or> v = Unknown"

lemma count_verdict_sel:
  "ta_mismatches (count_verdict v t) = ta_mismatches t"
  "proper v \<Longrightarrow> ta_unknown (count_verdict v t) = ta_unknown t + (if v = Unknown then 1 else 0)"
  by (auto simp: count_verdict_def proper_def split: Verdict.split)

definition mismatched :: "string \<Rightarrow> Verdict \<Rightarrow> bool" where
  "mismatched expect v \<longleftrightarrow> (if known_expectation expect then v \<noteq> Unknown \<and> \<not> meets expect v else True)"

lemma parseRange_ordered: "parseRange s = Inr (a, b) \<Longrightarrow> a \<le> b \<and> min_int64 \<le> a \<and> b \<le> max_int64"
  by (auto simp: parseRange_def dest!: Atoi_range split: option.splits if_splits)

lemma sweep_turn_run:
  assumes "\<not> cancelled s" and "seedRun s = Inr v"
  shows "sweep_turn expect False cancelled seedRun s t =
    Inr (if mismatched expect v
         then (count_verdict v t)\<lparr>ta_mismatches := ta_mismatches t + 1\<rparr> else count_verdict v t)"
  using assms by (auto simp: sweep_turn_def Let_def checkExpectation_cases mismatched_def count_verdict_sel)

text \<open>Where the range ends short of the last 64-bit number, the loop meets each of its seeds once.\<close>

lemma sweep_loop_tally:
  assumes "\<And>s. lo \<le> s \<Longrightarrow> s \<le> hi \<Longrightarrow> \<not> cancelled s \<and> (\<exists>v. seedRun s = Inr v \<and> proper v)"
    and "min_int64 \<le> lo" and "hi < max_int64"
  shows "\<exists>t'. sweep_loop expect False cancelled seedRun hi lo t = Some (Inr t') \<and>
    ta_unknown t' = ta_unknown t + int (length (filter (\<lambda>s. seedRun s = Inr Unknown) [lo..hi])) \<and>
    ta_mismatches t' = ta_mismatches t +
      int (length (filter (\<lambda>s. \<exists>v. seedRun s = Inr v \<and> mismatched expect v) [lo..hi]))"
  using assms(1,2)
proof (induction "nat (hi - lo + 1)" arbitrary: lo t)
  case 0
  then have "hi < lo" by simp
  then show ?case by (simp add: sweep_loop.simps)
next
  case (Suc n)
  then have le: "lo \<le> hi" by simp
  then obtain v where v: "seedRun lo = Inr v" "proper v" "\<not> cancelled lo" using Suc.prems(1) [of lo] by auto
  have w: "wrap64 (lo + 1) = lo + 1" using le Suc.prems(2) assms(3) by (intro wrap64_id) simp_all
  let ?t = "if mismatched expect v then (count_verdict v t)\<lparr>ta_mismatches := ta_mismatches t + 1\<rparr> else count_verdict v t"
  have step: "sweep_loop expect False cancelled seedRun hi lo t = sweep_loop expect False cancelled seedRun hi (lo + 1) ?t"
    using le v by (subst sweep_loop.simps) (simp add: sweep_turn_run w del: if_distrib)
  have "n = nat (hi - (lo + 1) + 1)" using Suc.hyps(2) by simp
  from Suc.hyps(1) [OF this, of ?t] Suc.prems obtain t' where
    "sweep_loop expect False cancelled seedRun hi (lo + 1) ?t = Some (Inr t')"
    "ta_unknown t' = ta_unknown ?t + int (length (filter (\<lambda>s. seedRun s = Inr Unknown) [lo + 1..hi]))"
    "ta_mismatches t' = ta_mismatches ?t +
      int (length (filter (\<lambda>s. \<exists>v. seedRun s = Inr v \<and> mismatched expect v) [lo + 1..hi]))" by auto
  with step v le show ?case by (auto simp: count_verdict_sel upto_rec1)
qed

text \<open>A range that ends at the last 64-bit number has no end: the counter wraps around below it.\<close>

lemma sweep_loop_endless:
  assumes "\<And>s. \<not> cancelled s \<and> (\<exists>v. seedRun s = Inr v)" and "lo \<le> max_int64"
  shows "sweep_loop expect False cancelled seedRun max_int64 lo t = None"
proof (rule ccontr)
  assume "sweep_loop expect False cancelled seedRun max_int64 lo t \<noteq> None"
  then obtain r where r: "sweep_loop expect False cancelled seedRun max_int64 lo t = Some r" by blast
  have "hi = max_int64 \<and> stop = False \<and> gone = cancelled \<and> run = seedRun \<longrightarrow> \<not> s \<le> max_int64"
    if "sweep_loop e stop gone run hi s t = Some x" for e stop gone run hi s t x
    using that
  proof (rule sweep_loop.raw_induct [rotated])
    fix loop e stop gone run hi s t x
    assume IH: "\<And>e stop gone run hi s t x. loop e stop gone run hi s t = Some x \<Longrightarrow>
        hi = max_int64 \<and> stop = False \<and> gone = cancelled \<and> run = seedRun \<longrightarrow> \<not> s \<le> max_int64"
      and x: "(if hi < s then Some (Inr t)
        else case sweep_turn e stop gone run s t of Inl err \<Rightarrow> Some (Inl err)
          | Inr t \<Rightarrow> loop e stop gone run hi (wrap64 (s + 1)) t) = Some x"
    show "hi = max_int64 \<and> stop = False \<and> gone = cancelled \<and> run = seedRun \<longrightarrow> \<not> s \<le> max_int64"
    proof (intro impI notI)
      assume q: "hi = max_int64 \<and> stop = False \<and> gone = cancelled \<and> run = seedRun" and le: "s \<le> max_int64"
      from assms(1) [of s] obtain v where v: "\<not> cancelled s" "seedRun s = Inr v" by blast
      from x q le obtain t' where "loop e False cancelled seedRun max_int64 (wrap64 (s + 1)) t' = Some x"
        by (simp add: sweep_turn_run [of cancelled s seedRun v, OF v] del: if_distrib)
      from IH [OF this] wrap64_bounds(2) [of "s + 1"] show False by simp
    qed
  qed
  from this [OF r] assms(2) show False by simp
qed

lemma sweep_status:
  assumes "flags_validate f = None" and "parseRange seedsArg = Inr (lo, hi)" and "hi < max_int64"
    and "\<And>s. lo \<le> s \<Longrightarrow> s \<le> hi \<Longrightarrow> \<not> cancelled s \<and> (\<exists>v. seedRun s = Inr v \<and> proper v)"
  shows "\<exists>e. cmdSweep f False seedsArg cancelled seedRun = Some e \<and> exit_status e =
    (if \<exists>s. lo \<le> s \<and> s \<le> hi \<and> seedRun s = Inr Unknown then 2
     else if \<exists>s v. lo \<le> s \<and> s \<le> hi \<and> seedRun s = Inr v \<and> mismatched (rf_expect f) v then 1 else 0)"
proof -
  let ?z = "\<lparr>ta_lin = 0, ta_notLin = 0, ta_unknown = 0, ta_mismatches = 0\<rparr>"
  have "min_int64 \<le> lo" using parseRange_ordered [OF assms(2)] by simp
  from sweep_loop_tally [of lo hi cancelled seedRun "rf_expect f" ?z, OF assms(4) this assms(3)]
  obtain t where t: "sweep_loop (rf_expect f) False cancelled seedRun hi lo ?z = Some (Inr t)"
    and u: "ta_unknown t = int (length (filter (\<lambda>s. seedRun s = Inr Unknown) [lo..hi]))"
    and m: "ta_mismatches t = int (length (filter (\<lambda>s. \<exists>v. seedRun s = Inr v \<and> mismatched (rf_expect f) v) [lo..hi]))"
    by auto
  have "0 < ta_unknown t \<longleftrightarrow> (\<exists>s. lo \<le> s \<and> s \<le> hi \<and> seedRun s = Inr Unknown)"
    by (auto simp: u filter_empty_conv)
  moreover have "0 < ta_mismatches t \<longleftrightarrow> (\<exists>s v. lo \<le> s \<and> s \<le> hi \<and> seedRun s = Inr v \<and> mismatched (rf_expect f) v)"
    by (auto simp: m filter_empty_conv)
  moreover have "\<exists>e. cmdSweep f False seedsArg cancelled seedRun = Some e \<and>
      exit_status e = (if 0 < ta_unknown t then 2 else if 0 < ta_mismatches t then 1 else 0)"
    using assms(1,2) t by (simp add: cmdSweep_def sweepOutcome_def exit_status_def)
  ultimately show ?thesis by (simp only:)
qed

lemma sweep_endless:
  assumes "flags_validate f = None" and "parseRange seedsArg = Inr (lo, max_int64)"
    and "\<And>s. \<not> cancelled s \<and> (\<exists>v. seedRun s = Inr v)"
  shows "cmdSweep f False seedsArg cancelled seedRun = None"
proof -
  have "lo \<le> max_int64" using parseRange_ordered [OF assms(2)] by simp
  from sweep_loop_endless [of cancelled seedRun lo "rf_expect f", OF assms(3) this] assms(1,2) show ?thesis by (simp add: cmdSweep_def)
qed

section \<open>Flags\<close>

text \<open>A flag that was not typed has the value it was registered with.\<close>

definition parsed_flags :: "runFlags \<Rightarrow> bool" where
  "parsed_flags f \<longleftrightarrow>
     (''clients'' \<in> set (rf_typed f) \<or> rf_clients f = rf_clients register_flags) \<and>
     (''keys'' \<in> set (rf_typed f) \<or> rf_keys f = rf_keys register_flags) \<and>
     (''duration'' \<in> set (rf_typed f) \<or> rf_duration f = rf_duration register_flags) \<and>
     (''op-timeout'' \<in> set (rf_typed f) \<or> rf_opTimeout f = rf_opTimeout register_flags) \<and>
     (''value-max'' \<in> set (rf_typed f) \<or> rf_valueMax f = rf_valueMax register_flags) \<and>
     (''max-ops'' \<in> set (rf_typed f) \<or> rf_maxOps f = rf_maxOps register_flags) \<and>
     (''think'' \<in> set (rf_typed f) \<or> rf_thinkMax f = rf_thinkMax register_flags) \<and>
     (''quiesce'' \<in> set (rf_typed f) \<or> rf_quiesce f = rf_quiesce register_flags)"

lemma flags_validate_rows:
  assumes "flags_validate f = None"
  shows "list_all (\<lambda>(name, ok, got, want). name \<in> set (rf_typed f) \<longrightarrow> ok) (flag_checks f)"
  using assms by (fastforce simp: flags_validate_def find_None_iff list_all_iff split: option.splits)

lemma typed_or_default:
  "P \<or> x = c \<Longrightarrow> P \<longrightarrow> l \<le> x \<Longrightarrow> l \<le> c \<Longrightarrow> l \<le> (x :: int)"
  "P \<or> x = c \<Longrightarrow> P \<longrightarrow> l < x \<Longrightarrow> l < c \<Longrightarrow> l < (x :: int)"
  by auto

lemma flags_validate_None:
  assumes "flags_validate f = None" and "parsed_flags f"
  shows "1 \<le> rf_clients f" "1 \<le> rf_keys f" "0 < rf_duration f" "0 < rf_opTimeout f" "2 \<le> rf_valueMax f"
    "0 \<le> rf_maxOps f" "0 \<le> rf_thinkMax f" "0 \<le> rf_quiesce f"
proof -
  note rows = flags_validate_rows [OF assms(1), unfolded flag_checks_def list.pred_inject prod.case]
  have d: "rf_clients register_flags = 6" "rf_keys register_flags = 4" "rf_duration register_flags = 8000000000"
    "rf_opTimeout register_flags = 400000000" "rf_valueMax register_flags = 1000000" "rf_maxOps register_flags = 4000"
    "rf_thinkMax register_flags = 8000000" "rf_quiesce register_flags = 750000000"
    by (simp_all add: register_flags_def ms_def)
  have p: "''clients'' \<in> set (rf_typed f) \<or> rf_clients f = 6" "''keys'' \<in> set (rf_typed f) \<or> rf_keys f = 4"
    "''duration'' \<in> set (rf_typed f) \<or> rf_duration f = 8000000000"
    "''op-timeout'' \<in> set (rf_typed f) \<or> rf_opTimeout f = 400000000"
    "''value-max'' \<in> set (rf_typed f) \<or> rf_valueMax f = 1000000" "''max-ops'' \<in> set (rf_typed f) \<or> rf_maxOps f = 4000"
    "''think'' \<in> set (rf_typed f) \<or> rf_thinkMax f = 8000000" "''quiesce'' \<in> set (rf_typed f) \<or> rf_quiesce f = 750000000"
    using assms(2) unfolding parsed_flags_def d by (rule conjunct1, blast+)
  have typed: "''clients'' \<in> set (rf_typed f) \<longrightarrow> 1 \<le> rf_clients f" "''keys'' \<in> set (rf_typed f) \<longrightarrow> 1 \<le> rf_keys f"
    "''duration'' \<in> set (rf_typed f) \<longrightarrow> 0 < rf_duration f" "''op-timeout'' \<in> set (rf_typed f) \<longrightarrow> 0 < rf_opTimeout f"
    "''value-max'' \<in> set (rf_typed f) \<longrightarrow> MinValueMax \<le> rf_valueMax f" "''max-ops'' \<in> set (rf_typed f) \<longrightarrow> 0 \<le> rf_maxOps f"
    "''think'' \<in> set (rf_typed f) \<longrightarrow> 0 \<le> rf_thinkMax f" "''quiesce'' \<in> set (rf_typed f) \<longrightarrow> 0 \<le> rf_quiesce f"
    by (rule conjunct1 [OF rows], insert rows, blast+)
  show "1 \<le> rf_clients f" "1 \<le> rf_keys f" "0 < rf_duration f" "0 < rf_opTimeout f" "2 \<le> rf_valueMax f"
    "0 \<le> rf_maxOps f" "0 \<le> rf_thinkMax f" "0 \<le> rf_quiesce f"
    by (rule typed_or_default(1) [OF p(1) typed(1)], simp, rule typed_or_default(1) [OF p(2) typed(2)], simp,
        rule typed_or_default(2) [OF p(3) typed(3)], simp, rule typed_or_default(2) [OF p(4) typed(4)], simp,
        rule typed_or_default(1) [OF p(5) typed(5) [unfolded MinValueMax_def]], simp,
        rule typed_or_default(1) [OF p(6) typed(6)], simp, rule typed_or_default(1) [OF p(7) typed(7)], simp,
        rule typed_or_default(1) [OF p(8) typed(8)], simp)
qed

lemma harnessConfig_sel:
  "cfg_Clients (harnessConfig f s) = rf_clients f" "cfg_Keys (harnessConfig f s) = rf_keys f"
  "cfg_Duration (harnessConfig f s) = rf_duration f" "cfg_MaxOps (harnessConfig f s) = rf_maxOps f"
  "cfg_OpTimeout (harnessConfig f s) = rf_opTimeout f" "cfg_ThinkMax (harnessConfig f s) = rf_thinkMax f"
  "cfg_ThinkMaxSet (harnessConfig f s) \<longleftrightarrow> ''think'' \<in> set (rf_typed f)"
  "cfg_ValueMax (harnessConfig f s) = rf_valueMax f" "cfg_Faults (harnessConfig f s) = rf_faults f"
  "cfg_Quiesce (harnessConfig f s) = rf_quiesce f"
  "cfg_QuiesceSet (harnessConfig f s) \<longleftrightarrow> ''quiesce'' \<in> set (rf_typed f)"
  by (simp_all add: harnessConfig_def)

text \<open>No value is replaced on its way into the run, but for a fault schedule typed as nothing.\<close>

lemma flags_reach_the_run:
  assumes "flags_validate f = None" and "parsed_flags f"
  shows "WithDefaults (harnessConfig f seed) =
      (harnessConfig f seed)\<lparr>cfg_Faults := (if rf_faults f = [] then ''partition'' else rf_faults f)\<rparr>"
    and "Config_Validate (WithDefaults (harnessConfig f seed)) = None"
proof -
  note v = flags_validate_None [OF assms]
  have t: "rf_thinkMax f = 0 \<Longrightarrow> ''think'' \<in> set (rf_typed f)" "rf_quiesce f = 0 \<Longrightarrow> ''quiesce'' \<in> set (rf_typed f)"
    using assms(2) by (auto simp: parsed_flags_def register_flags_def ms_def)
  show same: "WithDefaults (harnessConfig f seed) =
      (harnessConfig f seed)\<lparr>cfg_Faults := (if rf_faults f = [] then ''partition'' else rf_faults f)\<rparr>"
    by (rule Harness.Config.equality)
      (use v t in \<open>auto simp: WithDefaults_sel harnessConfig_sel\<close>)
  show "Config_Validate (WithDefaults (harnessConfig f seed)) = None"
    using v unfolding same Config_Validate_None by (simp add: harnessConfig_sel)
qed

text \<open>A typed flag that is not in the table may still be replaced: \<open>-faults ""\<close> runs a partition.\<close>

lemma empty_faults_replaced:
  assumes "rf_faults f = []"
  shows "cfg_Faults (WithDefaults (harnessConfig f seed)) = ''partition''"
  using assms by (simp add: WithDefaults_sel harnessConfig_sel)

section \<open>Arguments\<close>

lemma not_space_digit: "d < 10 \<Longrightarrow> \<not> is_space (digit d)"
  by (simp add: is_space_def digit_def)

lemma TrimSpace_show_nat [simp]: "TrimSpace (show_nat n) = show_nat n"
proof (rule TrimSpace_id)
  have "\<not> is_space c" if "c \<in> set (show_nat n)" for c
    using digit_set [OF that] not_space_digit by auto
  then show "\<not> is_space (hd (show_nat n))" "\<not> is_space (last (show_nat n))" by simp_all
qed simp

lemma Cut_dash: "Cut CHR ''-'' (show_nat a @ CHR ''-'' # s) = Some (show_nat a, s)"
  by (simp add: Cut_Some no_dash)

lemma parseRange_round_trip:
  assumes "0 \<le> a" and "a \<le> b" and "b \<le> max_int64"
  shows "parseRange (show_int a @ ''-'' @ show_int b) = Inr (a, b)" and "parseRange (show_int a) = Inr (a, a)"
proof -
  have s: "show_int a = show_nat (nat a)" "show_int b = show_nat (nat b)" using assms by (simp_all add: show_int_def)
  have r: "Atoi (show_nat (nat a)) = Some a" "Atoi (show_nat (nat b)) = Some b"
    using Atoi_show_int [of a] Atoi_show_int [of b] assms unfolding s by (simp_all add: min_int64_def)
  show "parseRange (show_int a @ ''-'' @ show_int b) = Inr (a, b)"
    using assms(2) by (simp add: parseRange_def s r Cut_dash)
  have "Cut CHR ''-'' (show_nat (nat a)) = None" by (simp add: Cut_None no_dash)
  then show "parseRange (show_int a) = Inr (a, a)" by (simp add: parseRange_def s r)
qed

text \<open>\<open>parseInterleaved\<close> ends for every parser that hands back no more than it was given.\<close>

lemma interleave_returns:
  assumes "\<And>fs args fs' others. parse fs args = Inr (fs', others) \<Longrightarrow> length others \<le> length args"
  shows "\<exists>r. interleave parse fs positional args = Some r"
proof (induction "length args" arbitrary: args fs positional rule: less_induct)
  case less
  show ?case
  proof (cases "parse fs args")
    case (Inl e)
    then show ?thesis by (simp add: interleave.simps)
  next
    case (Inr p)
    obtain fs' others where p: "p = (fs', others)" by (cases p)
    show ?thesis
    proof (cases others)
      case Nil
      with Inr p show ?thesis by (simp add: interleave.simps)
    next
      case (Cons a more_args)
      with assms [of fs args fs' others] Inr p have "length more_args < length args" by simp
      from less.hyps [OF this] Inr p Cons show ?thesis by (simp add: interleave.simps)
    qed
  qed
qed

end
