(* ===== verification/Demo_Correct.thy ===== *)
theory Demo_Correct
  imports Demo Cli_Correct
begin

text \<open>
  What a demonstration that ends with status 0 has shown: the counts it asserts of are read back to
  the experiments behind them, and the verdicts of those to the histories. It also leaves the machine
  as it found it.
\<close>

section \<open>One experiment\<close>

definition ran :: "world \<Rightarrow> Spec \<Rightarrow> Campaign.Outcome \<Rightarrow> bool" where
  "ran w spec out \<longleftrightarrow> (\<exists>h t h'. Once w spec h = (Some (Ret (Inr out)), t, h'))"

text \<open>The history of an experiment, key by key, behaves as the atomic register store.\<close>

definition atomic_history :: "Campaign.Outcome \<Rightarrow> bool" where
  "atomic_history out \<longleftrightarrow>
     (let live = DropFailed (rr_History (oc_Run out)) in \<forall>k \<in> set (Keys live). linearizable CASRegister (ByKey live k))"

text \<open>The operations a run recorded are 64-bit and none is invoked at the last instant.\<close>

definition sane :: "world \<Rightarrow> bool" where
  "sane w \<longleftrightarrow> (\<forall>t. before_pending (b_ops (re_books (wo_end w t))))"

lemma ran_verdict:
  assumes "ran w spec out" and "sane w" and "sp_Model spec = Some CASRegister"
  shows "verdict_means CASRegister (DropFailed (rr_History (oc_Run out))) (oc_Check out)"
proof -
  let ?h = "rr_History (oc_Run out)"
  from assms(1) obtain h t h' where o: "Once w spec h = (Some (Ret (Inr out)), t, h')" by (auto simp: ran_def)
  from Once_run [OF o] obtain t0 where
    "harness_Run (wo_pcg w) (wo_end w t0) (Some t0) (sp_Harness spec) = Some (Inr (oc_Run out))" by blast
  from harness_Run_result(1) [OF this] assms(2) have b: "before_pending ?h"
    by (simp add: sane_def before_pending_def)
  from Once_verdict [OF o] assms(3)
  have c: "Check (wo_seed w) CASRegister (sp_Checker spec) (wo_late w) ?h = Some (Ret (Inr (oc_Check out)))" by simp
  then have "Validate ?h = None" by (auto simp: Check_def split: option.splits)
  then have v: "valid_history ?h" using b Validate_None by (simp add: before_pending_def)
  have m: "sequential_model CASRegister is_IntState" by (rule cas_model.sequential_model_axioms)
  from sequential_model.Check_correct [OF m v b] c show ?thesis
    unfolding check_result_ok_def by (metis Inr_inject option.inject ret.inject)
qed

lemma ran_judged:
  assumes "ran w spec out" and "sane w" and "sp_Model spec = Some CASRegister"
  shows "r_Verdict (oc_Check out) = Linearizable \<Longrightarrow> atomic_history out"
    and "r_Verdict (oc_Check out) = NotLinearizable \<Longrightarrow> \<not> atomic_history out"
  using verdict_means_linearizable [OF ran_verdict [OF assms]] by (auto simp: atomic_history_def Let_def)

section \<open>One sweep\<close>

text \<open>The outcomes of a sweep, one for each seed in order.\<close>

definition swept ::
  "demo_world \<Rightarrow> demo_flags \<Rightarrow> Target \<Rightarrow> int \<Rightarrow> string \<Rightarrow> string \<Rightarrow> int list \<Rightarrow> Campaign.Outcome list \<Rightarrow> bool" where
  "swept w f target node_count binDir faults =
     list_all2 (\<lambda>seed out. ran (dw_on w target faults seed) (sweep_spec f target node_count binDir faults seed) out)"

lemma sweep_seeds_outcomes:
  assumes "sweep_seeds w f target node_count binDir faults seeds res h = (Some (Ret (Inr res')), h')"
  shows "\<exists>outs. swept w f target node_count binDir faults seeds outs \<and>
    res' = fold (\<lambda>(seed, out). count_outcome seed out) (zip seeds outs) res"
  using assms
proof (induction seeds arbitrary: res h)
  case Nil
  then show ?case by (auto simp: swept_def)
next
  case (Cons seed seeds)
  obtain r t h1 where o: "Once (dw_on w target faults seed) (sweep_spec f target node_count binDir faults seed) h = (r, t, h1)"
    by (metis surj_pair)
  with Cons.prems obtain out where r: "r = Some (Ret (Inr out))"
    and rest: "sweep_seeds w f target node_count binDir faults seeds (count_outcome seed out res) h1 = (Some (Ret (Inr res')), h')"
    by (auto simp: Let_def split: if_splits option.splits ret.splits sum.splits)
  from Cons.IH [OF rest] obtain outs where outs: "swept w f target node_count binDir faults seeds outs"
    "res' = fold (\<lambda>(seed, out). count_outcome seed out) (zip seeds outs) (count_outcome seed out res)" by blast
  have "ran (dw_on w target faults seed) (sweep_spec f target node_count binDir faults seed) out"
    using o r by (auto simp: ran_def)
  with outs show ?case by (intro exI [of _ "out # outs"]) (simp add: swept_def)
qed

lemma count_outcome_sel:
  "sr_total (count_outcome seed out res) = sr_total res"
  "sr_linearizable (count_outcome seed out res) =
     sr_linearizable res + (if r_Verdict (oc_Check out) = Linearizable then 1 else 0)"
  "sr_notLinearizable (count_outcome seed out res) =
     sr_notLinearizable res + (if r_Verdict (oc_Check out) = NotLinearizable then 1 else 0)"
  "sr_unknown (count_outcome seed out res) =
     sr_unknown res + (if r_Verdict (oc_Check out) \<notin> {Linearizable, NotLinearizable} then 1 else 0)"
  "sr_seedsWithoutDrops (count_outcome seed out res) =
     sr_seedsWithoutDrops res + (if DroppedBytes out = 0 then 1 else 0)"
  unfolding count_outcome_def Let_def
  by (auto split: prod.split Verdict.split)

definition counted :: "(Campaign.Outcome \<Rightarrow> bool) \<Rightarrow> Campaign.Outcome list \<Rightarrow> int" where
  "counted P outs = int (length (filter P outs))"

lemma fold_count_outcome:
  assumes "length seeds = length outs"
  shows "(let res' = fold (\<lambda>(seed, out). count_outcome seed out) (zip seeds outs) res in
    sr_total res' = sr_total res \<and>
    sr_linearizable res' = sr_linearizable res + counted (\<lambda>out. r_Verdict (oc_Check out) = Linearizable) outs \<and>
    sr_notLinearizable res' = sr_notLinearizable res + counted (\<lambda>out. r_Verdict (oc_Check out) = NotLinearizable) outs \<and>
    sr_unknown res' = sr_unknown res +
      counted (\<lambda>out. r_Verdict (oc_Check out) \<notin> {Linearizable, NotLinearizable}) outs \<and>
    sr_seedsWithoutDrops res' = sr_seedsWithoutDrops res + counted (\<lambda>out. DroppedBytes out = 0) outs)"
  using assms
proof (induction seeds outs arbitrary: res rule: list_induct2)
  case (Cons seed seeds out outs)
  from Cons.IH [of "count_outcome seed out res"] show ?case
    by (simp add: Let_def count_outcome_sel counted_def)
qed (simp add: counted_def)

lemma demo_sweep_counts:
  assumes "demo_sweep w f target node_count binDir faults h = (Some (Ret (Inr res)), h')"
  obtains outs where "swept w f target node_count binDir faults [0..df_seeds f - 1] outs"
    "sr_total res = df_seeds f"
    "sr_linearizable res = counted (\<lambda>out. r_Verdict (oc_Check out) = Linearizable) outs"
    "sr_notLinearizable res = counted (\<lambda>out. r_Verdict (oc_Check out) = NotLinearizable) outs"
    "sr_unknown res = counted (\<lambda>out. r_Verdict (oc_Check out) \<notin> {Linearizable, NotLinearizable}) outs"
    "sr_seedsWithoutDrops res = counted (\<lambda>out. DroppedBytes out = 0) outs"
proof -
  from sweep_seeds_outcomes [OF assms [unfolded demo_sweep_def]] obtain outs where
    o: "swept w f target node_count binDir faults [0..df_seeds f - 1] outs" and
    r: "res = fold (\<lambda>(seed, out). count_outcome seed out) (zip [0..df_seeds f - 1] outs) (no_result target faults (df_seeds f))"
    by blast
  have "length [0..df_seeds f - 1] = length outs" using o list_all2_lengthD unfolding swept_def by blast
  from fold_count_outcome [OF this, of "no_result target faults (df_seeds f)", folded r]
  show thesis by (intro that [OF o]) (simp_all add: no_result_def Let_def)
qed

lemma swept_judged:
  assumes "swept w f target node_count binDir faults seeds outs" and "\<And>s. sane (dw_on w target faults s)" and "out \<in> set outs"
  shows "r_Verdict (oc_Check out) = Linearizable \<Longrightarrow> atomic_history out"
    and "r_Verdict (oc_Check out) = NotLinearizable \<Longrightarrow> \<not> atomic_history out"
proof -
  from assms(1,3) obtain s where s: "ran (dw_on w target faults s) (sweep_spec f target node_count binDir faults s) out"
    unfolding swept_def list_all2_conv_all_nth in_set_conv_nth by auto
  have m: "sp_Model (sweep_spec f target node_count binDir faults s) = Some CASRegister" by (simp add: sweep_spec_def)
  show "r_Verdict (oc_Check out) = Linearizable \<Longrightarrow> atomic_history out"
    and "r_Verdict (oc_Check out) = NotLinearizable \<Longrightarrow> \<not> atomic_history out"
    using ran_judged [OF s assms(2) m] by blast+
qed

lemma counted_none: "counted P outs = 0 \<longleftrightarrow> (\<forall>out \<in> set outs. \<not> P out)" "counted P outs \<ge> 0"
  by (auto simp: counted_def filter_empty_conv)

lemma counted_le: "counted P outs \<le> 0 \<Longrightarrow> \<forall>out \<in> set outs. \<not> P out"
  using counted_none [of P outs] by simp

lemma counted_all: "counted P outs = int (length outs) \<Longrightarrow> \<forall>out \<in> set outs. P out"
  by (metis counted_def filter_True length_filter_less nat_less_le of_nat_eq_iff)

section \<open>The subjects and the controls\<close>

text \<open>What a subject without a failure showed.\<close>

definition subject_shown :: "demo_world \<Rightarrow> demo_flags \<Rightarrow> string \<Rightarrow> subject \<Rightarrow> bool" where
  "subject_shown w f binDir s \<longleftrightarrow>
     (\<exists>outs. swept w f (su_target s) (su_nodes s) binDir ''partition'' [0..df_seeds f - 1] outs \<and>
       (\<forall>out \<in> set outs. DroppedBytes out \<noteq> 0) \<and>
       (case su_expect s of
          mustBeClean \<Rightarrow> \<forall>out \<in> set outs. atomic_history out
        | mustBeCaught \<Rightarrow> \<exists>out \<in> set outs. \<not> atomic_history out))"

definition control_shown :: "demo_world \<Rightarrow> demo_flags \<Rightarrow> string \<Rightarrow> Target \<Rightarrow> bool" where
  "control_shown w f binDir target \<longleftrightarrow>
     (\<exists>outs. swept w f target 3 binDir ''none'' [0..df_seeds f - 1] outs \<and> (\<forall>out \<in> set outs. atomic_history out))"

lemma complaint_Nil [simp]: "complaint b s = [] \<longleftrightarrow> \<not> b"
  by (simp add: complaint_def)

lemma subject_failures_Nil:
  "subject_failures seeds s res = [] \<longleftrightarrow>
     (case su_expect s of
        mustBeClean \<Rightarrow> sr_notLinearizable res \<le> 0 \<and> sr_unknown res \<le> 0
      | mustBeCaught \<Rightarrow> sr_notLinearizable res \<noteq> 0) \<and>
     sr_seedsWithoutDrops res \<le> 0 \<and> sr_forwarded res \<noteq> 0 \<and> wrap64 (seeds * 20) \<le> sr_ops res"
  unfolding subject_failures_def Let_def
  by (cases "su_expect s") (simp_all only: expectation.case append_is_Nil_conv complaint_Nil not_less conj_assoc)

lemma control_failures_Nil:
  "control_failures target must res = [] \<longleftrightarrow> sr_dropped res = 0 \<and> (must \<longrightarrow> sr_linearizable res = sr_total res)"
  unfolding control_failures_def append_is_Nil_conv complaint_Nil by blast

lemma books_sel [simp]:
  "db_skipped (skipped_on name note b) \<noteq> []" "db_failures (skipped_on name note b) = db_failures b"
  "db_failures (asserted_on failed note b) = db_failures b @ failed" "db_skipped (asserted_on failed note b) = db_skipped b"
  by (simp_all add: skipped_on_def asserted_on_def)

lemma subject_met:
  assumes "demo_sweep w f (su_target s) (su_nodes s) binDir ''partition'' h = (Some (Ret (Inr res)), h')"
    and "subject_failures (df_seeds f) s res = []" and "\<And>i. sane (dw_on w (su_target s) ''partition'' i)"
  shows "subject_shown w f binDir s"
proof -
  from demo_sweep_counts [OF assms(1)] obtain outs where
    o: "swept w f (su_target s) (su_nodes s) binDir ''partition'' [0..df_seeds f - 1] outs"
    and n: "sr_notLinearizable res = counted (\<lambda>out. r_Verdict (oc_Check out) = NotLinearizable) outs"
      "sr_unknown res = counted (\<lambda>out. r_Verdict (oc_Check out) \<notin> {Linearizable, NotLinearizable}) outs"
      "sr_seedsWithoutDrops res = counted (\<lambda>out. DroppedBytes out = 0) outs" .
  note judged = swept_judged [OF o assms(3)]
  have "sr_seedsWithoutDrops res \<le> 0" using assms(2) by (simp only: subject_failures_Nil)
  then have d: "\<forall>out \<in> set outs. DroppedBytes out \<noteq> 0" unfolding n(3) by (rule counted_le)
  show ?thesis
  proof (cases "su_expect s")
    case mustBeClean
    with assms(2) have "sr_notLinearizable res \<le> 0" "sr_unknown res \<le> 0"
      by (simp_all only: subject_failures_Nil expectation.case)
    from counted_le [OF this(1) [unfolded n]] counted_le [OF this(2) [unfolded n]] have "\<forall>out \<in> set outs. r_Verdict (oc_Check out) = Linearizable" by blast
    with judged have "\<forall>out \<in> set outs. atomic_history out" by blast
    with o d mustBeClean show ?thesis unfolding subject_shown_def by auto
  next
    case mustBeCaught
    with assms(2) have "sr_notLinearizable res \<noteq> 0"
      by (simp only: subject_failures_Nil expectation.case simp_thms)
    then obtain out where "out \<in> set outs" "r_Verdict (oc_Check out) = NotLinearizable"
      unfolding n counted_none(1) by blast
    with judged(2) have "\<exists>out \<in> set outs. \<not> atomic_history out" by blast
    with o d mustBeCaught show ?thesis unfolding subject_shown_def by auto
  qed
qed

lemma control_met:
  assumes "demo_sweep w f target 3 binDir ''none'' h = (Some (Ret (Inr res)), h')"
    and "control_failures target True res = []" and "\<And>i. sane (dw_on w target ''none'' i)"
  shows "control_shown w f binDir target"
proof -
  from demo_sweep_counts [OF assms(1)] obtain outs where
    o: "swept w f target 3 binDir ''none'' [0..df_seeds f - 1] outs" and t: "sr_total res = df_seeds f"
    and n: "sr_linearizable res = counted (\<lambda>out. r_Verdict (oc_Check out) = Linearizable) outs" .
  have "sr_linearizable res = sr_total res" using assms(2) by (simp only: control_failures_Nil)
  moreover have "length outs = nat (df_seeds f)" using o list_all2_lengthD unfolding swept_def by fastforce
  moreover have "0 \<le> df_seeds f" using calculation(1) n t counted_none(2) by metis
  ultimately have "\<forall>out \<in> set outs. r_Verdict (oc_Check out) = Linearizable"
    using n t by (intro counted_all) simp
  with swept_judged [OF o assms(3)] o show ?thesis unfolding control_shown_def by blast
qed

text \<open>How a demonstration gets past one subject, or one control.\<close>

lemma subject_step:
  assumes "run_subjects w f binDir (s # ss) b h = (Some (Ret (Inr b')), h')"
    and "demo_sweep w f (su_target s) (su_nodes s) binDir ''partition'' h = (r, h1)"
  obtains (skipped) e line where "r = Some (Ret (Inl e))" "df_allowSkips f"
      "run_subjects w f binDir ss (skipped_on (su_target s) line b) h1 = (Some (Ret (Inr b')), h')"
    | (swept) res line where "r = Some (Ret (Inr res))"
      "run_subjects w f binDir ss (asserted_on (subject_failures (df_seeds f) s res) line b) h1 = (Some (Ret (Inr b')), h')"
proof (cases r)
  case None
  with assms show thesis by simp
next
  case (Some x)
  show thesis
  proof (cases x)
    case (Ret y)
    show thesis
    proof (cases y)
      case (Inl e)
      with assms Some Ret show thesis by (intro skipped [of e]) (auto split: if_splits)
    next
      case (Inr res)
      with assms Some Ret show thesis by (intro swept [of res]) auto
    qed
  next
    case Panicked
    with assms Some show thesis by simp
  qed
qed

lemma control_step:
  assumes "run_controls w f binDir ((target, must) # cs) b h = (Some (Ret (Inr b')), h')"
    and "demo_sweep w f target 3 binDir ''none'' h = (r, h1)"
  obtains (skipped) e name line where "r = Some (Ret (Inl e))" "df_allowSkips f"
      "run_controls w f binDir cs (skipped_on name line b) h1 = (Some (Ret (Inr b')), h')"
    | (swept) res line where "r = Some (Ret (Inr res))"
      "run_controls w f binDir cs (asserted_on (control_failures target must res) line b) h1 = (Some (Ret (Inr b')), h')"
proof (cases r)
  case None
  with assms show thesis by simp
next
  case (Some x)
  show thesis
  proof (cases x)
    case (Ret y)
    show thesis
    proof (cases y)
      case (Inl e)
      with assms Some Ret show thesis by (intro skipped [of e]) (auto split: if_splits)
    next
      case (Inr res)
      with assms Some Ret show thesis by (intro swept [of res]) auto
    qed
  next
    case Panicked
    with assms Some show thesis by simp
  qed
qed

lemma run_subjects_clear:
  assumes "run_subjects w f binDir ss b h = (Some (Ret (Inr b')), h')" and "db_failures b' = []" and "db_skipped b' = []"
    and "\<And>target faults i. sane (dw_on w target faults i)"
  shows "db_failures b = [] \<and> db_skipped b = [] \<and> (\<forall>s \<in> set ss. subject_shown w f binDir s)"
  using assms(1)
proof (induction ss arbitrary: b h)
  case Nil
  with assms(2,3) show ?case by simp
next
  case (Cons s ss)
  obtain r h1 where o: "demo_sweep w f (su_target s) (su_nodes s) binDir ''partition'' h = (r, h1)" by (metis surj_pair)
  from Cons.prems o show ?case
  proof (cases rule: subject_step)
    case (skipped e line)
    from Cons.IH [OF skipped(3)] show ?thesis by simp
  next
    case (swept res line)
    from Cons.IH [OF swept(2)] subject_met [OF o [unfolded swept(1)] _ assms(4)] show ?thesis by simp
  qed
qed

lemma run_controls_clear:
  assumes "run_controls w f binDir cs b h = (Some (Ret (Inr b')), h')" and "db_failures b' = []" and "db_skipped b' = []"
    and "\<And>target faults i. sane (dw_on w target faults i)"
  shows "db_failures b = [] \<and> db_skipped b = [] \<and> (\<forall>target. (target, True) \<in> set cs \<longrightarrow> control_shown w f binDir target)"
  using assms(1)
proof (induction cs arbitrary: b h)
  case Nil
  with assms(2,3) show ?case by simp
next
  case (Cons c cs)
  obtain target must where c: "c = (target, must)" by (cases c)
  obtain r h1 where o: "demo_sweep w f target 3 binDir ''none'' h = (r, h1)" by (metis surj_pair)
  from Cons.prems [unfolded c] o show ?case
  proof (cases rule: control_step)
    case (skipped e name line)
    from Cons.IH [OF skipped(3)] show ?thesis by simp
  next
    case (swept res line)
    from Cons.IH [OF swept(2)] control_met [OF o [unfolded swept(1)] _ assms(4)] c show ?thesis by auto
  qed
qed

text \<open>Nothing is skipped unless the flag allows it.\<close>

lemma run_subjects_skips:
  assumes "run_subjects w f binDir ss b h = (Some (Ret (Inr b')), h')" and "\<not> df_allowSkips f"
  shows "db_skipped b' = db_skipped b"
  using assms(1)
proof (induction ss arbitrary: b h)
  case (Cons s ss)
  obtain r h1 where o: "demo_sweep w f (su_target s) (su_nodes s) binDir ''partition'' h = (r, h1)" by (metis surj_pair)
  from Cons.prems o show ?case
  proof (cases rule: subject_step)
    case (swept res line)
    from Cons.IH [OF swept(2)] show ?thesis by simp
  qed (use assms(2) in blast)
qed simp

lemma run_controls_skips:
  assumes "run_controls w f binDir cs b h = (Some (Ret (Inr b')), h')" and "\<not> df_allowSkips f"
  shows "db_skipped b' = db_skipped b"
  using assms(1)
proof (induction cs arbitrary: b h)
  case (Cons c cs)
  obtain target must where c: "c = (target, must)" by (cases c)
  obtain r h1 where o: "demo_sweep w f target 3 binDir ''none'' h = (r, h1)" by (metis surj_pair)
  from Cons.prems [unfolded c] o show ?case
  proof (cases rule: control_step)
    case (swept res line)
    from Cons.IH [OF swept(2)] show ?thesis by simp
  qed (use assms(2) in blast)
qed simp

section \<open>The demonstration\<close>

lemma assertions_held:
  assumes "demo_status (assertions w f b) = 0" and "db_skipped b = []"
  shows "db_failures b = []" "assertions w f b = AllHeld"
  using assms by (auto simp: assertions_def demo_status_def split: if_splits)

theorem demo_shows:
  assumes "demo_run w f h = (Some (Ret r), h')" and "demo_status r = 0" and "\<not> df_allowSkips f"
    and "\<And>target faults i. sane (dw_on w target faults i)"
  shows "\<exists>dir. (\<forall>s \<in> set subjects. subject_shown w f dir s) \<and>
    (df_control f \<longrightarrow> (\<forall>target. (target, True) \<in> set controls \<longrightarrow> control_shown w f dir target))"
proof -
  let ?z = "\<lparr>db_failures = [], db_skipped = [], db_summary = []\<rparr>"
  from assms(1,2) obtain dir h1 h2 where "demo_body w f dir h1 = (Some (Ret r), h2)"
    by (fastforce simp: demo_run_def demo_status_def split: prod.splits sum.splits)
  with assms(2) obtain b h3 where b: "run_subjects w f dir subjects ?z h1 = (Some (Ret (Inr b)), h3)"
    and r: "if df_control f
      then \<exists>b' h4. run_controls w f dir controls b h3 = (Some (Ret (Inr b')), h4) \<and> r = assertions w f b'
      else r = assertions w f b"
    by (auto simp: demo_body_def demo_status_def split: prod.splits sum.splits option.splits ret.splits if_splits)
  have sk: "db_skipped b = []" using run_subjects_skips [OF b assms(3)] by simp
  show ?thesis
  proof (cases "df_control f")
    case False
    with r assms(2) sk have "db_failures b = []" using assertions_held(1) by simp
    from run_subjects_clear [OF b this sk assms(4)] False show ?thesis by blast
  next
    case True
    with r obtain b' h4 where b': "run_controls w f dir controls b h3 = (Some (Ret (Inr b')), h4)"
      and "r = assertions w f b'" by auto
    moreover have sk': "db_skipped b' = []" using run_controls_skips [OF b' assms(3)] sk by simp
    ultimately have "db_failures b' = []" using assms(2) assertions_held(1) by simp
    note clear = run_controls_clear [OF b' this sk' assms(4)]
    with run_subjects_clear [OF b _ sk assms(4)] show ?thesis by blast
  qed
qed

section \<open>What it leaves behind\<close>

text \<open>A temporary directory is new when it is made.\<close>

definition fresh_dirs :: "demo_world \<Rightarrow> string set \<Rightarrow> bool" where
  "fresh_dirs w dirs \<longleftrightarrow>
     (\<forall>target faults i d. os_tempDir (wo_os (dw_on w target faults i)) = Some d \<longrightarrow> d \<noteq> [] \<and> d \<notin> dirs)"

definition left_alone :: "host \<Rightarrow> host \<Rightarrow> bool" where
  "left_alone h h' \<longleftrightarrow> same_host h h' \<and> host_ok h'"

lemma left_alone_refl: "host_ok h \<Longrightarrow> left_alone h h"
  by (simp add: left_alone_def same_host_def)

lemma left_alone_trans: "left_alone h h1 \<Longrightarrow> left_alone h1 h2 \<Longrightarrow> left_alone h h2"
  by (simp add: left_alone_def same_host_def)

lemma left_alone_dirs: "left_alone h h' \<Longrightarrow> set (h_dirs h') = set (h_dirs h) \<and> host_ok h'"
  by (simp add: left_alone_def same_host_def)

lemma sweep_seeds_host:
  assumes "sweep_seeds w f target node_count binDir faults seeds res h = (r, h')"
    and "host_ok h" and "fresh_dirs w (set (h_dirs h))"
  shows "left_alone h h'"
  using assms
proof (induction seeds arbitrary: res h)
  case Nil
  then show ?case by (auto intro: left_alone_refl)
next
  case (Cons seed seeds)
  show ?case
  proof (cases "dw_cancelled w target faults seed")
    case True
    with Cons.prems show ?thesis by (auto intro: left_alone_refl)
  next
    case False
    obtain r1 t h1 where o: "Once (dw_on w target faults seed) (sweep_spec f target node_count binDir faults seed) h = (r1, t, h1)"
      by (metis surj_pair)
    have d: "\<forall>dir. os_tempDir (wo_os (dw_on w target faults seed)) = Some dir \<longrightarrow> dir \<noteq> [] \<and> dir \<notin> set (h_dirs h)"
      using Cons.prems(3) by (auto simp: fresh_dirs_def)
    have l: "left_alone h h1"
      using Once_cleans_up(1) [OF o Cons.prems(2) d] Once_host_ok [OF o Cons.prems(2) d] by (simp add: left_alone_def)
    have "fresh_dirs w (set (h_dirs h1))" "host_ok h1" using left_alone_dirs [OF l] Cons.prems(3) by simp_all
    note rest = Cons.IH [OF _ this(2,1)]
    from Cons.prems(1) False o have "h' = h1 \<or> (\<exists>res. sweep_seeds w f target node_count binDir faults seeds res h1 = (r, h'))"
      by (auto simp: Let_def split: option.splits ret.splits sum.splits if_splits)
    with l rest show ?thesis by (auto intro: left_alone_trans)
  qed
qed

lemma demo_sweep_host:
  assumes "demo_sweep w f target node_count binDir faults h = (r, h')"
    and "host_ok h" and "fresh_dirs w (set (h_dirs h))"
  shows "left_alone h h'"
  using assms unfolding demo_sweep_def by (rule sweep_seeds_host)

lemma run_subjects_host:
  assumes "run_subjects w f binDir ss b h = (r, h')" and "host_ok h" and "fresh_dirs w (set (h_dirs h))"
  shows "left_alone h h'"
  using assms
proof (induction ss arbitrary: b h)
  case Nil
  then show ?case by (auto intro: left_alone_refl)
next
  case (Cons s ss)
  obtain r1 h1 where o: "demo_sweep w f (su_target s) (su_nodes s) binDir ''partition'' h = (r1, h1)" by (metis surj_pair)
  note l = demo_sweep_host [OF o Cons.prems(2,3)]
  have "fresh_dirs w (set (h_dirs h1))" "host_ok h1" using left_alone_dirs [OF l] Cons.prems(3) by simp_all
  note rest = Cons.IH [OF _ this(2,1)]
  from Cons.prems(1) o have "h' = h1 \<or> (\<exists>b. run_subjects w f binDir ss b h1 = (r, h'))"
    by (auto split: option.splits ret.splits sum.splits if_splits)
  with l rest show ?case by (auto intro: left_alone_trans)
qed

lemma run_controls_host:
  assumes "run_controls w f binDir cs b h = (r, h')" and "host_ok h" and "fresh_dirs w (set (h_dirs h))"
  shows "left_alone h h'"
  using assms
proof (induction cs arbitrary: b h)
  case Nil
  then show ?case by (auto intro: left_alone_refl)
next
  case (Cons c cs)
  obtain target must where c: "c = (target, must)" by (cases c)
  obtain r1 h1 where o: "demo_sweep w f target 3 binDir ''none'' h = (r1, h1)" by (metis surj_pair)
  note l = demo_sweep_host [OF o Cons.prems(2,3)]
  have "fresh_dirs w (set (h_dirs h1))" "host_ok h1" using left_alone_dirs [OF l] Cons.prems(3) by simp_all
  note rest = Cons.IH [OF _ this(2,1)]
  from Cons.prems(1) o c have "h' = h1 \<or> (\<exists>b. run_controls w f binDir cs b h1 = (r, h'))"
    by (auto split: option.splits ret.splits sum.splits if_splits)
  with l rest show ?case by (auto intro: left_alone_trans)
qed

lemma demo_body_host:
  assumes "demo_body w f dir h = (r, h')" and "host_ok h" and "fresh_dirs w (set (h_dirs h))"
  shows "left_alone h h'"
proof (cases "df_out f \<noteq> [] \<and> \<not> dw_outDir w")
  case True
  with assms(1,2) show ?thesis by (auto simp: demo_body_def intro: left_alone_refl)
next
  case False
  let ?z = "\<lparr>db_failures = [], db_skipped = [], db_summary = []\<rparr>"
  obtain r1 h1 where o: "run_subjects w f dir subjects ?z h = (r1, h1)" by (metis surj_pair)
  note l = run_subjects_host [OF o assms(2,3)]
  have "fresh_dirs w (set (h_dirs h1))" "host_ok h1" using left_alone_dirs [OF l] assms(3) by simp_all
  note rest = run_controls_host [OF _ this(2,1)]
  from assms(1) False o have "h' = h1 \<or> (\<exists>b r. run_controls w f dir controls b h1 = (r, h'))"
    by (auto simp: demo_body_def split: option.splits ret.splits sum.splits if_splits prod.splits)
  with l rest show ?thesis by (auto intro: left_alone_trans)
qed

theorem demo_cleans_up:
  assumes "demo_run w f h = (r, h')" and "host_ok h"
    and "\<And>dir. os_tempDir (dw_os w) = Some dir \<Longrightarrow> dir \<notin> set (h_dirs h) \<and> fresh_dirs w (insert dir (set (h_dirs h)))"
  shows "same_host h h'"
proof (cases "buildAll (dw_os w) h")
  case (Pair built h1)
  show ?thesis
  proof (cases built)
    case (Inl e)
    with assms Pair show ?thesis
      by (auto simp: demo_run_def buildAll_def same_host_def Let_def split: option.splits if_splits)
  next
    case (Inr dir)
    with Pair have t: "os_tempDir (dw_os w) = Some dir" and h1: "h1 = h\<lparr>h_dirs := dir # h_dirs h\<rparr>"
      by (auto simp: buildAll_def Let_def split: option.splits if_splits)
    obtain r2 h2 where o: "demo_body w f dir h1 = (r2, h2)" by (metis surj_pair)
    have "host_ok h1" "fresh_dirs w (set (h_dirs h1))" using assms(2) assms(3) [OF t] h1 by (simp_all add: host_ok_def)
    from demo_body_host [OF o this] h1 have "same_host h1 h2" by (simp add: left_alone_def)
    moreover have "h' = removeDir dir h2" using assms(1) Pair Inr o by (simp add: demo_run_def)
    ultimately show ?thesis using h1 assms(3) [OF t] by (auto simp: same_host_def)
  qed
qed

end
