(* ===== verification/Go_Flag.thy ===== *)
theory Go_Flag
  imports Go_Text Go_Float
begin

text \<open>
  What the command line tool uses of the Go library to read its arguments: the package \<open>flag\<close>, and of
  \<open>strconv\<close> and \<open>time\<close> the conversions behind its values. \<open>Atoi\<close> and \<open>Duration_String\<close> are in \<open>Go_Text\<close>.
\<close>

section \<open>\<open>strconv.ParseInt\<close> with base 0\<close>

definition base_digit :: "nat \<Rightarrow> char \<Rightarrow> nat option" where
  "base_digit base c =
     (let n = (of_char (lower_char c) :: nat);
          d = (if 48 \<le> n \<and> n \<le> 57 then Some (n - 48) else if 97 \<le> n \<and> n \<le> 122 then Some (n - 87) else None)
      in case d of None \<Rightarrow> None | Some d \<Rightarrow> if d < base then Some d else None)"

fun base_value :: "nat \<Rightarrow> nat \<Rightarrow> string \<Rightarrow> nat option" where
  "base_value base acc [] = Some acc"
| "base_value base acc (c # cs) =
     (if c = CHR ''_'' then base_value base acc cs
      else case base_digit base c of None \<Rightarrow> None | Some d \<Rightarrow> base_value base (base * acc + d) cs)"

text \<open>An underscore stands between digits, or between the prefix of a base and a digit.\<close>

datatype last_seen = Start | Digit | Underscore | Other

fun underscore_scan :: "bool \<Rightarrow> last_seen \<Rightarrow> string \<Rightarrow> bool" where
  "underscore_scan hex saw [] \<longleftrightarrow> saw \<noteq> Underscore"
| "underscore_scan hex saw (c # cs) \<longleftrightarrow>
     (if base_digit (if hex then 16 else 10) c \<noteq> None then underscore_scan hex Digit cs
      else if c = CHR ''_'' then saw = Digit \<and> underscore_scan hex Underscore cs
      else saw \<noteq> Underscore \<and> underscore_scan hex Other cs)"

definition split_sign :: "string \<Rightarrow> bool \<times> string" where
  "split_sign s =
     (case s of c # cs \<Rightarrow>
        if c = CHR ''-'' then (True, cs) else if c = CHR ''+'' then (False, cs) else (False, s)
      | [] \<Rightarrow> (False, []))"

definition prefix_base :: "char \<Rightarrow> nat option" where
  "prefix_base c =
     (let l = lower_char c in
      if l = CHR ''b'' then Some 2 else if l = CHR ''o'' then Some 8 else if l = CHR ''x'' then Some 16 else None)"

definition underscoreOK :: "string \<Rightarrow> bool" where
  "underscoreOK s =
     (let s = snd (split_sign s) in
      case s of
        z # c # cs \<Rightarrow>
          (case (if z = CHR ''0'' then prefix_base c else None) of
             Some b \<Rightarrow> underscore_scan (b = 16) Digit cs
           | None \<Rightarrow> underscore_scan False Start s)
      | _ \<Rightarrow> underscore_scan False Start s)"

text \<open>The base a number names, and its digits; \<open>0x\<close> alone is the digit 0 followed by no digit.\<close>

definition split_base :: "string \<Rightarrow> nat \<times> string" where
  "split_base s =
     (case s of
        z # cs \<Rightarrow>
          if z = CHR ''0'' then
            (case cs of
               c # d # ds \<Rightarrow> (case prefix_base c of Some b \<Rightarrow> (b, d # ds) | None \<Rightarrow> (8, cs))
             | _ \<Rightarrow> (8, cs))
          else (10, s)
      | [] \<Rightarrow> (10, []))"

definition ParseUint :: "string \<Rightarrow> nat option" where
  "ParseUint s =
     (if s = [] then None
      else case split_base s of (base, ds) \<Rightarrow>
        (case base_value base 0 ds of
           None \<Rightarrow> None
         | Some n \<Rightarrow>
             if n \<ge> 2 ^ 64 \<or> CHR ''_'' \<in> set ds \<and> \<not> underscoreOK s then None else Some n))"

definition ParseInt :: "string \<Rightarrow> int option" where
  "ParseInt s =
     (case split_sign s of (neg, t) \<Rightarrow>
        (case ParseUint t of
           None \<Rightarrow> None
         | Some n \<Rightarrow>
             let i = (if neg then - int n else int n)
             in if min_int64 \<le> i \<and> i \<le> max_int64 then Some i else None))"

section \<open>\<open>strconv.ParseBool\<close>\<close>

definition ParseBool :: "string \<Rightarrow> bool option" where
  "ParseBool s =
     (if s \<in> {''1'', ''t'', ''T'', ''true'', ''TRUE'', ''True''} then Some True
      else if s \<in> {''0'', ''f'', ''F'', ''false'', ''FALSE'', ''False''} then Some False
      else None)"

section \<open>\<open>time.ParseDuration\<close>\<close>

text \<open>\<open>leadingInt\<close>, with its check for overflow before and after a digit is taken in.\<close>

fun leadingInt :: "nat \<Rightarrow> string \<Rightarrow> (nat \<times> string) option" where
  "leadingInt x [] = Some (x, [])"
| "leadingInt x (c # cs) =
     (case digit_value c of
        None \<Rightarrow> Some (x, c # cs)
      | Some d \<Rightarrow>
          if x > 2 ^ 63 div 10 then None
          else let x = 10 * x + d in if x > 2 ^ 63 then None else leadingInt x cs)"

text \<open>\<open>leadingFraction\<close>: the digits after a point as a number, and the power of ten under it.\<close>

fun leadingFraction :: "nat \<Rightarrow> nat \<Rightarrow> bool \<Rightarrow> string \<Rightarrow> nat \<times> nat \<times> string" where
  "leadingFraction x scale overflow [] = (x, scale, [])"
| "leadingFraction x scale overflow (c # cs) =
     (case digit_value c of
        None \<Rightarrow> (x, scale, c # cs)
      | Some d \<Rightarrow>
          if overflow \<or> x > (2 ^ 63 - 1) div 10 \<or> 10 * x + d > 2 ^ 63 then leadingFraction x scale True cs
          else leadingFraction (10 * x + d) (10 * scale) False cs)"

definition greek_mu_sign :: string where
  "greek_mu_sign = [char_of (206 :: nat), char_of (188 :: nat)]"

definition unit_of :: "string \<Rightarrow> nat option" where
  "unit_of u =
     (if u = ''ns'' then Some 1
      else if u \<in> {''us'', micro_sign @ ''s'', greek_mu_sign @ ''s''} then Some 1000
      else if u = ''ms'' then Some 1000000
      else if u = ''s'' then Some 1000000000
      else if u = ''m'' then Some 60000000000
      else if u = ''h'' then Some 3600000000000
      else None)"

definition is_unit_char :: "char \<Rightarrow> bool" where
  "is_unit_char c \<longleftrightarrow> c \<noteq> CHR ''.'' \<and> digit_value c = None"

text \<open>A fraction after a point, whether it has a digit, and the rest.\<close>

definition point_fraction :: "string \<Rightarrow> nat \<times> nat \<times> bool \<times> string" where
  "point_fraction s =
     (case s of
        c # cs \<Rightarrow>
          if c = CHR ''.''
          then (case leadingFraction 0 1 False cs of (f, scale, r) \<Rightarrow> (f, scale, length r \<noteq> length cs, r))
          else (0, 1, False, s)
      | [] \<Rightarrow> (0, 1, False, []))"

text \<open>A whole part and a fraction in a unit, unless it is out of range.\<close>

definition in_unit :: "nat \<Rightarrow> nat \<Rightarrow> nat \<Rightarrow> nat \<Rightarrow> nat option" where
  "in_unit v f scale unit =
     (if v > 2 ^ 63 div unit then None
      else
        let v = v * unit;
            v = (if f > 0 then v + nat \<lfloor>f64 (f64 (of_nat f) * f64 (of_nat unit / of_nat scale))\<rfloor> else v)
        in if v > 2 ^ 63 then None else Some v)"

text \<open>One number with its unit off the front of a duration: the value and the rest.\<close>

definition duration_part :: "string \<Rightarrow> (nat \<times> string) option" where
  "duration_part s =
     (if s = [] \<or> is_unit_char (hd s) then None
      else case leadingInt 0 s of
        None \<Rightarrow> None
      | Some (v, s1) \<Rightarrow>
          (case point_fraction s1 of
             (f, scale, post, s2) \<Rightarrow>
               let u = takeWhile is_unit_char s2
               in if length s1 = length s \<and> \<not> post \<or> u = [] then None
                  else case unit_of u of
                    None \<Rightarrow> None
                  | Some unit \<Rightarrow> map_option (\<lambda>v. (v, dropWhile is_unit_char s2)) (in_unit v f scale unit)))"

lemma leadingInt_length: "leadingInt x s = Some (v, r) \<Longrightarrow> length r \<le> length s"
  by (induction x s rule: leadingInt.induct) (auto simp: Let_def intro: le_SucI split: option.splits if_splits)

lemma leadingFraction_length: "leadingFraction x scale ov s = (f, sc, r) \<Longrightarrow> length r \<le> length s"
  by (induction x scale ov s rule: leadingFraction.induct) (auto intro: le_SucI split: option.splits if_splits)

lemma point_fraction_length: "point_fraction s = (f, sc, post, r) \<Longrightarrow> length r \<le> length s"
  by (auto simp: point_fraction_def dest!: leadingFraction_length split: list.splits if_splits prod.splits)

lemma duration_part_shrinks:
  assumes "duration_part s = Some (v, r)"
  shows "length r < length s"
proof -
  obtain n s1 f sc post s2 where
    p: "leadingInt 0 s = Some (n, s1)" "point_fraction s1 = (f, sc, post, s2)" "takeWhile is_unit_char s2 \<noteq> []"
      "r = dropWhile is_unit_char s2"
    using assms by (auto simp: duration_part_def Let_def split: if_splits option.splits prod.splits)
  have "length (takeWhile is_unit_char s2) + length r = length s2"
    unfolding p(4) by (metis length_append takeWhile_dropWhile_id)
  then have "length r < length s2" using p(3) by (cases "takeWhile is_unit_char s2") auto
  with leadingInt_length [OF p(1)] point_fraction_length [OF p(2)] show ?thesis by simp
qed

text \<open>The loop; \<open>acc\<close> is unsigned and wraps around.\<close>

function duration_sum :: "nat \<Rightarrow> string \<Rightarrow> nat option" where
  "duration_sum acc s =
     (if s = [] then Some acc
      else case duration_part s of
        None \<Rightarrow> None
      | Some (v, r) \<Rightarrow>
          let acc = (acc + v) mod 2 ^ 64 in if acc > 2 ^ 63 then None else duration_sum acc r)"
  by pat_completeness auto
termination
  by (relation "measure (length \<circ> snd)") (auto dest: duration_part_shrinks)

declare duration_sum.simps [simp del]

definition ParseDuration :: "string \<Rightarrow> duration option" where
  "ParseDuration s =
     (case split_sign s of (neg, t) \<Rightarrow>
        if t = ''0'' then Some 0
        else if t = [] then None
        else case duration_sum 0 t of
          None \<Rightarrow> None
        | Some d \<Rightarrow>
            if neg then Some (- int d) else if int d > max_int64 then None else Some (int d))"

section \<open>The package \<open>flag\<close>\<close>

datatype flag_value = IntFlag int | BoolFlag bool | StringFlag string | DurationFlag duration

definition set_value :: "flag_value \<Rightarrow> string \<Rightarrow> flag_value option" where
  "set_value v s =
     (case v of
        IntFlag _ \<Rightarrow> map_option IntFlag (ParseInt s)
      | BoolFlag _ \<Rightarrow> map_option BoolFlag (ParseBool s)
      | StringFlag _ \<Rightarrow> Some (StringFlag s)
      | DurationFlag _ \<Rightarrow> map_option DurationFlag (ParseDuration s))"

definition is_bool_flag :: "flag_value \<Rightarrow> bool" where
  "is_bool_flag v \<longleftrightarrow> (case v of BoolFlag _ \<Rightarrow> True | _ \<Rightarrow> False)"

text \<open>The flags defined, with their values, and the names of those that were set.\<close>

record FlagSet =
  fg_formal :: "string \<Rightarrow> flag_value option"
  fg_actual :: "string list"

datatype flag_error =
    HelpAsked
  | BadSyntax string
  | NotDefined string
  | NeedsArgument string
  | BadValue string string

text \<open>An argument that is a flag: its name, and the value after its \<open>=\<close> if it has one.\<close>

definition flag_text :: "string \<Rightarrow> flag_error + (string \<times> string option)" where
  "flag_text s =
     (let name = drop (if s ! 1 = CHR ''-'' then 2 else 1) s in
      if name = [] \<or> hd name = CHR ''-'' \<or> hd name = CHR ''='' then Inl (BadSyntax s)
      else case Cut CHR ''='' name of None \<Rightarrow> Inr (name, None) | Some (n, v) \<Rightarrow> Inr (n, Some v))"

definition set_flag :: "FlagSet \<Rightarrow> string \<Rightarrow> flag_value \<Rightarrow> string \<Rightarrow> flag_error + FlagSet" where
  "set_flag fs name old text =
     (case set_value old text of
        None \<Rightarrow> Inl (BadValue name text)
      | Some v \<Rightarrow> Inr (fs\<lparr>fg_formal := (fg_formal fs)(name \<mapsto> v), fg_actual := List.insert name (fg_actual fs)\<rparr>))"

text \<open>\<open>parseOne\<close>: whether it saw a flag, and the arguments that are left.\<close>

definition parseOne :: "FlagSet \<Rightarrow> string list \<Rightarrow> flag_error + (bool \<times> FlagSet \<times> string list)" where
  "parseOne fs args =
     (case args of
        [] \<Rightarrow> Inr (False, fs, [])
      | s # more_args \<Rightarrow>
          if length s < 2 \<or> hd s \<noteq> CHR ''-'' then Inr (False, fs, args)
          else if s = ''--'' then Inr (False, fs, more_args)
          else case flag_text s of
            Inl e \<Rightarrow> Inl e
          | Inr (name, given) \<Rightarrow>
              (case fg_formal fs name of
                 None \<Rightarrow> Inl (if name = ''help'' \<or> name = ''h'' then HelpAsked else NotDefined name)
               | Some old \<Rightarrow>
                   (case (if is_bool_flag old then Some (case given of Some v \<Rightarrow> v | None \<Rightarrow> ''true'', more_args)
                          else case given of
                            Some v \<Rightarrow> Some (v, more_args)
                          | None \<Rightarrow> (case more_args of [] \<Rightarrow> None | v # others \<Rightarrow> Some (v, others))) of
                      None \<Rightarrow> Inl (NeedsArgument name)
                    | Some (v, others) \<Rightarrow>
                        (case set_flag fs name old v of Inl e \<Rightarrow> Inl e | Inr fs \<Rightarrow> Inr (True, fs, others)))))"

lemma parseOne_shorter: "parseOne fs args = Inr (True, fs', others) \<Longrightarrow> length others < length args"
  by (auto simp: parseOne_def split: list.splits if_splits sum.splits option.splits prod.splits)

lemma parseOne_rest: "parseOne fs args = Inr (seen, fs', others) \<Longrightarrow> length others \<le> length args"
  by (auto simp: parseOne_def split: list.splits if_splits sum.splits option.splits prod.splits)

function Parse :: "FlagSet \<Rightarrow> string list \<Rightarrow> flag_error + (FlagSet \<times> string list)" where
  "Parse fs args =
     (case parseOne fs args of
        Inl e \<Rightarrow> Inl e
      | Inr (seen, fs, others) \<Rightarrow> if seen then Parse fs others else Inr (fs, others))"
  by pat_completeness auto
termination
  by (relation "measure (length \<circ> snd)") (auto dest: parseOne_shorter)

declare Parse.simps [simp del]

lemma Parse_rest: "Parse fs args = Inr (fs', others) \<Longrightarrow> length others \<le> length args"
proof (induction fs args rule: Parse.induct)
  case (1 fs args)
  then show ?case
    by (subst (asm) (2) Parse.simps) (fastforce split: sum.splits if_splits prod.splits dest: parseOne_rest)
qed

text \<open>A flag that was not set has the value it was defined with.\<close>

lemma parseOne_keeps:
  assumes "parseOne fs args = Inr (seen, fs', others)"
  shows "set (fg_actual fs) \<subseteq> set (fg_actual fs')" "n \<notin> set (fg_actual fs') \<Longrightarrow> fg_formal fs' n = fg_formal fs n"
  using assms
  by (auto simp: parseOne_def set_flag_def split: list.splits if_splits sum.splits option.splits prod.splits)

lemma Parse_keeps:
  assumes "Parse fs args = Inr (fs', others)"
  shows "set (fg_actual fs) \<subseteq> set (fg_actual fs') \<and>
    (\<forall>n. n \<notin> set (fg_actual fs') \<longrightarrow> fg_formal fs' n = fg_formal fs n)"
  using assms
proof (induction fs args rule: Parse.induct)
  case (1 fs args)
  obtain seen fs1 args1 where one: "parseOne fs args = Inr (seen, fs1, args1)"
    using 1(2) unfolding Parse.simps [of fs args] by (auto split: sum.splits)
  note k = parseOne_keeps [OF one]
  show ?case
  proof (cases seen)
    case True
    then have "Parse fs1 args1 = Inr (fs', others)" using 1(2) one unfolding Parse.simps [of fs args] by simp
    note ih = 1(1) [OF one refl refl True this]
    have "fg_formal fs' n = fg_formal fs n" if "n \<notin> set (fg_actual fs')" for n
    proof -
      have "n \<notin> set (fg_actual fs1)" using ih that by auto
      with k(2) ih that show ?thesis by simp
    qed
    with ih k(1) show ?thesis by (simp add: subset_iff)
  next
    case False
    then have "fs' = fs1" using 1(2) one unfolding Parse.simps [of fs args] by simp
    with k show ?thesis by blast
  qed
qed

section \<open>What is written as a flag is read as it\<close>

lemma digits_value_mono: "digits_value acc ds = Some n \<Longrightarrow> acc \<le> n"
  by (induction acc ds rule: digits_value.induct) (fastforce split: option.splits)+

lemma leadingInt_digits:
  assumes "digits_value acc ds = Some n" "n \<le> 2 ^ 63" "r = [] \<or> digit_value (hd r) = None"
  shows "leadingInt acc (ds @ r) = Some (n, r)"
  using assms
proof (induction ds arbitrary: acc)
  case Nil
  then show ?case by (cases r) auto
next
  case (Cons c cs)
  then obtain d where d: "digit_value c = Some d" "digits_value (10 * acc + d) cs = Some n"
    by (auto split: option.splits)
  have "10 * acc + d \<le> 2 ^ 63" using digits_value_mono [OF d(2)] Cons.prems(2) by simp
  moreover from this have "\<not> acc > 2 ^ 63 div 10" by simp
  ultimately show ?case using Cons.IH [OF d(2)] Cons.prems d(1) by (simp add: Let_def)
qed

lemma base_digit_10: "digit_value c = Some d \<Longrightarrow> base_digit 10 c = Some d \<and> c \<noteq> CHR ''_''"
  by (auto simp: digit_value_def base_digit_def lower_char_def Let_def split: if_splits)

lemma base_value_digits: "digits_value acc ds = Some n \<Longrightarrow> base_value 10 acc ds = Some n"
  by (induction acc ds rule: digits_value.induct) (auto dest: base_digit_10 split: option.splits)

lemma digit_zero: "n < 10 \<Longrightarrow> digit n = CHR ''0'' \<longleftrightarrow> n = 0"
proof
  assume n: "n < 10" and "digit n = CHR ''0''"
  then have "digit_value (CHR ''0'') = Some n" using digit_value_digit [of n] by simp
  then show "n = 0" by (simp add: digit_value_def)
next
  have "digit 0 = CHR ''0''" by code_simp
  then show "n = 0 \<Longrightarrow> digit n = CHR ''0''" by simp
qed

lemma show_nat_leading: "0 < n \<Longrightarrow> hd (show_nat n) \<noteq> CHR ''0''"
proof (induction n rule: show_nat.induct)
  case (1 n)
  show ?case
  proof (cases "n < 10")
    case True
    with 1(2) show ?thesis by (subst show_nat.simps) (simp add: digit_zero)
  next
    case False
    with 1 show ?thesis by (subst show_nat.simps) simp
  qed
qed

lemma ParseUint_show_nat:
  assumes "n < 2 ^ 64"
  shows "ParseUint (show_nat n) = Some n"
proof (cases "n = 0")
  case True
  have "show_nat 0 = ''0''" by (subst show_nat.simps) (simp add: digit_zero)
  then show ?thesis using True by (simp add: ParseUint_def split_base_def)
next
  case False
  then have "split_base (show_nat n) = (10, show_nat n)"
    using show_nat_leading [of n] show_nat_neq_Nil [of n] by (cases "show_nat n") (auto simp: split_base_def)
  moreover have "CHR ''_'' \<notin> set (show_nat n)" using show_nat_digits [of "CHR ''_''" n] by (auto simp: digit_value_def)
  ultimately show ?thesis
    using base_value_digits [OF digits_value_show_nat [of n]] assms by (simp add: ParseUint_def)
qed

lemma split_sign_show_int:
  "split_sign (show_int i @ s) = (i < 0, show_nat (nat \<bar>i\<bar>) @ s)"
proof (cases "show_nat (nat \<bar>i\<bar>)")
  case (Cons c cs)
  with show_nat_hd [of "nat \<bar>i\<bar>"] show ?thesis by (auto simp: split_sign_def show_int_def)
qed simp

lemma ParseInt_show_int: "min_int64 \<le> i \<Longrightarrow> i \<le> max_int64 \<Longrightarrow> ParseInt (show_int i) = Some i"
  using split_sign_show_int [of i "[]"] ParseUint_show_nat [of "nat \<bar>i\<bar>"]
  by (simp add: ParseInt_def min_int64_def max_int64_def nat_less_iff)

text \<open>Every duration can be written in nanoseconds.\<close>

lemma ParseDuration_ns:
  assumes "min_int64 \<le> d" "d \<le> max_int64"
  shows "ParseDuration (show_int d @ ''ns'') = Some d"
proof -
  let ?n = "nat \<bar>d\<bar>"
  have n: "?n \<le> 2 ^ 63" using assms by (simp add: min_int64_def max_int64_def nat_le_iff)
  obtain c cs where c: "show_nat ?n = c # cs" by (cases "show_nat ?n") auto
  then have "digit_value c \<noteq> None" using show_nat_digits [of c ?n] by simp
  moreover have "leadingInt 0 (show_nat ?n @ ''ns'') = Some (?n, ''ns'')"
    by (rule leadingInt_digits [OF digits_value_show_nat n]) (simp add: digit_value_def)
  ultimately have "duration_part (show_nat ?n @ ''ns'') = Some (?n, [])"
    using n c
    by (simp add: duration_part_def point_fraction_def in_unit_def is_unit_char_def unit_of_def digit_value_def Let_def)
  moreover have "show_nat ?n @ ''ns'' \<noteq> []" "show_nat ?n @ ''ns'' \<noteq> ''0''" using c by auto
  ultimately have "duration_sum 0 (show_nat ?n @ ''ns'') = Some ?n"
    using n by (subst duration_sum.simps) (simp add: duration_sum.simps [of ?n "[]"] Let_def)
  then show ?thesis
    using assms split_sign_show_int [of d "''ns''"] \<open>show_nat ?n @ ''ns'' \<noteq> ''0''\<close>
    by (simp add: ParseDuration_def)
qed

section \<open>Flags written with their values\<close>

definition spelled :: "string \<times> string \<Rightarrow> string" where
  "spelled = (\<lambda>(n, v). CHR ''-'' # n @ CHR ''='' # v)"

definition flag_name :: "string \<Rightarrow> bool" where
  "flag_name n \<longleftrightarrow> n \<noteq> [] \<and> hd n \<noteq> CHR ''-'' \<and> CHR ''='' \<notin> set n"

fun set_all :: "FlagSet \<Rightarrow> (string \<times> string) list \<Rightarrow> flag_error + FlagSet" where
  "set_all fs [] = Inr fs"
| "set_all fs ((n, v) # xs) =
     (case fg_formal fs n of
        None \<Rightarrow> Inl (NotDefined n)
      | Some old \<Rightarrow> (case set_flag fs n old v of Inl e \<Rightarrow> Inl e | Inr fs \<Rightarrow> set_all fs xs))"

lemma set_all_append:
  "set_all fs (xs @ ys) = (case set_all fs xs of Inl e \<Rightarrow> Inl e | Inr fs' \<Rightarrow> set_all fs' ys)"
  by (induction fs xs rule: set_all.induct) (auto split: option.split sum.split)

lemma Cut_first: "c \<notin> set n \<Longrightarrow> Cut c (n @ c # v) = Some (n, v)"
  by (induction n) auto

lemma flag_text_spelled:
  assumes "flag_name n"
  shows "flag_text (spelled (n, v)) = Inr (n, Some v)"
proof -
  obtain c cs where n: "n = c # cs" "c \<noteq> CHR ''-''" "c \<noteq> CHR ''=''"
    using assms by (cases n) (auto simp: flag_name_def)
  have "Cut CHR ''='' (n @ CHR ''='' # v) = Some (n, v)" using assms by (intro Cut_first) (simp add: flag_name_def)
  with n show ?thesis by (simp add: flag_text_def spelled_def Let_def)
qed

lemma set_flag_dom: "set_flag fs n old v = Inr fs' \<Longrightarrow> fg_formal fs n = Some old \<Longrightarrow> dom (fg_formal fs') = dom (fg_formal fs)"
  by (auto simp: set_flag_def split: option.splits if_splits)

lemma set_all_dom: "set_all fs xs = Inr fs' \<Longrightarrow> dom (fg_formal fs') = dom (fg_formal fs)"
proof (induction xs arbitrary: fs)
  case (Cons x xs)
  obtain n v where x: "x = (n, v)" by fastforce
  with Cons.prems obtain old fs1 where s: "fg_formal fs n = Some old" "set_flag fs n old v = Inr fs1" "set_all fs1 xs = Inr fs'"
    by (auto split: option.splits sum.splits)
  from Cons.IH [OF s(3)] set_flag_dom [OF s(2,1)] show ?case by simp
qed simp

lemma parseOne_spelled:
  assumes "flag_name n" "fg_formal fs n = Some old"
  shows "parseOne fs (spelled (n, v) # args) =
    (case set_flag fs n old v of Inl e \<Rightarrow> Inl e | Inr fs' \<Rightarrow> Inr (True, fs', args))"
proof -
  obtain c cs where "n = c # cs" using assms(1) by (cases n) (auto simp: flag_name_def)
  then have "\<not> length (spelled (n, v)) < 2" "hd (spelled (n, v)) = CHR ''-''" "spelled (n, v) \<noteq> ''--''"
    by (simp_all add: spelled_def)
  with flag_text_spelled [OF assms(1)] assms(2) show ?thesis by (simp add: parseOne_def)
qed

lemma Parse_spelled:
  assumes "\<forall>x \<in> set xs. flag_name (fst x) \<and> fst x \<in> dom (fg_formal fs)"
  shows "Parse fs (map spelled xs @ args) = (case set_all fs xs of Inl e \<Rightarrow> Inl e | Inr fs' \<Rightarrow> Parse fs' args)"
  using assms
proof (induction xs arbitrary: fs)
  case (Cons x xs)
  obtain n v where x: "x = (n, v)" by fastforce
  with Cons.prems obtain old where old: "flag_name n" "fg_formal fs n = Some old" by auto
  show ?case
  proof (cases "set_flag fs n old v")
    case (Inl e)
    with parseOne_spelled [OF old] old x show ?thesis by (subst Parse.simps) simp
  next
    case (Inr fs')
    have "\<forall>y \<in> set xs. flag_name (fst y) \<and> fst y \<in> dom (fg_formal fs')"
      unfolding set_flag_dom [OF Inr old(2)] using Cons.prems by simp
    from Cons.IH [OF this] Inr parseOne_spelled [OF old] old x show ?thesis by (subst Parse.simps) simp
  qed
qed simp

lemma Parse_stops: "length a < 2 \<or> hd a \<noteq> CHR ''-'' \<Longrightarrow> Parse fs (a # args) = Inr (fs, a # args)"
  by (subst Parse.simps) (simp add: parseOne_def)

lemma Parse_Nil [simp]: "Parse fs [] = Inr (fs, [])"
  by (subst Parse.simps) (simp add: parseOne_def)

text \<open>A value written down in a form its kind of flag reads.\<close>

fun value_text :: "flag_value \<Rightarrow> string" where
  "value_text (IntFlag i) = show_int i"
| "value_text (BoolFlag b) = (if b then ''true'' else ''false'')"
| "value_text (StringFlag s) = s"
| "value_text (DurationFlag d) = show_int d @ ''ns''"

fun value_fits :: "flag_value \<Rightarrow> flag_value \<Rightarrow> bool" where
  "value_fits (IntFlag _) (IntFlag i) \<longleftrightarrow> min_int64 \<le> i \<and> i \<le> max_int64"
| "value_fits (BoolFlag _) (BoolFlag _) \<longleftrightarrow> True"
| "value_fits (StringFlag _) (StringFlag _) \<longleftrightarrow> True"
| "value_fits (DurationFlag _) (DurationFlag d) \<longleftrightarrow> min_int64 \<le> d \<and> d \<le> max_int64"
| "value_fits _ _ \<longleftrightarrow> False"

lemma set_value_text: "value_fits old v \<Longrightarrow> set_value old (value_text v) = Some v"
  by (cases "(old, v)" rule: value_fits.cases)
    (simp_all add: set_value_def ParseInt_show_int ParseDuration_ns ParseBool_def)

lemma set_all_values:
  assumes "distinct (map fst vs)" "\<forall>(n, v) \<in> set vs. \<exists>old. fg_formal fs n = Some old \<and> value_fits old v"
  shows "set_all fs (map (\<lambda>(n, v). (n, value_text v)) vs) =
    Inr (fs\<lparr>fg_formal := fg_formal fs ++ map_of vs, fg_actual := fold List.insert (map fst vs) (fg_actual fs)\<rparr>)"
  using assms
proof (induction vs arbitrary: fs)
  case (Cons x vs)
  obtain n v where x: "x = (n, v)" by fastforce
  with Cons.prems obtain old where old: "fg_formal fs n = Some old" "value_fits old v" by auto
  let ?text = "\<lambda>(n, v). (n, value_text v)"
  define fs1 where "fs1 = fs\<lparr>fg_formal := (fg_formal fs)(n \<mapsto> v), fg_actual := List.insert n (fg_actual fs)\<rparr>"
  have fs1: "fg_formal fs1 = (fg_formal fs)(n \<mapsto> v)" "fg_actual fs1 = List.insert n (fg_actual fs)"
    "\<And>a b. fs1\<lparr>fg_formal := a, fg_actual := b\<rparr> = fs\<lparr>fg_formal := a, fg_actual := b\<rparr>"
    by (simp_all add: fs1_def)
  have set: "set_flag fs n old (value_text v) = Inr fs1" by (simp add: set_flag_def set_value_text [OF old(2)] fs1_def)
  have "\<forall>(m, u) \<in> set vs. \<exists>old. fg_formal fs1 m = Some old \<and> value_fits old u"
  proof (safe)
    fix m u assume m: "(m, u) \<in> set vs"
    then have "m \<in> fst ` set vs" by force
    then have "m \<noteq> n" using Cons.prems(1) x by auto
    with m Cons.prems(2) show "\<exists>old. fg_formal fs1 m = Some old \<and> value_fits old u" by (fastforce simp: fs1)
  qed
  moreover have "distinct (map fst vs)" using Cons.prems(1) by simp
  ultimately have ih: "set_all fs1 (map ?text vs) =
      Inr (fs\<lparr>fg_formal := fg_formal fs1 ++ map_of vs, fg_actual := fold List.insert (map fst vs) (fg_actual fs1)\<rparr>)"
    using Cons.IH [of fs1] by (simp only: fs1(3))
  have eq: "fg_formal fs1 ++ map_of vs = fg_formal fs ++ map_of (x # vs)"
  proof (rule ext)
    fix k
    have "map_of vs n = None" using Cons.prems(1) x by (simp add: map_of_eq_None_iff)
    then show "(fg_formal fs1 ++ map_of vs) k = (fg_formal fs ++ map_of (x # vs)) k"
      using x by (cases "map_of vs k") (auto simp: fs1 map_add_def)
  qed
  have "set_all fs (map ?text (x # vs)) = set_all fs1 (map ?text vs)" using old(1) set x by simp
  moreover have "fold List.insert (map fst (x # vs)) (fg_actual fs) = fold List.insert (map fst vs) (fg_actual fs1)"
    using x fs1(2) by simp
  ultimately show ?case by (simp only: ih eq)
qed simp

end
