(* ===== verification/Report_Page.thy ===== *)
theory Report_Page
  imports Printing Report_Correct
begin

text \<open>
  The page a report is written as (\<open>Input.Write\<close> and the template \<open>pageHTML\<close> of
  \<open>internal/report/report.go\<close>). The template is a list of pieces, the text of the source and the values
  shown in it; \<open>html/template\<close> replaces in every value the characters that mean something in HTML. All
  of the template's actions stand in text, in a \<open>title\<close> or in a quoted attribute, where the
  replacements are the same.

  Proved: what is shown can neither add nor remove a tag or the end of an attribute, and reads back
  as what was recorded.
\<close>

section \<open>Pieces\<close>

datatype piece = Markup string | Shown string

text \<open>The table \<open>htmlReplacementTable\<close> of \<open>html/template\<close>; a NUL byte becomes U+FFFD.\<close>

definition escape_char :: "char \<Rightarrow> string" where
  "escape_char c =
     (if c = CHR 0x00 then [char_of (239 :: nat), char_of (191 :: nat), char_of (189 :: nat)]
      else if c = CHR 0x22 then ''&#34;''
      else if c = CHR ''&'' then ''&amp;''
      else if c = CHR 0x27 then ''&#39;''
      else if c = CHR ''+'' then ''&#43;''
      else if c = CHR ''<'' then ''&lt;''
      else if c = CHR ''>'' then ''&gt;''
      else [c])"

definition escape :: "string \<Rightarrow> string" where
  "escape s = concat (map escape_char s)"

fun piece_text :: "piece \<Rightarrow> string" where
  "piece_text (Markup s) = s"
| "piece_text (Shown s) = escape s"

definition render :: "piece list \<Rightarrow> string" where
  "render ps = concat (map piece_text ps)"

definition number :: "int \<Rightarrow> piece" where
  "number n = Shown (show_int n)"

definition unlines :: "string list \<Rightarrow> string" where
  "unlines ls = Join [CHR 0x0A] ls"

section \<open>The template\<close>

definition style_sheet :: "string list" where
  "style_sheet =
     ['':root {'', ''  color-scheme: light dark;'',
      ''  --bg: #ffffff; --fg: #16191d; --muted: #5c6570; --rule: #d8dde3;'',
      ''  --ok: #2f6f4f; --okf: #dcefe4;'', ''  --info: #8a6d1f; --infof: #f6ecd2;'',
      ''  --fail: #6b6b6b; --failf: #e7e7e7;'',
      ''  --bad: #a32b2b; --good: #2f6f4f; --unsure: #8a6d1f;'', ''  --band: rgba(163, 43, 43, 0.10);'',
      ''}'', ''@media (prefers-color-scheme: dark) {'', ''  :root {'',
      ''    --bg: #14171a; --fg: #e6e9ec; --muted: #98a2ad; --rule: #2b3138;'',
      ''    --ok: #79c79b; --okf: #1d3128;'', ''    --info: #d8b45a; --infof: #33290f;'',
      ''    --fail: #9aa1a8; --failf: #262a2e;'',
      ''    --bad: #f08b8b; --good: #79c79b; --unsure: #d8b45a;'',
      ''    --band: rgba(240, 139, 139, 0.12);'', ''  }'', ''}'', ''* { box-sizing: border-box; }'',
      ''body {'', ''  margin: 0; padding: 28px 22px 64px; background: var(--bg); color: var(--fg);'',
      ''  font: 14px/1.5 ui-sans-serif, system-ui, -apple-system, \"Segoe UI\", Roboto, sans-serif;'',
      ''}'', ''main { max-width: 1180px; margin: 0 auto; }'',
      ''h1 { font-size: 19px; margin: 0 0 4px; font-weight: 620; letter-spacing: -0.01em; }'',
      ''.sub { color: var(--muted); margin: 0 0 22px; }'',
      ''.verdict { font: 600 26px/1.2 ui-monospace, SFMono-Regular, Menlo, Consolas, monospace; letter-spacing: -0.02em; }'',
      ''.verdict.good { color: var(--good); }'', ''.verdict.bad { color: var(--bad); }'',
      ''.verdict.unsure { color: var(--unsure); }'',
      ''.reason { margin: 6px 0 0; font-family: ui-monospace, SFMono-Regular, Menlo, Consolas, monospace; font-size: 13px; }'',
      ''.card { border: 1px solid var(--rule); border-radius: 10px; padding: 18px 20px; margin: 0 0 20px; }'',
      ''.stats { display: grid; grid-template-columns: repeat(auto-fit, minmax(150px, 1fr)); gap: 14px 20px; margin-top: 16px; }'',
      ''.stat b { display: block; font: 600 17px/1.2 ui-monospace, SFMono-Regular, Menlo, Consolas, monospace; }'',
      ''.stat span { color: var(--muted); font-size: 12px; }'',
      ''.legend { display: flex; flex-wrap: wrap; gap: 16px; margin: 0 0 10px; font-size: 12px; color: var(--muted); }'',
      ''.legend i { display: inline-block; width: 22px; height: 9px; border-radius: 2px; margin-right: 6px; vertical-align: 1px; }'',
      ''.legend i.ok { background: var(--okf); border: 1px solid var(--ok); }'',
      ''.legend i.info { background: var(--infof); border: 1px solid var(--info); }'',
      ''.legend i.fail { background: var(--failf); border: 1px solid var(--fail); }'',
      ''.legend i.culprit { background: var(--bad); }'',
      ''.legend i.band { background: var(--band); border: 1px solid var(--rule); }'',
      ''.scroll { overflow-x: auto; }'', ''svg { display: block; }'',
      ''svg text { font: 11px ui-monospace, SFMono-Regular, Menlo, Consolas, monospace; fill: var(--fg); }'',
      ''svg text.lane { fill: var(--muted); }'',
      ''svg text.axis { fill: var(--muted); font-size: 10px; }'',
      ''rect.ok { fill: var(--okf); stroke: var(--ok); }'',
      ''rect.info { fill: var(--infof); stroke: var(--info); stroke-dasharray: 3 2; }'',
      ''rect.fail { fill: var(--failf); stroke: var(--fail); }'',
      ''rect.culprit { stroke: var(--bad); stroke-width: 2; }'',
      ''rect.band { fill: var(--band); stroke: none; }'',
      ''line.grid { stroke: var(--rule); stroke-width: 1; }'',
      ''.note { color: var(--muted); font-size: 12px; margin: 10px 0 0; }'',
      ''footer { color: var(--muted); font-size: 12px; margin-top: 26px; }'']"

text \<open>The head of the page, down to the verdict.\<close>

definition page_top :: "pageData \<Rightarrow> piece list" where
  "page_top d =
     [Markup (unlines [''<!doctype html>'', ''<html lang=\"en\">'', ''<head>'',
        ''<meta charset=\"utf-8\">'',
        ''<meta name=\"viewport\" content=\"width=device-width, initial-scale=1\">'',
        ''<title>'']),
      Shown (pd_Title d),
      Markup (unlines ([''</title>'', ''<style>''] @ style_sheet @
        [''</style>'',
        ''</head>'', ''<body>'', ''<main>'', ''  <h1>''])),
      Shown (pd_Title d),
      Markup (unlines [''</h1>'',
        ''  <p class=\"sub\">A recorded history, checked for linearizability.</p>'', [],
        ''  <div class=\"card\">'', ''    <div class=\"verdict '']),
      Shown (pd_Class d),
      Markup ''\">'',
      Shown (pd_Verdict d),
      Markup (unlines [''</div>'', ''    ''])]"

definition stat_pieces :: "string \<times> string \<Rightarrow> piece list" where
  "stat_pieces =
     (\<lambda>(name, shown). [Markup ''<div class=\"stat\"><b>'',
        Shown shown,
        Markup ''</b><span>'',
        Shown name,
        Markup ''</span></div>''])"

definition verdict_card :: "pageData \<Rightarrow> piece list" where
  "verdict_card d =
     (if result_text (pd_Reason d) \<noteq> []
       then [Markup ''<p class=\"reason\">'',
          Shown (result_text (pd_Reason d)),
          Markup ''</p>'']
       else []) @
      [Markup (unlines [[], ''    ''])] @
      (if pd_Summary d \<noteq> []
       then [Markup ''<p class=\"note\">'',
          Shown (pd_Summary d),
          Markup ''</p>'']
       else []) @
      [Markup (unlines [[], ''    <div class=\"stats\">'', ''      ''])] @
      concat (map stat_pieces (pd_Stats d))"

definition legend_pieces :: "string \<times> string \<Rightarrow> piece list" where
  "legend_pieces =
     (\<lambda>(cl, label). [Markup ''<span><i class=\"'',
        Shown cl,
        Markup ''\"></i>'',
        Shown label,
        Markup ''</span>''])"

definition legend_card :: "pageData \<Rightarrow> piece list" where
  "legend_card d =
     [Markup (unlines [[], ''    </div>'', ''  </div>'', [], ''  <div class=\"card\">'',
        ''    <div class=\"legend\">'', ''      ''])] @
      concat (map legend_pieces (pd_Legend d))"

definition band_pieces :: "pageData \<Rightarrow> faultBand \<Rightarrow> piece list" where
  "band_pieces d b =
     [Markup ''<rect class=\"'',
        Shown (fb_Class b),
        Markup ''\" x=\"'',
        number (fb_X b),
        Markup ''\" y=\"16\" width=\"'',
        number (fb_W b),
        Markup ''\" height=\"'',
        number (pd_Height d),
        Markup ''\"><title>'',
        Shown (fb_Label b),
        Markup ''</title></rect>'']"

definition tick_pieces :: "pageData \<Rightarrow> tick \<Rightarrow> piece list" where
  "tick_pieces d t =
     [Markup ''<line class=\"grid\" x1=\"'',
        number (tk_X t),
        Markup ''\" y1=\"18\" x2=\"'',
        number (tk_X t),
        Markup ''\" y2=\"'',
        number (pd_Height d),
        Markup ''\"/><text class=\"axis\" x=\"'',
        number (tk_X t),
        Markup ''\" y=\"12\" text-anchor=\"middle\">'',
        Shown (tk_Label t),
        Markup ''</text>'']"

definition row_pieces :: "pageData \<Rightarrow> row \<Rightarrow> piece list" where
  "row_pieces d r =
     [Markup (unlines [[], ''        <text class=\"lane\" x=\"'']),
        number (pd_PlotLeft d),
        Markup ''\" y=\"'',
        number (rw_Y r),
        Markup ''\" dx=\"-8\" text-anchor=\"end\" dy=\"10\">'',
        Shown (rw_LaneLabel r),
        Markup (unlines [''</text>'', ''        <rect class=\"'']),
        Shown (rw_Class r),
        Markup ''\" x=\"'',
        number (rw_X r),
        Markup ''\" y=\"'',
        number (rw_Y r),
        Markup ''\" width=\"'',
        number (rw_W r),
        Markup ''\" height=\"13\" rx=\"2\"><title>'',
        Shown (rw_Detail r),
        Markup (unlines [''</title></rect>'', ''        <text x=\"'']),
        number (rw_TextX r),
        Markup ''\" y=\"'',
        number (rw_Y r),
        Markup ''\" dy=\"10\" text-anchor=\"'',
        Shown (rw_TextAnchor r),
        Markup ''\">'',
        Shown (rw_Label r),
        Markup '' '',
        Shown (rw_ResultLabel r),
        Markup (unlines [''</text>'', ''        ''])]"

definition chart :: "pageData \<Rightarrow> piece list" where
  "chart d =
     [Markup (unlines [[], ''    </div>'', ''    <div class=\"scroll\">'', ''      <svg width=\"'']),
      number (pd_Width d),
      Markup ''\" height=\"'',
      number (pd_Height d),
      Markup ''\" viewBox=\"0 0 '',
      number (pd_Width d),
      Markup '' '',
      number (pd_Height d),
      Markup (unlines [''\" role=\"img\"'',
        ''           aria-label=\"operations on a time axis\">'', ''        ''])] @
      concat (map (band_pieces d) (pd_Bands d)) @
      [Markup (unlines [[], ''        ''])] @
      concat (map (tick_pieces d) (pd_Ticks d)) @
      [Markup (unlines [[], ''        ''])] @
      concat (map (row_pieces d) (pd_Rows d))"

definition page_bottom :: "pageData \<Rightarrow> piece list" where
  "page_bottom d =
     [Markup (unlines [[], ''      </svg>'', ''    </div>'', ''    <p class=\"note\">'']),
      Shown (pd_Note d)] @
      (if pd_Key d \<noteq> []
       then [Markup '' (key <code>'',
          Shown (pd_Key d),
          Markup ''</code>)'']
       else []) @
      [Markup (unlines [''. Hover a bar for the full operation.</p>'', ''  </div>'', [],
        ''  <footer>Generated by Splitbrain. Bars run from the moment the client sent the request to the moment it'',
        ''  learned the answer; a dashed bar reaching the right edge had not been answered'',
        ''  ''])] @
      (if pd_Truncated d
       then [Markup ''by the point this drawing stops'']
       else [Markup ''at all'']) @
      [Markup (unlines [''.'', ''  ''])] @
      (if pd_Truncated d
       then [Markup (unlines [
            ''The counts above are for the whole recorded run; the drawing is the truncation,'',
            ''  ''])] @
         (if pd_Rewritten d \<noteq> 0
           then [Markup ''and '',
              number (int (pd_Rewritten d)),
              Markup (unlines [
                '' of the operations in it were still in flight where it was cut, so their'',
                ''  results are deliberately not shown.''])]
           else [Markup (unlines [''so an operation may appear here without the result the run'',
                ''  eventually recorded for it.''])])
       else []) @
      [Markup (unlines [''</footer>'', ''</main>'', ''</body>'', ''</html>'', []])]"

definition page :: "pageData \<Rightarrow> piece list" where
  "page d = page_top d @ verdict_card d @ legend_card d @ chart d @ page_bottom d"

text \<open>\<open>build\<close> never fails; whether the writer does is not the page's business.\<close>

definition Input_Write :: "Input \<Rightarrow> string" where
  "Input_Write inp = render (page (build inp))"

section \<open>Nothing shown is markup\<close>

text \<open>The characters that open and close tags and attribute values.\<close>

definition is_markup :: "char \<Rightarrow> bool" where
  "is_markup c \<longleftrightarrow> c \<in> {CHR ''<'', CHR ''>'', CHR 0x22, CHR 0x27}"

definition skeleton :: "string \<Rightarrow> string" where
  "skeleton s = filter is_markup s"

fun template_text :: "piece \<Rightarrow> string" where
  "template_text (Markup s) = s"
| "template_text (Shown s) = []"

definition frame :: "piece list \<Rightarrow> string" where
  "frame ps = concat (map template_text ps)"

lemma skeleton_append [simp]: "skeleton (s @ t) = skeleton s @ skeleton t" "skeleton [] = []"
  by (simp_all add: skeleton_def)

lemma skeleton_escape_char: "skeleton (escape_char c) = []"
  by (simp add: skeleton_def escape_char_def is_markup_def char_of_eq_iff)

lemma skeleton_escape [simp]: "skeleton (escape s) = []"
  unfolding escape_def by (induction s) (simp_all add: skeleton_escape_char)

lemma skeleton_render: "skeleton (render ps) = skeleton (frame ps)"
  unfolding render_def frame_def
proof (induction ps)
  case (Cons p ps)
  then show ?case by (cases p) simp_all
qed simp

lemma frame_simps [simp]:
  "frame [] = []" "frame (p # ps) = template_text p @ frame ps" "frame (ps @ qs) = frame ps @ frame qs"
  by (simp_all add: frame_def)

lemma template_text_number [simp]: "template_text (number n) = []"
  by (simp add: number_def)

text \<open>A list is framed by its length alone.\<close>

lemma frame_items:
  assumes "\<And>x. frame (f x) = k" "\<And>y. frame (g y) = k" "length xs = length ys"
  shows "frame (concat (map f xs)) = frame (concat (map g ys))"
proof -
  have "frame (concat (map f xs)) = concat (replicate (length xs) k)"
    by (induction xs) (simp_all add: assms(1))
  moreover have "frame (concat (map g ys)) = concat (replicate (length ys) k)"
    by (induction ys) (simp_all add: assms(2))
  ultimately show ?thesis using assms(3) by simp
qed

text \<open>How many of each there are, and which optional parts are drawn.\<close>

definition same_shape :: "pageData \<Rightarrow> pageData \<Rightarrow> bool" where
  "same_shape d e \<longleftrightarrow>
     length (pd_Rows d) = length (pd_Rows e) \<and> length (pd_Bands d) = length (pd_Bands e) \<and>
     length (pd_Ticks d) = length (pd_Ticks e) \<and> length (pd_Stats d) = length (pd_Stats e) \<and>
     length (pd_Legend d) = length (pd_Legend e) \<and>
     (result_text (pd_Reason d) = [] \<longleftrightarrow> result_text (pd_Reason e) = []) \<and>
     (pd_Summary d = [] \<longleftrightarrow> pd_Summary e = []) \<and> (pd_Key d = [] \<longleftrightarrow> pd_Key e = []) \<and>
     pd_Truncated d = pd_Truncated e \<and> (pd_Rewritten d = 0 \<longleftrightarrow> pd_Rewritten e = 0)"

lemma frame_page_top: "frame (page_top d) = frame (page_top e)"
  by (simp only: page_top_def frame_simps template_text.simps)

lemma frame_verdict_card: "same_shape d e \<Longrightarrow> frame (verdict_card d) = frame (verdict_card e)"
  unfolding verdict_card_def frame_simps
  by (intro arg_cong2 [where f = "(@)"] refl frame_items)
    (simp_all only: same_shape_def split_beta stat_pieces_def frame_simps template_text.simps if_distrib [of frame] split: if_split)

lemma frame_legend_card: "same_shape d e \<Longrightarrow> frame (legend_card d) = frame (legend_card e)"
  unfolding legend_card_def frame_simps
  by (intro arg_cong2 [where f = "(@)"] refl frame_items)
    (simp_all only: same_shape_def split_beta legend_pieces_def frame_simps template_text.simps)

lemma frame_chart: "same_shape d e \<Longrightarrow> frame (chart d) = frame (chart e)"
  unfolding chart_def frame_simps template_text_number
  by (intro arg_cong2 [where f = "(@)"] refl frame_items)
    (simp_all only: same_shape_def band_pieces_def tick_pieces_def row_pieces_def frame_simps template_text.simps
      template_text_number append_Nil)

lemma frame_page_bottom:
  assumes "same_shape d e"
  shows "frame (page_bottom d) = frame (page_bottom e)"
proof -
  have shape: "(pd_Key d \<noteq> []) = (pd_Key e \<noteq> [])" "pd_Truncated d = pd_Truncated e"
    "(pd_Rewritten d \<noteq> 0) = (pd_Rewritten e \<noteq> 0)"
    using assms by (simp_all add: same_shape_def)
  show ?thesis
    unfolding page_bottom_def
    by (simp only: frame_simps template_text.simps template_text_number if_distrib [of frame] shape)
qed

lemma frame_page:
  assumes "same_shape d e"
  shows "frame (page d) = frame (page e)"
  unfolding page_def frame_simps
  by (simp only: frame_page_top [of d e] frame_verdict_card [OF assms] frame_legend_card [OF assms]
      frame_chart [OF assms] frame_page_bottom [OF assms])

lemma page_skeleton:
  assumes "same_shape (build inp) (build inp')"
  shows "skeleton (Input_Write inp) = skeleton (Input_Write inp')"
  unfolding Input_Write_def skeleton_render frame_page [OF assms] by (rule refl)

text \<open>The title is shown and nothing else.\<close>

lemma build_title:
  "build (inp\<lparr>in_Title := t\<rparr>) = (build inp)\<lparr>pd_Title := orDefault t ''Splitbrain report''\<rparr>"
proof -
  let ?inp = "inp\<lparr>in_Title := t\<rparr>"
  have f: "in_Verdict ?inp = in_Verdict inp" "in_Elapsed ?inp = in_Elapsed inp" "in_History ?inp = in_History inp"
    "in_Faults ?inp = in_Faults inp" "in_ProcessNode ?inp = in_ProcessNode inp" "in_MaxOps ?inp = in_MaxOps inp"
    "in_Summary ?inp = in_Summary inp" "in_Title ?inp = t" by simp_all
  have s: "shown_ops ?inp = shown_ops inp" unfolding shown_ops_def f by (rule refl)
  have m: "max_ops ?inp = max_ops inp" unfolding max_ops_def f by (rule refl)
  have d: "drawn_ops ?inp = drawn_ops inp" unfolding drawn_ops_def s m by (rule refl)
  have "build_row ?inp = build_row inp" by (intro ext) (simp only: build_row_def f)
  then have r: "build_rows ?inp = build_rows inp" by (intro ext) (simp only: build_rows_def)
  show ?thesis unfolding build_def s d r m f by (simp add: Let_def split_beta)
qed

section \<open>What is shown reads back\<close>

text \<open>The character references a reader of the page resolves.\<close>

fun unescape :: "string \<Rightarrow> string" where
  "unescape s =
     (if s = [] then []
      else if take 5 s = ''&#34;'' then CHR 0x22 # unescape (drop 5 s)
      else if take 5 s = ''&amp;'' then CHR ''&'' # unescape (drop 5 s)
      else if take 5 s = ''&#39;'' then CHR 0x27 # unescape (drop 5 s)
      else if take 5 s = ''&#43;'' then CHR ''+'' # unescape (drop 5 s)
      else if take 4 s = ''&lt;'' then CHR ''<'' # unescape (drop 4 s)
      else if take 4 s = ''&gt;'' then CHR ''>'' # unescape (drop 4 s)
      else hd s # unescape (tl s))"

declare unescape.simps [simp del]

lemma unescape_Nil [simp]: "unescape [] = []"
  by (simp add: unescape.simps)

lemma unescape_char: "c \<noteq> CHR 0x00 \<Longrightarrow> unescape (escape_char c @ s) = c # unescape s"
  by (subst unescape.simps) (auto simp: escape_char_def eval_nat_numeral)

lemma unescape_escape: "CHR 0x00 \<notin> set s \<Longrightarrow> unescape (escape s) = s"
  unfolding escape_def by (induction s) (simp_all add: unescape_char [OF not_sym])

end
