(* ===== verification/Cli_Flags.thy ===== *)
theory Cli_Flags
  imports Cli_Correct Go_Flag Report_Page
begin

text \<open>
  From the words of a command line to the commands of \<open>cmd/splitbrain/main.go\<close>: the flags each command
  defines, \<open>runFlags.parse\<close>, the files written, and the exit status of the whole. A flag set exits the
  process when it cannot read its arguments (\<open>flag.ExitOnError\<close>).
\<close>

section \<open>The flags of a command\<close>

definition text_flag :: "FlagSet \<Rightarrow> string \<Rightarrow> string" where
  "text_flag fs n = (case fg_formal fs n of Some (StringFlag s) \<Rightarrow> s | _ \<Rightarrow> [])"

definition int_flag :: "FlagSet \<Rightarrow> string \<Rightarrow> int" where
  "int_flag fs n = (case fg_formal fs n of Some (IntFlag i) \<Rightarrow> i | _ \<Rightarrow> 0)"

definition duration_flag :: "FlagSet \<Rightarrow> string \<Rightarrow> duration" where
  "duration_flag fs n = (case fg_formal fs n of Some (DurationFlag d) \<Rightarrow> d | _ \<Rightarrow> 0)"

definition bool_flag :: "FlagSet \<Rightarrow> string \<Rightarrow> bool" where
  "bool_flag fs n = (case fg_formal fs n of Some (BoolFlag b) \<Rightarrow> b | _ \<Rightarrow> False)"

lemmas flag_reads = text_flag_def int_flag_def duration_flag_def bool_flag_def

text \<open>The flags \<open>register\<close> defines, with the fields they are bound to.\<close>

definition run_values :: "runFlags \<Rightarrow> (string \<times> flag_value) list" where
  "run_values f =
     [(''target'', StringFlag (rf_target f)), (''nodes'', IntFlag (rf_nodes f)),
      (''clients'', IntFlag (rf_clients f)), (''keys'', IntFlag (rf_keys f)),
      (''duration'', DurationFlag (rf_duration f)), (''max-ops'', IntFlag (rf_maxOps f)),
      (''op-timeout'', DurationFlag (rf_opTimeout f)), (''think'', DurationFlag (rf_thinkMax f)),
      (''value-max'', IntFlag (rf_valueMax f)), (''faults'', StringFlag (rf_faults f)),
      (''quiesce'', DurationFlag (rf_quiesce f)), (''keep-alive'', BoolFlag (rf_keepAlive f)),
      (''bin-dir'', StringFlag (rf_binDir f)), (''node-timeout'', DurationFlag (rf_nodeTmo f)),
      (''model'', StringFlag (rf_modelName f)), (''max-visits'', IntFlag (rf_maxVisits f)),
      (''max-cache-mb'', IntFlag (rf_maxCache f)), (''check-timeout'', DurationFlag (rf_checkTmo f)),
      (''expect'', StringFlag (rf_expect f)), (''v'', BoolFlag (rf_verbose f))]"

definition flags_of :: "FlagSet \<Rightarrow> runFlags" where
  "flags_of fs =
     \<lparr>rf_target = text_flag fs ''target'', rf_nodes = int_flag fs ''nodes'', rf_clients = int_flag fs ''clients'',
       rf_keys = int_flag fs ''keys'', rf_duration = duration_flag fs ''duration'', rf_maxOps = int_flag fs ''max-ops'',
       rf_opTimeout = duration_flag fs ''op-timeout'', rf_thinkMax = duration_flag fs ''think'',
       rf_valueMax = int_flag fs ''value-max'', rf_faults = text_flag fs ''faults'',
       rf_quiesce = duration_flag fs ''quiesce'', rf_keepAlive = bool_flag fs ''keep-alive'',
       rf_binDir = text_flag fs ''bin-dir'', rf_nodeTmo = duration_flag fs ''node-timeout'',
       rf_modelName = text_flag fs ''model'', rf_maxVisits = int_flag fs ''max-visits'',
       rf_maxCache = int_flag fs ''max-cache-mb'', rf_checkTmo = duration_flag fs ''check-timeout'',
       rf_expect = text_flag fs ''expect'', rf_verbose = bool_flag fs ''v'', rf_typed = fg_actual fs\<rparr>"

definition new_set :: "(string \<times> flag_value) list \<Rightarrow> FlagSet" where
  "new_set defined = \<lparr>fg_formal = map_of defined, fg_actual = []\<rparr>"

definition run_set :: FlagSet where
  "run_set = new_set (run_values register_flags @
     [(''out'', StringFlag []), (''report'', StringFlag []), (''counterexample'', StringFlag []), (''seed'', IntFlag 1)])"

definition sweep_set :: FlagSet where
  "sweep_set = new_set (run_values register_flags @
     [(''seeds'', StringFlag ''0-9''), (''stop-on-mismatch'', BoolFlag False)])"

definition check_set :: FlagSet where
  "check_set = new_set
     [(''model'', StringFlag ''cas-register''), (''max-visits'', IntFlag 2000000), (''max-cache-mb'', IntFlag 512),
      (''timeout'', DurationFlag (ms 60000)), (''expect'', StringFlag ''any''), (''report'', StringFlag [])]"

definition schedule_set :: FlagSet where
  "schedule_set = new_set
     [(''nodes'', IntFlag 3), (''faults'', StringFlag ''partition''), (''seed'', IntFlag 1),
      (''duration'', DurationFlag (ms 8000))]"

definition check_flags_of :: "FlagSet \<Rightarrow> check_flags" where
  "check_flags_of fs =
     \<lparr>kf_model = text_flag fs ''model'', kf_maxVisits = int_flag fs ''max-visits'',
       kf_maxCache = int_flag fs ''max-cache-mb'', kf_timeout = duration_flag fs ''timeout'',
       kf_expect = text_flag fs ''expect'', kf_report = text_flag fs ''report''\<rparr>"

text \<open>\<open>runFlags.parse\<close>: the flags read, and the complaint about the first of them that means nothing.\<close>

definition parse_flags :: "FlagSet \<Rightarrow> string list \<Rightarrow> flag_error + (FlagSet \<times> cli_error option)" where
  "parse_flags fs args =
     (case Parse fs args of
        Inl e \<Rightarrow> Inl e
      | Inr (fs, _) \<Rightarrow> Inr (fs, flags_validate (flags_of fs)))"

text \<open>What \<open>flag.ExitOnError\<close> exits with.\<close>

definition flag_status :: "flag_error \<Rightarrow> int" where
  "flag_status e = (if e = HelpAsked then 0 else 2)"

section \<open>Files written\<close>

record file_system =
  os_dir :: "string \<Rightarrow> string"
  os_mkdirAll :: "string \<Rightarrow> bool"
  os_create :: "string \<Rightarrow> bool"
  os_write :: "string \<Rightarrow> bool"

text \<open>\<open>writeHistory\<close> and \<open>writeReport\<close> differ in what they write; \<open>os_dir\<close> is \<open>filepath.Dir\<close>.\<close>

definition writeFile :: "file_system \<Rightarrow> string \<Rightarrow> bool" where
  "writeFile os path =
     (let dir = os_dir os path in
      (dir \<noteq> [] \<and> dir \<noteq> ''.'' \<longrightarrow> os_mkdirAll os dir) \<and> os_create os path \<and> os_write os path)"

section \<open>The commands\<close>

definition finish_with :: "cli_error option run \<Rightarrow> int run" where
  "finish_with r = and_then r (\<lambda>err. Some (Ret (exit_status err)))"

definition run_files_of :: "file_system \<Rightarrow> FlagSet \<Rightarrow> run_files" where
  "run_files_of os fs =
     \<lparr>ru_out = text_flag fs ''out'', ru_counterexample = text_flag fs ''counterexample'',
       ru_report = text_flag fs ''report'', ru_written = writeFile os\<rparr>"

definition run_command :: "world \<Rightarrow> file_system \<Rightarrow> string list \<Rightarrow> host \<Rightarrow> int run \<times> host" where
  "run_command w os args h =
     (case parse_flags run_set args of
        Inl e \<Rightarrow> (Some (Ret (flag_status e)), h)
      | Inr (fs, Some err) \<Rightarrow> (Some (Ret (exit_status (Some err))), h)
      | Inr (fs, None) \<Rightarrow>
          (case cmdRun w (flags_of fs) (run_files_of os fs) (int_flag fs ''seed'') h of (r, h) \<Rightarrow> (finish_with r, h)))"

definition check_command ::
  "(State \<Rightarrow> 64 word) \<Rightarrow> (nat list \<Rightarrow> bool) \<Rightarrow> files \<Rightarrow> string list \<Rightarrow> int run" where
  "check_command seed late io args =
     (case parseInterleaved Parse check_set args of
        None \<Rightarrow> None
      | Some (Inl e) \<Rightarrow> Some (Ret (flag_status e))
      | Some (Inr (fs, paths)) \<Rightarrow> finish_with (cmdCheck seed late io (check_flags_of fs) paths))"

text \<open>\<open>seedRun\<close> is what the run on a seed gives under the flags read.\<close>

definition sweep_command ::
  "(int \<Rightarrow> bool) \<Rightarrow> (runFlags \<Rightarrow> int \<Rightarrow> failure + Verdict) \<Rightarrow> string list \<Rightarrow> int option" where
  "sweep_command cancelled seedRun args =
     (case parse_flags sweep_set args of
        Inl e \<Rightarrow> Some (flag_status e)
      | Inr (fs, Some err) \<Rightarrow> Some (exit_status (Some err))
      | Inr (fs, None) \<Rightarrow>
          map_option exit_status (cmdSweep (flags_of fs) (bool_flag fs ''stop-on-mismatch'') (text_flag fs ''seeds'')
            cancelled (seedRun (flags_of fs))))"

text \<open>The configuration \<open>schedule\<close> builds a timeline from; it names three of its fields.\<close>

definition schedule_config :: "FlagSet \<Rightarrow> Harness.Config" where
  "schedule_config fs =
     \<lparr>cfg_Clients = 0, cfg_Keys = 0, cfg_Duration = duration_flag fs ''duration'', cfg_MaxOps = 0, cfg_OpTimeout = 0,
       cfg_ThinkMax = 0, cfg_ThinkMaxSet = False, cfg_ValueMax = 0, cfg_Faults = text_flag fs ''faults'',
       cfg_Seed = int_flag fs ''seed'', cfg_Quiesce = 0, cfg_QuiesceSet = False, cfg_KeepAlive = False\<rparr>"

definition schedule_command ::
  "(int \<Rightarrow> 64 word \<Rightarrow> nat \<Rightarrow> nat) \<Rightarrow> (string \<Rightarrow> bool) \<Rightarrow> string list \<Rightarrow> int run" where
  "schedule_command pcg listens args =
     (case Parse schedule_set args of
        Inl e \<Rightarrow> Some (Ret (flag_status e))
      | Inr (fs, _) \<Rightarrow>
          and_then (cmdSchedule pcg listens (int_flag fs ''nodes'') (schedule_config fs))
            (\<lambda>r. Some (Ret (case r of Inl e \<Rightarrow> exit_status (Some (Failed e)) | Inr _ \<Rightarrow> 0))))"

section \<open>What was not typed has its default\<close>

lemma parse_flags_typed:
  assumes "parse_flags run_set args = Inr (fs, complaint)"
  shows "complaint = flags_validate (flags_of fs)"
    and "n \<notin> set (rf_typed (flags_of fs)) \<Longrightarrow> fg_formal fs n = fg_formal run_set n"
proof -
  obtain others where p: "Parse run_set args = Inr (fs, others)" and "complaint = flags_validate (flags_of fs)"
    using assms by (auto simp: parse_flags_def split: sum.splits)
  then show "complaint = flags_validate (flags_of fs)" by simp
  show "n \<notin> set (rf_typed (flags_of fs)) \<Longrightarrow> fg_formal fs n = fg_formal run_set n"
    using Parse_keeps [OF p] by (simp add: flags_of_def)
qed

lemma parse_flags_defaults:
  assumes "parse_flags run_set args = Inr (fs, complaint)"
  shows "parsed_flags (flags_of fs)"
proof -
  have typed: "rf_typed (flags_of fs) = fg_actual fs" by (simp add: flags_of_def)
  have same: "n \<in> set (fg_actual fs) \<or> fg_formal fs n = fg_formal run_set n" for n
    using parse_flags_typed(2) [OF assms] typed by metis
  have i: "n \<in> set (fg_actual fs) \<or> int_flag fs n = int_flag run_set n" for n
    using same [of n] by (auto simp: int_flag_def)
  have d: "n \<in> set (fg_actual fs) \<or> duration_flag fs n = duration_flag run_set n" for n
    using same [of n] by (auto simp: duration_flag_def)
  have reads: "rf_clients (flags_of fs) = int_flag fs ''clients''" "rf_keys (flags_of fs) = int_flag fs ''keys''"
    "rf_duration (flags_of fs) = duration_flag fs ''duration''" "rf_opTimeout (flags_of fs) = duration_flag fs ''op-timeout''"
    "rf_valueMax (flags_of fs) = int_flag fs ''value-max''" "rf_maxOps (flags_of fs) = int_flag fs ''max-ops''"
    "rf_thinkMax (flags_of fs) = duration_flag fs ''think''" "rf_quiesce (flags_of fs) = duration_flag fs ''quiesce''"
    by (simp_all add: flags_of_def)
  have defaults: "rf_clients register_flags = int_flag run_set ''clients''" "rf_keys register_flags = int_flag run_set ''keys''"
    "rf_duration register_flags = duration_flag run_set ''duration''"
    "rf_opTimeout register_flags = duration_flag run_set ''op-timeout''"
    "rf_valueMax register_flags = int_flag run_set ''value-max''" "rf_maxOps register_flags = int_flag run_set ''max-ops''"
    "rf_thinkMax register_flags = duration_flag run_set ''think''" "rf_quiesce register_flags = duration_flag run_set ''quiesce''"
    by (simp_all add: flag_reads run_set_def new_set_def run_values_def)
  show ?thesis unfolding parsed_flags_def typed reads defaults by (intro conjI i d)
qed

section \<open>What \<open>main\<close> prints before any command runs\<close>

definition usage :: string where
  "usage = unlines
     [''splitbrain - find linearizability violations in a networked key-value store'',
      [],
      ''usage:'',
      ''  splitbrain run       [flags]        drive a cluster through faults and check the result'',
      ''  splitbrain check     <history.jsonl> [flags]   check a recorded history (flags may go either side)'',
      ''  splitbrain sweep     [flags]        run many seeds and summarise'',
      ''  splitbrain schedule  [flags]        print a fault timeline without running anything'',
      [],
      ''exit status:'',
      ''  0  the verdict matched -expect'',
      ''  1  it did not'',
      ''  2  no verdict was reached - the search ran out of budget, or the tool failed'',
      [],
      ''an undecided search always exits 2, whatever -expect says. \"unknown\" is the'',
      ''absence of an answer, not one of the answers.'',
      [],
      ''run \"splitbrain <command> -h\" for the flags of one command.'',
      []]"

definition main_complaint :: "string list \<Rightarrow> string option" where
  "main_complaint args =
     (case args of
        _ # cmd # _ \<Rightarrow>
          if cmd \<in> {''run'', ''check'', ''sweep'', ''schedule''} then None
          else if cmd \<in> {''-h'', ''--help'', ''help''} then Some usage
          else Some (''splitbrain: unknown command '' @ quote cmd @ [CHR 0x0A, CHR 0x0A] @ usage)
      | _ \<Rightarrow> Some usage)"

section \<open>A configuration written out is the one that is read\<close>

definition writable :: "runFlags \<Rightarrow> bool" where
  "writable f \<longleftrightarrow> (\<forall>(n, v) \<in> set (run_values f). value_fits v v)"

definition written_flags :: "runFlags \<Rightarrow> string list" where
  "written_flags f = map (\<lambda>(n, v). spelled (n, value_text v)) (run_values f)"

lemma run_values_names: "map fst (run_values f) = map fst (run_values g)"
  by (simp add: run_values_def)

lemma run_values_distinct: "distinct (map fst (run_values f))"
  by (simp add: run_values_def)

lemma run_values_fit:
  assumes "writable f"
  shows "\<forall>(n, v) \<in> set (run_values f). flag_name n \<and> (\<exists>old. fg_formal run_set n = Some old \<and> value_fits old v)"
  using assms unfolding writable_def
  by (simp add: run_values_def flag_name_def run_set_def new_set_def register_flags_def)

text \<open>Reading the flags of a set to which they were all given.\<close>

lemma flags_of_values:
  assumes "fg_formal fs = m ++ map_of (run_values f)"
  shows "flags_of fs = f\<lparr>rf_typed := fg_actual fs\<rparr>"
proof -
  have "fg_formal fs n = (case map_of (run_values f) n of None \<Rightarrow> m n | Some v \<Rightarrow> Some v)" for n
    by (simp add: assms map_add_def)
  then show ?thesis by (simp add: flags_of_def flag_reads run_values_def)
qed

lemma written_flags_read:
  assumes "writable f"
  shows "\<exists>fs. Parse run_set (written_flags f) = Inr (fs, []) \<and> flags_of fs = f\<lparr>rf_typed := fg_actual fs\<rparr> \<and>
    set (fg_actual fs) = set (map fst (run_values register_flags)) \<and>
    fg_formal fs = fg_formal run_set ++ map_of (run_values f)"
proof -
  let ?vs = "run_values f" and ?text = "\<lambda>(n, v). (n, value_text v)"
  let ?fs = "run_set\<lparr>fg_formal := fg_formal run_set ++ map_of ?vs,
    fg_actual := fold List.insert (map fst ?vs) (fg_actual run_set)\<rparr>"
  note fit = run_values_fit [OF assms]
  have all: "set_all run_set (map ?text ?vs) = Inr ?fs"
    by (rule set_all_values [OF run_values_distinct]) (use fit in blast)
  have "written_flags f = map spelled (map ?text ?vs)"
    by (simp add: written_flags_def comp_def split_beta)
  moreover have "\<forall>x \<in> set (map ?text ?vs). flag_name (fst x) \<and> fst x \<in> dom (fg_formal run_set)"
    using fit by fastforce
  ultimately have "Parse run_set (written_flags f) = Inr (?fs, [])"
    using Parse_spelled [of "map ?text ?vs" run_set "[]"] all by simp
  moreover have "flags_of ?fs = f\<lparr>rf_typed := fg_actual ?fs\<rparr>" by (rule flags_of_values) simp
  moreover have "set (fold List.insert xs ys) = set xs \<union> set ys" for xs ys :: "string list"
    by (induction xs arbitrary: ys) auto
  then have "set (fg_actual ?fs) = set (map fst (run_values register_flags))"
    using run_values_names [of f register_flags] by (simp add: run_set_def new_set_def)
  moreover have "fg_formal ?fs = fg_formal run_set ++ map_of ?vs" by simp
  ultimately show ?thesis by blast
qed

section \<open>Flags may go on either side of the file\<close>

definition no_flag :: "string \<Rightarrow> bool" where
  "no_flag a \<longleftrightarrow> length a < 2 \<or> hd a \<noteq> CHR ''-''"

lemma interleave_spelled:
  assumes "\<forall>x \<in> set (xs @ ys). flag_name (fst x) \<and> fst x \<in> dom (fg_formal fs)" "no_flag path"
  shows "parseInterleaved Parse fs (map spelled xs @ path # map spelled ys) =
    Some (case set_all fs (xs @ ys) of Inl e \<Rightarrow> Inl e | Inr fs' \<Rightarrow> Inr (fs', [path]))"
proof (cases "set_all fs xs")
  case (Inl e)
  then show ?thesis
    using Parse_spelled [of xs fs] assms(1) by (simp add: parseInterleaved_def interleave.simps set_all_append)
next
  case (Inr fs1)
  have stop: "Parse fs1 (path # map spelled ys) = Inr (fs1, path # map spelled ys)"
    using assms(2) by (intro Parse_stops) (simp add: no_flag_def)
  have rest: "Parse fs1 (map spelled ys) = (case set_all fs1 ys of Inl e \<Rightarrow> Inl e | Inr fs' \<Rightarrow> Inr (fs', []))"
    using Parse_spelled [of ys fs1 "[]"] assms(1) set_all_dom [OF Inr] by (simp split: sum.split)
  have "Parse fs (map spelled xs @ path # map spelled ys) = Inr (fs1, path # map spelled ys)"
    using Parse_spelled [of xs fs] assms(1) Inr stop by simp
  then show ?thesis
    using rest Inr
    by (cases "set_all fs1 ys") (simp_all add: parseInterleaved_def interleave.simps set_all_append)
qed

text \<open>The exit status of \<open>check\<close> with its flags before and after the file.\<close>

lemma check_command_sides:
  assumes "\<forall>x \<in> set (xs @ ys). fst x \<in> dom (fg_formal check_set)" "no_flag path"
  shows "check_command seed late io (map spelled xs @ path # map spelled ys) =
    (case set_all check_set (xs @ ys) of
       Inl e \<Rightarrow> Some (Ret (flag_status e))
     | Inr fs \<Rightarrow> finish_with (cmdCheck seed late io (check_flags_of fs) [path]))"
proof -
  have "flag_name n" if "n \<in> dom (fg_formal check_set)" for n
    using that by (auto simp: check_set_def new_set_def flag_name_def split: if_splits)
  with assms(1) have "\<forall>x \<in> set (xs @ ys). flag_name (fst x) \<and> fst x \<in> dom (fg_formal check_set)" by blast
  from interleave_spelled [OF this assms(2)] show ?thesis
    by (simp add: check_command_def split: sum.split)
qed

lemma run_command_written:
  assumes "writable f"
  shows "\<exists>typed. set typed = set (map fst (run_values f)) \<and>
    run_command w os (written_flags f) h =
      (case flags_validate (f\<lparr>rf_typed := typed\<rparr>) of
         Some err \<Rightarrow> (Some (Ret (exit_status (Some err))), h)
       | None \<Rightarrow>
           (case cmdRun w (f\<lparr>rf_typed := typed\<rparr>)
               \<lparr>ru_out = [], ru_counterexample = [], ru_report = [], ru_written = writeFile os\<rparr> 1 h of
              (r, h) \<Rightarrow> (finish_with r, h)))"
proof -
  obtain fs where fs: "Parse run_set (written_flags f) = Inr (fs, [])" "flags_of fs = f\<lparr>rf_typed := fg_actual fs\<rparr>"
    "set (fg_actual fs) = set (map fst (run_values register_flags))"
    "fg_formal fs = fg_formal run_set ++ map_of (run_values f)"
    using written_flags_read [OF assms] by blast
  have "fg_formal fs n = fg_formal run_set n" if "n \<notin> set (map fst (run_values f))" for n
    using that by (simp add: fs(4) map_add_def map_of_eq_None_iff [THEN iffD2] split: option.split)
  then have "text_flag fs ''out'' = []" "text_flag fs ''report'' = []" "text_flag fs ''counterexample'' = []"
    "int_flag fs ''seed'' = 1"
    by (simp_all add: flag_reads run_values_def run_set_def new_set_def)
  then have "run_files_of os fs = \<lparr>ru_out = [], ru_counterexample = [], ru_report = [], ru_written = writeFile os\<rparr>"
    "int_flag fs ''seed'' = 1" by (simp_all add: run_files_of_def)
  with fs(1,2) have "run_command w os (written_flags f) h =
      (case flags_validate (f\<lparr>rf_typed := fg_actual fs\<rparr>) of
         Some err \<Rightarrow> (Some (Ret (exit_status (Some err))), h)
       | None \<Rightarrow>
           (case cmdRun w (f\<lparr>rf_typed := fg_actual fs\<rparr>)
               \<lparr>ru_out = [], ru_counterexample = [], ru_report = [], ru_written = writeFile os\<rparr> 1 h of
              (r, h) \<Rightarrow> (finish_with r, h)))"
    by (simp add: run_command_def parse_flags_def split: option.split)
  with fs(3) run_values_names [of f register_flags] show ?thesis by metis
qed

end
