(* ===== verification/Tool_Samples.thy ===== *)
theory Tool_Samples
  imports Samples Report_Correct Demo_Correct Cli_Flags
begin

text \<open>
  Inputs the properties of the tools are applied to: a report on a history that was not linearizable,
  a history file of one line, a cluster whose second node does not start. Nothing here models code.
\<close>

section \<open>A report\<close>

definition sample_result :: Result where
  "sample_result = \<lparr>r_Verdict = NotLinearizable, r_Key = ''k0'', r_Ops = [], r_Culprit = Some (stale_read ! 1),
     r_Reason = Summary [], r_Visits = 3, r_PerKey = Map.empty\<rparr>"

definition sample_input :: Input where
  "sample_input = \<lparr>in_Title = ''sample'', in_Verdict = sample_result, in_Elapsed = 0, in_History = stale_read,
     in_Faults = [event 2 ''c0'' Drop 0, event 3 ''*'' Pass 0], in_ProcessNode = Map.empty, in_MaxOps = 0,
     in_Summary = []\<rparr>"

lemma sample_drawn: "drawn_ops sample_input = stale_read"
  by (simp add: drawn_ops_def shown_ops_def sample_input_def sample_result_def ByKey_eq max_ops_def
      defaultMaxOps_def SortByInvoke_def stable_sort_def invoke_less_def stale_read_def sample_op_def
      Let_def)

lemma sample_window: "window (drawn_ops sample_input) = (1, 4)"
  unfolding sample_drawn
  by (simp add: window_def span_def sample_defs Pending_def max_int64_def)

lemma sample_on_axis: "on_axis (in_History sample_input)" "on_axis (r_Ops (in_Verdict sample_input))"
  by (simp_all add: on_axis_def sample_input_def sample_result_def sample_defs Pending_def max_int64_def)

section \<open>A history file\<close>

definition sample_files :: files where
  "sample_files = \<lparr>fl_lines = (\<lambda>_. Some [''line'']), fl_decode = (\<lambda>_. Some (toWire (stale_read ! 0))), fl_written = True\<rparr>"

definition sample_check :: check_flags where
  "sample_check = \<lparr>kf_model = ''cas-register'', kf_maxVisits = 0, kf_maxCache = 0, kf_timeout = 0,
     kf_expect = ''linearizable'', kf_report = []\<rparr>"

lemma sample_loaded: "loaded sample_files [''h.jsonl''] h \<longleftrightarrow> h = [recorded (stale_read ! 0)]"
proof -
  have "toOp (toWire (stale_read ! 0)) = Inr (recorded (stale_read ! 0))"
    by (rule toOp_toWire) (simp add: known_op_def sample_defs)
  then show ?thesis by (auto simp: loaded_def sample_files_def Load_def maxLine_def)
qed

lemma sample_loaded_ok:
  "loaded sample_files [''h.jsonl''] h \<Longrightarrow> (\<forall>op \<in> set h. int64_op op) \<and> before_pending h"
  by (auto simp: sample_loaded recorded_def sample_defs before_pending_def int64_op_def Pending_def max_int64_def min_int64_def)

section \<open>A cluster\<close>

definition sample_cluster :: Cluster where
  "sample_cluster = \<lparr>ct_target = Forward, ct_nodes = [\<lparr>nd_ID = ''n0'', nd_Addr = ''a'', nd_proc = 0\<rparr>,
     \<lparr>nd_ID = ''n1'', nd_Addr = ''b'', nd_proc = 1\<rparr>], ct_tempBin = []\<rparr>"

definition sample_os :: outcomes where
  "sample_os = \<lparr>os_moduleRoot = Some ''/src'', os_tempDir = Some ''/tmp/bin'', os_goBuild = True, os_stat = (\<lambda>_. True),
     os_launch = (\<lambda>i. if i = 0 then Spawned (FirstLine ''listening 127.0.0.1:9001'' False) [PollAnswered 200] else NoSpawn)\<rparr>"

definition sample_disk :: file_system where
  "sample_disk = \<lparr>os_dir = (\<lambda>_. ''.''), os_mkdirAll = (\<lambda>_. True), os_create = (\<lambda>_. True), os_write = (\<lambda>_. True)\<rparr>"

definition sample_end :: run_end where
  "sample_end = \<lparr>re_books = open_books 3 6, re_landed = [], re_reclaim = True, re_ended = 0, re_healed = 0,
     re_stats = [], re_clock = \<lparr>ck_origin = 0, ck_granularity = 10, ck_source = ''sample''\<rparr>, re_elapsed = 0\<rparr>"

definition sample_world :: world where
  "sample_world = \<lparr>wo_os = sample_os, wo_listens = (\<lambda>_. True), wo_addr = (\<lambda>n. n), wo_post = (\<lambda>_ _. PostFailed),
     wo_pcg = (\<lambda>_ _ k. k), wo_end = (\<lambda>_. sample_end), wo_seed = (\<lambda>_. 0), wo_late = (\<lambda>_. False)\<rparr>"

definition sample_spec :: Spec where
  "sample_spec = \<lparr>sp_Target = Forward, sp_Nodes = 3, sp_BinDir = [], sp_NodeTimeout = 0,
     sp_Harness = harnessConfig register_flags 1, sp_Checker = no_limits, sp_Model = None\<rparr>"

section \<open>A quick client\<close>

definition tick_clock :: Clock where
  "tick_clock = \<lparr>ck_origin = 0, ck_granularity = 10, ck_source = ''sample''\<rparr>"

text \<open>Two writes of one process, the second sent three nanoseconds after the first was answered.\<close>

definition sample_issued :: "int64 \<Rightarrow> int64 \<Rightarrow> issued" where
  "sample_issued i m = \<lparr>is_proc = 0,
     is_req = \<lparr>q_Kind = Write, q_Key = ''k0'', q_Value = 1, q_From = 0, q_To = 0\<rparr>,
     is_inv = i, is_meas = m, is_res = Inr WriteOK\<rparr>"

definition quick_client :: "issued list" where
  "quick_client = [sample_issued 0 5, sample_issued 8 20]"

lemma quick_client_ok:
  "\<forall>x \<in> set quick_client. timed tick_clock x \<and> request_in (run_keys 1) 2 (is_req x)"
  "0 < ck_granularity tick_clock" "in_turn quick_client" "\<not> tick_apart tick_clock quick_client"
proof -
  have k: "run_keys 1 = [''k0'']" by code_simp
  show "\<forall>x \<in> set quick_client. timed tick_clock x \<and> request_in (run_keys 1) 2 (is_req x)"
    "0 < ck_granularity tick_clock" "in_turn quick_client" "\<not> tick_apart tick_clock quick_client"
    unfolding k by (simp_all add: quick_client_def sample_issued_def tick_clock_def timed_def request_in_def in_turn_def
      tick_apart_def max_int64_def)
qed

lemma one_operation:
  assumes "i < length (b_clients b)" and "cl_stage (b_clients b ! i) = Idle" and "Process op = cl_proc (b_clients b ! i)"
    and "Outcome op \<noteq> Info"
  shows "\<exists>b'. (book_step 0)\<^sup>*\<^sup>* b b' \<and> b_ops b' = b_ops b @ [op] \<and> length (b_clients b') = length (b_clients b) \<and>
    cl_stage (b_clients b' ! i) = Idle \<and> cl_proc (b_clients b' ! i) = cl_proc (b_clients b ! i)"
proof -
  let ?c = "b_clients b ! i"
  let ?b1 = "b\<lparr>b_clients := (b_clients b)[i := ?c\<lparr>cl_stage := Passed\<rparr>]\<rparr>"
  let ?b2 = "?b1\<lparr>b_count := b_count ?b1 + 1,
    b_clients := (b_clients ?b1)[i := (b_clients ?b1 ! i)\<lparr>cl_stage := Busy\<rparr>]\<rparr>"
  let ?b3 = "record_op i op ?b2"
  have "book_step 0 b ?b1" by (rule book_step.looks) (use assms in simp_all)
  moreover have "book_step 0 ?b1 ?b2" by (rule book_step.begins) (use assms in simp_all)
  moreover have "book_step 0 ?b2 ?b3" by (rule book_step.records) (use assms in simp_all)
  ultimately have "(book_step 0)\<^sup>*\<^sup>* b ?b3" by (meson converse_rtranclp_into_rtranclp r_into_rtranclp)
  moreover have "b_ops ?b3 = b_ops b @ [op] \<and> length (b_clients ?b3) = length (b_clients b) \<and>
    cl_stage (b_clients ?b3 ! i) = Idle \<and> cl_proc (b_clients ?b3 ! i) = cl_proc (b_clients b ! i)"
    using assms by (simp add: record_op_def Let_def)
  ultimately show ?thesis by blast
qed

lemma quick_client_run: "\<exists>b. run_books 1 1 0 b \<and> b_ops b = map (recorded_op tick_clock) quick_client"
proof -
  let ?op = "\<lambda>i m. recorded_op tick_clock (sample_issued i m)"
  have op: "Process (?op i m) = 0" "Outcome (?op i m) \<noteq> Info" for i m
    by (simp_all add: recorded_op_def sample_issued_def Do_outcome WriteOK_def)
  have z: "b_clients (open_books 1 1) = [new_client 0 (clientLinkName 0)]" "b_ops (open_books 1 1) = []"
    by (simp_all add: open_books_def)
  from one_operation [of 0 "open_books 1 1" "?op 0 5"] op [of 0 5]
  obtain b1 where b1: "(book_step 0)\<^sup>*\<^sup>* (open_books 1 1) b1" "b_ops b1 = [?op 0 5]" "length (b_clients b1) = 1"
    "cl_stage (b_clients b1 ! 0) = Idle" "cl_proc (b_clients b1 ! 0) = 0"
    unfolding z by (auto simp: new_client_def)
  from one_operation [of 0 b1 "?op 8 20"] op [of 8 20] b1
  obtain b2 where b2: "(book_step 0)\<^sup>*\<^sup>* b1 b2" "b_ops b2 = [?op 0 5, ?op 8 20]" by auto
  from b1(1) b2(1) have "run_books 1 1 0 b2" unfolding run_books_def by (meson rtranclp.rtrancl_refl rtranclp_trans)
  with b2(2) show ?thesis by (auto simp: quick_client_def)
qed

section \<open>A demonstration of nothing\<close>

definition sample_demo :: demo_world where
  "sample_demo = \<lparr>dw_os = sample_os, dw_on = (\<lambda>_ _ _. sample_world), dw_cancelled = (\<lambda>_ _ _. False),
     dw_message = (\<lambda>_. []), dw_outDir = True, dw_saved = (\<lambda>_. True)\<rparr>"

definition empty_host :: host where
  "empty_host = \<lparr>h_running = [], h_next = 0, h_dirs = []\<rparr>"

lemma sample_demo_sane: "sane (dw_on sample_demo target faults i)"
  by (simp add: sample_demo_def sample_world_def sample_end_def sane_def open_books_def before_pending_def)

text \<open>With no seeds every sweep is empty.\<close>

lemma no_seeds_sweep:
  "df_seeds f = 0 \<Longrightarrow> demo_sweep w f target node_count binDir faults h = (Some (Ret (Inr (no_result target faults 0))), h)"
  by (simp add: demo_sweep_def)

lemma no_seeds_subjects:
  "df_seeds f = 0 \<Longrightarrow> \<exists>b'. run_subjects w f binDir ss b h = (Some (Ret (Inr b')), h)"
  by (induction ss arbitrary: b) (simp_all add: no_seeds_sweep)

lemma no_seeds_controls:
  "df_seeds f = 0 \<Longrightarrow> \<exists>b'. run_controls w f binDir cs b h = (Some (Ret (Inr b')), h)"
proof (induction cs arbitrary: b)
  case (Cons c cs)
  then show ?case by (cases c) (simp add: no_seeds_sweep)
qed simp

lemma no_seeds_run:
  "\<exists>r h'. demo_run sample_demo (demo_defaults\<lparr>df_seeds := 0\<rparr>) empty_host = (Some (Ret r), h')"
proof -
  let ?f = "demo_defaults\<lparr>df_seeds := 0\<rparr>"
  let ?h = "empty_host\<lparr>h_dirs := ''/tmp/bin'' # h_dirs empty_host\<rparr>"
  have s: "df_seeds ?f = 0" "df_out ?f = []" "df_control ?f" by (simp_all add: demo_defaults_def)
  have built: "buildAll (dw_os sample_demo) empty_host = (Inr ''/tmp/bin'', ?h)"
    by (simp add: buildAll_def sample_demo_def sample_os_def Let_def)
  obtain b where b: "run_subjects sample_demo ?f ''/tmp/bin'' subjects \<lparr>db_failures = [], db_skipped = [], db_summary = []\<rparr> ?h =
      (Some (Ret (Inr b)), ?h)" using no_seeds_subjects [OF s(1)] by blast
  obtain b' where "run_controls sample_demo ?f ''/tmp/bin'' controls b ?h = (Some (Ret (Inr b')), ?h)"
    using no_seeds_controls [OF s(1)] by blast
  with b s(2,3) have "demo_body sample_demo ?f ''/tmp/bin'' ?h = (Some (Ret (assertions sample_demo ?f b')), ?h)"
    by (simp add: demo_body_def)
  with built show ?thesis by (simp add: demo_run_def)
qed

lemma no_seeds_shown: "df_seeds f = 0 \<Longrightarrow> su_expect s = mustBeCaught \<Longrightarrow> \<not> subject_shown w f binDir s"
  by (auto simp: subject_shown_def swept_def)

end
