(* ===== verification/Node_Main.thy ===== *)
theory Node_Main
  imports Kv_Admin Single_Store Cluster
begin

text \<open>
  The node programs (\<open>cmd/kvsingle\<close>, \<open>cmd/kvforward\<close>, \<open>cmd/kvquorum\<close>): the store their flags make, and
  \<open>kv.Run\<close>, which serves it (\<open>internal/kv/server.go\<close>). The listener, the signals and the requests served
  meanwhile are arguments.
\<close>

section \<open>Serving\<close>

datatype serve_error =
    NotBound string
  | NotAnnounced string
  | ServeFailed string
  | CloseFailed string

text \<open>
  What happens to a node outside its own code. \<open>ro_served\<close> is what \<open>Serve\<close> returned, if it did before
  a signal, a cancelled context or the end of standard input stopped the node.
\<close>

record run_outside =
  ro_listen :: "string + string"
  ro_announce :: "string option"
  ro_served :: "string option option"
  ro_shutdown :: "string option"

text \<open>The lines on standard output and on standard error, the error and the store afterwards.\<close>

record 'st run_result =
  rn_stdout :: "string list"
  rn_stderr :: "string list"
  rn_error :: "serve_error option"
  rn_store :: 'st

text \<open>\<open>meanwhile\<close> is what the requests served made of the store.\<close>

definition Server_Run ::
  "(string \<Rightarrow> string option) \<Rightarrow> (string \<Rightarrow> bool option) \<Rightarrow> run_outside \<Rightarrow> ('st \<Rightarrow> string option \<times> 'st) \<Rightarrow>
   ('st \<Rightarrow> 'st) \<Rightarrow> 'st \<Rightarrow> 'st run_result" where
  "Server_Run splitHost loopback x close meanwhile st =
     (case ro_listen x of
        Inl e \<Rightarrow> \<lparr>rn_stdout = [], rn_stderr = [], rn_error = Some (NotBound e), rn_store = st\<rparr>
      | Inr addr \<Rightarrow>
          let warning = exposureWarning splitHost loopback addr;
              errs = (if warning \<noteq> [] then [warning] else [])
          in case ro_announce x of
               Some e \<Rightarrow> \<lparr>rn_stdout = [], rn_stderr = errs, rn_error = Some (NotAnnounced e), rn_store = st\<rparr>
             | None \<Rightarrow>
                 (case Shutdown (ro_shutdown x) close (meanwhile st) of (serr, st') \<Rightarrow>
                    \<lparr>rn_stdout = [announcement_line addr], rn_stderr = errs,
                     rn_error = (case ro_served x of
                         Some (Some e) \<Rightarrow> Some (ServeFailed e)
                       | _ \<Rightarrow> map_option CloseFailed serr),
                     rn_store = st'\<rparr>))"

definition node_status :: "'st run_result option \<Rightarrow> int" where
  "node_status r = (case r of None \<Rightarrow> 1 | Some r \<Rightarrow> if rn_error r = None then 0 else 1)"

section \<open>The programs\<close>

text \<open>Where the flags cannot be honoured, the program ends before it serves.\<close>

definition splitPeers :: "string \<Rightarrow> string list" where
  "splitPeers s = filter (\<lambda>p. p \<noteq> []) (map TrimSpace (Split (CHR '','') s))"

record forward_flags =
  ff_leader :: string
  ff_promote :: bool
  ff_promoteAfter :: int

definition forward_defaults :: forward_flags where
  "forward_defaults = \<lparr>ff_leader = [], ff_promote = False, ff_promoteAfter = 3\<rparr>"

definition forward_store :: "(string \<Rightarrow> url option) \<Rightarrow> forward_flags \<Rightarrow> configure_error + forward" where
  "forward_store parse f =
     (case forward_Configure parse
         \<lparr>cf_Leader = None, cf_Peers = None, cf_Sync = None, cf_Promote = Some (ff_promote f),
           cf_PromoteAfter = Some (ff_promoteAfter f)\<rparr> (NewForwardStore parse (ff_leader f)) of
        (Some e, s) \<Rightarrow> Inl e
      | (None, s) \<Rightarrow> Inr s)"

record quorum_flags =
  qf_id :: string
  qf_peers :: string
  qf_sync :: bool

definition quorum_defaults :: quorum_flags where
  "quorum_defaults = \<lparr>qf_id = ''kvquorum'', qf_peers = [], qf_sync = False\<rparr>"

definition quorum_store :: "(string \<Rightarrow> url option) \<Rightarrow> quorum_flags \<Rightarrow> configure_error + qnode" where
  "quorum_store parse f =
     (case quorum_Configure parse
         \<lparr>cf_Leader = None, cf_Peers = None, cf_Sync = Some (qf_sync f), cf_Promote = None, cf_PromoteAfter = None\<rparr>
         (NewQuorumStore (qf_id f) (splitPeers (qf_peers f))) of
        (Some e, s) \<Rightarrow> Inl e
      | (None, s) \<Rightarrow> Inr s)"

definition node_main :: "(configure_error + 'st) \<Rightarrow> ('st \<Rightarrow> 'st run_result) \<Rightarrow> int" where
  "node_main store run =
     node_status (case store of Inl e \<Rightarrow> None | Inr st \<Rightarrow> Some (run st))"

section \<open>What a node says and leaves\<close>

text \<open>A node writes one line to its standard output at most, and that is its address.\<close>

lemma one_line:
  "rn_stdout (Server_Run splitHost loopback x close meanwhile st) = [] \<or>
   (\<exists>addr. ro_listen x = Inr addr \<and>
     rn_stdout (Server_Run splitHost loopback x close meanwhile st) = [announcement_line addr])"
  by (auto simp: Server_Run_def Let_def split: sum.split option.split prod.split)

text \<open>A node that announced itself closes its store on the way out, whatever else failed.\<close>

lemma announced_closes:
  assumes "rn_stdout (Server_Run splitHost loopback x close meanwhile st) \<noteq> []"
  shows "rn_store (Server_Run splitHost loopback x close meanwhile st) = snd (close (meanwhile st))"
  using assms by (auto simp: Server_Run_def Shutdown_def Let_def split: sum.splits option.splits prod.splits)

lemma clean_exit:
  "node_main (Inr st) (Server_Run splitHost loopback x close meanwhile) = 0 \<longleftrightarrow>
     (\<exists>addr. ro_listen x = Inr addr) \<and> ro_announce x = None \<and>
     (case ro_served x of Some (Some e) \<Rightarrow> False | _ \<Rightarrow> ro_shutdown x = None \<and> fst (close (meanwhile st)) = None)"
  by (auto simp: node_main_def node_status_def Server_Run_def Shutdown_def Let_def
      split: sum.splits option.splits prod.splits)

section \<open>What the flags mean\<close>

lemma Split_Join:
  "ps \<noteq> [] \<Longrightarrow> \<forall>p \<in> set ps. c \<notin> set p \<Longrightarrow> Split c (Join [c] ps) = ps"
proof (induction ps rule: induct_list012)
  case (2 p)
  have "Split c p = [p]" if "c \<notin> set p" for p
    using that by (induction p) auto
  with 2 show ?case by simp
next
  case (3 p q ps)
  have "Split c (p @ c # s) = p # Split c s" if "c \<notin> set p" for p s
    using that by (induction p) auto
  with 3 show ?case by simp
qed simp

text \<open>Addresses written with commas between them are read back, and no address is ever empty.\<close>

lemma splitPeers_round_trip:
  assumes "\<forall>p \<in> set ps. p \<noteq> [] \<and> CHR '','' \<notin> set p \<and> TrimSpace p = p"
  shows "splitPeers (Join '','' ps) = ps"
proof (cases "ps = []")
  case True
  have "TrimSpace [] = []" by (simp add: TrimSpace_Nil)
  with True show ?thesis by (simp add: splitPeers_def)
next
  case False
  with assms have "Split (CHR '','') (Join '','' ps) = ps" by (intro Split_Join) auto
  moreover have "map TrimSpace ps = ps" using assms by (simp add: map_idI)
  ultimately show ?thesis using assms by (simp add: splitPeers_def)
qed

lemma splitPeers_named: "[] \<notin> set (splitPeers s)"
  by (simp add: splitPeers_def)

text \<open>A trailing comma adds no peer.\<close>

lemma splitPeers_trailing:
  assumes "p \<noteq> []" "CHR '','' \<notin> set p" "TrimSpace p = p"
  shows "splitPeers (p @ '','') = [p]" "splitPeers [] = []"
proof -
  have "Split (CHR '','') (p @ '','') = [p, []]" using assms(2) by (induction p) auto
  moreover have "TrimSpace [] = []" by (simp add: TrimSpace_Nil)
  ultimately show "splitPeers (p @ '','') = [p]" "splitPeers [] = []" using assms by (simp_all add: splitPeers_def)
qed

text \<open>
  What a flag sets is what the same setting sent to \<open>/configure\<close> sets; but an address given by flag
  is taken as it is, where \<open>/configure\<close> refuses one that is more than a host.
\<close>

theorem forward_store_eq:
  "forward_store parse f =
     (if ff_promoteAfter f < 1 then Inl BadPromoteAfter
      else Inr ((NewForwardStore parse (ff_leader f))\<lparr>fs_promote := ff_promote f, fs_promoteAfter := ff_promoteAfter f\<rparr>))"
  by (auto simp: forward_store_def forward_Configure_def NewForwardStore_def Let_def)

lemma forward_flags_and_configure:
  assumes "forward_store parse f = Inr s"
  shows "forward_Configure parse \<lparr>cf_Leader = Some (ff_leader f), cf_Peers = None, cf_Sync = None,
      cf_Promote = Some (ff_promote f), cf_PromoteAfter = Some (ff_promoteAfter f)\<rparr> (NewForwardStore parse []) =
    (if ff_leader f = [] then (None, s)
     else case peerBase parse (ff_leader f) of
       Inl e \<Rightarrow> (Some (BadPeer e), NewForwardStore parse [])
     | Inr _ \<Rightarrow> (None, s))"
  using assms
  by (auto simp: forward_store_eq forward_Configure_def NewForwardStore_def Let_def split: if_splits sum.splits)

theorem quorum_store_eq:
  "quorum_store parse f = Inr ((NewQuorumStore (qf_id f) (splitPeers (qf_peers f)))\<lparr>qn_sync := qf_sync f\<rparr>)"
  by (simp add: quorum_store_def quorum_Configure_def Let_def)

lemma quorum_flag_takes_any_peer:
  assumes "first_bad_peer parse (splitPeers (qf_peers f)) = Some e"
  shows "\<exists>s. quorum_store parse f = Inr s" and
    "quorum_Configure parse \<lparr>cf_Leader = None, cf_Peers = Some (splitPeers (qf_peers f)), cf_Sync = Some (qf_sync f),
        cf_Promote = None, cf_PromoteAfter = None\<rparr> (NewQuorumStore (qf_id f) []) =
      (Some (BadPeer e), NewQuorumStore (qf_id f) [])"
  using assms by (simp_all add: quorum_store_eq quorum_Configure_def)

text \<open>The argument a cluster starts \<open>kvsplit\<close> with turns promotion on and \<open>kvsync\<close>'s turns on waiting.\<close>

lemma fixture_arguments:
  "extraArgs SplitTarget = [''-promote''] \<and> extraArgs Sync = [''-sync''] \<and> extraArgs Single = [] \<and>
   extraArgs Forward = [] \<and> extraArgs Quorum = []"
  by (simp add: extraArgs_def target_defs)

end
