(* ===== verification/Go_Duration.thy ===== *)
theory Go_Duration
  imports Go_Flag
begin

text \<open>
  A duration written by \<open>Duration.String\<close> is the one \<open>time.ParseDuration\<close> reads back. The cluster
  writes a timeout so on the command line of the nodes it starts. The floating point of the parser is
  exact here: at most nine digits follow the point, and the power of ten under them divides the unit.
\<close>

section \<open>The digits after a point\<close>

fun last_digits :: "nat \<Rightarrow> nat \<Rightarrow> string" where
  "last_digits 0 v = []"
| "last_digits (Suc j) v = last_digits j (v div 10) @ [digit (v mod 10)]"

lemma length_last_digits [simp]: "length (last_digits j v) = j"
  by (induction j arbitrary: v) simp_all

lemma fmtFrac_True: "fmtFrac k True v acc = (CHR ''.'' # last_digits k v @ acc, v div 10 ^ k)"
  by (induction k arbitrary: v acc) (simp_all add: Let_def div_mult2_eq)

lemma mod_power_Suc: "v mod 10 ^ Suc k = v div 10 mod 10 ^ k * 10 + v mod (10 :: nat)"
  using mod_mult2_eq [of v 10 "10 ^ k"] by simp

text \<open>Trailing zeros are left off, and a fraction that is zero is left off with its point.\<close>

lemma fmtFrac_False:
  "\<exists>j \<le> k. fmtFrac k False v [] =
      (if j = 0 then [] else CHR ''.'' # last_digits j (v div 10 ^ (k - j)), v div 10 ^ k) \<and>
    v mod 10 ^ k = v div 10 ^ (k - j) mod 10 ^ j * 10 ^ (k - j)"
proof (induction k arbitrary: v)
  case (Suc k)
  show ?case
  proof (cases "v mod 10 = 0")
    case True
    from Suc [of "v div 10"] obtain j where j: "j \<le> k"
      "fmtFrac k False (v div 10) [] =
        (if j = 0 then [] else CHR ''.'' # last_digits j (v div 10 div 10 ^ (k - j)), v div 10 div 10 ^ k)"
      "v div 10 mod 10 ^ k = v div 10 div 10 ^ (k - j) mod 10 ^ j * 10 ^ (k - j)" by blast
    have e: "v div 10 div 10 ^ (k - j) = v div 10 ^ (Suc k - j)" "v div 10 div 10 ^ k = v div 10 ^ Suc k"
      using j(1) by (simp_all add: div_mult2_eq [symmetric] Suc_diff_le)
    have "v mod 10 ^ Suc k = v div 10 ^ (Suc k - j) mod 10 ^ j * 10 ^ (Suc k - j)"
      using j(1,3) True unfolding mod_power_Suc e by (simp add: Suc_diff_le)
    with j True e show ?thesis by (intro exI [of _ j]) (simp add: Let_def)
  next
    case False
    have "fmtFrac (Suc k) False v [] = (CHR ''.'' # last_digits (Suc k) v, v div 10 ^ Suc k)"
      using False by (simp add: Let_def fmtFrac_True div_mult2_eq)
    then show ?thesis by (intro exI [of _ "Suc k"]) simp
  qed
qed simp

lemma leadingFraction_digits:
  assumes "j \<le> 9" "r = [] \<or> digit_value (hd r) = None"
  shows "leadingFraction 0 1 False (last_digits j w @ r) = (w mod 10 ^ j, 10 ^ j, r)"
proof -
  have "leadingFraction 0 1 False (last_digits j w @ s) = leadingFraction (w mod 10 ^ j) (10 ^ j) False s"
    if "j \<le> 9" for j w s
    using that
  proof (induction j arbitrary: w s)
    case (Suc j)
    have small: "w div 10 mod 10 ^ j < 10 ^ 9"
    proof -
      have "(10::nat) ^ j \<le> 10 ^ 9" using Suc.prems by (intro power_increasing) simp_all
      then show ?thesis by (meson mod_less_divisor order_less_le_trans zero_less_numeral zero_less_power)
    qed
    have w: "10 * (w div 10 mod 10 ^ j) + w mod 10 = w mod 10 ^ Suc j" unfolding mod_power_Suc by simp
    have "w mod 10 < 10" by simp
    have "leadingFraction 0 1 False (last_digits (Suc j) w @ s) =
        leadingFraction (w div 10 mod 10 ^ j) (10 ^ j) False (digit (w mod 10) # s)"
      using Suc.IH [of "w div 10" "digit (w mod 10) # s"] Suc.prems by simp
    also have "\<dots> = leadingFraction (10 * (w div 10 mod 10 ^ j) + w mod 10) (10 * 10 ^ j) False s"
    proof -
      have "10 * (w div 10 mod 10 ^ j) + w mod 10 \<le> 2 ^ 63" "w div 10 mod 10 ^ j \<le> (2 ^ 63 - 1) div 10"
        using small \<open>w mod 10 < 10\<close> by simp_all
      then show ?thesis by simp
    qed
    finally show ?case unfolding w by simp
  qed simp
  moreover have "leadingFraction x sc False r = (x, sc, r)" for x sc
    using assms(2) by (cases r) simp_all
  ultimately show ?thesis using assms(1) by simp
qed

text \<open>The fraction in its unit is a whole number, and computed as one.\<close>

lemma f64_of_nat: "n < 2 ^ 53 \<Longrightarrow> f64 (of_nat n) = of_nat n"
  using f64_of_int [of "int n"] by simp

lemma in_unit_exact:
  assumes "j \<le> k" "k \<le> 9" "v * 10 ^ k + fr * 10 ^ (k - j) \<le> 2 ^ 63" "fr < 10 ^ j"
  shows "in_unit v fr (10 ^ j) (10 ^ k) = Some (v * 10 ^ k + fr * 10 ^ (k - j))"
proof -
  have k9: "(10::nat) ^ k \<le> 10 ^ 9" using assms(2) by (intro power_increasing) simp_all
  have "fr * 10 ^ (k - j) < 10 ^ j * 10 ^ (k - j)" using assms(4) by simp
  then have frk: "fr * 10 ^ (k - j) < 10 ^ k" using assms(1) by (simp add: power_add [symmetric])
  have "fr < 10 ^ k" using assms(1,4) power_increasing [of j k "10::nat"] by linarith
  then have e1: "f64 (of_nat fr) = of_nat fr" using k9 by (intro f64_of_nat) simp
  have q: "(of_nat (10 ^ k) / of_nat (10 ^ j) :: rat) = of_nat (10 ^ (k - j))"
  proof -
    have "(10::nat) ^ k = 10 ^ (k - j) * 10 ^ j" using assms(1) by (simp add: power_add [symmetric])
    then show ?thesis by (simp only: of_nat_mult) simp
  qed
  have "(10::nat) ^ (k - j) \<le> 10 ^ 9" using assms(2) by (intro power_increasing) simp_all
  then have e2: "f64 (of_nat (10 ^ (k - j))) = of_nat (10 ^ (k - j))" by (intro f64_of_nat) simp
  have e3: "f64 (of_nat (fr * 10 ^ (k - j))) = of_nat (fr * 10 ^ (k - j))" using frk k9 by (intro f64_of_nat) simp
  have "f64 (f64 (of_nat fr) * f64 (of_nat (10 ^ k) / of_nat (10 ^ j))) = of_nat (fr * 10 ^ (k - j))"
    unfolding q e1 e2 using e3 by simp
  moreover have "v * 10 ^ k \<le> 2 ^ 63" using assms(3) by simp
  then have "v \<le> 2 ^ 63 div 10 ^ k" by (simp add: less_eq_div_iff_mult_less_eq)
  ultimately show ?thesis using assms(3) by (simp add: in_unit_def Let_def del: of_nat_mult of_nat_power)
qed

section \<open>A number with its unit\<close>

text \<open>The units \<open>Duration.String\<close> writes, as the parser takes them off.\<close>

definition is_unit :: "string \<Rightarrow> bool" where
  "is_unit u \<longleftrightarrow> u \<noteq> [] \<and> (\<forall>c \<in> set u. is_unit_char c)"

lemma is_unit_ends:
  assumes "is_unit u" "r = [] \<or> \<not> is_unit_char (hd r)"
  shows "takeWhile is_unit_char (u @ r) = u" "dropWhile is_unit_char (u @ r) = r"
    "digit_value (hd (u @ r)) = None" "hd (u @ r) \<noteq> CHR ''.''"
proof -
  show "takeWhile is_unit_char (u @ r) = u"
    using assms by (cases r) (simp_all add: is_unit_def)
  show "dropWhile is_unit_char (u @ r) = r"
    using assms by (cases r) (simp_all add: is_unit_def)
  have "is_unit_char (hd (u @ r))" using assms(1) by (simp add: is_unit_def)
  then show "digit_value (hd (u @ r)) = None" "hd (u @ r) \<noteq> CHR ''.''" by (simp_all add: is_unit_char_def)
qed

lemma show_nat_front:
  assumes "n \<le> 2 ^ 63" "s = [] \<or> digit_value (hd s) = None"
  shows "leadingInt 0 (show_nat n @ s) = Some (n, s)" "\<not> is_unit_char (hd (show_nat n @ s))" "show_nat n @ s \<noteq> ''0'' \<or> s = []"
proof -
  show "leadingInt 0 (show_nat n @ s) = Some (n, s)" by (rule leadingInt_digits [OF digits_value_show_nat assms])
  have "digit_value (hd (show_nat n)) \<noteq> None" using show_nat_digits [OF hd_in_set [OF show_nat_neq_Nil]] .
  then show "\<not> is_unit_char (hd (show_nat n @ s))" by (simp add: is_unit_char_def)
  show "show_nat n @ s \<noteq> ''0'' \<or> s = []" by (cases "show_nat n") auto
qed

text \<open>A whole number of a unit.\<close>

lemma whole_part:
  assumes "is_unit u" "unit_of u = Some unit" "r = [] \<or> \<not> is_unit_char (hd r)" "n * unit \<le> 2 ^ 63" "0 < unit"
  shows "duration_part (show_nat n @ u @ r) = Some (n * unit, r)"
proof -
  note e = is_unit_ends [OF assms(1,3)]
  have "n \<le> n * unit" using assms(5) by simp
  then have n: "n \<le> 2 ^ 63" using assms(4) by linarith
  note f = show_nat_front [OF n, of "u @ r"]
  have "point_fraction (u @ r) = (0, 1, False, u @ r)"
    using e(4) assms(1) by (cases "u @ r") (simp_all add: point_fraction_def is_unit_def)
  moreover have "n \<le> 2 ^ 63 div unit" using assms(4,5) by (simp add: less_eq_div_iff_mult_less_eq)
  moreover have "u \<noteq> []" using assms(1) by (simp add: is_unit_def)
  ultimately show ?thesis
    using f e assms(2,4) by (simp add: duration_part_def Let_def in_unit_def)
qed

text \<open>A number printed with its fraction.\<close>

lemma fraction_part:
  assumes "is_unit u" "unit_of u = Some (10 ^ k)" "r = [] \<or> \<not> is_unit_char (hd r)" "k \<le> 9"
    and "fmtFrac k False w [] = (f, v)" "q * 10 ^ k + w mod 10 ^ k \<le> 2 ^ 63"
  shows "duration_part (show_nat q @ f @ u @ r) = Some (q * 10 ^ k + w mod 10 ^ k, r)"
proof -
  obtain j where j: "j \<le> k" "f = (if j = 0 then [] else CHR ''.'' # last_digits j (w div 10 ^ (k - j)))"
    "w mod 10 ^ k = w div 10 ^ (k - j) mod 10 ^ j * 10 ^ (k - j)"
    using fmtFrac_False [of k w] assms(5) by auto
  note e = is_unit_ends [OF assms(1,3)]
  show ?thesis
  proof (cases "j = 0")
    case True
    with j have "f = []" "w mod 10 ^ k = 0" by simp_all
    with whole_part [OF assms(1,2,3), of q] assms(6) show ?thesis by simp
  next
    case False
    let ?fr = "w div 10 ^ (k - j) mod 10 ^ j"
    have f: "f = CHR ''.'' # last_digits j (w div 10 ^ (k - j))" using j(2) False by simp
    have "(10::nat) ^ k \<noteq> 0" by simp
    then have "q \<le> q * 10 ^ k" by simp
    then have n: "q \<le> 2 ^ 63" using assms(6) by linarith
    have dot: "digit_value (CHR ''.'') = None" by (simp add: digit_value_def)
    note fr = show_nat_front [OF n, of "f @ u @ r"]
    have "point_fraction (f @ u @ r) = (?fr, 10 ^ j, True, u @ r)"
      using leadingFraction_digits [of j "u @ r" "w div 10 ^ (k - j)"] j(1) assms(4) e(3) False
      by (simp add: f point_fraction_def)
    moreover have "in_unit q ?fr (10 ^ j) (10 ^ k) = Some (q * 10 ^ k + w mod 10 ^ k)"
      unfolding j(3) by (rule in_unit_exact [OF j(1) assms(4)]) (use assms(6) j(3) in simp_all)
    moreover have "u \<noteq> []" using assms(1) by (simp add: is_unit_def)
    ultimately show ?thesis
      using fr e assms(2) f dot by (simp add: duration_part_def Let_def)
  qed
qed

lemma duration_sum_step:
  assumes "duration_part s = Some (v, r)" "acc + v \<le> 2 ^ 63"
  shows "duration_sum acc s = duration_sum (acc + v) r"
proof -
  have "s \<noteq> []" using assms(1) by (auto simp: duration_part_def)
  moreover have "(acc + v) mod 2 ^ 64 = acc + v" using assms(2) by simp
  ultimately show ?thesis using assms by (subst duration_sum.simps) (simp add: Let_def)
qed

lemma duration_sum_end [simp]: "duration_sum acc [] = Some acc"
  by (simp add: duration_sum.simps)

section \<open>The round trip\<close>

lemma units:
  "is_unit ''ns''" "is_unit (micro_sign @ ''s'')" "is_unit ''ms''" "is_unit ''s''" "is_unit ''m''" "is_unit ''h''"
proof -
  have dot: "c \<noteq> CHR ''.''" if "(of_char c :: nat) \<noteq> 46" for c using that by auto
  have "(of_char (char_of (194::nat)) :: nat) \<noteq> 46" "(of_char (char_of (181::nat)) :: nat) \<noteq> 46" by simp_all
  then have "char_of (194::nat) \<noteq> CHR ''.''" "char_of (181::nat) \<noteq> CHR ''.''" using dot by blast+
  then show "is_unit ''ns''" "is_unit (micro_sign @ ''s'')" "is_unit ''ms''" "is_unit ''s''" "is_unit ''m''" "is_unit ''h''"
    by (simp_all add: is_unit_def is_unit_char_def digit_value_def micro_sign_def Let_def)
qed

lemma unit_values:
  "unit_of ''ns'' = Some 1" "unit_of (micro_sign @ ''s'') = Some (10 ^ 3)" "unit_of ''ms'' = Some (10 ^ 6)"
  "unit_of ''s'' = Some (10 ^ 9)" "unit_of ''m'' = Some 60000000000" "unit_of ''h'' = Some 3600000000000"
  by (simp_all add: unit_of_def micro_sign_def greek_mu_sign_def)

lemma fmtFrac_rest: "fmtFrac k False u [] = (f, v) \<Longrightarrow> v = u div 10 ^ k"
  using fmtFrac_False [of k u] by auto

lemma seconds_sum:
  assumes f: "fmtFrac 9 False u [] = (f, v)" and u: "u \<le> 2 ^ 63"
  shows "duration_sum 0 (if v div 60 = 0 then show_nat (v mod 60) @ f @ ''s''
    else (if v div 60 div 60 = 0 then [] else show_nat (v div 60 div 60) @ ''h'') @
      show_nat (v div 60 mod 60) @ ''m'' @ show_nat (v mod 60) @ f @ ''s'') = Some u"
proof -
  define h m t e where "h = v div 60 div 60" and "m = v div 60 mod 60" and "t = v mod 60" and "e = u mod 10 ^ 9"
  have v: "v = u div 10 ^ 9" by (rule fmtFrac_rest [OF f])
  have "u = v * 10 ^ 9 + e" unfolding v e_def by simp
  moreover have "v = (h * 60 + m) * 60 + t" by (simp add: h_def m_def t_def)
  ultimately have sum: "u = h * 3600000000000 + m * 60000000000 + (t * 10 ^ 9 + e)" by simp
  have head: "\<not> is_unit_char (hd (show_nat n @ s))" for n s
    using show_nat_front(2) [of 0 s] show_nat_digits [OF hd_in_set [OF show_nat_neq_Nil [of n]]]
    by (simp add: is_unit_char_def)
  have "t * 10 ^ 9 + e \<le> 2 ^ 63" using sum u by linarith
  then have sec: "duration_part (show_nat t @ f @ ''s'') = Some (t * 10 ^ 9 + e, [])"
    using fraction_part [OF units(4) unit_values(4) _ _ f, of "[]" t] unfolding e_def by simp
  have min: "duration_part (show_nat m @ ''m'' @ show_nat t @ f @ ''s'') = Some (m * 60000000000, show_nat t @ f @ ''s'')"
    by (rule whole_part [OF units(5) unit_values(5)]) (use head sum u in simp_all)
  let ?ms = "show_nat m @ ''m'' @ show_nat t @ f @ ''s''"
  have hour: "duration_part (show_nat h @ ''h'' @ ?ms) = Some (h * 3600000000000, ?ms)"
    by (rule whole_part [OF units(6) unit_values(6)]) (use head sum u in simp_all)
  have s1: "duration_sum a (show_nat t @ f @ ''s'') = Some (a + (t * 10 ^ 9 + e))" if "a + (t * 10 ^ 9 + e) \<le> 2 ^ 63" for a
    using duration_sum_step [OF sec that] by simp
  have s2: "duration_sum a ?ms = Some (a + m * 60000000000 + (t * 10 ^ 9 + e))"
    if "a + m * 60000000000 + (t * 10 ^ 9 + e) \<le> 2 ^ 63" for a
    using duration_sum_step [OF min, of a] s1 [of "a + m * 60000000000"] that by simp
  have s3: "duration_sum 0 (show_nat h @ ''h'' @ ?ms) = Some u"
    using duration_sum_step [OF hour, of 0] s2 [of "h * 3600000000000"] sum u by simp
  show ?thesis
  proof (cases "v div 60 = 0")
    case True
    then have "h = 0" "m = 0" by (simp_all add: h_def m_def)
    then show ?thesis using True s1 [of 0] sum u by (simp add: t_def)
  next
    case False
    show ?thesis
      unfolding h_def [symmetric] m_def [symmetric] t_def [symmetric]
      using False s3 s2 [of 0] sum u by (cases "h = 0") simp_all
  qed
qed

lemma unsigned_String_sum:
  assumes "u \<le> 2 ^ 63"
  shows "duration_sum 0 (unsigned_String u) = Some u"
proof -
  have part: "duration_sum 0 (show_nat v @ f @ unit) = Some u"
    if "is_unit unit" "unit_of unit = Some (10 ^ k)" "k \<le> 9" "fmtFrac k False u [] = (f, v)" for unit k f v
  proof -
    have "v * 10 ^ k + u mod 10 ^ k = u" unfolding fmtFrac_rest [OF that(4)] by (rule div_mult_mod_eq)
    moreover from this have "duration_part (show_nat v @ f @ unit @ []) = Some (v * 10 ^ k + u mod 10 ^ k, [])"
      by (intro fraction_part [OF that(1,2) _ that(3,4)]) (use assms in simp_all)
    ultimately show ?thesis using duration_sum_step [of "show_nat v @ f @ unit" u "[]" 0] assms by simp
  qed
  have ns: "duration_sum 0 (show_nat u @ ''ns'') = Some u"
    using whole_part [OF units(1) unit_values(1), of "[]" u] duration_sum_step [of "show_nat u @ ''ns''" u "[]" 0] assms
    by simp
  have "char_of (48::nat) = CHR ''0''" by code_simp
  then have zero: "duration_sum 0 ''0s'' = Some 0"
    using whole_part [OF units(4) unit_values(4), of "[]" 0] duration_sum_step [of "''0s''" 0 "[]" 0]
    by (simp add: show_nat.simps [of 0] digit_def)
  obtain f3 v3 f6 v6 f9 v9 where f: "fmtFrac 3 False u [] = (f3, v3)" "fmtFrac 6 False u [] = (f6, v6)"
    "fmtFrac 9 False u [] = (f9, v9)" by fastforce
  have us: "duration_sum 0 (show_nat v3 @ f3 @ micro_sign @ ''s'') = Some u"
    by (rule part [OF units(2) unit_values(2) _ f(1)]) simp
  have ms: "duration_sum 0 (show_nat v6 @ f6 @ ''ms'') = Some u"
    by (rule part [OF units(3) unit_values(3) _ f(2)]) simp
  have secs: "duration_sum 0 (let seconds = show_nat (v9 mod 60) @ f9 @ ''s''; minutes = v9 div 60
      in if minutes = 0 then seconds
         else let hours = minutes div 60
           in (if hours = 0 then [] else show_nat hours @ ''h'') @ show_nat (minutes mod 60) @ ''m'' @ seconds) = Some u"
    using seconds_sum [OF f(3) assms] by (simp only: Let_def)
  show ?thesis unfolding unsigned_String_def f prod.case
    by (cases "u = 0"; cases "u < 1000"; cases "u < 1000000"; cases "u < 1000000000")
      (simp_all only: refl if_True if_False zero ns us ms secs)
qed

lemma unsigned_String_front:
  obtains c s where "unsigned_String u = c # s" "digit_value c \<noteq> None" "s \<noteq> []"
proof -
  define P :: "string \<Rightarrow> bool" where "P t \<longleftrightarrow> (\<exists>c s. t = c # s \<and> digit_value c \<noteq> None \<and> s \<noteq> [])" for t
  have front: "P (show_nat n @ t)" if "t \<noteq> []" for n t
  proof -
    obtain c cs where c: "show_nat n = c # cs" by (cases "show_nat n") auto
    then have "digit_value c \<noteq> None" using show_nat_digits [of c n] by simp
    with c that show ?thesis by (simp add: P_def)
  qed
  have zero: "P ''0s''" by (simp add: P_def digit_value_def)
  have "P (unsigned_String u)"
    unfolding unsigned_String_def Let_def by (simp split: prod.split add: front zero)
  then show thesis using that by (auto simp: P_def)
qed

theorem ParseDuration_String:
  assumes "min_int64 \<le> d" "d \<le> max_int64"
  shows "ParseDuration (Duration_String d) = Some d"
proof -
  let ?u = "nat \<bar>d\<bar>"
  have u: "?u \<le> 2 ^ 63" using assms by (simp add: min_int64_def max_int64_def nat_le_iff)
  obtain c s where front: "unsigned_String ?u = c # s" "digit_value c \<noteq> None" "s \<noteq> []"
    by (rule unsigned_String_front)
  then have "c \<noteq> CHR ''-''" "c \<noteq> CHR ''+''" by (auto simp: digit_value_def)
  then have sign: "split_sign (Duration_String d) = (d < 0, unsigned_String ?u)"
    using front by (cases "d < 0") (simp_all add: split_sign_def Duration_String_def)
  show ?thesis
    using unsigned_String_sum [OF u] front assms sign
    by (simp add: ParseDuration_def max_int64_def min_int64_def)
qed

end
