(* ===== verification/Node_Flags.thy ===== *)
theory Node_Flags
  imports Node_Main Cli_Flags Go_Duration Demo
begin

text \<open>
  The command lines of the node programs and of the demonstration: \<open>main\<close> of \<open>cmd/kvsingle\<close>,
  \<open>cmd/kvforward\<close>, \<open>cmd/kvquorum\<close> and \<open>tools/demo\<close>, from the words they are given. What
  \<open>cluster.startNode\<close> writes there starts the store its target names.
\<close>

section \<open>The node programs\<close>

text \<open>What a node serves, and where. \<open>kvsingle\<close> takes a timeout and does not use it.\<close>

record 'st started =
  st_addr :: string
  st_id :: string
  st_timeout :: duration
  st_store :: 'st

definition single_set :: FlagSet where
  "single_set = new_set
     [(''addr'', StringFlag ''127.0.0.1:0''), (''id'', StringFlag ''kvsingle''), (''timeout'', DurationFlag 0)]"

definition forward_set :: FlagSet where
  "forward_set = new_set
     [(''addr'', StringFlag ''127.0.0.1:0''), (''id'', StringFlag ''kvforward''), (''leader'', StringFlag []),
      (''timeout'', DurationFlag (ms 250)), (''promote'', BoolFlag False), (''promote-after'', IntFlag 3)]"

definition quorum_set :: FlagSet where
  "quorum_set = new_set
     [(''addr'', StringFlag ''127.0.0.1:0''), (''id'', StringFlag ''kvquorum''), (''peers'', StringFlag []),
      (''timeout'', DurationFlag (ms 250)), (''sync'', BoolFlag False)]"

definition started_with :: "FlagSet \<Rightarrow> 'st \<Rightarrow> 'st started" where
  "started_with fs st =
     \<lparr>st_addr = text_flag fs ''addr'', st_id = text_flag fs ''id'', st_timeout = duration_flag fs ''timeout'', st_store = st\<rparr>"

text \<open>What is started, or the status a program ends with before it serves.\<close>

definition kvsingle_start :: "string list \<Rightarrow> int + data started" where
  "kvsingle_start args =
     (case Parse single_set args of
        Inl e \<Rightarrow> Inl (flag_status e)
      | Inr (fs, _) \<Rightarrow> Inr (started_with fs Map.empty))"

definition forward_flags_of :: "FlagSet \<Rightarrow> forward_flags" where
  "forward_flags_of fs =
     \<lparr>ff_leader = text_flag fs ''leader'', ff_promote = bool_flag fs ''promote'',
       ff_promoteAfter = int_flag fs ''promote-after''\<rparr>"

definition kvforward_start :: "(string \<Rightarrow> url option) \<Rightarrow> string list \<Rightarrow> int + forward started" where
  "kvforward_start parse args =
     (case Parse forward_set args of
        Inl e \<Rightarrow> Inl (flag_status e)
      | Inr (fs, _) \<Rightarrow>
          (case forward_store parse (forward_flags_of fs) of
             Inl e \<Rightarrow> Inl 1
           | Inr st \<Rightarrow> Inr (started_with fs st)))"

definition quorum_flags_of :: "FlagSet \<Rightarrow> quorum_flags" where
  "quorum_flags_of fs =
     \<lparr>qf_id = text_flag fs ''id'', qf_peers = text_flag fs ''peers'', qf_sync = bool_flag fs ''sync''\<rparr>"

definition kvquorum_start :: "(string \<Rightarrow> url option) \<Rightarrow> string list \<Rightarrow> int + qnode started" where
  "kvquorum_start parse args =
     (case Parse quorum_set args of
        Inl e \<Rightarrow> Inl (flag_status e)
      | Inr (fs, _) \<Rightarrow>
          (case quorum_store parse (quorum_flags_of fs) of
             Inl e \<Rightarrow> Inl 1
           | Inr st \<Rightarrow> Inr (started_with fs st)))"

text \<open>\<open>main\<close>, given what serving came to.\<close>

definition node_program :: "(int + 'st started) \<Rightarrow> ('st started \<Rightarrow> 'st run_result) \<Rightarrow> int" where
  "node_program start run = (case start of Inl status \<Rightarrow> status | Inr st \<Rightarrow> node_status (Some (run st)))"

section \<open>The demonstration\<close>

definition demo_set :: FlagSet where
  "demo_set = new_set
     [(''seeds'', IntFlag 5), (''duration'', DurationFlag (ms 6000)), (''clients'', IntFlag 6), (''keys'', IntFlag 4),
      (''max-ops'', IntFlag 2500), (''out'', StringFlag []), (''control'', BoolFlag True),
      (''allow-policy-skips'', BoolFlag False)]"

definition demo_flags_of :: "FlagSet \<Rightarrow> demo_flags" where
  "demo_flags_of fs =
     \<lparr>df_seeds = int_flag fs ''seeds'', df_duration = duration_flag fs ''duration'', df_clients = int_flag fs ''clients'',
       df_keys = int_flag fs ''keys'', df_maxOps = int_flag fs ''max-ops'', df_out = text_flag fs ''out'',
       df_control = bool_flag fs ''control'', df_allowSkips = bool_flag fs ''allow-policy-skips''\<rparr>"

definition demo_main :: "demo_world \<Rightarrow> string list \<Rightarrow> host \<Rightarrow> int run \<times> host" where
  "demo_main w args h =
     (case Parse demo_set args of
        Inl e \<Rightarrow> (Some (Ret (flag_status e)), h)
      | Inr (fs, _) \<Rightarrow>
          (case demo_run w (demo_flags_of fs) h of (r, h) \<Rightarrow> (and_then r (\<lambda>e. Some (Ret (demo_status e))), h)))"

lemma demo_defaults_flags: "demo_flags_of demo_set = demo_defaults"
  by (simp add: demo_flags_of_def demo_set_def new_set_def demo_defaults_def flag_reads)

text \<open>A node program and the demonstration, given no arguments, take their defaults.\<close>

lemma defaults_start:
  "kvsingle_start [] = Inr \<lparr>st_addr = ''127.0.0.1:0'', st_id = ''kvsingle'', st_timeout = 0, st_store = Map.empty\<rparr>"
  "demo_main w [] h = (case demo_run w demo_defaults h of (r, h) \<Rightarrow> (and_then r (\<lambda>e. Some (Ret (demo_status e))), h))"
proof -
  have none: "Parse fs [] = Inr (fs, [])" for fs by (simp add: Parse.simps parseOne_def)
  show "kvsingle_start [] = Inr \<lparr>st_addr = ''127.0.0.1:0'', st_id = ''kvsingle'', st_timeout = 0, st_store = Map.empty\<rparr>"
    by (simp add: kvsingle_start_def none started_with_def flag_reads single_set_def new_set_def)
  show "demo_main w [] h = (case demo_run w demo_defaults h of (r, h) \<Rightarrow> (and_then r (\<lambda>e. Some (Ret (demo_status e))), h))"
    by (simp add: demo_main_def none demo_defaults_flags)
qed

section \<open>What a cluster writes on a node's command line\<close>

text \<open>A flag and its value as two words, and a flag on its own.\<close>

lemma flag_text_alone: "flag_name n \<Longrightarrow> flag_text (CHR ''-'' # n) = Inr (n, None)"
proof -
  assume n: "flag_name n"
  have "Cut c m = None" if "c \<notin> set m" for c m
    using that by (induction m) auto
  with n show ?thesis by (cases n) (auto simp: flag_name_def flag_text_def Let_def)
qed

lemma Parse_two_words:
  assumes "flag_name n" "fg_formal fs n = Some old" "\<not> is_bool_flag old" "set_value old t = Some v"
  shows "Parse fs ((CHR ''-'' # n) # t # args) =
    Parse (fs\<lparr>fg_formal := (fg_formal fs)(n \<mapsto> v), fg_actual := List.insert n (fg_actual fs)\<rparr>) args"
  using assms flag_text_alone [OF assms(1)]
  by (subst Parse.simps) (cases n, auto simp: parseOne_def set_flag_def flag_name_def)

lemma Parse_one_word:
  assumes "flag_name n" "fg_formal fs n = Some (BoolFlag b)"
  shows "Parse fs [CHR ''-'' # n] =
    Inr (fs\<lparr>fg_formal := (fg_formal fs)(n \<mapsto> BoolFlag True), fg_actual := List.insert n (fg_actual fs)\<rparr>, [])"
  using assms flag_text_alone [OF assms(1)]
  by (subst Parse.simps)
    (cases n, auto simp: parseOne_def set_flag_def flag_name_def is_bool_flag_def set_value_def ParseBool_def)

text \<open>The three settings every node program takes.\<close>

definition told :: "string \<Rightarrow> duration \<Rightarrow> FlagSet \<Rightarrow> FlagSet" where
  "told nid d fs = fs\<lparr>
     fg_formal := (fg_formal fs)(''addr'' \<mapsto> StringFlag ''127.0.0.1:0'', ''id'' \<mapsto> StringFlag nid, ''timeout'' \<mapsto> DurationFlag d),
     fg_actual := List.insert ''timeout'' (List.insert ''id'' (List.insert ''addr'' (fg_actual fs)))\<rparr>"

lemma Parse_node_args:
  assumes "min_int64 \<le> co_Timeout opt" "co_Timeout opt \<le> max_int64"
    "fg_formal fs ''addr'' = Some (StringFlag a)" "fg_formal fs ''id'' = Some (StringFlag i)"
    "fg_formal fs ''timeout'' = Some (DurationFlag d)"
  shows "Parse fs (node_args nid opt) = Parse (told nid (co_Timeout opt) fs) (extraArgs (co_Target opt))"
  using assms
  by (simp add: node_args_def told_def Parse_two_words flag_name_def is_bool_flag_def set_value_def
      ParseDuration_String)

lemma node_args_flags:
  assumes "min_int64 \<le> co_Timeout opt" "co_Timeout opt \<le> max_int64" "fs \<in> {single_set, forward_set, quorum_set}"
  shows "Parse fs (node_args nid opt) = Parse (told nid (co_Timeout opt) fs) (extraArgs (co_Target opt))"
  using assms(3) by (elim insertE emptyE)
    (rule Parse_node_args [OF assms(1,2)], simp_all add: single_set_def forward_set_def quorum_set_def new_set_def)+

lemma kvsingle_obeys:
  assumes "min_int64 \<le> co_Timeout opt" "co_Timeout opt \<le> max_int64" "binary (co_Target opt) = Single"
  shows "kvsingle_start (node_args nid opt) =
    Inr \<lparr>st_addr = ''127.0.0.1:0'', st_id = nid, st_timeout = co_Timeout opt, st_store = Map.empty\<rparr>"
proof -
  have "co_Target opt = Single" using assms(3) by (auto simp: binary_def target_defs split: if_splits)
  then show ?thesis
    by (simp add: kvsingle_start_def node_args_flags [OF assms(1,2)] fixture_arguments told_def started_with_def flag_reads)
qed

lemma kvforward_obeys:
  assumes "min_int64 \<le> co_Timeout opt" "co_Timeout opt \<le> max_int64" "binary (co_Target opt) = Forward"
  shows "kvforward_start parse (node_args nid opt) =
    Inr \<lparr>st_addr = ''127.0.0.1:0'', st_id = nid, st_timeout = co_Timeout opt,
      st_store = (NewForwardStore parse [])\<lparr>fs_promote := (co_Target opt = SplitTarget)\<rparr>\<rparr>"
proof -
  have "co_Target opt = Forward \<or> co_Target opt = SplitTarget"
    using assms(3) by (auto simp: binary_def target_defs split: if_splits)
  moreover have "Forward \<noteq> SplitTarget" by (simp add: target_defs)
  moreover have "fg_formal (told nid d forward_set) ''promote'' = Some (BoolFlag False)" for d
    by (simp add: told_def forward_set_def new_set_def)
  ultimately show ?thesis
    unfolding kvforward_start_def node_args_flags [OF assms(1,2), of forward_set, simplified]
    by (auto simp: fixture_arguments Parse_one_word flag_name_def
        told_def started_with_def forward_flags_of_def forward_store_eq flag_reads forward_set_def new_set_def
        NewForwardStore_def defaultPromoteAfter_def)
qed

lemma kvquorum_obeys:
  assumes "min_int64 \<le> co_Timeout opt" "co_Timeout opt \<le> max_int64" "binary (co_Target opt) = Quorum"
  shows "kvquorum_start parse (node_args nid opt) =
    Inr \<lparr>st_addr = ''127.0.0.1:0'', st_id = nid, st_timeout = co_Timeout opt,
      st_store = (NewQuorumStore nid [])\<lparr>qn_sync := (co_Target opt = Sync)\<rparr>\<rparr>"
proof -
  have "co_Target opt = Quorum \<or> co_Target opt = Sync"
    using assms(3) by (auto simp: binary_def target_defs split: if_splits)
  moreover have "Quorum \<noteq> Sync" by (simp add: target_defs)
  moreover have "fg_formal (told nid d quorum_set) ''sync'' = Some (BoolFlag False)" for d
    by (simp add: told_def quorum_set_def new_set_def)
  moreover have "splitPeers [] = []" by (simp add: splitPeers_def TrimSpace_def TrimRight_by_def)
  ultimately show ?thesis
    unfolding kvquorum_start_def node_args_flags [OF assms(1,2), of quorum_set, simplified]
    by (auto simp: fixture_arguments Parse_one_word flag_name_def
        told_def started_with_def quorum_flags_of_def quorum_store_eq flag_reads quorum_set_def new_set_def)
qed

end
