(* ===== verification/Spec2Isabelle.thy ===== *)
theory Spec2Isabelle
  imports Run_Samples Gossip_Samples Brute Clock Wire Kv_Admin Tool_Samples Node_Flags
begin

text \<open>
  Splitbrain drives a replicated key-value store through network faults, records what its clients
  saw, and decides whether that history is linearizable. This development models its Go packages
  and programs under \<open>src\<close> and proves what makes them correct. Each theory names the files it models
  and follows their order; names are the source's, with a prefix where two packages share one.

  The checker.
  \<open>History\<close> and \<open>Validate\<close> are \<open>history/history.go\<close>: operations with 64-bit times, the structural
  check, sorting, splitting by key. \<open>Wire\<close> is its file format. \<open>Seq_Model\<close> is \<open>model/model.go\<close>.
  \<open>Linearizability\<close> is the specification everything else is measured against and models no code.
  \<open>Bitset\<close>, \<open>Config_Cache\<close> and \<open>Entry_List\<close> are the data structures of \<open>checker/checker.go\<close> and
  \<open>checker/bitset.go\<close>: the placed-set on machine words, the hash table of explored configurations,
  the doubly linked list of calls and returns as a heap. \<open>Search\<close> is the Wing-Gong loop
  (\<open>searchFull\<close>) with its budgets, a \<open>partial_function\<close>; \<open>Search_Correct\<close> carries its invariant, its
  termination order and the proof that it never panics. \<open>Key_Search\<close> is \<open>searchKey\<close> and the fast
  path \<open>indeterminateLast\<close>; \<open>Minimise\<close> the search for the earliest failing cut; \<open>Locality\<close> the
  argument that keys can be checked apart; \<open>Pool\<close> the worker pool as a step relation; \<open>Checker\<close> and
  \<open>Check_Correct\<close> the entry points \<open>Check\<close> and \<open>CheckKey\<close>; \<open>Brute\<close> is \<open>checker/brute.go\<close>.

  The stores and their clients.
  \<open>Clock\<close> is \<open>clock/clock.go\<close> with the counter of \<open>clock/raw_windows.go\<close>. \<open>Kv_Protocol\<close> is \<open>kv/kv.go\<close> and the handler of \<open>kv/server.go\<close>,
  \<open>Kv_Client\<close> is \<open>kv/client.go\<close> and \<open>kv/refused.go\<close>. \<open>Single_Store\<close>, \<open>Forward_Store\<close> and
  \<open>Quorum_Store\<close> are \<open>kv/single.go\<close>, \<open>kv/forward.go\<close> and \<open>kv/quorum.go\<close>; each critical section is a
  step. \<open>Store_Run\<close> composes clients, network and a store into runs, and shows for every store that
  keeps the interface \<open>register_store\<close> that what its clients record is linearizable. \<open>Forward_Run\<close>
  composes a leader, its followers and both networks a request crosses, and proves that while no node
  promotes itself each step is a step of the single store or none (\<open>looks_like\<close>);
  \<open>Forward_Samples\<close> plays small runs of it, a split brain among them.
  \<open>Gossip_Run\<close> composes gossiping nodes, their workers and the posts between them, and proves that
  nodes every update has reached hold the same data; \<open>Gossip_Control\<close> takes the runs in which
  nothing goes wrong, accounts for every update in them (\<open>smooth_ok\<close>), and shows that with synchronous
  replication and clients taking turns the nodes refine one store (\<open>acts_like\<close>); \<open>Gossip_Settle\<close>
  shows that such a run can always come to rest, with every node holding every update;
  \<open>Gossip_Samples\<close> plays a run that breaks each of the conditions of the control.

  The faults and the harness.
  \<open>Link\<close>, \<open>Schedule\<close> and \<open>Nemesis\<close> are \<open>faultnet\<close>: the proxy with its counters, sockets and
  handlers, the fault timelines, and what applies them. \<open>Topology\<close> and \<open>Harness\<close> are
  \<open>harness/topology.go\<close> and \<open>harness/harness.go\<close>; \<open>Harness_Run\<close> is the frame of \<open>Run\<close>, from its checks to
  its result, and says when the history of a run is fit for \<open>Validate\<close>. \<open>Schedule_Correct\<close> and \<open>Partition_Correct\<close> show
  what the generated timelines promise.

  The tools.
  \<open>Go_Text\<close> and \<open>Go_Float\<close> are what the program uses of the Go library to read and write text and
  durations, and its \<open>float64\<close> arithmetic. \<open>Kv_Admin\<close> is the administrative side of \<open>kv/server.go\<close> and
  \<open>kv/client.go\<close>. \<open>Cluster\<close> is \<open>cluster/cluster.go\<close> over the outcomes of the operating system, with
  the processes and directories it holds as the state \<open>host\<close>; \<open>Campaign\<close> is \<open>campaign/campaign.go\<close>, the
  composition of a cluster, a topology, a run and \<open>Check\<close>. \<open>Report\<close> is what \<open>report/report.go\<close> draws,
  \<open>Report_Page\<close> the page it is written to,
  and \<open>Report_Correct\<close> relates it to the fault timeline and to real time. \<open>Cli\<close> is
  \<open>cmd/splitbrain/main.go\<close>, \<open>Cli_Flags\<close> the way from the words of a command line to its commands over \<open>Go_Flag\<close>,
  the library's flag parsing, \<open>Printing\<close> the lines it prints, and \<open>Cli_Correct\<close> reads its exit status
  against the checker's verdicts. \<open>Node_Main\<close> is the programs under \<open>cmd/kv*\<close> with \<open>kv.Run\<close>. \<open>Demo\<close> is
  \<open>tools/demo\<close>, the demonstration that sweeps every store, and \<open>Demo_Correct\<close> reads its exit status
  back to the histories of the sweeps and shows that it leaves no process and no directory behind.
  \<open>Node_Flags\<close> is the command lines of these programs, and shows that what a cluster writes on one
  is what the node serves with; \<open>Go_Duration\<close> shows for it that a duration written by the library
  reads back as itself.

  Interfaces are locales: a sort by a strict weak order (\<open>keyed_less\<close>), a sequential model, a
  placed-set, a set of configurations, a register store, a store of mergeable updates. Each is
  interpreted on the code's own definitions in the theory that provides them.

  Parameters stand for code that is not in the repository: the JSON codec, URL parsing, the hash of a
  model state, the platform's clock readings, random draws, the outcome of every network exchange,
  whether a port can be bound again, what the operating system answers. Hypotheses about them are named where they are used
  (\<open>json_round_trip\<close>, \<open>reading\<close>, \<open>mixed\<close>, \<open>varied\<close>).

  Loops that need not end are \<open>partial_function\<close>s into option: the search loop, the schedule
  generator, the rejection loops of the random choices. That they return is proved, for the
  rejection loops under the hypothesis that the draws do not repeat for ever. Times are 64-bit values
  where the code's wrap-around can be reached (\<open>wrap64\<close>); schedule offsets and the counters of
  the proxies are unbounded. The loop of \<open>sweep\<close> wraps around as the code's does, so it need not end.

  Not modelled: sockets, signals and logging of the servers, what becomes of a file behind its
  outcome, whether a process dies when it is killed and a directory goes when it is removed (the
  code discards both errors; \<open>host\<close> is what the program has still to see to), elapsed
  times in results and sleeping, which no decision reads, and what the demonstration prints on its
  way. \<open>Check\<close> is assumed to be given a model; the histories of the theorems about it
  invoke no operation at the last representable instant (\<open>before_pending\<close>), where
  \<open>Validate\<close> and the search disagree about what is zero-width.
\<close>

section \<open>The checker\<close>

text \<open>
  C1: For both models the program names, on every history \<open>Validate\<close> accepts, \<open>Check\<close> returns a
  result and never panics, and its verdict is right: a key's verdict of linearizable means its
  operations have a linearization, not linearizable means they have none, and the overall verdict
  and key are those of the first failing key, or of the first undecided one.
\<close>

lemma Check_verdict_sound:
  assumes "ByName name = Inr m" and "valid_history h" and "before_pending h"
  shows "\<exists>r. Check seed m opt late h = Some (Ret (Inr r)) \<and> verdict_means m (DropFailed h) r"
  using sequential_model.Check_correct [OF ByName_model [OF assms(1)] assms(2,3)]
  unfolding check_result_ok_def by blast

lemma Check_verdict_sound_witness:
  "\<exists>r. Check (\<lambda>_. 0) CASRegister tight (\<lambda>_. False) lost_write = Some (Ret (Inr r)) \<and>
    verdict_means CASRegister (DropFailed lost_write) r"
  by (rule Check_verdict_sound [OF sample_model sample_valid(2) sample_before_pending(2)])

text \<open>
  C2: With every budget off, \<open>Check\<close> decides: it answers linearizable exactly when the operations of
  every key linearize, and not linearizable otherwise.
\<close>

lemma Check_decides:
  assumes "ByName name = Inr m" and "valid_history h" and "before_pending h" and "no_budget opt"
  shows "\<exists>r. Check seed m opt late h = Some (Ret (Inr r)) \<and>
    r_Verdict r = (if \<forall>k \<in> set (Keys (DropFailed h)). linearizable m (ByKey (DropFailed h) k)
      then Linearizable else NotLinearizable)"
proof -
  obtain r where r: "Check seed m opt late h = Some (Ret (Inr r))" "check_result_ok m opt h r"
    using sequential_model.Check_correct [OF ByName_model [OF assms(1)] assms(2,3)] by blast
  then have v: "verdict_means m (DropFailed h) r" and u: "r_Verdict r \<noteq> Unknown"
    using assms(4) by (auto simp: check_result_ok_def)
  then have "r_Verdict r = Linearizable \<or> r_Verdict r = NotLinearizable"
    by (auto simp: verdict_means_def split: Verdict.splits)
  with verdict_means_iff [OF v u] have "r_Verdict r =
      (if \<forall>k \<in> set (Keys (DropFailed h)). linearizable m (ByKey (DropFailed h) k) then Linearizable else NotLinearizable)"
    by auto
  with r(1) show ?thesis by blast
qed

lemma Check_decides_witness:
  "\<exists>r. Check (\<lambda>_. 0) CASRegister no_limits (\<lambda>_. False) stale_read = Some (Ret (Inr r)) \<and>
    r_Verdict r = (if \<forall>k \<in> set (Keys (DropFailed stale_read)). linearizable CASRegister (ByKey (DropFailed stale_read) k)
      then Linearizable else NotLinearizable)"
  by (rule Check_decides [OF sample_model sample_valid(1) sample_before_pending(1)])
    (simp add: no_budget_def no_limits_def)

text \<open>
  C3: The counterexample \<open>Check\<close> reports is the earliest one. There is an instant such that the
  reported operations are those of the failing key as they stood before it, what had been answered by
  then answered and the rest pending; they do not linearize, and the operations as they stood before
  any earlier instant, an event time of the history or not, do. With minimisation on and no budgets
  there always is such a report.
\<close>

lemma Check_earliest_failure:
  assumes "ByName name = Inr m" and "valid_history h" and "before_pending h"
    and "Check seed m opt late h = Some (Ret (Inr r))"
  shows "(r_Ops r \<noteq> [] \<longrightarrow> r_Verdict r = NotLinearizable \<and> r_Culprit r = Some (last (r_Ops r)) \<and>
      earliest_failure m (SortByInvoke (ByKey (DropFailed h) (r_Key r))) (r_Ops r)) \<and>
    (r_Verdict r = NotLinearizable \<and> Minimize opt \<and> no_budget opt \<longrightarrow> r_Ops r \<noteq> [])"
  using sequential_model.Check_correct [OF ByName_model [OF assms(1)] assms(2,3), of seed opt late] assms(4)
  by (auto simp: check_result_ok_def detail_ok_def)

lemma Check_earliest_failure_witness:
  "\<exists>r. Check (\<lambda>_. 0) CASRegister no_limits (\<lambda>_. False) stale_read = Some (Ret (Inr r)) \<and>
    (r_Verdict r = NotLinearizable \<and> Minimize no_limits \<and> no_budget no_limits \<longrightarrow> r_Ops r \<noteq> [])"
proof -
  obtain r where "Check (\<lambda>_. 0) CASRegister no_limits (\<lambda>_. False) stale_read = Some (Ret (Inr r))"
    using cas_model.Check_correct [OF sample_valid(1) sample_before_pending(1)] by blast
  with Check_earliest_failure [OF sample_model sample_valid(1) sample_before_pending(1) this] show ?thesis by blast
qed

text \<open>
  C4: The search itself, on any model: for operations with no two zero-width ones at one instant it
  returns and never panics, a linearizable verdict comes with a final state some linearization
  reaches, not linearizable means there is none, the visits stay within their budget, and it gives
  up only for a budget that is on and spent.
\<close>

lemma searchFull_total:
  assumes "entry_ok ops"
  shows "\<exists>kr. searchFull seed m opt d ops = Some (Ret kr) \<and> answers m ops kr \<and>
    within_visits opt (kr_visits kr) \<and> (kr_verdict kr = Unknown \<longrightarrow> gave_up opt d (kr_reason kr))"
  by (rule searchFull_correct [OF assms]) blast

lemma searchFull_total_witness:
  "\<exists>kr. searchFull (\<lambda>_. 0) CASRegister tight None stale_read = Some (Ret kr) \<and> answers CASRegister stale_read kr \<and>
    within_visits tight (kr_visits kr) \<and> (kr_verdict kr = Unknown \<longrightarrow> gave_up tight None (kr_reason kr))"
  by (rule searchFull_total) (use sample_key_ok(1) in \<open>simp add: key_ok_def\<close>)

text \<open>
  C5: On a history of one key the two independent routes agree: whenever \<open>CheckKey\<close> decides, brute
  force over every order returns the same verdict.
\<close>

lemma CheckKey_agrees_with_BruteForce:
  assumes "ByName name = Inr m" and "valid_history h" and "before_pending h" and "length (Keys h) \<le> 1"
    and "CheckKey seed m opt late h = Some (Ret (Inr r))" and "r_Verdict r \<noteq> Unknown"
    and "int (length h) \<le> maxOps"
  shows "BruteForce h m maxOps = Inr (r_Verdict r)"
  by (rule CheckKey_BruteForce [OF ByName_model [OF assms(1)] assms(2-)])

lemma CheckKey_agrees_with_BruteForce_witness:
  "\<exists>r. CheckKey (\<lambda>_. 0) CASRegister no_limits (\<lambda>_. False) stale_read = Some (Ret (Inr r)) \<and>
    BruteForce stale_read CASRegister 8 = Inr (r_Verdict r)"
proof -
  have k: "length (Keys stale_read) \<le> 1" by (simp add: sample_keys)
  obtain r where r: "CheckKey (\<lambda>_. 0) CASRegister no_limits (\<lambda>_. False) stale_read = Some (Ret (Inr r))"
    "r_Verdict r \<noteq> Unknown"
    using cas_model.CheckKey_correct [OF sample_valid(1) sample_before_pending(1) k, of "\<lambda>_. 0" no_limits "\<lambda>_. False"]
    by (auto simp: no_budget_def no_limits_def)
  have "BruteForce stale_read CASRegister 8 = Inr (r_Verdict r)"
    by (rule CheckKey_agrees_with_BruteForce [OF sample_model sample_valid(1) sample_before_pending(1) k r])
      (simp add: stale_read_def)
  with r(1) show ?thesis by blast
qed

text \<open>
  C6: Brute force decides linearizability, for every model and every history within its size limit,
  and refuses a larger one.
\<close>

lemma BruteForce_decides:
  "BruteForce h m maxOps =
     (if int (length h) > maxOps then Inl (TooManyOps (length h) maxOps)
      else Inr (if linearizable m (DropFailed h) then Linearizable else NotLinearizable))"
  using BruteForce_linearizable [of h maxOps m] by (auto simp: BruteForce_def)

text \<open>
  C7: Checking key by key is checking the whole store. Where no two zero-width operations share an
  instant, a history of many registers linearizes against the store of all of them exactly when
  each key's operations linearize against one register.
\<close>

lemma keys_are_independent:
  assumes "\<forall>op \<in> set h. Invoke op \<le> Complete op" and "distinct_moments h"
  shows "linearizable (keyed m) h \<longleftrightarrow> (\<forall>k \<in> set (Keys h). linearizable m (ByKey h k))"
  using locality [of h m] assms by (simp add: distinct_moments_def)

lemma keys_are_independent_witness:
  "linearizable (keyed CASRegister) stale_read \<longleftrightarrow>
     (\<forall>k \<in> set (Keys stale_read). linearizable CASRegister (ByKey stale_read k))"
  by (rule keys_are_independent) (auto simp: sample_defs distinct_moments_def same_moment_def)

text \<open>
  What a verdict says of the whole store: not linearizable is a proof that no order of all the
  operations explains them, and linearizable that one does, unless two zero-width operations share
  an instant.
\<close>

lemma Check_judges_the_store:
  assumes "ByName name = Inr m" and "valid_history h" and "before_pending h"
    and "Check seed m opt late h = Some (Ret (Inr r))"
  shows "(r_Verdict r = NotLinearizable \<longrightarrow> \<not> linearizable (keyed m) (DropFailed h)) \<and>
    (r_Verdict r = Linearizable \<and> distinct_moments h \<longrightarrow> linearizable (keyed m) (DropFailed h))"
proof -
  have "verdict_means m (DropFailed h) r"
    using sequential_model.Check_correct [OF ByName_model [OF assms(1)] assms(2,3), of seed opt late] assms(4)
    by (auto simp: check_result_ok_def)
  with verdict_keyed [OF assms(2,3)] show ?thesis by blast
qed

lemma Check_judges_the_store_witness:
  "\<exists>r. Check (\<lambda>_. 0) CASRegister no_limits (\<lambda>_. False) stale_read = Some (Ret (Inr r)) \<and>
    (r_Verdict r = NotLinearizable \<longrightarrow> \<not> linearizable (keyed CASRegister) (DropFailed stale_read))"
proof -
  obtain r where r: "Check (\<lambda>_. 0) CASRegister no_limits (\<lambda>_. False) stale_read = Some (Ret (Inr r))"
    using cas_model.Check_correct [OF sample_valid(1) sample_before_pending(1)] by blast
  with Check_judges_the_store [OF sample_model sample_valid(1) sample_before_pending(1) r] show ?thesis by blast
qed

text \<open>
  C8: A store that is one locked map is never accused. Whatever the network did to the requests and
  the replies of a run against it, and whatever the budgets, \<open>Check\<close> on the recorded history does
  not answer not linearizable.
\<close>

lemma single_store_never_accused:
  assumes "run_reach single_Apply clk Map.empty R" and "run_over R"
    and "0 < ck_granularity clk" and "ck_granularity clk < max_int64"
    and "valid_history (run_history R)" and "before_pending (run_history R)"
  shows "\<exists>r. Check seed CASRegister opt late (run_history R) = Some (Ret (Inr r)) \<and> r_Verdict r \<noteq> NotLinearizable"
  by (rule single_run_check [OF assms]) blast

lemma single_store_never_accused_witness:
  "\<exists>r. Check (\<lambda>_. 0) CASRegister tight (\<lambda>_. False) (run_history sample_run) = Some (Ret (Inr r)) \<and>
    r_Verdict r \<noteq> NotLinearizable"
  by (rule single_store_never_accused [OF sample_run_reach sample_run_over _ _ sample_run_valid sample_run_before])
    (simp_all add: sample_clock_def max_int64_def)

text \<open>
  C9: The reason behind it: a run's history, its failed operations dropped, is linearizable against
  the store of all registers, however requests were delayed, lost or answered late.
\<close>

lemma single_store_linearizable:
  assumes "run_reach single_Apply clk Map.empty R" and "run_over R"
    and "0 < ck_granularity clk" and "ck_granularity clk < max_int64"
  shows "linearizable (keyed CASRegister) (DropFailed (run_history R))"
  by (rule single_run_linearizable [OF assms])

lemma single_store_linearizable_witness:
  "linearizable (keyed CASRegister) (DropFailed (run_history sample_run))"
  by (rule single_store_linearizable [OF sample_run_reach sample_run_over])
    (simp_all add: sample_clock_def max_int64_def)

text \<open>
  C10: The store with a fixed leader is that store. Every run of clients against a leader and its
  followers, none of which promotes itself, is a run against one locked map: the same clients record
  the same operations, whatever happens to the requests on either network, and whatever
  configurations that name no leader and switch no promotion on arrive meanwhile.
\<close>

lemma forward_store_refines:
  assumes "cluster_reach parse never_promotes clk (forward_start parse addr n) W" and "cluster_over W"
    and "addr \<noteq> []"
  shows "\<exists>R. run_reach single_Apply clk Map.empty R \<and> run_over R \<and> run_history R = cluster_history W"
  by (rule forward_cluster_run [OF assms]) blast

lemma forward_store_refines_witness:
  "\<exists>R. run_reach single_Apply sample_clock Map.empty R \<and> run_over R \<and> run_history R = cluster_history plain_run"
  by (rule forward_store_refines [OF plain_run_reach plain_run_over]) simp

text \<open>
  So the checker never accuses it either: not when a follower loses its leader, passes a refusal
  on, answers 504 or forwards a write its client has long given up on.
\<close>

lemma forward_store_never_accused:
  assumes "cluster_reach parse never_promotes clk (forward_start parse addr n) W" and "cluster_over W"
    and "addr \<noteq> []" and "0 < ck_granularity clk" and "ck_granularity clk < max_int64"
    and "valid_history (cluster_history W)" and "before_pending (cluster_history W)"
  shows "\<exists>r. Check seed CASRegister opt late (cluster_history W) = Some (Ret (Inr r)) \<and>
    r_Verdict r \<noteq> NotLinearizable"
proof -
  obtain R where R: "run_reach single_Apply clk Map.empty R" "run_over R" "run_history R = cluster_history W"
    by (rule forward_cluster_run [OF assms(1-3)])
  show ?thesis by (rule single_run_check [OF R(1,2) assms(4,5)]) (use R(3) assms(6,7) in auto)
qed

lemma forward_store_never_accused_witness:
  "\<exists>r. Check (\<lambda>_. 0) CASRegister tight (\<lambda>_. False) (cluster_history plain_run) = Some (Ret (Inr r)) \<and>
    r_Verdict r \<noteq> NotLinearizable"
  by (rule forward_store_never_accused [OF plain_run_reach plain_run_over])
    (simp_all add: sample_clock_def max_int64_def plain_run_history sample_run_valid sample_run_before)

text \<open>
  C11: Promotion breaks it, and the checker sees it. There is a run of the same cluster, with one
  follower told to promote itself at the first failure and one request of it lost, whose history no
  order of the operations explains; with no budgets \<open>Check\<close> answers not linearizable, whatever the
  seed.
\<close>

lemma split_brain_is_caught:
  "\<exists>W. cluster_reach at_host (\<lambda>cfg. cfg = promote_now) sample_clock two_nodes W \<and> cluster_over W \<and>
    (\<forall>seed late. \<exists>r. Check seed CASRegister no_limits late (cluster_history W) = Some (Ret (Inr r)) \<and>
      r_Verdict r = NotLinearizable)"
proof -
  have "no_budget no_limits" by (simp add: no_budget_def no_limits_def)
  from cas_model.Check_catches [OF split_run_valid this split_run_fails] split_run_reach split_run_over
  show ?thesis by blast
qed

text \<open>
  C12: The control group. When the gossiping store replicates synchronously, every node is a peer of
  every other, nothing goes wrong and clients take turns, then however the steps of the cluster are
  interleaved and whatever its wall clocks read, the nodes together refine one locked map: there is a
  run against the single store, over and with the very history the run of the cluster recorded. So the
  checker never accuses it. The wall clocks must leave room for one more stamp per request below the
  largest 64-bit one.
\<close>

lemma control_never_accused:
  assumes "gossip_reach parse home clk latest taking_turns False (gossip_start parse True plan) W" and "calls_over W"
    and "sound_plan parse plan" and "full_mesh home plan" and "latest + int (length (gs_calls W)) < max_int64"
  shows "(\<exists>R. run_reach single_Apply clk Map.empty R \<and> run_over R \<and> run_history R = gossip_history W) \<and>
    (0 < ck_granularity clk \<and> ck_granularity clk < max_int64 \<and>
     valid_history (gossip_history W) \<and> before_pending (gossip_history W) \<longrightarrow>
      (\<exists>r. Check seed CASRegister opt late (gossip_history W) = Some (Ret (Inr r)) \<and> r_Verdict r \<noteq> NotLinearizable))"
proof -
  obtain R where R: "run_reach single_Apply clk Map.empty R" "run_over R" "run_history R = gossip_history W"
    by (rule control_run [OF assms])
  with single_run_check [OF R(1,2), of seed opt late] show ?thesis by auto
qed

lemma control_never_accused_witness:
  "(\<exists>R. run_reach single_Apply sample_clock Map.empty R \<and> run_history R = gossip_history control_sample) \<and>
   (\<exists>r. Check (\<lambda>_. 0) CASRegister tight (\<lambda>_. False) (gossip_history control_sample) = Some (Ret (Inr r)) \<and>
    r_Verdict r \<noteq> NotLinearizable)"
proof -
  have "0 + int (length (gs_calls control_sample)) < max_int64" by (simp add: max_int64_def control_sample_calls)
  from control_never_accused [OF sample_reaches(4) sample_calls_over(4) pair_plan_sound _, of "\<lambda>_. 0" tight "\<lambda>_. False"]
  show ?thesis using gossip_samples_valid by (auto simp: sample_clock_def max_int64_def control_sample_calls)
qed

text \<open>
  C13: Each condition of the control matters, and the checker sees it. A run that differs from it in
  replicating in the background only, one that differs in losing a post only, and one that differs in
  two clients not waiting for each other only, each give a history that with no budgets \<open>Check\<close>
  answers not linearizable, whatever the seed. The first two are a stale read, the last is two
  compare-and-swaps of one value that both report they swapped.
\<close>

lemma gossip_is_caught:
  "(\<exists>W. gossip_reach at_host pair_home sample_clock 9 taking_turns False (pair_start False) W \<and> calls_over W \<and>
     caught (gossip_history W)) \<and>
   (\<exists>W. gossip_reach at_host pair_home sample_clock 9 taking_turns True (pair_start True) W \<and> calls_over W \<and>
     caught (gossip_history W)) \<and>
   (\<exists>W. gossip_reach at_host pair_home sample_clock 9 (\<lambda>_. True) False (pair_start True) W \<and> calls_over W \<and>
     caught (gossip_history W))"
proof -
  have none: "no_budget no_limits" by (simp add: no_budget_def no_limits_def)
  have "caught (cluster_history split_run)" unfolding caught_def
    using cas_model.Check_catches [OF split_run_valid none split_run_fails] by blast
  moreover have "caught (gossip_history rival_run)" unfolding caught_def
    using cas_model.Check_catches [OF gossip_samples_valid(1,2) none rival_run_fails] by blast
  ultimately show ?thesis using sample_reaches(1-3) sample_calls_over(1-3) stale_histories by metis
qed

text \<open>
  The seed of the cache's hash function has no influence: two searches that differ in nothing
  else return the same result, visit for visit.
\<close>

lemma searchFull_ignores_seed:
  assumes "entry_ok ops"
  shows "searchFull seed m opt d ops = searchFull seed' m opt d ops"
  by (rule searchFull_seed [OF assms])

lemma searchFull_ignores_seed_witness:
  "searchFull (\<lambda>_. 0) CASRegister tight None stale_read = searchFull (\<lambda>_. 5) CASRegister tight None stale_read"
  by (rule searchFull_ignores_seed) (use sample_key_ok(1) in \<open>simp add: key_ok_def\<close>)

text \<open>
  C20: The worker pool is deterministic: however its workers interleave, when all have returned each
  key's slot holds that key's own outcome, as the sequential loop would have left it.
\<close>

lemma pool_is_sequential:
  assumes "pool_runs search n (pool_init k n) P" and "pool_finished P" and "0 < k"
  shows "p_results P = map (\<lambda>i. Some (search i)) [0..<n]"
  by (rule pool_outcome [OF assms])

lemma pool_is_sequential_witness:
  "\<exists>P. pool_runs Suc 3 (pool_init 2 3) P \<and> p_results P = [Some 1, Some 2, Some 3]"
proof -
  obtain P where P: "pool_runs Suc 3 (pool_init 2 3) P" "pool_finished P"
    using pool_finishes [OF pool_inv_init] by blast
  have "p_results P = map (\<lambda>i. Some (Suc i)) [0..<3]" by (rule pool_is_sequential [OF P]) simp
  with P(1) show ?thesis by (auto simp: numeral_3_eq_3)
qed

text \<open>
  C21: The pool always finishes: no sequence of its steps goes on for ever, and until every worker
  has returned some worker has a step.
\<close>

lemma pool_always_finishes:
  "wfP (\<lambda>Q P. pool_step search n P Q) \<and>
   (\<forall>P. pool_runs search n (pool_init k n) P \<longrightarrow> pool_finished P \<or> (\<exists>Q. pool_step search n P Q))"
proof -
  have "pool_inv search n P" if "pool_runs search n (pool_init k n) P" for P
    using that unfolding pool_runs_def
    by (induction rule: rtranclp_induct) (auto intro: pool_inv_init pool_inv_step)
  with pool_terminates pool_progress show ?thesis by blast
qed

lemma pool_always_finishes_witness:
  "pool_finished (pool_init 2 3 :: nat pool) \<or> (\<exists>Q. pool_step Suc 3 (pool_init 2 3) Q)"
proof -
  have "pool_runs Suc 3 (pool_init 2 3) (pool_init 2 3 :: nat pool)" by (simp add: pool_runs_def)
  then show ?thesis by (rule pool_always_finishes [THEN conjunct2, THEN spec, THEN mp])
qed

text \<open>
  The fast path is sound and cheap: on one key's operations \<open>indeterminateLast\<close> returns, what it
  finds is a linearization, and it spends at most 32 visits an operation and one more for each
  indeterminate one.
\<close>

lemma indeterminateLast_sound:
  assumes "key_ok ops"
  shows "\<exists>found spent. indeterminateLast seed m opt d ops = Some (Ret (found, spent)) \<and>
    (found \<longrightarrow> linearizable m ops) \<and> 0 \<le> spent \<and> spent \<le> 32 * int (length ops) + infos ops"
  by (rule indeterminateLast_correct [OF assms]) blast

lemma indeterminateLast_sound_witness:
  "\<exists>found spent. indeterminateLast (\<lambda>_. 0) CASRegister no_limits None stale_read = Some (Ret (found, spent)) \<and>
    (found \<longrightarrow> linearizable CASRegister stale_read) \<and> 0 \<le> spent \<and>
    spent \<le> 32 * int (length stale_read) + infos stale_read"
  by (rule indeterminateLast_sound [OF sample_key_ok(1)])

text \<open>
  C22: One key's search, fast path included: it returns, its verdict is right, with no budget on it
  decides, and its visits exceed \<open>MaxVisits\<close> by at most the indeterminate operations of the key.
\<close>

lemma searchKey_within_budget:
  assumes "key_ok ops"
  shows "\<exists>kr. searchKey seed m opt d ops = Some (Ret kr) \<and> decides m ops (kr_verdict kr) \<and>
    (unbudgeted opt d \<longrightarrow> kr_verdict kr \<noteq> Unknown) \<and>
    (0 < MaxVisits opt \<longrightarrow> kr_visits kr \<le> MaxVisits opt + infos ops)"
  by (rule searchKey_correct [OF assms]) blast

lemma searchKey_within_budget_witness:
  "\<exists>kr. searchKey (\<lambda>_. 0) CASRegister tight None lost_write = Some (Ret kr) \<and>
    decides CASRegister lost_write (kr_verdict kr) \<and>
    (unbudgeted tight None \<longrightarrow> kr_verdict kr \<noteq> Unknown) \<and>
    (0 < MaxVisits tight \<longrightarrow> kr_visits kr \<le> MaxVisits tight + infos lost_write)"
  by (rule searchKey_within_budget [OF sample_key_ok(2)])

section \<open>Histories\<close>

text \<open>
  C23: \<open>Validate\<close> accepts exactly the histories it describes: every operation well formed, each
  process one request at a time with none after an indeterminate one, and no two zero-width
  operations of one key at one instant. The order of the history does not matter.
\<close>

lemma Validate_decides:
  assumes "\<forall>op \<in> set h \<union> set h'. int64_op op"
  shows "(Validate h = None \<longleftrightarrow> (\<forall>op \<in> set h. wf_op op) \<and> sorted_wrt compatible h) \<and>
   (mset h = mset h' \<longrightarrow> (Validate h = None \<longleftrightarrow> Validate h' = None))"
proof -
  have "Validate h = None \<longleftrightarrow> valid_history h" and "Validate h' = None \<longleftrightarrow> valid_history h'"
    by (rule Validate_None, use assms in blast)+
  with valid_history_perm [of h h'] show ?thesis by (simp add: valid_history_def)
qed

lemma Validate_decides_witness:
  "Validate [stale_read ! 0, stale_read ! 1] = None \<longleftrightarrow> Validate [stale_read ! 1, stale_read ! 0] = None"
  by (rule Validate_decides [THEN conjunct2, THEN mp])
    (auto simp: sample_defs int64_op_def max_int64_def min_int64_def)

text \<open>
  C24: A history written by \<open>Save\<close> and read by \<open>Load\<close> is the history sorted by invocation, with the
  fields that its operations' kinds and outcomes give no meaning to read as zero, and it is as
  valid as before. The codec is assumed to give back the line objects it was given.
\<close>

lemma Save_Load_round_trip:
  assumes "\<forall>op \<in> set h. known_op op" and "json_round_trip encode decode h"
  shows "Load decode (Save encode h) = Inr (map recorded (SortByInvoke h)) \<and>
    (valid_history h \<longrightarrow> valid_history (map recorded (SortByInvoke h)))"
proof -
  have "valid_history h \<Longrightarrow> valid_history (SortByInvoke h)"
    using valid_history_perm [of "SortByInvoke h" h] by simp
  with Load_Save [OF assms] valid_history_recorded show ?thesis by blast
qed

lemma Save_Load_round_trip_witness:
  "Load (\<lambda>_. Some (toWire (stale_read ! 0))) (Save (\<lambda>_. ''line'') [stale_read ! 0]) =
     Inr (map recorded (SortByInvoke [stale_read ! 0]))"
  by (rule Save_Load_round_trip [THEN conjunct1])
    (simp_all add: known_op_def json_round_trip_def sample_defs maxLine_def)

text \<open>
  \<open>toOp\<close> invents nothing: every field of an operation it returns that has a meaning for the
  operation's kind and outcome was present on the line, so a truncated line cannot read as a zero.
\<close>

lemma toOp_invents_nothing:
  assumes "toOp w = Inr op"
  shows "w_Process w = Some (Process op) \<and> w_Invoke w = Some (Invoke op) \<and> w_Key w = Key op \<and>
    (OpKind op = Write \<longrightarrow> w_Value w = Some (Value op)) \<and>
    (OpKind op = CAS \<longrightarrow> w_From w = Some (From op) \<and> w_To w = Some (To op)) \<and>
    (Outcome op = OK \<and> OpKind op = Read \<longrightarrow> w_Observed w = Some (Observed op)) \<and>
    (Outcome op = OK \<and> OpKind op = CAS \<longrightarrow> w_Swapped w = Some (Swapped op)) \<and>
    (Outcome op \<noteq> Info \<longrightarrow> w_Complete w = Some (Complete op))"
  using toOp_present [OF assms] by blast

lemma toOp_invents_nothing_witness:
  "w_Value (toWire (stale_read ! 0)) = Some (Value (recorded (stale_read ! 0)))"
proof -
  have "toOp (toWire (stale_read ! 0)) = Inr (recorded (stale_read ! 0))"
    by (rule toOp_toWire) (simp add: known_op_def sample_defs)
  from toOp_invents_nothing [OF this] show ?thesis by (simp add: recorded_def sample_defs)
qed

text \<open>
  Cutting a history off at a moment keeps it valid, and keeps it linearizable: a counterexample
  that appears never disappears again, which is what makes the search for the earliest one sound.
\<close>

lemma truncation_keeps:
  assumes "ByName name = Inr m" and "t \<le> u" and "u \<le> Pending"
  shows "(valid_history h \<longrightarrow> valid_history (truncateAt h t)) \<and>
    (linearizable m (truncateAt h u) \<longrightarrow> linearizable m (truncateAt h t))"
  using valid_history_truncateAt assms(2,3)
    sequential_model.truncation_monotone [OF ByName_model [OF assms(1)], of h u t] by auto

lemma truncation_keeps_witness:
  "valid_history (truncateAt stale_read 3)"
  using truncation_keeps [OF sample_model, of 3 4 stale_read] sample_valid(1)
  by (simp add: Pending_def max_int64_def)

section \<open>The checker's data structures\<close>

text \<open>
  On a well-formed entry list \<open>lift\<close> removes a call and its return and nothing else, and
  \<open>unlift\<close> restores every pointer, so the search can place and take back in place.
\<close>

lemma lift_then_unlift:
  assumes "chain h p (pre @ e # mid @ m # post)" and "distinct (p # pre @ e # mid @ m # post)"
    and "e_match (h e) = Some m"
  shows "\<exists>h'. lift h e = Some h' \<and> chain h' p (pre @ mid @ post) \<and> same_static h h' \<and> unlift h' e = Some h"
  by (rule lift_chain [OF assms]) blast

lemma lift_then_unlift_witness:
  "\<exists>h'. lift (buildEntries [sample_op 0 Write 7 OK 1 2]) 0 = Some h' \<and> unlift h' 0 = Some (buildEntries [sample_op 0 Write 7 OK 1 2])"
proof -
  let ?ops = "[sample_op 0 Write 7 OK 1 2]"
  have r: "rest ?ops {} = [0, 1]"
    unfolding rest_empty by code_simp
  have c: "chain (buildEntries ?ops) (head_ptr ?ops) ([] @ 0 # [] @ 1 # [])"
    using buildEntries_chain [of ?ops] by (simp add: r)
  have d: "distinct (head_ptr ?ops # [] @ 0 # [] @ 1 # [])" by (simp add: head_ptr_def)
  have m: "e_match (buildEntries ?ops 0) = Some 1"
    by code_simp
  from lift_then_unlift [OF c d m] show ?thesis by blast
qed

text \<open>
  The placed-set: setting a bit adds one operation, clearing it takes back the same words, and
  an index in range never panics.
\<close>

lemma placed_set_round_trip:
  assumes "i < n"
  shows "\<exists>c. bs_set (newBitset n) (int i) = Some c \<and> members c = {i} \<and> bs_clear c (int i) = Some (newBitset n)"
proof -
  have "bs_set (newBitset n) (int i) \<noteq> None"
    using newBitset_capacity [OF assms] bs_set_None [of "newBitset n" i] by blast
  then obtain c where "bs_set (newBitset n) (int i) = Some c" by blast
  with members_set [OF this] clear_set [OF this] show ?thesis by simp
qed

lemma placed_set_round_trip_witness:
  "\<exists>c. bs_set (newBitset 70) (int 65) = Some c \<and> members c = {65} \<and> bs_clear c (int 65) = Some (newBitset 70)"
  by (rule placed_set_round_trip) simp

text \<open>
  The cache is a set of configurations, whatever its hash function: it holds exactly what was
  added, two configurations with one hash stay apart, and its size grows by one entry each time.
\<close>

lemma cache_is_a_set:
  "\<not> cache_contains (newCache seed k) lin s \<and>
   (cache_contains (cache_add c lin s) lin' s' \<longleftrightarrow> (lin', s') = (lin, s) \<or> cache_contains c lin' s') \<and>
   cache_Bytes (cache_add c lin s) = cache_Bytes c + c_entryBytes c"
  by (intro conjI seen.contains_empty seen.contains_add bytes_add)

section \<open>Clients, clock and wire\<close>

text \<open>
  C25: What a client records it was told. A failure is recorded only on proof that the operation had no
  effect: it was never given a usable address, the dial was refused, or a reply says the request was
  declined. A success is recorded only from a reply that carries what the operation needs, with that
  reply's value. Every other silence is indeterminate.
\<close>

lemma outcomes_need_proof:
  "(Outcome (Do_record clk p req inv_t meas_t (Send ec cr parse c req x)) = Fail \<longrightarrow>
     never_left ec cr c x \<or>
     (\<exists>raw resp. x = Answered 200 raw \<and> parse (take maxRequestBytes raw) = Some resp \<and> \<not> p_OK resp)) \<and>
   (Outcome (Do_record clk p req inv_t meas_t (Send ec cr parse c req x)) = OK \<longrightarrow>
     (\<exists>raw resp. x = Answered 200 raw \<and> parse (take maxRequestBytes raw) = Some resp \<and> p_OK resp \<and>
       (q_Kind req = Read \<longrightarrow> p_Value resp = Some (Observed (Do_record clk p req inv_t meas_t (Send ec cr parse c req x)))) \<and>
       (q_Kind req = CAS \<longrightarrow> p_Swapped resp = Some (Swapped (Do_record clk p req inv_t meas_t (Send ec cr parse c req x))))))"
  using Do_Fail [of clk p req inv_t meas_t ec cr parse c x] Do_OK [of clk p req inv_t meas_t ec cr parse c x]
  by blast

lemma outcomes_need_proof_witness:
  "never_left 111 111 \<lparr>cl_addr = [], cl_base = [], cl_refuse = None\<rparr>
     (DoFailed \<lparr>ne_op = Some ''dial'', ne_errno = Some 111, ne_msg = []\<rparr>)"
proof -
  let ?c = "\<lparr>cl_addr = [], cl_base = [], cl_refuse = None\<rparr>"
  let ?x = "DoFailed \<lparr>ne_op = Some ''dial'', ne_errno = Some 111, ne_msg = []\<rparr>"
  have "Outcome (Do_record sample_clock 0 sample_read 0 0 (Send 111 111 (\<lambda>_. None) ?c sample_read ?x)) = Fail"
    by (simp add: Do_outcome Send_def isConnRefused_def)
  with outcomes_need_proof [of sample_clock 0 sample_read 0 0 111 111 "\<lambda>_. None" ?c ?x] show ?thesis by auto
qed

text \<open>
  A client records a failure only on proof: it was never given a usable address, the dial was
  refused, or a reply says the request was declined. Every other silence is indeterminate.
\<close>

lemma failure_needs_proof:
  assumes "Outcome (Do_record clk p req inv_t meas_t (Send ec cr parse c req x)) = Fail"
  shows "never_left ec cr c x \<or>
   (\<exists>raw resp. x = Answered 200 raw \<and> parse (take maxRequestBytes raw) = Some resp \<and> \<not> p_OK resp)"
  by (rule Do_Fail [OF assms])

lemma failure_needs_proof_witness:
  "never_left 111 111 \<lparr>cl_addr = [], cl_base = [], cl_refuse = None\<rparr>
     (DoFailed \<lparr>ne_op = Some ''dial'', ne_errno = Some 111, ne_msg = []\<rparr>)"
proof -
  let ?c = "\<lparr>cl_addr = [], cl_base = [], cl_refuse = None\<rparr>"
  let ?x = "DoFailed \<lparr>ne_op = Some ''dial'', ne_errno = Some 111, ne_msg = []\<rparr>"
  have "Outcome (Do_record sample_clock 0 sample_read 0 0 (Send 111 111 (\<lambda>_. None) ?c sample_read ?x)) = Fail"
    by (simp add: Do_outcome Send_def isConnRefused_def)
  from failure_needs_proof [OF this] show ?thesis by auto
qed

text \<open>
  A client records a success only from a reply that carries what the operation needs, and
  records that reply's value.
\<close>

lemma success_carries_its_reply:
  assumes "Outcome (Do_record clk p req inv_t meas_t (Send ec cr parse c req x)) = OK"
  shows "\<exists>raw resp. x = Answered 200 raw \<and> parse (take maxRequestBytes raw) = Some resp \<and> p_OK resp \<and>
    (q_Kind req = Read \<longrightarrow> p_Value resp = Some (Observed (Do_record clk p req inv_t meas_t (Send ec cr parse c req x)))) \<and>
    (q_Kind req = CAS \<longrightarrow> p_Swapped resp = Some (Swapped (Do_record clk p req inv_t meas_t (Send ec cr parse c req x))))"
  by (rule Do_OK [OF assms]) blast

lemma success_carries_its_reply_witness:
  "\<exists>resp. (\<lambda>_. Some (ReadOK 7)) (take maxRequestBytes ''x'') = Some resp \<and> p_OK resp"
proof -
  let ?c = "\<lparr>cl_addr = [], cl_base = [], cl_refuse = None\<rparr>"
  have "Outcome (Do_record sample_clock 0 sample_read 0 0
      (Send 111 111 (\<lambda>_. Some (ReadOK 7)) ?c sample_read (Answered 200 ''x''))) = OK"
    by (simp add: Do_outcome Send_def Let_def checkShape_def sample_read_def ReadOK_def)
  from success_carries_its_reply [OF this] show ?thesis by (auto simp: ReadOK_def)
qed

text \<open>
  C26: A recorded precedence is a true one. The clock's granularity, measured, is positive, and when
  a completion widened by it is at or before another operation's invocation, the first operation
  really was over when the second began.
\<close>

lemma clock_invents_no_order:
  assumes "c = New_clock raw src origin"
    and "reading c done_r done_t" and "reading c inv_r inv_t"
    and "min_int64 \<le> inv0" and "max inv0 done_r + ck_granularity c \<le> max_int64"
    and "Completion c inv0 done_r \<le> inv_r"
  shows "done_t < inv_t \<and> inv0 < Completion c inv0 done_r"
proof -
  from New_clock_granularity(1) assms(1) have g: "0 < ck_granularity c" by simp
  with Completion_supports [OF assms(2,3,5,4) _ assms(6)] Completion_eq [OF assms(5,4)] show ?thesis by auto
qed

lemma clock_invents_no_order_witness:
  "\<exists>c inv_r. reading c inv_r inv_r \<and> (0 :: int) < inv_r"
proof -
  let ?c = "New_clock (\<lambda>k. int k) ''mono'' 0"
  let ?g = "ck_granularity ?c"
  have g: "0 < ?g" "?g < noChange" by (rule New_clock_granularity)+
  have f: "max 0 0 + ?g \<le> max_int64" using g by (simp add: noChange_def max_int64_def)
  have m: "min_int64 \<le> 0" by (simp add: min_int64_def)
  have e: "Completion ?c 0 0 = ?g" using Completion_eq [OF f m] g by simp
  have r0: "reading ?c 0 0" and r1: "reading ?c ?g ?g" using g by (auto simp: reading_def)
  from clock_invents_no_order [OF refl r0 r1 m f] e r1 show ?thesis by auto
qed

text \<open>
  A request survives the wire: what the server decodes is what the client sent, and nothing a
  server accepts lacks a key, a known kind or an operand its kind needs.
\<close>

lemma request_round_trip:
  "(q_Kind r \<in> {Read, Write, CAS} \<and> q_Key r \<noteq> [] \<longrightarrow> toRequest (request_toWire r) = Inr (sent_request r)) \<and>
   (toRequest w = Inr q \<longrightarrow> q_Kind q \<in> {Read, Write, CAS} \<and> q_Key q \<noteq> [] \<and> wr_Key w = q_Key q \<and>
      (q_Kind q = Write \<longrightarrow> wr_Value w = Some (q_Value q)) \<and>
      (q_Kind q = CAS \<longrightarrow> wr_From w = Some (q_From q) \<and> wr_To w = Some (q_To q)))"
  using toRequest_toWire [of r] toRequest_kind [of w q] toRequest_wire [of w q] by blast

lemma request_round_trip_witness:
  "toRequest (request_toWire sample_write) = Inr (sent_request sample_write)"
  using request_round_trip [of sample_write] by (simp add: sample_write_def)

section \<open>The stores\<close>

text \<open>
  A follower that was never told to promote holds no state of its own: whatever requests arrive
  and however the leader answers, it never serves from its cache and never remembers a write.
\<close>

lemma plain_follower_serves_nothing:
  assumes "forward_runs parse never_promotes \<lparr>fy_node = NewForwardStore parse addr, fy_requests = []\<rparr> Y"
  shows "fs_cache (fy_node Y) = Map.empty \<and> \<not> fs_promoted (fy_node Y) \<and>
    (\<forall>r b. Answer r b \<in> set (fy_requests Y) \<longrightarrow> \<not> b)"
proof -
  have "plain_system \<lparr>fy_node = NewForwardStore parse addr, fy_requests = []\<rparr>"
    by (simp add: plain_system_def plain_new)
  from plain_runs [OF assms this] show ?thesis by (force simp: plain_system_def plain_def honest_def)
qed

lemma plain_follower_serves_nothing_witness:
  "\<exists>Y :: forward_system. fy_requests Y = [Begun sample_write] \<and> fs_cache (fy_node Y) = Map.empty"
proof -
  let ?Y = "\<lparr>fy_node = NewForwardStore (\<lambda>_. None) ''leader'', fy_requests = []\<rparr>"
  have "forward_runs (\<lambda>_. None) never_promotes ?Y (?Y\<lparr>fy_requests := fy_requests ?Y @ [Begun sample_write]\<rparr>)"
    unfolding forward_runs_def by (rule r_into_rtranclp, rule forward_step.arrive)
  from plain_follower_serves_nothing [OF this] have "fs_cache (fy_node (?Y\<lparr>fy_requests := fy_requests ?Y @ [Begun sample_write]\<rparr>)) = Map.empty"
    by (rule conjunct1)
  moreover have "fy_requests (?Y\<lparr>fy_requests := fy_requests ?Y @ [Begun sample_write]\<rparr>) = [Begun sample_write]" by simp
  ultimately show ?thesis by blast
qed

text \<open>
  A follower told to promote does so on the failure that reaches its threshold and not before,
  counting from the last success; and it declines a request on its own word only where the request
  provably never left.
\<close>

lemma promotion_threshold:
  assumes "fs_promote s" and "\<not> fs_promoted s" and "fs_failures s = 0" and "1 \<le> fs_promoteAfter s"
  shows "(fs_promoted (fail_times n s) \<longleftrightarrow> fs_promoteAfter s \<le> int n) \<and>
    (\<forall>req c promoted r s' resp b.
       after_send req c promoted r s = (s', Answer (Inr resp) b) \<and> \<not> p_OK resp \<longrightarrow>
       r = Inr resp \<or> (\<exists>te. r = Inl te \<and> te_NeverSent te))"
  using fail_times_eq [OF assms, of n] after_send_declined by blast

lemma promotion_threshold_witness:
  "\<not> fs_promoted (fail_times 2 ((NewForwardStore (\<lambda>_. None) [])\<lparr>fs_promote := True\<rparr>)) \<and>
   fs_promoted (fail_times 3 ((NewForwardStore (\<lambda>_. None) [])\<lparr>fs_promote := True\<rparr>))"
  using promotion_threshold [of "(NewForwardStore (\<lambda>_. None) [])\<lparr>fs_promote := True\<rparr>"]
  by (simp add: NewForwardStore_def defaultPromoteAfter_def)

text \<open>
  C27: Switching promotion off does not end it at once. A request that was sent while the node was
  promoted is still answered from the cache after \<open>Configure\<close> has returned, and leaves its write in
  the cache that \<open>Configure\<close> emptied.
\<close>

lemma promotion_outlives_its_switch:
  assumes "fs_leader s = Some c" and "fs_promoted s" and "q_Kind req = Write"
    and "cf_Promote cfg = Some False" and "cf_PromoteAfter cfg = None" and "cf_Leader cfg = None"
  shows "\<exists>s1 Y. forward_Configure parse cfg s = (None, s1) \<and> plain s1 \<and>
    forward_runs parse (\<lambda>x. x = cfg) \<lparr>fy_node = s1, fy_requests = [Sent req c True]\<rparr> Y \<and>
    fy_requests Y = [Answer (Inr WriteOK) True] \<and> fs_cache (fy_node Y) \<noteq> Map.empty"
  by (rule served_after_switching_off [OF assms(1,2,4-6,3)])

lemma promotion_outlives_its_switch_witness:
  "\<exists>Y :: forward_system. fy_requests Y = [Answer (Inr WriteOK) True] \<and> fs_cache (fy_node Y) \<noteq> Map.empty"
proof -
  let ?c = "\<lparr>cl_addr = [], cl_base = [], cl_refuse = None\<rparr>"
  let ?s = "(NewForwardStore (\<lambda>_. None) [])\<lparr>fs_leader := Some ?c, fs_promote := True, fs_promoted := True\<rparr>"
  let ?cfg = "\<lparr>cf_Leader = None, cf_Peers = None, cf_Sync = None, cf_Promote = Some False, cf_PromoteAfter = None\<rparr>"
  have "\<exists>s1 Y. forward_Configure (\<lambda>_. None) ?cfg ?s = (None, s1) \<and> plain s1 \<and>
      forward_runs (\<lambda>_. None) (\<lambda>x. x = ?cfg) \<lparr>fy_node = s1, fy_requests = [Sent sample_write ?c True]\<rparr> Y \<and>
      fy_requests Y = [Answer (Inr WriteOK) True] \<and> fs_cache (fy_node Y) \<noteq> Map.empty"
    by (rule promotion_outlives_its_switch) (simp_all add: sample_write_def)
  then show ?thesis by blast
qed

text \<open>
  The gossiping store converges: two nodes that have taken in the same updates, in any order and
  any number of times, hold the same data, provided no version names two different updates.
\<close>

lemma quorum_converges:
  assumes "\<forall>u \<in> set us. \<forall>v \<in> set us. consistent u v" and "set us = set vs"
  shows "fold take_update us d = fold take_update vs d"
  by (rule gossip.agree [OF assms])

lemma quorum_converges_witness:
  "fold take_update [\<lparr>rp_Key = ''a'', rp_Value = 1, rp_Stamp = 5, rp_Node = ''n1''\<rparr>,
     \<lparr>rp_Key = ''a'', rp_Value = 2, rp_Stamp = 5, rp_Node = ''n2''\<rparr>] Map.empty =
   fold take_update [\<lparr>rp_Key = ''a'', rp_Value = 2, rp_Stamp = 5, rp_Node = ''n2''\<rparr>,
     \<lparr>rp_Key = ''a'', rp_Value = 1, rp_Stamp = 5, rp_Node = ''n1''\<rparr>,
     \<lparr>rp_Key = ''a'', rp_Value = 2, rp_Stamp = 5, rp_Node = ''n2''\<rparr>] Map.empty"
  by (rule quorum_converges) (auto simp: consistent_def version_def entry_of_def)

text \<open>
  C28: Its nodes come to agree. In any run of the gossiping store, asynchronous or not, whatever posts
  were lost or delayed, whichever nodes were configured again or shut down, and however the wall
  clocks drift and clients overlap: once every update has reached every node, all nodes hold the same
  data, that of all updates taken in. The nodes need names of their own, and the wall clocks room for
  one more stamp per request.
\<close>

lemma gossip_agrees:
  assumes "gossip_reach parse home clk latest ready rough (gossip_start parse sync plan) W"
    and "distinct (map fst plan)" and "[] \<notin> fst ` set plan" and "latest + int (length (gs_calls W)) < max_int64"
    and "spread home W" and "n < length plan"
  shows "qn_data (gs_nodes W ! n) = merged W"
proof -
  have "gossip_ok home latest W" by (rule gossip_ok_reach [OF assms(1) gossip_ok_start [OF assms(2,3)] assms(4)])
  moreover have "n < length (gs_nodes W)" using nodes_reach [OF assms(1)] assms(6) by (simp add: gossip_start_def)
  moreover from this have "set (made W) \<subseteq> seen home W n" using assms(5) unfolding spread_def by blast
  ultimately show ?thesis by (rule informed_node)
qed

lemma gossip_agrees_witness:
  "qn_data (gs_nodes hasty_run ! 0) = merged hasty_run \<and> qn_data (gs_nodes hasty_run ! 1) = merged hasty_run"
  by (intro conjI; rule gossip_agrees [OF sample_reaches(1)])
    (simp_all add: pair_plan_def hasty_run_spread hasty_run_calls max_int64_def)

text \<open>
  C29: And agreement comes. From every state that a run leads to in which no post fails, no client
  gives up and no node is configured again, the cluster can come to rest without another request:
  a run of hand-overs, workers and deliveries ends with every node holding what all updates made so
  far leave. In asynchronous mode at most as many requests were made as a queue holds, so none was
  dropped.
\<close>

lemma gossip_settles:
  assumes "gossip_reach parse home clk latest ready False (gossip_start parse sync plan) W"
    and "sound_plan parse plan" and "full_mesh home plan" and "addresses_lead home plan"
    and "latest + int (length (gs_calls W)) < max_int64" and "sync \<or> length (gs_calls W) \<le> fanoutQueue"
  shows "\<exists>W'. gossip_reach parse home clk latest (\<lambda>_. False) False W W' \<and> made W' = made W \<and>
    (\<forall>n < length plan. qn_data (gs_nodes W' ! n) = merged W)"
  by (rule gossip_settle [OF assms])

lemma gossip_settles_witness:
  "qn_data (gs_nodes queued_run ! 1) ''k0'' = None \<and>
   (\<exists>W'. gossip_reach at_host pair_home sample_clock 9 (\<lambda>_. False) False queued_run W' \<and>
      qn_data (gs_nodes W' ! 1) ''k0'' = Some \<lparr>qe_value = 7, qe_stamp = 1, qe_node = ''n1''\<rparr>)"
proof -
  have "\<exists>W'. gossip_reach at_host pair_home sample_clock 9 (\<lambda>_. False) False queued_run W' \<and> made W' = made queued_run \<and>
      (\<forall>n < length pair_plan. qn_data (gs_nodes W' ! n) = merged queued_run)"
    by (rule gossip_settles [OF queued_run_reach pair_plan_sound pair_addresses_lead])
      (simp_all add: queued_run_state max_int64_def fanoutQueue_def)
  then show ?thesis using queued_run_state by (auto simp: pair_plan_def)
qed

text \<open>
  A node's own write beats what it held, so it is an update its peers take in as the node
  itself did, and a read of the node returns it; short of the largest stamp.
\<close>

lemma own_write_wins:
  assumes "quorum_Apply now req s = (WriteOK, Some (f, sy, u), s')" and "q_Kind req = Write"
    and "\<And>held. qn_data s (q_Key req) = Some held \<Longrightarrow> qe_stamp held < max_int64 \<and> min_int64 \<le> qe_stamp held"
  shows "qn_data s' = take_update u (qn_data s) \<and>
    qe_value (quorum_get (qn_data s') (q_Key req)) = q_Value req"
proof -
  from assms(1,2) have "local_write now (q_Key req) (q_Value req) s = ((f, sy, u), s')"
    by (auto simp: quorum_Apply_def split: prod.splits)
  from local_write_dominates [OF this assms(3)] show ?thesis
    by (simp add: quorum_get_def entry_of_def)
qed

lemma own_write_wins_witness:
  "\<exists>u s'. quorum_Apply 9 sample_write (NewQuorumStore ''n'' []) = (WriteOK, Some (0, False, u), s') \<and>
    qe_value (quorum_get (qn_data s') ''k0'') = 7"
proof -
  obtain u s' where a: "quorum_Apply 9 sample_write (NewQuorumStore ''n'' []) = (WriteOK, Some (0, False, u), s')"
    by (simp add: quorum_Apply_def local_write_def sample_write_def NewQuorumStore_def Let_def)
  have "qn_data s' = take_update u (qn_data (NewQuorumStore ''n'' [])) \<and>
      qe_value (quorum_get (qn_data s') (q_Key sample_write)) = q_Value sample_write"
    by (rule own_write_wins [OF a]) (simp_all add: sample_write_def NewQuorumStore_def)
  with a show ?thesis by (auto simp: sample_write_def)
qed

section \<open>The network\<close>

text \<open>
  C30: At every moment of a link's life, whatever faults are set and however its goroutines
  interleave: a closed link owns no socket and does not listen, a refusing link does not listen,
  and both sockets of every connection still being served are registered or already cut, so that
  the next teardown leaves none behind.
\<close>

lemma link_never_leaks:
  assumes "link_reach name target r"
  shows "(l_closed (lr_link r) \<longrightarrow> conns (lr_link r) = [] \<and> \<not> listening (lr_link r)) \<and>
    (l_fault (lr_link r) = Refuse \<longrightarrow> \<not> listening (lr_link r)) \<and>
    (\<forall>c t. lr_handlers r c = Some (Proxying t) \<longrightarrow> {c, t} \<subseteq> owned (conns (lr_link r)) \<union> set (shut (lr_link r))) \<and>
    (\<forall>f k c t. f \<in> {Reset, Refuse} \<and> \<not> l_closed (lr_link r) \<and> lr_handlers r c = Some (Proxying t) \<longrightarrow>
       {c, t} \<subseteq> set (shut (Set k f (lr_link r))))"
proof -
  from link_reach_inv [OF assms] have inv_r: "link_inv r" .
  have both: "{c, t} \<subseteq> owned (conns (lr_link r)) \<union> set (shut (lr_link r))"
    if "lr_handlers r c = Some (Proxying t)" for c t
    using inv_r that by (auto simp: link_inv_def known_def live_def)
  have "set (shut (lr_link r)) \<subseteq> set (shut (Set k f (lr_link r)))" for k f
    by (rule Set_shut)
  with both Set_cuts(2) have "{c, t} \<subseteq> set (shut (Set k f (lr_link r)))"
    if "f \<in> {Reset, Refuse}" "\<not> l_closed (lr_link r)" "lr_handlers r c = Some (Proxying t)" for f k c t
    using that by fast
  with both inv_r show ?thesis by (auto simp: link_inv_def link_ok_def)
qed

lemma link_never_leaks_witness:
  "\<not> listening (Set True Refuse sample_link)"
proof -
  let ?r = "\<lparr>lr_link = sample_link, lr_handlers = Map.empty, lr_flight = []\<rparr>"
  have "link_step ?r (?r\<lparr>lr_link := Set True Refuse (lr_link ?r)\<rparr>)" by (rule link_step.set_fault)
  moreover have "link_start ''c0'' ''node'' ?r" by (simp add: link_start_def sample_link_def NewLink_def)
  ultimately have "link_reach ''c0'' ''node'' (?r\<lparr>lr_link := Set True Refuse (lr_link ?r)\<rparr>)"
    unfolding link_reach_def by blast
  from link_never_leaks [OF this] show ?thesis by (simp add: Set_fault sample_link_def)
qed

text \<open>
  A link that drops, resets or refuses forwards nothing new: while such a fault stays in force
  the bytes that reach either side never exceed those that were already past it when it began.
\<close>

lemma blackhole_is_silent:
  assumes "link_reach name target r" and "silent_step\<^sup>*\<^sup>* r r'"
  shows "bytesForward (lr_link r') + bytesBack (lr_link r') \<le>
    bytesForward (lr_link r) + bytesBack (lr_link r) + sum_list (map (\<lambda>x. snd (snd x)) (lr_flight r))"
  using silent_run [OF link_reach_inv [OF assms(1)] assms(2)] by (simp add: potential_def)

lemma blackhole_is_silent_witness:
  "bytesForward (Set True Reset (Set True Drop sample_link)) \<le> 0"
proof -
  let ?r = "\<lparr>lr_link = sample_link, lr_handlers = Map.empty, lr_flight = []\<rparr>"
  let ?r1 = "?r\<lparr>lr_link := Set True Drop (lr_link ?r)\<rparr>"
  have "link_step ?r ?r1" by (rule link_step.set_fault)
  moreover have "link_start ''c0'' ''node'' ?r" by (simp add: link_start_def sample_link_def NewLink_def)
  ultimately have reach: "link_reach ''c0'' ''node'' ?r1" unfolding link_reach_def by blast
  have "silent_step ?r1 (?r1\<lparr>lr_link := Set True Reset (lr_link ?r1)\<rparr>)"
    by (rule silent_step.silent [OF link_step.set_fault]) (simp_all add: Set_fault sample_link_def blackhole_def)
  then have "silent_step\<^sup>*\<^sup>* ?r1 (?r1\<lparr>lr_link := Set True Reset (lr_link ?r1)\<rparr>)" by blast
  from blackhole_is_silent [OF reach this] show ?thesis by (simp add: same_bytes sample_link_def)
qed

text \<open>
  C31: The nemesis always heals. However far it got when its context ended, every link it holds
  passes again, listens again where its port can be reclaimed, and what it recorded is what fired,
  in order, with the closing heal last.
\<close>

lemma nemesis_heals:
  assumes "follows n w" and "nm_sched n = Some s" and "nm_applied n = []"
    and "nm_links (nemesis_Run True ats since n) name = Some l"
  shows "l_fault l = Pass \<and> listening l \<and>
    nm_applied (nemesis_Run True ats since n) =
      map landed (filter (\<lambda>p. held n (fst p)) (zip (sc_events s) ats)) @ [event since allLinks Pass 0]"
  using run_healed(1) [OF assms(1), of True ats since] run_listens [OF assms(1,4)] run_applied [OF assms(2)] assms(3,4)
  by (auto simp: follows_def)

lemma nemesis_heals_witness:
  "\<exists>l. nm_links (nemesis_Run True [5] 9 (NewNemesis [''c0'' \<mapsto> sample_link]
      (Some \<lparr>sc_kind = ''custom'', sc_seed = 0, sc_dur = 20, sc_events = [event 4 ''c0'' Drop 0, event 8 ''c0'' Pass 0]\<rparr>))) ''c0'' = Some l \<and>
    l_fault l = Pass \<and> listening l"
proof -
  let ?s = "\<lparr>sc_kind = ''custom'', sc_seed = 0, sc_dur = 20, sc_events = [event 4 ''c0'' Drop 0, event 8 ''c0'' Pass 0]\<rparr>"
  let ?n = "NewNemesis [''c0'' \<mapsto> sample_link] (Some ?s)"
  have f: "follows ?n calm" by (auto simp: follows_def NewNemesis_def sample_link_def split: if_splits)
  have "''c0'' \<in> dom (nm_links (nemesis_Run True [5] 9 ?n))"
    unfolding run_healed(2) [OF f] by (simp add: NewNemesis_def)
  then obtain l where l: "nm_links (nemesis_Run True [5] 9 ?n) ''c0'' = Some l" by blast
  from nemesis_heals [OF f _ _ l] l show ?thesis by (simp add: NewNemesis_def)
qed

section \<open>Schedules\<close>

text \<open>
  C32: For every seed, \<open>Generate\<close> returns. For the names of the four generators it gives a schedule of
  that name, seed and length with that generator's faults only, which \<open>NewNamedSchedule\<close> would take
  unchanged, which leaves the network whole at its end and at no moment has dropped every link at
  once; and over 4 ms and two links every generator but the healthy one brings a fault. For any other
  name it gives the error that says so.
\<close>

lemma generated_schedules_are_sound:
  assumes "distinct links" and "allLinks \<notin> set links"
  shows "(\<forall>(kind, faults) \<in> {(''healthy'', {}), (''partition'', {Drop}), (''flaky'', {Reset, Refuse, Delay}),
        (''chaos'', {Drop, Reset, Refuse, Delay})}.
      \<exists>s. Generate pcg kind links seed d = Some (Inr s) \<and> sc_kind s = kind \<and> sc_seed s = seed \<and> sc_dur s = d \<and>
        (\<forall>e \<in> set (sc_events s). ev_Fault e \<in> insert Pass faults) \<and>
        (0 \<le> d \<longrightarrow> NewNamedSchedule kind seed links d (sc_events s) = Inr s) \<and>
        weather (sc_events s) calm = calm \<and>
        (\<forall>n. links \<noteq> [] \<longrightarrow> (\<exists>l \<in> set links. weather (take n (sc_events s)) calm l \<noteq> Drop)) \<and>
        (ms 4 \<le> d \<and> 2 \<le> length links \<and> kind \<noteq> ''healthy'' \<longrightarrow> (\<exists>e \<in> set (sc_events s). ev_Fault e \<noteq> Pass))) \<and>
    (\<forall>kind. kind \<notin> {''healthy'', ''partition'', ''flaky'', ''chaos''} \<longrightarrow>
      Generate pcg kind links seed d = Some (Inl (UnknownKind kind)))"
proof -
  have known: "\<exists>s. Generate pcg kind links seed d = Some (Inr s) \<and> sc_kind s = kind \<and> sc_seed s = seed \<and> sc_dur s = d \<and>
      (\<forall>e \<in> set (sc_events s). ev_Fault e \<in> insert Pass faults) \<and>
      (0 \<le> d \<longrightarrow> NewNamedSchedule kind seed links d (sc_events s) = Inr s) \<and>
      weather (sc_events s) calm = calm \<and>
      (\<forall>n. links \<noteq> [] \<longrightarrow> (\<exists>l \<in> set links. weather (take n (sc_events s)) calm l \<noteq> Drop)) \<and>
      (ms 4 \<le> d \<and> 2 \<le> length links \<and> kind \<noteq> ''healthy'' \<longrightarrow> (\<exists>e \<in> set (sc_events s). ev_Fault e \<noteq> Pass))"
    if "(kind, faults) \<in> set known_kinds" for kind faults
  proof -
    from Generate_ok [OF assms that, of pcg seed d] obtain s where s: "Generate pcg kind links seed d = Some (Inr s)"
      "schedule_ok links s" "sc_kind s = kind" "sc_seed s = seed" "sc_dur s = d"
      "\<forall>e \<in> set (sc_events s). ev_Fault e \<in> insert Pass faults"
      "ms 4 \<le> d \<and> 2 \<le> length links \<and> faults \<noteq> {} \<longrightarrow> (\<exists>e \<in> set (sc_events s). ev_Fault e \<noteq> Pass)" by blast
    have "kind \<noteq> ''healthy'' \<longrightarrow> faults \<noteq> {}" using that by (auto simp: known_kinds_def)
    with s schedule_ok_accepted [OF s(2)] show ?thesis
      by (intro exI [of _ s]) (auto simp: schedule_ok_def spares_def)
  qed
  have kinds: "{(''healthy'', {}), (''partition'', {Drop}), (''flaky'', {Reset, Refuse, Delay}),
      (''chaos'', {Drop, Reset, Refuse, Delay})} = set known_kinds" by (simp add: known_kinds_def)
  show ?thesis
    unfolding kinds Ball_def [of "set known_kinds"] split_paired_All prod.case
    by (rule conjI, intro allI impI, erule known, intro allI impI, rule Generate_unknown)
      (simp add: known_kinds_def)
qed

lemma generated_schedules_are_sound_witness:
  "\<exists>s. Generate (\<lambda>_ _ k. k) ''flaky'' [''c0'', ''c1''] 1 (ms 4000) = Some (Inr s) \<and> weather (sc_events s) calm = calm \<and>
    (\<exists>e \<in> set (sc_events s). ev_Fault e \<noteq> Pass)"
proof -
  have "distinct [''c0'', ''c1'']" "allLinks \<notin> set [''c0'', ''c1'']" by (simp_all add: allLinks_def)
  from generated_schedules_are_sound [OF this, of "\<lambda>_ _ k. k" 1 "ms 4000"]
  have "\<exists>s. Generate (\<lambda>_ _ k. k) ''flaky'' [''c0'', ''c1''] 1 (ms 4000) = Some (Inr s) \<and>
      weather (sc_events s) calm = calm \<and>
      (ms 4 \<le> ms 4000 \<and> 2 \<le> length [''c0'', ''c1''] \<and> ''flaky'' \<noteq> ''healthy'' \<longrightarrow>
        (\<exists>e \<in> set (sc_events s). ev_Fault e \<noteq> Pass))"
    by (elim conjE) (drule bspec [where x = "(''flaky'', {Reset, Refuse, Delay})"], simp, unfold prod.case, blast)
  then show ?thesis by (auto simp: ms_def)
qed

text \<open>
  C33: For every seed whose draws do not withhold a proper subset for ever, the partition timeline of a
  cluster is built and accepted: every event is of a link of the cluster and falls between the warm-up
  and the tail, and the network is whole at the end. Never are the clients of two nodes stranded at
  once, and while those of one are, another node on its side of the cut still answers its own. If the
  run has any length there is a moment at which some of the nodes, and not all, are cut off: the hops
  between them and the rest carry the fault, and no other hop between nodes does.
\<close>

lemma partition_schedules_are_sound:
  assumes "BuildTopology listens addrs peers = Some (Inr t)" and "2 \<le> length addrs"
    and "f \<in> {Drop, Refuse}" and "mixed (pcg seed 0x5EED) (length addrs)" and "0 \<le> d"
  shows "\<exists>s. PartitionSchedule pcg t seed d f = Some (Inr s) \<and>
    weather (sc_events s) calm = calm \<and>
    (\<forall>e \<in> set (sc_events s). ev_Link e \<in> dom (Links t) \<union> {allLinks} \<and>
       d div 8 \<le> ev_At e \<and> ev_At e \<le> d - d div 8) \<and>
    (\<forall>n. \<forall>i < length addrs. weather (take n (sc_events s)) calm (clientLinkName i) \<noteq> Pass \<longrightarrow>
       (\<forall>j < length addrs. j \<noteq> i \<longrightarrow> weather (take n (sc_events s)) calm (clientLinkName j) = Pass) \<and>
       (\<exists>j < length addrs. j \<noteq> i \<and> weather (take n (sc_events s)) calm (peerLinkName i j) = Pass \<and>
          weather (take n (sc_events s)) calm (peerLinkName j i) = Pass)) \<and>
    (0 < d \<and> peers \<longrightarrow> (\<exists>n isolated. isolated \<noteq> [] \<and> set isolated \<subset> {..<length addrs} \<and>
       (\<forall>i < length addrs. \<forall>j < length addrs. i \<noteq> j \<longrightarrow>
          weather (take n (sc_events s)) calm (peerLinkName i j) =
            (if (i \<in> set isolated) \<noteq> (j \<in> set isolated) then f else Pass))))"
proof -
  note B = BuildTopology_ok [OF assms(1)]
  from PartitionSchedule_ok [OF B(1), of f pcg seed d] assms B(2) obtain s
    where s: "PartitionSchedule pcg t seed d f = Some (Inr s)" "schedule_ok (t_names t) s"
      "always_observed t (sc_events s)" "0 < d \<longrightarrow> cut_off t f (sc_events s)"
      "\<forall>e \<in> set (sc_events s). d div 8 \<le> ev_At e \<and> ev_At e \<le> d - d div 8" by auto
  have pairs: "(i, j) \<in> fst ` set (t_peer t)" if "peers" "i < length addrs" "j < length addrs" "i \<noteq> j" for i j
  proof -
    have "(i, j) \<in> set (map fst (t_peer t))" unfolding B(3) using that by simp
    then show ?thesis by simp
  qed
  have cut: "\<exists>n isolated. isolated \<noteq> [] \<and> set isolated \<subset> {..<length addrs} \<and>
      (\<forall>i < length addrs. \<forall>j < length addrs. i \<noteq> j \<longrightarrow> weather (take n (sc_events s)) calm (peerLinkName i j) =
        (if (i \<in> set isolated) \<noteq> (j \<in> set isolated) then f else Pass))" if "0 < d \<and> peers"
  proof -
    from s(4) that obtain n isolated where c: "isolated \<noteq> []" "set isolated \<subset> {..<length addrs}"
      "\<forall>(i, j) \<in> fst ` set (t_peer t). weather (take n (sc_events s)) calm (peerLinkName i j) =
        (if (i \<in> set isolated) \<noteq> (j \<in> set isolated) then f else Pass)" unfolding cut_off_def B(2) by blast
    have "weather (take n (sc_events s)) calm (peerLinkName i j) =
        (if (i \<in> set isolated) \<noteq> (j \<in> set isolated) then f else Pass)"
      if "i < length addrs" "j < length addrs" "i \<noteq> j" for i j
      using bspec [OF c(3) pairs [OF _ that]] \<open>0 < d \<and> peers\<close> by simp
    with c(1,2) show ?thesis by blast
  qed
  have calm: "weather (sc_events s) calm = calm" using s(2) by (simp add: schedule_ok_def)
  have links: "\<forall>e \<in> set (sc_events s). ev_Link e \<in> dom (Links t) \<union> {allLinks} \<and> d div 8 \<le> ev_At e \<and> ev_At e \<le> d - d div 8"
    using s(2,5) dom_Links [OF B(1)] by (auto simp: schedule_ok_def event_ok_def)
  note observed = s(3) [unfolded always_observed_def observed_def B(2)]
  show ?thesis
    by (rule exI [of _ s], intro conjI, rule s(1), rule calm, rule links, rule observed, rule impI, erule cut)
qed

lemma partition_schedules_are_sound_witness:
  "\<exists>t s. PartitionSchedule (\<lambda>_ _ k. k) t 1 (ms 4000) Drop = Some (Inr s) \<and> weather (sc_events s) calm = calm \<and>
    (\<exists>n i j. weather (take n (sc_events s)) calm (peerLinkName i j) = Drop)"
proof -
  have "BuildTopology (\<lambda>_. True) [''a'', ''b''] True \<noteq> None" by (simp add: build_return_def BuildTopology_def NewLink_def Let_def)
  then obtain t where t: "BuildTopology (\<lambda>_. True) [''a'', ''b''] True = Some (Inr t)"
    using BuildTopology_never_errors by (cases "BuildTopology (\<lambda>_. True) [''a'', ''b''] True") (metis not_None_eq obj_sumE)+
  have m: "mixed (\<lambda>k. k) (length [''a'', ''b''])" by (rule mixed_counting) simp
  from partition_schedules_are_sound [OF t, of Drop "\<lambda>_ _ k. k" 1 "ms 4000"] m obtain s n and isolated :: "nat list"
    where s: "PartitionSchedule (\<lambda>_ _ k. k) t 1 (ms 4000) Drop = Some (Inr s)" "weather (sc_events s) calm = calm"
      and iso: "isolated \<noteq> []" "set isolated \<subset> {..<2}"
      and w: "\<forall>i < 2. \<forall>j < 2. i \<noteq> j \<longrightarrow> weather (take n (sc_events s)) calm (peerLinkName i j) =
        (if (i \<in> set isolated) \<noteq> (j \<in> set isolated) then Drop else Pass)"
    by (auto simp: ms_def numeral_2_eq_2)
  from iso obtain i j where "i \<in> set isolated" "i < 2" "j \<notin> set isolated" "j < (2 :: nat)"
    by (cases isolated) auto
  with w have "weather (take n (sc_events s)) calm (peerLinkName i j) = Drop" by (metis (no_types))
  with s show ?thesis by blast
qed

text \<open>
  C34: A topology that cannot be built is not reported, it panics: \<open>BuildTopology\<close> sets its result to
  nil on the way out and then closes that nil. One hop that cannot be opened is enough, in front of a
  node or between two, and nothing else makes it panic.
\<close>

lemma BuildTopology_panics:
  "BuildTopology listens addrs peers = None \<longleftrightarrow>
     (\<exists>i < length addrs. addrs ! i = [] \<or> \<not> listens (clientLinkName i)) \<or>
     peers \<and> (\<exists>i < length addrs. \<exists>j < length addrs. i \<noteq> j \<and> (addrs ! j = [] \<or> \<not> listens (peerLinkName i j)))"
  unfolding BuildTopology_outcomes BuildTopology_opens opens_def by auto

lemma BuildTopology_panics_witness:
  "BuildTopology (\<lambda>name. name \<noteq> peerLinkName 1 0) [''127.0.0.1:9001'', ''127.0.0.1:9002''] True = None"
  unfolding BuildTopology_panics by (rule disjI2, rule conjI, rule TrueI, rule exI [of _ 1]) (simp, rule exI [of _ 0], simp)

section \<open>The harness\<close>

text \<open>
  C35: The operation generator returns for every configuration \<open>Validate\<close> lets through, provided no
  value is drawn for ever, and what it returns is a request on one of the run's keys, of the kind its
  second draw names (35 in a hundred are reads, 35 writes, 30 compare-and-swaps). A write's value is in
  the domain. A compare-and-swap moves to a different value of the domain, from the value its client
  last saw or one of the domain and the initial zero, and from the former unless its third draw says
  otherwise. The fields a kind has no use for are zero.
\<close>

lemma generated_requests_are_sound:
  assumes "Config_Validate c = None" and "varied draws (cfg_ValueMax c)"
  shows "\<exists>r k'. generate_op (draws, k) (run_keys (nat (cfg_Keys c))) believed (cfg_ValueMax c) = Some (r, (draws, k')) \<and>
    q_Key r \<in> set (run_keys (nat (cfg_Keys c))) \<and>
    q_Kind r = (if draws (k + 1) mod 100 < 35 then Read else if draws (k + 1) mod 100 < 70 then Write else CAS) \<and>
    (q_Kind r = Write \<longrightarrow> 1 \<le> q_Value r \<and> q_Value r \<le> cfg_ValueMax c) \<and>
    (q_Kind r \<noteq> Write \<longrightarrow> q_Value r = 0) \<and>
    (q_Kind r = CAS \<longrightarrow> q_From r \<noteq> q_To r \<and> 1 \<le> q_To r \<and> q_To r \<le> cfg_ValueMax c \<and>
       (believed (q_Key r) = Some (q_From r) \<or> 0 \<le> q_From r \<and> q_From r < cfg_ValueMax c) \<and>
       (\<forall>b. believed (q_Key r) = Some b \<and> draws (k + 2) mod 10 \<noteq> 0 \<longrightarrow> q_From r = b)) \<and>
    (q_Kind r \<noteq> CAS \<longrightarrow> q_From r = 0 \<and> q_To r = 0)"
proof -
  let ?keys = "run_keys (nat (cfg_Keys c))"
  from assms(1) have "?keys \<noteq> []" "0 < cfg_ValueMax c"
    by (auto simp: Config_Validate_None run_keys_def)
  from generate_op_ok [OF assms(2) this, of k believed] obtain r k'
    where g: "generate_op (draws, k) ?keys believed (cfg_ValueMax c) = Some (r, (draws, k'))"
      and r: "request_in ?keys (cfg_ValueMax c) r" "expects believed (cfg_ValueMax c) r" by blast
  note d = generate_op_draws [OF g]
  from r d(3) have "q_Key r \<in> set ?keys"
    "q_Kind r = Write \<longrightarrow> 1 \<le> q_Value r \<and> q_Value r \<le> cfg_ValueMax c" "q_Kind r \<noteq> Write \<longrightarrow> q_Value r = 0"
    "q_Kind r = CAS \<longrightarrow> q_From r \<noteq> q_To r \<and> 1 \<le> q_To r \<and> q_To r \<le> cfg_ValueMax c \<and>
       (believed (q_Key r) = Some (q_From r) \<or> 0 \<le> q_From r \<and> q_From r < cfg_ValueMax c) \<and>
       (\<forall>b. believed (q_Key r) = Some b \<and> draws (k + 2) mod 10 \<noteq> 0 \<longrightarrow> q_From r = b)"
    "q_Kind r \<noteq> CAS \<longrightarrow> q_From r = 0 \<and> q_To r = 0"
    by (auto simp: request_in_def expects_def)
  with g d(2) [unfolded Suc_eq_plus1] show ?thesis by blast
qed

lemma generated_requests_are_sound_witness:
  "\<exists>r k'. generate_op ((\<lambda>k. k), 3) (run_keys 4) Map.empty 1000000 = Some (r, ((\<lambda>k. k), k'))"
proof -
  let ?c = "WithDefaults \<lparr>cfg_Clients = 0, cfg_Keys = 0, cfg_Duration = 0, cfg_MaxOps = 0, cfg_OpTimeout = 0,
    cfg_ThinkMax = 0, cfg_ThinkMaxSet = False, cfg_ValueMax = 0, cfg_Faults = [], cfg_Seed = 1, cfg_Quiesce = 0,
    cfg_QuiesceSet = False, cfg_KeepAlive = False\<rparr>"
  have "Config_Validate ?c = None" by (simp add: Validate_WithDefaults)
  moreover have "varied (\<lambda>k. k) (cfg_ValueMax ?c)" by (rule varied_counting) (simp add: WithDefaults_sel)
  ultimately have "\<exists>r k'. generate_op ((\<lambda>k. k), 3) (run_keys (nat (cfg_Keys ?c))) Map.empty (cfg_ValueMax ?c) = Some (r, ((\<lambda>k. k), k'))"
    using generated_requests_are_sound by blast
  then show ?thesis by (simp add: WithDefaults_sel)
qed

text \<open>
  C38: The books of a run keep what \<open>Validate\<close> will demand: no two clients share a process, a
  process with an indeterminate operation never issues another, the quiescent phase included, and
  every process is entered with its node.
\<close>

lemma processes_are_retired:
  assumes "run_books n clients maxOps b"
  shows "distinct (map cl_proc (b_clients b)) \<and> retires (b_ops b) \<and>
    (\<forall>op \<in> set (b_ops b). Outcome op = Info \<longrightarrow> Process op \<notin> cl_proc ` set (b_clients b)) \<and>
    (\<forall>op \<in> set (b_ops b). b_nodes b (Process op) \<noteq> None)"
  using run_books_inv [OF assms] by (auto simp: books_inv_def procs_def)

lemma processes_are_retired_witness:
  "distinct (map cl_proc (b_clients (open_books 3 6)))"
proof -
  have "run_books 3 6 0 (open_books 3 6)" by (auto simp: run_books_def)
  from processes_are_retired [OF this] show ?thesis by blast
qed

text \<open>
  \<open>MaxOps\<close> is a cap give or take the clients: the look at the count and the count itself are
  two steps, so a run begins at most one operation per client, less one, beyond it.
\<close>

lemma operation_cap:
  assumes "(book_step maxOps)\<^sup>*\<^sup>* (open_books n clients) b" and "0 < clients" and "0 < maxOps"
  shows "b_count b \<le> maxOps + int clients - 1"
  by (rule run_cap [OF assms])

lemma operation_cap_witness:
  "b_count (open_books 3 6) \<le> 10 + int 6 - 1"
  by (rule operation_cap [of 10 3]) auto

section \<open>The tools\<close>

text \<open>
  C14: The exit status of \<open>splitbrain check\<close> is the verdict. The command returns for every file of
  64-bit operations none of which is invoked at the last instant, and its status is 0, 1 or 2. Where
  it is not 2, the one file given was a valid history, the checker decided it, and the status is 0
  or 1 as the verdict agrees with \<open>-expect\<close> or not. So under \<open>-expect linearizable\<close> a 0 means every
  key of the file linearizes, and a 1 that some key does not.
\<close>

lemma check_exit_status:
  assumes "\<And>h. loaded io paths h \<Longrightarrow> (\<forall>op \<in> set h. int64_op op) \<and> before_pending h"
  shows "\<exists>e. cmdCheck seed late io f paths = Some (Ret e) \<and> exit_status e \<in> {0, 1, 2} \<and>
    (exit_status e \<noteq> 2 \<longrightarrow> (\<exists>m h r. ByName (kf_model f) = Inr m \<and> loaded io paths h \<and> valid_history h \<and>
       verdict_means m (DropFailed h) r \<and> r_Verdict r \<noteq> Unknown \<and> known_expectation (kf_expect f) \<and>
       exit_status e = (if meets (kf_expect f) (r_Verdict r) then 0 else 1))) \<and>
    (wanted (kf_expect f) = ''linearizable'' \<and> exit_status e \<noteq> 2 \<longrightarrow>
       (\<exists>m h. ByName (kf_model f) = Inr m \<and> loaded io paths h \<and>
         (exit_status e = 0 \<longleftrightarrow> (\<forall>k \<in> set (Keys (DropFailed h)). linearizable m (ByKey (DropFailed h) k)))))"
proof -
  obtain e where e: "cmdCheck seed late io f paths = Some (Ret e)"
    using cmdCheck_returns [of io paths seed late f] assms by blast
  have range: "exit_status e \<in> {0, 1, 2}" by (auto simp: exit_status_def split: option.split cli_error.split)
  have decided: "exit_status e \<noteq> 2 \<longrightarrow> (\<exists>m h r. ByName (kf_model f) = Inr m \<and> loaded io paths h \<and> valid_history h \<and>
      verdict_means m (DropFailed h) r \<and> r_Verdict r \<noteq> Unknown \<and> known_expectation (kf_expect f) \<and>
      exit_status e = (if meets (kf_expect f) (r_Verdict r) then 0 else 1))"
    using cmdCheck_means [OF e _ assms] by blast
  have "wanted (kf_expect f) = ''linearizable'' \<and> exit_status e \<noteq> 2 \<longrightarrow>
      (\<exists>m h. ByName (kf_model f) = Inr m \<and> loaded io paths h \<and>
        (exit_status e = 0 \<longleftrightarrow> (\<forall>k \<in> set (Keys (DropFailed h)). linearizable m (ByKey (DropFailed h) k))))"
  proof
    assume w: "wanted (kf_expect f) = ''linearizable'' \<and> exit_status e \<noteq> 2"
    with decided obtain m h r where r: "ByName (kf_model f) = Inr m" "loaded io paths h"
      "verdict_means m (DropFailed h) r" "r_Verdict r \<noteq> Unknown"
      "exit_status e = (if meets (kf_expect f) (r_Verdict r) then 0 else 1)" by blast
    from w have "meets (kf_expect f) (r_Verdict r) \<longleftrightarrow> r_Verdict r = Linearizable" by (simp add: meets_def)
    with r verdict_means_iff [OF r(3,4)] show "\<exists>m h. ByName (kf_model f) = Inr m \<and> loaded io paths h \<and>
        (exit_status e = 0 \<longleftrightarrow> (\<forall>k \<in> set (Keys (DropFailed h)). linearizable m (ByKey (DropFailed h) k)))"
      by (intro exI [of _ m] exI [of _ h]) simp
  qed
  with e range decided show ?thesis by blast
qed

lemma check_exit_status_witness:
  "\<exists>e. cmdCheck (\<lambda>_. 0) (\<lambda>_. False) sample_files sample_check [''h.jsonl''] = Some (Ret e) \<and> exit_status e \<in> {0, 1, 2}"
  using check_exit_status [OF sample_loaded_ok, where seed = "\<lambda>_. 0" and late = "\<lambda>_. False" and f = sample_check] by blast

lemma status_swap:
  "(\<not> u \<Longrightarrow> m \<longleftrightarrow> \<not> k) \<Longrightarrow> (if u then 2 else if m then 1 else 0) = (if u then 2 else if k then 0 else (1 :: int))"
  by auto

text \<open>
  C15: The exit status of a sweep whose seeds all ran: the sweep ends, with 2 when a seed was left
  undecided, whatever was expected; else with 0 exactly when every seed agrees with \<open>-expect\<close>. Where
  \<open>-expect\<close> is no expectation at all, the sweep ends with 1, as if the store had contradicted it,
  though \<open>run\<close> and \<open>check\<close> refuse the same flag with 2. A range whose end is the last 64-bit number
  is accepted and never finished, since the seed wraps around.
\<close>

lemma sweep_exit_status:
  assumes "flags_validate f = None" and "parseRange seedsArg = Inr (lo, hi)"
    and "\<And>s. lo \<le> s \<Longrightarrow> s \<le> hi \<Longrightarrow> \<not> cancelled s \<and> (\<exists>v. seedRun s = Inr v \<and> proper v)"
  shows "(hi < max_int64 \<longrightarrow> (\<exists>e. cmdSweep f False seedsArg cancelled seedRun = Some e \<and> exit_status e =
      (if \<exists>s \<in> {lo..hi}. seedRun s = Inr Unknown then 2
       else if known_expectation (rf_expect f) \<and>
         (\<forall>s \<in> {lo..hi}. \<forall>v. seedRun s = Inr v \<longrightarrow> meets (rf_expect f) v) then 0 else 1))) \<and>
    (hi = max_int64 \<and> (\<forall>s. \<not> cancelled s \<and> (\<exists>v. seedRun s = Inr v)) \<longrightarrow>
       cmdSweep f False seedsArg cancelled seedRun = None) \<and>
    (\<not> known_expectation (rf_expect f) \<longrightarrow> (\<forall>v. exit_status (checkExpectation (rf_expect f) v) = 2))"
proof -
  have "lo \<le> hi" using parseRange_ordered [OF assms(2)] by blast
  with assms(3) [of lo] obtain v0 where v0: "seedRun lo = Inr v0" by auto
  let ?U = "\<exists>s \<in> {lo..hi}. seedRun s = Inr Unknown"
  let ?M = "\<exists>s v. lo \<le> s \<and> s \<le> hi \<and> seedRun s = Inr v \<and> mismatched (rf_expect f) v"
  let ?A = "\<forall>s \<in> {lo..hi}. \<forall>v. seedRun s = Inr v \<longrightarrow> meets (rf_expect f) v"
  have m: "?M \<longleftrightarrow> \<not> (known_expectation (rf_expect f) \<and> ?A)" if "\<not> ?U"
  proof (cases "known_expectation (rf_expect f)")
    case True
    with that show ?thesis unfolding mismatched_def by (metis atLeastAtMost_iff)
  next
    case False
    with v0 \<open>lo \<le> hi\<close> show ?thesis unfolding mismatched_def by auto
  qed
  have u: "?U \<longleftrightarrow> (\<exists>s. lo \<le> s \<and> s \<le> hi \<and> seedRun s = Inr Unknown)" by auto
  have "\<exists>e. cmdSweep f False seedsArg cancelled seedRun = Some e \<and> exit_status e = (if ?U then 2 else if ?M then 1 else 0)"
    if "hi < max_int64"
    unfolding u by (rule sweep_status) (use assms that in auto)
  note ran = this
  have eq: "(if ?U then 2 else if ?M then 1 else 0) =
      (if ?U then 2 else if known_expectation (rf_expect f) \<and> ?A then 0 else (1 :: int))"
    by (rule status_swap) (rule m)
  have "\<exists>e. cmdSweep f False seedsArg cancelled seedRun = Some e \<and> exit_status e =
      (if ?U then 2 else if known_expectation (rf_expect f) \<and> ?A then 0 else 1)" if "hi < max_int64"
  proof -
    from ran [OF that] obtain e where "cmdSweep f False seedsArg cancelled seedRun = Some e"
      and "exit_status e = (if ?U then 2 else if ?M then 1 else 0)" by blast
    with trans [OF this(2) eq] show ?thesis by blast
  qed
  moreover have "hi = max_int64 \<Longrightarrow> \<forall>s. \<not> cancelled s \<and> (\<exists>v. seedRun s = Inr v) \<Longrightarrow>
      cmdSweep f False seedsArg cancelled seedRun = None"
    using sweep_endless [of f seedsArg lo cancelled seedRun] assms(1,2) by blast
  ultimately show ?thesis by (auto simp: checkExpectation_status)
qed

lemma sweep_exit_status_witness:
  "cmdSweep (register_flags\<lparr>rf_expect := ''lineraizable''\<rparr>) False (show_int max_int64) (\<lambda>_. False) (\<lambda>_. Inr Linearizable) = None \<and>
   (\<exists>e. cmdSweep (register_flags\<lparr>rf_expect := ''lineraizable''\<rparr>) False ''7'' (\<lambda>_. False) (\<lambda>_. Inr Linearizable) = Some e \<and>
     exit_status e = 1)"
proof -
  let ?f = "register_flags\<lparr>rf_expect := ''lineraizable''\<rparr>"
  have t: "rf_typed ?f = []" by (simp add: register_flags_def)
  have v: "flags_validate ?f = None" unfolding flags_validate_def t by (simp add: flag_checks_def)
  have seven: "parseRange ''7'' = Inr (7, 7)" by code_simp
  have "(7 :: int) < max_int64" by (simp add: max_int64_def)
  moreover have top_seed: "parseRange (show_int max_int64) = Inr (max_int64, max_int64)"
    by (rule parseRange_round_trip(2) [of _ max_int64]) (simp_all add: max_int64_def)
  moreover have "known_expectation ''lineraizable'' = False" by code_simp
  ultimately show ?thesis
    using sweep_exit_status [OF v seven, of "\<lambda>_. False" "\<lambda>_. Inr Linearizable"]
      sweep_exit_status [OF v top_seed, of "\<lambda>_. False" "\<lambda>_. Inr Linearizable"]
    by (simp add: proper_def)
qed

text \<open>
  C36: The words of a command line are obeyed. Whatever \<open>run\<close> is given, if its flags can be read and
  pass their checks then a flag that was not typed has its default, and the configuration the run works
  with, the harness's own defaults put in, has under each field the value of the flag named for it, a
  pause of zero included. The one exception is an empty \<open>-faults\<close>, which becomes a partition. The
  harness accepts it, and the checker gets the budgets of its own flags.
\<close>

lemma command_line_is_obeyed:
  assumes "parse_flags run_set args = Inr (fs, None)"
  shows "(\<forall>n. n \<notin> set (fg_actual fs) \<longrightarrow> fg_formal fs n = fg_formal run_set n) \<and>
    WithDefaults (harnessConfig (flags_of fs) seed) =
      \<lparr>cfg_Clients = int_flag fs ''clients'', cfg_Keys = int_flag fs ''keys'',
        cfg_Duration = duration_flag fs ''duration'', cfg_MaxOps = int_flag fs ''max-ops'',
        cfg_OpTimeout = duration_flag fs ''op-timeout'', cfg_ThinkMax = duration_flag fs ''think'',
        cfg_ThinkMaxSet = (''think'' \<in> set (fg_actual fs)), cfg_ValueMax = int_flag fs ''value-max'',
        cfg_Faults = (if text_flag fs ''faults'' = [] then ''partition'' else text_flag fs ''faults''),
        cfg_Seed = seed, cfg_Quiesce = duration_flag fs ''quiesce'',
        cfg_QuiesceSet = (''quiesce'' \<in> set (fg_actual fs)), cfg_KeepAlive = bool_flag fs ''keep-alive''\<rparr> \<and>
    Config_Validate (WithDefaults (harnessConfig (flags_of fs) seed)) = None \<and>
    checkerOptions (flags_of fs) =
      \<lparr>MaxVisits = int_flag fs ''max-visits'', Timeout = duration_flag fs ''check-timeout'',
        MaxCacheBytes = wrap64 (int_flag fs ''max-cache-mb'' * 2 ^ 20), Minimize = True, Parallelism = 0\<rparr>"
proof -
  note t = parse_flags_typed [OF assms]
  from t(1) have v: "flags_validate (flags_of fs) = None" by simp
  note run = flags_reach_the_run [OF v parse_flags_defaults [OF assms], of seed]
  from t(2) have "\<forall>n. n \<notin> set (fg_actual fs) \<longrightarrow> fg_formal fs n = fg_formal run_set n"
    by (simp add: flags_of_def)
  then show ?thesis
    using run(2) unfolding run(1)
    by (simp add: harnessConfig_def flags_of_def checkerOptions_def budget_options_def)
qed

lemma command_line_is_obeyed_witness:
  "\<exists>fs. parse_flags run_set [''-think=0'', ''-keys'', ''0x2''] = Inr (fs, None) \<and> rf_keys (flags_of fs) = 2 \<and>
    cfg_Keys (WithDefaults (harnessConfig (flags_of fs) 1)) = 2 \<and>
    cfg_ThinkMax (WithDefaults (harnessConfig (flags_of fs) 1)) = 0"
proof -
  let ?fs1 = "run_set\<lparr>fg_formal := (fg_formal run_set)(''think'' \<mapsto> DurationFlag 0), fg_actual := [''think'']\<rparr>"
  let ?fs = "run_set\<lparr>fg_formal := (fg_formal run_set)(''think'' \<mapsto> DurationFlag 0, ''keys'' \<mapsto> IntFlag 2),
    fg_actual := [''keys'', ''think'']\<rparr>"
  have keys: "fg_formal run_set ''keys'' = Some (IntFlag 4)" "fg_formal run_set ''think'' = Some (DurationFlag (ms 8))"
    "fg_formal run_set ''faults'' = Some (StringFlag ''partition'')" "fg_actual run_set = []"
    by (simp_all add: run_set_def new_set_def run_values_def register_flags_def)
  have int: "ParseInt ''0x2'' = Some 2" "ParseDuration ''0'' = Some 0"
    by (simp_all add: ParseInt_def ParseDuration_def split_sign_def ParseUint_def split_base_def prefix_base_def
        base_digit_def lower_char_def min_int64_def max_int64_def)
  have one: "parseOne run_set [''-think=0'', ''-keys'', ''0x2''] = Inr (True, ?fs1, [''-keys'', ''0x2''])"
    by (simp add: parseOne_def flag_text_def set_flag_def set_value_def is_bool_flag_def keys int)
  have two: "parseOne ?fs1 [''-keys'', ''0x2''] = Inr (True, ?fs, [])"
    by (simp add: parseOne_def flag_text_def set_flag_def set_value_def is_bool_flag_def keys int)
  have "Parse ?fs1 [''-keys'', ''0x2''] = Inr (?fs, [])" by (subst Parse.simps) (simp add: two)
  then have "Parse run_set [''-think=0'', ''-keys'', ''0x2''] = Inr (?fs, [])" by (subst Parse.simps) (simp add: one)
  moreover have "flags_validate (flags_of ?fs) = None"
    by (simp add: flags_validate_def flag_checks_def flags_of_def flag_reads)
  ultimately have p: "parse_flags run_set [''-think=0'', ''-keys'', ''0x2''] = Inr (?fs, None)"
    by (simp add: parse_flags_def)
  moreover have "rf_keys (flags_of ?fs) = 2" "int_flag ?fs ''keys'' = 2" "duration_flag ?fs ''think'' = 0"
    by (simp_all add: flags_of_def flag_reads keys)
  ultimately show ?thesis using command_line_is_obeyed [OF p, of 1] by auto
qed

text \<open>
  Every configuration can be asked for, and is read as it was written: the flags of any values
  that fit, written out one by one, make \<open>run\<close> do what its command does with exactly these values, its
  complaints included.
\<close>

lemma written_flags_are_read:
  assumes "writable f"
  shows "\<exists>typed. set typed = set (map fst (run_values f)) \<and>
    run_command w os (written_flags f) h =
      (case flags_validate (f\<lparr>rf_typed := typed\<rparr>) of
         Some err \<Rightarrow> (Some (Ret (exit_status (Some err))), h)
       | None \<Rightarrow>
           (case cmdRun w (f\<lparr>rf_typed := typed\<rparr>)
               \<lparr>ru_out = [], ru_counterexample = [], ru_report = [], ru_written = writeFile os\<rparr> 1 h of
              (r, h) \<Rightarrow> (finish_with r, h)))"
  by (rule run_command_written [OF assms])

lemma written_flags_are_read_witness:
  "run_command sample_world sample_disk (written_flags (register_flags\<lparr>rf_clients := 0\<rparr>)) empty_host =
    (Some (Ret 2), empty_host)"
proof -
  let ?f = "register_flags\<lparr>rf_clients := 0\<rparr>"
  have "writable ?f"
    by (simp add: writable_def run_values_def register_flags_def ms_def min_int64_def max_int64_def)
  from written_flags_are_read [OF this, of sample_world sample_disk empty_host] obtain typed where
    t: "set typed = set (map fst (run_values ?f))" and
    r: "run_command sample_world sample_disk (written_flags ?f) empty_host =
      (case flags_validate (?f\<lparr>rf_typed := typed\<rparr>) of
         Some err \<Rightarrow> (Some (Ret (exit_status (Some err))), empty_host)
       | None \<Rightarrow>
           (case cmdRun sample_world (?f\<lparr>rf_typed := typed\<rparr>)
               \<lparr>ru_out = [], ru_counterexample = [], ru_report = [], ru_written = writeFile sample_disk\<rparr> 1 empty_host of
              (r, h) \<Rightarrow> (finish_with r, h)))" by blast
  have "''clients'' \<in> set typed" unfolding t by (simp add: run_values_def)
  then obtain got want where "flags_validate (?f\<lparr>rf_typed := typed\<rparr>) = Some (Failed (BadFlag ''clients'' got want))"
    by (simp add: flags_validate_def flag_checks_def)
  with r show ?thesis by (simp add: exit_status_def)
qed

text \<open>
  Flags may go on either side of the history file: \<open>check\<close> does the same wherever the file stands
  among them, and takes the last of several values.
\<close>

lemma flags_on_either_side:
  assumes "\<forall>x \<in> set (xs @ ys). fst x \<in> dom (fg_formal check_set)" and "no_flag path"
  shows "check_command seed late io (map spelled xs @ path # map spelled ys) =
    (case set_all check_set (xs @ ys) of
       Inl e \<Rightarrow> Some (Ret (flag_status e))
     | Inr fs \<Rightarrow> finish_with (cmdCheck seed late io (check_flags_of fs) [path]))"
  by (rule check_command_sides [OF assms])

lemma flags_on_either_side_witness:
  "check_command (\<lambda>_. 0) (\<lambda>_. False) sample_files [''h.jsonl'', ''-expect=linearizable''] =
     check_command (\<lambda>_. 0) (\<lambda>_. False) sample_files [''-expect=linearizable'', ''h.jsonl'']"
proof -
  have d: "\<forall>x \<in> set ([] @ [(''expect'', ''linearizable'')]). fst x \<in> dom (fg_formal check_set)"
    "\<forall>x \<in> set ([(''expect'', ''linearizable'')] @ []). fst x \<in> dom (fg_formal check_set)"
    by (simp_all add: check_set_def new_set_def)
  have p: "no_flag ''h.jsonl''" by (simp add: no_flag_def)
  from flags_on_either_side [OF d(1) p] flags_on_either_side [OF d(2) p] show ?thesis by (simp add: spelled_def)
qed

text \<open>
  C16: In a replicated cluster no node is ever told another's own address. Every address the default
  configuration hands to node \<open>i\<close> is that of the proxy on the hop from \<open>i\<close> to some other node \<open>j\<close>,
  which leads to \<open>j\<close> and is under the nemesis; and a partition puts its fault on that hop exactly
  when it separates \<open>i\<close> from \<open>j\<close>.
\<close>

lemma peer_hops_are_proxied:
  assumes "BuildTopology listens (Addrs c) (Replicated (ct_target c)) = Some (Inr t)" and "Replicated (ct_target c)"
    and "i < length (ct_nodes c)" and "a \<in> addresses (DefaultConfig c (peer_addr addr t) ! i)"
  shows "\<exists>j l. j < length (ct_nodes c) \<and> j \<noteq> i \<and> ((i, j), l) \<in> set (t_peer t) \<and> a = addr (l_name l) \<and>
    l_target l = Addrs c ! j \<and> Links t (l_name l) = Some l \<and>
    weather (CutEvents t t0 isolated f) calm (l_name l) =
      (if (i \<in> set isolated) \<noteq> (j \<in> set isolated) then f else Pass)"
  by (rule configured_hops) (use assms in simp_all)

lemma peer_hops_are_proxied_witness:
  "\<exists>t l. BuildTopology (\<lambda>_. True) (Addrs sample_cluster) True = Some (Inr t) \<and> ((1, 0), l) \<in> set (t_peer t) \<and>
    l_target l = ''a'' \<and> weather (CutEvents t 0 [0] Drop) calm (l_name l) = Drop"
proof -
  have "BuildTopology (\<lambda>_. True) [''a'', ''b''] True \<noteq> None"
    by (simp add: build_return_def BuildTopology_def NewLink_def Let_def)
  then obtain t where t: "BuildTopology (\<lambda>_. True) [''a'', ''b''] True = Some (Inr t)"
    using BuildTopology_never_errors by (cases "BuildTopology (\<lambda>_. True) [''a'', ''b''] True") (metis not_None_eq obj_sumE)+
  have r: "Replicated (ct_target sample_cluster)" by (simp add: Replicated_def sample_cluster_def target_defs)
  have b: "BuildTopology (\<lambda>_. True) (Addrs sample_cluster) (Replicated (ct_target sample_cluster)) = Some (Inr t)"
    using t r by (simp add: Addrs_def sample_cluster_def)
  let ?a = "peer_addr (\<lambda>n. ''at '' @ n) t 1 0"
  have "?a \<noteq> []"
    using PeerAddr_link(1) [OF t, of 1 0 "\<lambda>n. ''at '' @ n"] by (simp add: peer_addr_def)
  then have a: "?a \<in> addresses (DefaultConfig sample_cluster (peer_addr (\<lambda>n. ''at '' @ n) t) ! 1)"
    by (simp add: DefaultConfig_def sample_cluster_def addresses_def blank_def)
  have n: "length (ct_nodes sample_cluster) = 2" by (simp add: sample_cluster_def)
  from peer_hops_are_proxied [OF b r _ a, of 0 "[0]" Drop] obtain j l where
    "j < 2" "j \<noteq> 1" "((1, j), l) \<in> set (t_peer t)" "l_target l = Addrs sample_cluster ! j"
    "weather (CutEvents t 0 [0] Drop) calm (l_name l) = (if (1 \<in> set [0 :: nat]) \<noteq> (j \<in> set [0]) then Drop else Pass)"
    unfolding n by auto
  moreover from this have "j = 0" by simp
  ultimately show ?thesis using b r by (auto simp: Addrs_def sample_cluster_def)
qed

text \<open>
  C17: However an experiment ends, by its verdict, by any failure on the way, or by the panic of a
  topology that cannot be built, every process it started has been killed or seen to end, every
  directory it made has been removed, as far as the operating system does what it is told, and a topology it built has every proxy closed. A verdict it returns is \<open>Check\<close>'s on the
  history of its run.
\<close>

lemma nothing_left_running:
  assumes "Once w spec h = (r, t, h')" and "host_ok h"
    and "\<forall>dir. os_tempDir (wo_os w) = Some dir \<longrightarrow> dir \<noteq> [] \<and> dir \<notin> set (h_dirs h)"
  shows "same_host h h' \<and>
    (\<forall>t'. t = Some t' \<longrightarrow> (\<forall>l \<in> set (t_client t') \<union> snd ` set (t_peer t'). l_closed l)) \<and>
    (\<forall>out. r = Some (Ret (Inr out)) \<longrightarrow>
      Check (wo_seed w) (case sp_Model spec of None \<Rightarrow> CASRegister | Some m \<Rightarrow> m) (sp_Checker spec) (wo_late w)
        (rr_History (oc_Run out)) = Some (Ret (Inr (oc_Check out))))"
  using Once_cleans_up [OF assms] Once_verdict assms(1) by blast

lemma nothing_left_running_witness:
  "\<exists>r t h'. Once sample_world sample_spec \<lparr>h_running = [], h_next = 0, h_dirs = []\<rparr> = (r, t, h') \<and>
    h_running h' = [] \<and> h_dirs h' = []"
proof -
  let ?h = "\<lparr>h_running = [], h_next = 0, h_dirs = []\<rparr>"
  obtain r t h' where o: "Once sample_world sample_spec ?h = (r, t, h')" by (metis surj_pair)
  have "host_ok ?h" by (simp add: host_ok_def)
  moreover have "\<forall>dir. os_tempDir (wo_os sample_world) = Some dir \<longrightarrow> dir \<noteq> [] \<and> dir \<notin> set (h_dirs ?h)"
    by (simp add: sample_world_def sample_os_def)
  ultimately have "same_host ?h h'" using nothing_left_running [OF o] by blast
  with o show ?thesis by (auto simp: same_host_def)
qed

text \<open>
  C39: The bands of a report lie where the cuts were. Where only heals address every link at once, as
  in every generated schedule, a moment of the window at which some link was not passing is under a
  band, and a band runs from the place of one such moment to the place of the moment that stretch of
  them ends, or two pixels. The place of a moment is the one the bars of the operations are drawn at,
  and within two pixels of where it lies on the window.
\<close>

lemma bands_are_the_cuts:
  assumes "\<forall>e \<in> set (in_Faults inp). heals_all e \<and> ev_At e \<le> max_int64"
    and "on_axis (in_History inp)" and "on_axis (r_Ops (in_Verdict inp))"
    and "window (drawn_ops inp) = (lo, hi)"
  shows "(\<forall>t. lo \<le> t \<and> t < hi \<and> cut_at (in_Faults inp) t \<longrightarrow>
      (\<exists>x \<in> set (pd_Bands (build inp)). fb_X x \<le> scale lo hi t \<and> scale lo hi t \<le> fb_X x + fb_W x)) \<and>
    (\<forall>x \<in> set (pd_Bands (build inp)). \<exists>a b. a < hi \<and> lo < b \<and>
      (\<forall>t. a \<le> t \<and> t < b \<and> t < hi \<longrightarrow> cut_at (in_Faults inp) t) \<and>
      fb_X x = scale lo hi a \<and> fb_X x + fb_W x = max (scale lo hi b) (scale lo hi a + 2)) \<and>
    (\<forall>i < length (drawn_ops inp). rw_X (pd_Rows (build inp) ! i) = scale lo hi (Invoke (drawn_ops inp ! i))) \<and>
    (\<forall>t. lo < hi \<and> lo \<le> t \<and> t \<le> hi \<longrightarrow>
      \<bar>rat_of_int (scale lo hi t - plotLeft) - of_int (t - lo) * of_int plotW / of_int (hi - lo)\<bar> < 2)"
proof -
  have heals: "\<forall>e \<in> set (in_Faults inp). heals_all e" and late: "\<forall>e \<in> set (in_Faults inp). ev_At e \<le> max_int64"
    using assms(1) by blast+
  note range = window_range [OF assms(4) on_axis_drawn [OF assms(2,3)]]
  note sel = build_sel(1,2) [OF assms(4)]
  show ?thesis
    unfolding sel
    using cut_is_banded [OF heals range late] band_is_cut [OF heals] scale_near [OF range]
    by (intro conjI) (simp_all add: build_rows_nth build_row_sel)
qed

lemma bands_are_the_cuts_witness:
  "\<exists>x \<in> set (pd_Bands (build sample_input)). fb_X x \<le> scale 1 4 2 \<and> scale 1 4 2 \<le> fb_X x + fb_W x"
proof -
  have "\<forall>e \<in> set (in_Faults sample_input). heals_all e \<and> ev_At e \<le> max_int64"
    by (simp add: sample_input_def heals_all_def event_def allLinks_def max_int64_def)
  moreover have "cut_at (in_Faults sample_input) 2"
    by (auto simp: cut_at_def sample_input_def stable_sort_def event_def apply_event_def allLinks_def intro!: exI [of _ "''c0''"])
  ultimately show ?thesis using bands_are_the_cuts [OF _ sample_on_axis sample_window] by simp
qed

text \<open>
  C40: Nothing shown on the page is markup. Two inputs whose pages have the same shape, as many rows,
  bands and ticks and the same optional parts, are written with the same angle brackets and quotes in
  the same order, whatever their titles, keys, notes and the error texts of the nodes say; and what is
  shown reads back as it was, a NUL byte excepted.
\<close>

lemma report_page_is_inert:
  assumes "same_shape (build inp) (build inp')"
  shows "skeleton (Input_Write inp) = skeleton (Input_Write inp') \<and>
    (CHR 0x00 \<notin> set s \<longrightarrow> unescape (escape s) = s)"
  using page_skeleton [OF assms] unescape_escape by blast

lemma report_page_is_inert_witness:
  "skeleton (Input_Write sample_input) = skeleton (Input_Write (sample_input\<lparr>in_Title := ''<script>''\<rparr>)) \<and>
    unescape (escape ''<b>'') = ''<b>''"
proof -
  have "same_shape (build sample_input) (build (sample_input\<lparr>in_Title := ''<script>''\<rparr>))"
    by (simp add: build_title same_shape_def)
  from report_page_is_inert [OF this, of "''<b>''"] show ?thesis by simp
qed

text \<open>
  What a report draws of a history: the operations shown that were invoked last, as many as the
  limit allows, one row each. Every bar lies on the plot, give or take its least width of three
  pixels, for all the rounding of the \<open>float64\<close> arithmetic; and an operation that was over when
  another began is drawn to the left of it, unless its bar is at that least width.
\<close>

lemma report_keeps_order:
  assumes "on_axis (in_History inp)" and "on_axis (r_Ops (in_Verdict inp))"
  shows "length (pd_Rows (build inp)) = pd_Drawn (build inp) \<and>
    int (pd_Drawn (build inp)) = min (int (pd_Total (build inp))) (max_ops inp) \<and>
    drawn_ops inp = drop (pd_Total (build inp) - pd_Drawn (build inp)) (SortByInvoke (fst (shown_ops inp))) \<and>
    (\<forall>i < pd_Drawn (build inp). let r = pd_Rows (build inp) ! i in
       plotLeft \<le> rw_X r \<and> 3 \<le> rw_W r \<and> rw_X r + rw_W r \<le> pageWidth - plotRight + 3) \<and>
    (\<forall>i < pd_Drawn (build inp). \<forall>j < pd_Drawn (build inp).
       let p = drawn_ops inp ! i; q = drawn_ops inp ! j; r = pd_Rows (build inp) ! i; s = pd_Rows (build inp) ! j in
       Invoke p \<le> Complete p \<and> Complete p \<le> Invoke q \<longrightarrow>
         rw_X r \<le> rw_X s \<and> (rw_X r + rw_W r \<le> rw_X s \<or> rw_W r = 3))"
proof -
  obtain lo hi where w: "window (drawn_ops inp) = (lo, hi)" by (meson surj_pair)
  note sel = build_sel [OF w]
  have ax: "on_axis (drawn_ops inp)" by (rule on_axis_drawn [OF assms])
  note win = window_range [OF w ax]
  have n: "int (pd_Drawn (build inp)) = min (int (pd_Total (build inp))) (max_ops inp)"
    using drawn_ops_length [of inp] by (simp add: sel)
  then have "pd_Total (build inp) - pd_Drawn (build inp) = pd_Total (build inp) - nat (max_ops inp)"
    using max_ops_pos [of inp] by linarith
  then have d: "drawn_ops inp = drop (pd_Total (build inp) - pd_Drawn (build inp)) (SortByInvoke (fst (shown_ops inp)))"
    using drawn_ops_suffix [of inp] by (simp add: sel)
  have row: "pd_Rows (build inp) ! i = build_row inp lo hi i (drawn_ops inp ! i)" if "i < pd_Drawn (build inp)" for i
    using that by (simp add: sel build_rows_nth)
  have order: "let p = drawn_ops inp ! i; q = drawn_ops inp ! j; r = pd_Rows (build inp) ! i; s = pd_Rows (build inp) ! j in
      Invoke p \<le> Complete p \<and> Complete p \<le> Invoke q \<longrightarrow>
        rw_X r \<le> rw_X s \<and> (rw_X r + rw_W r \<le> rw_X s \<or> rw_W r = 3)"
    if "i < pd_Drawn (build inp)" "j < pd_Drawn (build inp)" for i j
  proof -
    have "Invoke (drawn_ops inp ! j) \<le> max_int64"
      using ax that(2) nth_mem [of j "drawn_ops inp"] by (simp add: on_axis_def sel)
    with rows_in_order [OF win, of "drawn_ops inp ! i" "drawn_ops inp ! j"] show ?thesis
      unfolding Let_def row [OF that(1)] row [OF that(2)] by blast
  qed
  have on_plot: "let r = pd_Rows (build inp) ! i in
      plotLeft \<le> rw_X r \<and> 3 \<le> rw_W r \<and> rw_X r + rw_W r \<le> pageWidth - plotRight + 3"
    if "i < pd_Drawn (build inp)" for i
    using row_on_plot [OF win, of inp i "drawn_ops inp ! i"] unfolding Let_def row [OF that]
    by (simp add: plotW_def)
  have "length (pd_Rows (build inp)) = pd_Drawn (build inp)" by (simp add: sel build_rows_nth)
  with n d on_plot order show ?thesis by blast
qed

lemma report_keeps_order_witness:
  "length (pd_Rows (build sample_input)) = pd_Drawn (build sample_input) \<and>
   int (pd_Drawn (build sample_input)) = min (int (pd_Total (build sample_input))) (max_ops sample_input)"
  using report_keeps_order [OF sample_on_axis] by blast

text \<open>
  C18: What the headline demonstration vouches for. Where it returns and nothing may be skipped, it
  ends with status 1 unless every claim it makes was shown by its runs: for each store that must be
  clean, every seed's history linearizes key by key; for each that must be caught, some seed's does
  not; every partitioned run of both dropped bytes; and, with the controls on, the store that must
  pass on a healthy network linearizes on every seed there.
\<close>

lemma demo_certifies:
  assumes "demo_run w f h = (Some (Ret r), h')" and "\<not> df_allowSkips f"
    and "\<And>target faults i. sane (dw_on w target faults i)"
  shows "demo_status r = 1 \<or>
    (\<exists>dir. (\<forall>s \<in> set subjects. \<exists>outs. swept w f (su_target s) (su_nodes s) dir ''partition'' [0..df_seeds f - 1] outs \<and>
        (\<forall>out \<in> set outs. DroppedBytes out \<noteq> 0) \<and>
        (case su_expect s of
           mustBeClean \<Rightarrow> \<forall>out \<in> set outs. atomic_history out
         | mustBeCaught \<Rightarrow> \<exists>out \<in> set outs. \<not> atomic_history out)) \<and>
      (df_control f \<longrightarrow> (\<exists>outs. swept w f SplitTarget 3 dir ''none'' [0..df_seeds f - 1] outs \<and>
        (\<forall>out \<in> set outs. atomic_history out))))"
proof (cases "demo_status r = 0")
  case True
  from demo_shows [OF assms(1) True assms(2,3)] obtain dir where
    "\<forall>s \<in> set subjects. subject_shown w f dir s" and
    c: "df_control f \<longrightarrow> (\<forall>target. (target, True) \<in> set controls \<longrightarrow> control_shown w f dir target)" by blast
  moreover have "(SplitTarget, True) \<in> set controls" by (simp add: controls_def)
  ultimately show ?thesis unfolding subject_shown_def control_shown_def by blast
next
  case False
  then show ?thesis by (cases r) (simp_all add: demo_status_def)
qed

lemma demo_certifies_witness:
  "\<exists>r h'. demo_run sample_demo (demo_defaults\<lparr>df_seeds := 0\<rparr>) empty_host = (Some (Ret r), h') \<and> demo_status r = 1"
proof -
  let ?f = "demo_defaults\<lparr>df_seeds := 0\<rparr>"
  obtain r h' where r: "demo_run sample_demo ?f empty_host = (Some (Ret r), h')" using no_seeds_run by blast
  have "\<not> df_allowSkips ?f" "df_seeds ?f = 0" by (simp_all add: demo_defaults_def)
  moreover have "\<exists>s \<in> set subjects. su_expect s = mustBeCaught" by (simp add: subjects_def)
  ultimately have "demo_status r = 1"
    using demo_certifies [OF r _ sample_demo_sane] no_seeds_shown [of ?f _ sample_demo]
    unfolding subject_shown_def by blast
  with r show ?thesis by blast
qed

text \<open>
  C19: A run's history is fit for the checker exactly when no client was too quick. The generator, the
  process books and the clock see to every rule of \<open>Validate\<close> but one: a completion is recorded a
  tick late and the next request of the same client as read, so a client that sends it within a tick
  of its answer overlaps itself, and the whole history is refused.
\<close>

lemma run_validates:
  assumes "run_books n clients maxOps b" and "b_ops b = map (recorded_op clk) xs"
    and "\<forall>x \<in> set xs. timed clk x \<and> request_in (run_keys k) valueMax (is_req x)"
    and "0 < ck_granularity clk" and "in_turn xs"
  shows "Validate (SortByInvoke (b_ops b)) = None \<longleftrightarrow> tick_apart clk xs"
proof -
  have "retires (b_ops b)" using run_books_inv [OF assms(1)] by (simp add: books_inv_def)
  with issued_valid [OF assms(3) run_keys_named assms(4,5)] show ?thesis unfolding assms(2) by blast
qed

lemma run_validates_witness:
  "\<exists>b. run_books 1 1 0 b \<and> b_ops b = map (recorded_op tick_clock) quick_client \<and>
     Validate (SortByInvoke (b_ops b)) \<noteq> None"
proof -
  obtain b where b: "run_books 1 1 0 b" "b_ops b = map (recorded_op tick_clock) quick_client"
    using quick_client_run by blast
  from run_validates [OF b quick_client_ok(1,2,3)] quick_client_ok(4) b show ?thesis by blast
qed

text \<open>
  C37: A node serves as its cluster meant it to. The words \<open>startNode\<close> puts on a command line, the
  timeout among them as \<open>Duration.String\<close> writes it, are read by the program named as the same
  address, name and timeout, and as the store of the target: promotion is on for \<open>kvsplit\<close> alone and
  waiting for the peers for \<open>kvsync\<close> alone, so that the control targets start as what they are named.
\<close>

lemma nodes_obey_cluster:
  assumes "min_int64 \<le> co_Timeout opt" and "co_Timeout opt \<le> max_int64"
  shows
    "(binary (co_Target opt) = Single \<longrightarrow> kvsingle_start (node_args nid opt) =
       Inr \<lparr>st_addr = ''127.0.0.1:0'', st_id = nid, st_timeout = co_Timeout opt, st_store = Map.empty\<rparr>) \<and>
     (binary (co_Target opt) = Forward \<longrightarrow> kvforward_start parse (node_args nid opt) =
       Inr \<lparr>st_addr = ''127.0.0.1:0'', st_id = nid, st_timeout = co_Timeout opt,
         st_store = (NewForwardStore parse [])\<lparr>fs_promote := (co_Target opt = SplitTarget)\<rparr>\<rparr>) \<and>
     (binary (co_Target opt) = Quorum \<longrightarrow> kvquorum_start parse (node_args nid opt) =
       Inr \<lparr>st_addr = ''127.0.0.1:0'', st_id = nid, st_timeout = co_Timeout opt,
         st_store = (NewQuorumStore nid [])\<lparr>qn_sync := (co_Target opt = Sync)\<rparr>\<rparr>)"
  using kvsingle_obeys [OF assms] kvforward_obeys [OF assms] kvquorum_obeys [OF assms] by blast

lemma nodes_obey_cluster_witness:
  "kvforward_start (\<lambda>_. None) (node_args ''n1''
      \<lparr>co_Target = SplitTarget, co_Nodes = 3, co_BinDir = [], co_Timeout = ms 250, co_StartTimeout = 0\<rparr>) =
    Inr \<lparr>st_addr = ''127.0.0.1:0'', st_id = ''n1'', st_timeout = 250000000,
      st_store = (NewForwardStore (\<lambda>_. None) [])\<lparr>fs_promote := True\<rparr>\<rparr>"
  using nodes_obey_cluster [of "\<lparr>co_Target = SplitTarget, co_Nodes = 3, co_BinDir = [], co_Timeout = ms 250,
      co_StartTimeout = 0\<rparr>" "''n1''" "\<lambda>_. None"]
  by (simp add: ms_def min_int64_def max_int64_def binary_def target_defs)

end
